(* ===== verification/Xinu_Prelude.thy ===== *)
theory Xinu_Prelude
  imports Main "HOL-Library.Word" "HOL-Library.Monad_Syntax" "HOL-Library.Multiset"
begin

text \<open>
  What the theories of the library share: the C integer types of the kernel
  (\<^verbatim>\<open>include/stddef.h\<close>), the return codes and the table sizes of the ARM
  configuration, checked arithmetic on \<^verbatim>\<open>int\<close>, and general lemmas on
  lists, on the option monad and on words.

  A kernel operation is a function into \<open>option\<close>. \<open>None\<close> is behaviour that C
  leaves undefined (an access outside a table, a signed overflow) or a loop that
  does not end; every claim that an operation works is a claim that it returns
  \<open>Some\<close>.
\<close>

section \<open>Machine types and constants\<close>

type_synonym u8 = "8 word"
type_synonym u16 = "16 word"
type_synonym u32 = "32 word"
type_synonym tid_typ = int
type_synonym qid_typ = int
type_synonym message = int
type_synonym semaphore = u32

text \<open>Return constants of \<^verbatim>\<open>include/stddef.h\<close>.\<close>

abbreviation (input) OK :: int where "OK \<equiv> 1"
abbreviation (input) SYSERR :: int where "SYSERR \<equiv> -1"
abbreviation (input) TIMEOUT :: int where "TIMEOUT \<equiv> -3"
abbreviation (input) NOMSG :: int where "NOMSG \<equiv> -4"

text \<open>
  Table sizes of \<^verbatim>\<open>compile/platforms/raspberry-pi/xinu.conf\<close> (the same in
  \<^verbatim>\<open>arm-qemu\<close>), and \<^verbatim>\<open>NQENT\<close> of \<^verbatim>\<open>include/queue.h\<close>:
  one cell per thread, two per list, two per semaphore.
\<close>

abbreviation (input) NTHREAD :: int where "NTHREAD \<equiv> 100"
abbreviation (input) NSEM :: u32 where "NSEM \<equiv> 100"
abbreviation (input) NQENT :: int where "NQENT \<equiv> 304"
abbreviation (input) NMAILBOX :: u32 where "NMAILBOX \<equiv> 15"
abbreviation (input) EMPTY :: int where "EMPTY \<equiv> -2"
abbreviation (input) MAXKEY :: int where "MAXKEY \<equiv> 2147483647"
abbreviation (input) MINKEY :: int where "MINKEY \<equiv> -2147483648"
abbreviation (input) NULLTHREAD :: int where "NULLTHREAD \<equiv> 0"
abbreviation (input) CLKTICKS_PER_SEC :: u32 where "CLKTICKS_PER_SEC \<equiv> 10"

section \<open>Signed arithmetic\<close>

definition cint :: "int \<Rightarrow> bool" where
  "cint n \<longleftrightarrow> MINKEY \<le> n \<and> n \<le> MAXKEY"

text \<open>The value of a signed C expression: none where it overflows.\<close>

definition ck :: "int \<Rightarrow> int option" where
  "ck n = (if cint n then Some n else None)"

lemma ck_Some [simp]: "MINKEY \<le> n \<Longrightarrow> n \<le> MAXKEY \<Longrightarrow> ck n = Some n"
  by (simp add: ck_def cint_def)

lemma ck_eq_Some_iff: "ck n = Some m \<longleftrightarrow> m = n \<and> MINKEY \<le> n \<and> n \<le> MAXKEY"
  by (auto simp: ck_def cint_def)

section \<open>Lists\<close>

lemma distinct_subset_card_le:
  assumes "distinct xs" and "set xs \<subseteq> {0..<NTHREAD}"
  shows "length xs \<le> nat NTHREAD"
proof -
  have "card (set xs) \<le> card {0..<NTHREAD}"
    using assms(2) by (intro card_mono) auto
  then show ?thesis using distinct_card [OF assms(1)] by simp
qed

lemma set_takeWhile_dropWhile [simp]:
  "set (takeWhile P xs) \<union> set (dropWhile P xs) = set xs"
  by (metis set_append takeWhile_dropWhile_id)

lemma sorted_wrt_ge_dropWhile:
  assumes "sorted_wrt (\<lambda>x y. f x \<ge> (f y :: int)) xs" and "x \<in> set (dropWhile (\<lambda>x. f x \<ge> k) xs)"
  shows "f x < k"
  using assms by (induction xs) (auto split: if_splits)

lemma sorted_dropWhile_gt:
  fixes f :: "'a \<Rightarrow> int"
  shows "sorted (map f xs) \<Longrightarrow> y \<in> set (dropWhile (\<lambda>y. f y \<le> c) xs) \<Longrightarrow> c < f y"
  by (induction xs) (auto split: if_splits)

end
