(* ===== verification/Xinu_State.thy ===== *)
theory Xinu_State
  imports Xinu_Prelude
begin

text \<open>
  The state of the kernel: the entries of its tables as records with the fields of
  the C structures, and one record that holds the tables and the global variables
  (declared in \<^verbatim>\<open>system/initialize.c\<close>, \<^verbatim>\<open>system/queue.c\<close>,
  \<^verbatim>\<open>system/resched.c\<close> and \<^verbatim>\<open>system/clkinit.c\<close>). A C array is a
  function of its index; the accessors below refuse an index outside its bounds.
  The interrupt mask is the one of \<^verbatim>\<open>system/platforms/raspberry-pi\<close>.
\<close>

section \<open>Table entries\<close>

record queent =
  qkey :: int
  qnext :: tid_typ
  qprev :: tid_typ

datatype thrstate =
  THRCURR | THRFREE | THRREADY | THRRECV | THRSLEEP | THRSUSP | THRWAIT | THRTMOUT

record irqmask =
  lower_en :: u32
  upper_en :: u32
  irqen :: u32

record memblock =
  mb_next :: u32
  mb_length :: u32

record thrent =
  tstate :: thrstate
  prio :: int
  stkptr :: u32
  stkbase :: u32
  stklen :: u32
  tname :: string
  intmask :: irqmask
  tsem :: semaphore
  parent :: tid_typ
  msg :: message
  hasmsg :: bool
  tmemlist :: memblock
  fdesc :: "int list"

datatype semstate = SFREE | SUSED

record sement =
  sstate :: semstate
  scount :: int
  squeue :: qid_typ

datatype bfpstate = BFPFREE | BFPUSED

record bfpentry =
  bstate :: bfpstate
  bufsize :: u32
  nbuf :: u32
  bhead :: u32
  bnext :: u32
  freebuf :: semaphore

datatype mboxstate = MAILBOX_FREE | MAILBOX_ALLOC

record mbox =
  sender :: semaphore
  receiver :: semaphore
  mmax :: u32
  mcount :: u32
  mstart :: u32
  mstate :: mboxstate
  msgs :: u32

section \<open>The kernel's variables\<close>

text \<open>
  The variable \<open>nextmbx\<close> is the static local of \<^verbatim>\<open>mailboxAlloc\<close>, \<open>clkstarted\<close> the one
  of \<^verbatim>\<open>clkupdate\<close>; \<open>vectors\<close> is the table of interrupt handlers by address, \<open>timer_c1\<close>
  and \<open>timer_clo\<close> are the compare and the counter register of the system timer.
\<close>

record kernel =
  quetab :: "int \<Rightarrow> queent"
  nextqid :: int
  thrtab :: "int \<Rightarrow> thrent"
  thrcount :: int
  thrcurrent :: tid_typ
  nexttid :: int
  readylist :: qid_typ
  resdefer :: int
  imask :: irqmask
  semtab :: "semaphore \<Rightarrow> sement"
  nextsem :: int
  sleepq :: qid_typ
  clkticks :: u32
  clktime :: u32
  memlist :: memblock
  mem :: "u32 \<Rightarrow> u32"
  memheap :: u32
  maxaddr :: u32
  bfptab :: "int \<Rightarrow> bfpentry"
  mboxtab :: "u32 \<Rightarrow> mbox"
  mboxtabsem :: semaphore
  nextmbx :: int
  halted :: bool
  vectors :: "int \<Rightarrow> u32"
  clkfreq :: u32
  timer_c1 :: u32
  timer_clo :: u32
  clkstarted :: bool

section \<open>Table access\<close>

definition qrd :: "int \<Rightarrow> kernel \<Rightarrow> queent option" where
  "qrd i s = (if 0 \<le> i \<and> i < NQENT then Some (quetab s i) else None)"

definition qwr :: "int \<Rightarrow> (queent \<Rightarrow> queent) \<Rightarrow> kernel \<Rightarrow> kernel option" where
  "qwr i f s = (if 0 \<le> i \<and> i < NQENT
     then Some (s\<lparr>quetab := (quetab s)(i := f (quetab s i))\<rparr>) else None)"

definition trd :: "tid_typ \<Rightarrow> kernel \<Rightarrow> thrent option" where
  "trd i s = (if 0 \<le> i \<and> i < NTHREAD then Some (thrtab s i) else None)"

definition twr :: "tid_typ \<Rightarrow> (thrent \<Rightarrow> thrent) \<Rightarrow> kernel \<Rightarrow> kernel option" where
  "twr i f s = (if 0 \<le> i \<and> i < NTHREAD
     then Some (s\<lparr>thrtab := (thrtab s)(i := f (thrtab s i))\<rparr>) else None)"

text \<open>The semaphore table is only indexed after \<^verbatim>\<open>isbadsem\<close> has passed.\<close>

definition swr :: "semaphore \<Rightarrow> (sement \<Rightarrow> sement) \<Rightarrow> kernel \<Rightarrow> kernel" where
  "swr i f s = s\<lparr>semtab := (semtab s)(i := f (semtab s i))\<rparr>"

definition isbadtid :: "tid_typ \<Rightarrow> kernel \<Rightarrow> bool" where
  "isbadtid x s \<longleftrightarrow> x \<ge> NTHREAD \<or> x < 0 \<or> tstate (thrtab s x) = THRFREE"

definition isbadsem :: "semaphore \<Rightarrow> kernel \<Rightarrow> bool" where
  "isbadsem x s \<longleftrightarrow> x \<ge> NSEM \<or> sstate (semtab s x) = SFREE"

section \<open>Interrupts\<close>

text \<open>
  \<^verbatim>\<open>vic_get_irqmask\<close> reads the two enable registers and bit 7 of the status
  register; \<^verbatim>\<open>vic_set_irqmask\<close> writes the enabled bits to the enable registers and
  their complement to the disable registers, so the registers then hold the mask.
\<close>

definition vic_get_irqmask :: "kernel \<Rightarrow> irqmask" where
  "vic_get_irqmask s = imask s"

definition vic_disable_interrupts :: "kernel \<Rightarrow> kernel" where
  "vic_disable_interrupts s = s\<lparr>imask := (imask s)\<lparr>irqen := 0x80\<rparr>\<rparr>"

definition vic_enable_interrupts :: "kernel \<Rightarrow> kernel" where
  "vic_enable_interrupts s = s\<lparr>imask := (imask s)\<lparr>irqen := 0\<rparr>\<rparr>"

definition vic_set_irqmask :: "irqmask \<Rightarrow> kernel \<Rightarrow> kernel" where
  "vic_set_irqmask im s =
     (let s = s\<lparr>imask := (imask s)\<lparr>lower_en := lower_en im, upper_en := upper_en im\<rparr>\<rparr>
      in if irqen im = 0 then vic_enable_interrupts s else vic_disable_interrupts s)"

definition disable :: "kernel \<Rightarrow> irqmask \<times> kernel" where
  "disable s = (vic_get_irqmask s, vic_disable_interrupts s)"

definition restore :: "irqmask \<Rightarrow> kernel \<Rightarrow> kernel" where
  "restore im s = vic_set_irqmask im s"

end
