(* ===== verification/Xinu_Queue.thy ===== *)
theory Xinu_Queue
  imports Xinu_State
begin

text \<open>
  The thread queues of \<^verbatim>\<open>include/queue.h\<close>, \<^verbatim>\<open>system/queue.c\<close>,
  \<^verbatim>\<open>getitem.c\<close>, \<^verbatim>\<open>insert.c\<close>, \<^verbatim>\<open>insertd.c\<close> and
  \<^verbatim>\<open>queinit.c\<close>: all queues are doubly linked lists threaded through one table,
  \<^verbatim>\<open>quetab\<close>; cells below \<^verbatim>\<open>NTHREAD\<close> belong to threads, the others are
  heads and tails. The operations are modelled cell by cell; the second half of the
  theory shows that they implement operations on lists of thread ids.
\<close>

section \<open>The operations\<close>

definition quehead :: "qid_typ \<Rightarrow> int" where
  [simp]: "quehead q = q"

definition quetail :: "qid_typ \<Rightarrow> int" where
  [simp]: "quetail q = q + 1"

definition isbadqid :: "qid_typ \<Rightarrow> bool" where
  "isbadqid x \<longleftrightarrow> quehead x < 0 \<or> quehead x \<noteq> quetail x - 1 \<or> quetail x \<ge> NQENT"

definition isempty :: "qid_typ \<Rightarrow> kernel \<Rightarrow> bool option" where
  "isempty q s = do { h \<leftarrow> qrd (quehead q) s; Some (qnext h \<ge> NTHREAD) }"

definition nonempty :: "qid_typ \<Rightarrow> kernel \<Rightarrow> bool option" where
  "nonempty q s = do { h \<leftarrow> qrd (quehead q) s; Some (qnext h < NTHREAD) }"

definition firstid :: "qid_typ \<Rightarrow> kernel \<Rightarrow> tid_typ option" where
  "firstid q s = do { h \<leftarrow> qrd (quehead q) s; Some (qnext h) }"

definition firstkey :: "qid_typ \<Rightarrow> kernel \<Rightarrow> int option" where
  "firstkey q s = do { h \<leftarrow> qrd (quehead q) s; e \<leftarrow> qrd (qnext h) s; Some (qkey e) }"

definition lastkey :: "qid_typ \<Rightarrow> kernel \<Rightarrow> int option" where
  "lastkey q s = do { h \<leftarrow> qrd (quetail q) s; e \<leftarrow> qrd (qprev h) s; Some (qkey e) }"

definition enqueue :: "tid_typ \<Rightarrow> qid_typ \<Rightarrow> kernel \<Rightarrow> (tid_typ \<times> kernel) option" where
  "enqueue tid q s =
     (if isbadqid q \<or> isbadtid tid s then Some (SYSERR, s)
      else do {
        let tail = quetail q;
        e \<leftarrow> qrd tail s;
        let prev = qprev e;
        s \<leftarrow> qwr tid (qnext_update (\<lambda>_. tail)) s;
        s \<leftarrow> qwr tid (qprev_update (\<lambda>_. prev)) s;
        s \<leftarrow> qwr prev (qnext_update (\<lambda>_. tid)) s;
        s \<leftarrow> qwr tail (qprev_update (\<lambda>_. tid)) s;
        Some (tid, s)
      })"

definition getitem :: "tid_typ \<Rightarrow> kernel \<Rightarrow> (tid_typ \<times> kernel) option" where
  "getitem tid s = do {
     e \<leftarrow> qrd tid s;
     let nxt = qnext e;
     let prev = qprev e;
     s \<leftarrow> qwr prev (qnext_update (\<lambda>_. nxt)) s;
     s \<leftarrow> qwr nxt (qprev_update (\<lambda>_. prev)) s;
     s \<leftarrow> qwr tid (qnext_update (\<lambda>_. EMPTY)) s;
     s \<leftarrow> qwr tid (qprev_update (\<lambda>_. EMPTY)) s;
     Some (tid, s)
   }"

definition getfirst :: "qid_typ \<Rightarrow> kernel \<Rightarrow> (tid_typ \<times> kernel) option" where
  "getfirst q s =
     (if isbadqid q then Some (SYSERR, s)
      else do {
        b \<leftarrow> isempty q s;
        if b then Some (EMPTY, s)
        else do { h \<leftarrow> qrd (quehead q) s; getitem (qnext h) s }
      })"

definition getlast :: "qid_typ \<Rightarrow> kernel \<Rightarrow> (tid_typ \<times> kernel) option" where
  "getlast q s =
     (if isbadqid q then Some (SYSERR, s)
      else do {
        b \<leftarrow> isempty q s;
        if b then Some (EMPTY, s)
        else do { t \<leftarrow> qrd (quetail q) s; getitem (qprev t) s }
      })"

definition dequeue :: "qid_typ \<Rightarrow> kernel \<Rightarrow> (tid_typ \<times> kernel) option" where
  "dequeue q s =
     (if isbadqid q then Some (SYSERR, s)
      else do {
        b \<leftarrow> isempty q s;
        if b then Some (EMPTY, s)
        else do {
          (tid, s) \<leftarrow> getfirst q s;
          if \<not> isbadtid tid s
          then do {
            s \<leftarrow> qwr tid (qprev_update (\<lambda>_. EMPTY)) s;
            s \<leftarrow> qwr tid (qnext_update (\<lambda>_. EMPTY)) s;
            Some (tid, s)
          }
          else Some (tid, s)
        }
      })"

text \<open>The search loops of \<^verbatim>\<open>insert\<close> and \<^verbatim>\<open>insertd\<close>.\<close>

partial_function (option) insert_scan :: "kernel \<Rightarrow> int \<Rightarrow> int \<Rightarrow> int option" where
  "insert_scan s key nxt = do {
     e \<leftarrow> qrd nxt s;
     if qkey e \<ge> key then insert_scan s key (qnext e) else Some nxt
   }"

definition insert_k :: "tid_typ \<Rightarrow> qid_typ \<Rightarrow> int \<Rightarrow> kernel \<Rightarrow> (int \<times> kernel) option" where
  "insert_k tid q key s =
     (if isbadqid q \<or> isbadtid tid s then Some (SYSERR, s)
      else do {
        h \<leftarrow> qrd (quehead q) s;
        nxt \<leftarrow> insert_scan s key (qnext h);
        s \<leftarrow> qwr tid (qnext_update (\<lambda>_. nxt)) s;
        e \<leftarrow> qrd nxt s;
        let prev = qprev e;
        s \<leftarrow> qwr tid (qprev_update (\<lambda>_. prev)) s;
        s \<leftarrow> qwr tid (qkey_update (\<lambda>_. key)) s;
        s \<leftarrow> qwr prev (qnext_update (\<lambda>_. tid)) s;
        s \<leftarrow> qwr nxt (qprev_update (\<lambda>_. tid)) s;
        Some (OK, s)
      })"

partial_function (option) insertd_scan ::
  "kernel \<Rightarrow> qid_typ \<Rightarrow> int \<Rightarrow> int \<Rightarrow> int \<Rightarrow> (int \<times> int \<times> int) option" where
  "insertd_scan s q prev nxt key = do {
     e \<leftarrow> qrd nxt s;
     if qkey e \<le> key \<and> nxt \<noteq> quetail q
     then do {
       key' \<leftarrow> ck (key - qkey e);
       insertd_scan s q nxt (qnext e) key'
     }
     else Some (prev, nxt, key)
   }"

definition insertd :: "tid_typ \<Rightarrow> qid_typ \<Rightarrow> int \<Rightarrow> kernel \<Rightarrow> (int \<times> kernel) option" where
  "insertd tid q key s =
     (if isbadqid q \<or> isbadtid tid s then Some (SYSERR, s)
      else do {
        h \<leftarrow> qrd (quehead q) s;
        (prev, nxt, key) \<leftarrow> insertd_scan s q (quehead q) (qnext h) key;
        s \<leftarrow> qwr tid (qnext_update (\<lambda>_. nxt)) s;
        s \<leftarrow> qwr tid (qprev_update (\<lambda>_. prev)) s;
        s \<leftarrow> qwr tid (qkey_update (\<lambda>_. key)) s;
        s \<leftarrow> qwr prev (qnext_update (\<lambda>_. tid)) s;
        s \<leftarrow> qwr nxt (qprev_update (\<lambda>_. tid)) s;
        if nxt \<noteq> quetail q
        then do {
          e \<leftarrow> qrd nxt s;
          k \<leftarrow> ck (qkey e - key);
          s \<leftarrow> qwr nxt (qkey_update (\<lambda>_. k)) s;
          Some (OK, s)
        }
        else Some (OK, s)
      })"

definition queinit :: "kernel \<Rightarrow> (qid_typ \<times> kernel) option" where
  "queinit s =
     (if nextqid s > NQENT then Some (SYSERR, s)
      else do {
        let q = nextqid s;
        let s = s\<lparr>nextqid := nextqid s + 2\<rparr>;
        s \<leftarrow> qwr (quehead q) (qnext_update (\<lambda>_. quetail q)) s;
        s \<leftarrow> qwr (quehead q) (qprev_update (\<lambda>_. EMPTY)) s;
        s \<leftarrow> qwr (quehead q) (qkey_update (\<lambda>_. MAXKEY)) s;
        s \<leftarrow> qwr (quetail q) (qnext_update (\<lambda>_. EMPTY)) s;
        s \<leftarrow> qwr (quetail q) (qprev_update (\<lambda>_. quehead q)) s;
        s \<leftarrow> qwr (quetail q) (qkey_update (\<lambda>_. MINKEY)) s;
        Some (q, s)
      })"

section \<open>Linked lists in the table\<close>

text \<open>\<open>dlink qt xs\<close>: consecutive cells of \<open>xs\<close> point to each other.\<close>

fun dlink :: "(int \<Rightarrow> queent) \<Rightarrow> int list \<Rightarrow> bool" where
  "dlink qt [] \<longleftrightarrow> True"
| "dlink qt [a] \<longleftrightarrow> True"
| "dlink qt (a # b # r) \<longleftrightarrow> qnext (qt a) = b \<and> qprev (qt b) = a \<and> dlink qt (b # r)"

lemma dlink_append:
  "dlink qt (xs @ a # ys) \<longleftrightarrow> dlink qt (xs @ [a]) \<and> dlink qt (a # ys)"
proof (induction xs)
  case Nil
  show ?case by simp
next
  case (Cons x xs)
  show ?case
  proof (cases xs)
    case Nil
    then show ?thesis by simp
  next
    case (Cons y zs)
    then show ?thesis using Cons.IH by simp
  qed
qed

lemma dlink_cong:
  assumes "\<And>x. x \<in> set (butlast xs) \<Longrightarrow> qnext (qt' x) = qnext (qt x)"
    and "\<And>x. x \<in> set (tl xs) \<Longrightarrow> qprev (qt' x) = qprev (qt x)"
  shows "dlink qt' xs \<longleftrightarrow> dlink qt xs"
  using assms
proof (induction xs)
  case (Cons x xs)
  note IH = Cons.IH and P = Cons.prems
  show ?case
  proof (cases xs)
    case (Cons y zs)
    have "dlink qt' xs \<longleftrightarrow> dlink qt xs"
    proof (rule IH)
      show "qnext (qt' z) = qnext (qt z)" if "z \<in> set (butlast xs)" for z
        using P(1)[of z] that Cons by simp
      show "qprev (qt' z) = qprev (qt z)" if "z \<in> set (tl xs)" for z
        using P(2)[of z] that Cons by simp
    qed
    moreover have "qnext (qt' x) = qnext (qt x)" using P(1)[of x] Cons by simp
    moreover have "qprev (qt' y) = qprev (qt y)" using P(2)[of y] Cons by simp
    ultimately show ?thesis using Cons by simp
  qed simp
qed simp

lemma dlink_neighbours:
  "dlink qt (xs @ p # t # n # ys) \<Longrightarrow> qprev (qt t) = p \<and> qnext (qt t) = n"
  by (simp add: dlink_append [of qt xs p "t # n # ys"])

text \<open>The cell updates of an insertion between two neighbours and of a removal.\<close>

definition qlink :: "int \<Rightarrow> int \<Rightarrow> int \<Rightarrow> (int \<Rightarrow> queent) \<Rightarrow> int \<Rightarrow> queent" where
  "qlink p t n qt = qt(t := (qt t)\<lparr>qnext := n, qprev := p\<rparr>,
     p := (qt p)\<lparr>qnext := t\<rparr>, n := (qt n)\<lparr>qprev := t\<rparr>)"

definition qunlink :: "int \<Rightarrow> (int \<Rightarrow> queent) \<Rightarrow> int \<Rightarrow> queent" where
  "qunlink t qt = (let p = qprev (qt t); n = qnext (qt t) in
     qt(p := (qt p)\<lparr>qnext := n\<rparr>, n := (qt n)\<lparr>qprev := p\<rparr>,
        t := (qt t)\<lparr>qnext := EMPTY, qprev := EMPTY\<rparr>))"

lemma qlink_dlink:
  assumes "dlink qt (xs @ p # n # ys)" and "distinct (xs @ p # t # n # ys)"
  shows "dlink (qlink p t n qt) (xs @ p # t # n # ys)"
proof -
  have 1: "dlink qt (xs @ [p])" and 2: "dlink qt (n # ys)"
    using assms(1) by (simp_all add: dlink_append [of qt xs p "n # ys"] split: list.splits)
  have 3: "x \<noteq> p \<and> x \<noteq> t \<and> x \<noteq> n" if "x \<in> set xs \<or> x \<in> set ys" for x
    using assms(2) that by auto
  have "dlink (qlink p t n qt) (xs @ [p]) = dlink qt (xs @ [p])"
  proof (rule dlink_cong)
    show "qnext (qlink p t n qt x) = qnext (qt x)" if "x \<in> set (butlast (xs @ [p]))" for x
      using 3 [of x] that by (simp add: qlink_def)
    show "qprev (qlink p t n qt x) = qprev (qt x)" if "x \<in> set (tl (xs @ [p]))" for x
      using 3 [of x] that assms(2) list.set_sel(2) [OF _ that] by (auto simp: qlink_def)
  qed
  moreover have "dlink (qlink p t n qt) (n # ys) = dlink qt (n # ys)"
  proof (rule dlink_cong)
    show "qnext (qlink p t n qt x) = qnext (qt x)" if "x \<in> set (butlast (n # ys))" for x
      using 3 [of x] in_set_butlastD [OF that] assms(2) by (auto simp: qlink_def)
    show "qprev (qlink p t n qt x) = qprev (qt x)" if "x \<in> set (tl (n # ys))" for x
      using 3 [of x] that by (simp add: qlink_def)
  qed
  ultimately show ?thesis
    using 1 2 assms(2) by (auto simp: dlink_append [of _ xs p "t # n # ys"] qlink_def)
qed

lemma qunlink_dlink:
  assumes "dlink qt (xs @ p # t # n # ys)" and "distinct (xs @ p # t # n # ys)"
  shows "dlink (qunlink t qt) (xs @ p # n # ys)"
proof -
  have 1: "dlink qt (xs @ [p])" and 2: "dlink qt (n # ys)"
    and pn: "qprev (qt t) = p" "qnext (qt t) = n"
    using assms(1) by (simp_all add: dlink_append [of qt xs p "t # n # ys"])
  have 3: "x \<noteq> p \<and> x \<noteq> t \<and> x \<noteq> n" if "x \<in> set xs \<or> x \<in> set ys" for x
    using assms(2) that by auto
  have "dlink (qunlink t qt) (xs @ [p]) = dlink qt (xs @ [p])"
  proof (rule dlink_cong)
    show "qnext (qunlink t qt x) = qnext (qt x)" if "x \<in> set (butlast (xs @ [p]))" for x
      using 3 [of x] that by (simp add: qunlink_def pn)
    show "qprev (qunlink t qt x) = qprev (qt x)" if "x \<in> set (tl (xs @ [p]))" for x
      using 3 [of x] that assms(2) list.set_sel(2) [OF _ that] by (auto simp: qunlink_def pn)
  qed
  moreover have "dlink (qunlink t qt) (n # ys) = dlink qt (n # ys)"
  proof (rule dlink_cong)
    show "qnext (qunlink t qt x) = qnext (qt x)" if "x \<in> set (butlast (n # ys))" for x
      using 3 [of x] in_set_butlastD [OF that] assms(2) by (auto simp: qunlink_def pn)
    show "qprev (qunlink t qt x) = qprev (qt x)" if "x \<in> set (tl (n # ys))" for x
      using 3 [of x] that by (simp add: qunlink_def pn)
  qed
  ultimately show ?thesis
    using 1 2 assms(2) by (auto simp: dlink_append [of _ xs p "n # ys"] qunlink_def pn)
qed

section \<open>Queues and systems of queues\<close>

text \<open>
  \<open>isq qt q xs\<close>: the queue with head \<open>q\<close> holds the threads \<open>xs\<close>, in this order.
  \<open>qsys H qt A\<close>: every head in \<open>H\<close> carries the queue \<open>A\<close> says, and no thread is in
  two queues (invariant 3 of \<^verbatim>\<open>include/queue.h\<close>).
\<close>

definition isq :: "(int \<Rightarrow> queent) \<Rightarrow> qid_typ \<Rightarrow> tid_typ list \<Rightarrow> bool" where
  "isq qt q xs \<longleftrightarrow> dlink qt (q # xs @ [q + 1]) \<and> distinct xs \<and> set xs \<subseteq> {0..<NTHREAD}
     \<and> qkey (qt q) = MAXKEY \<and> qkey (qt (q + 1)) = MINKEY
     \<and> qprev (qt q) = EMPTY \<and> qnext (qt (q + 1)) = EMPTY"

definition heads_ok :: "qid_typ set \<Rightarrow> bool" where
  "heads_ok H \<longleftrightarrow> (\<forall>q\<in>H. NTHREAD \<le> q \<and> q + 1 < NQENT \<and> even q)"

definition qsys :: "qid_typ set \<Rightarrow> (int \<Rightarrow> queent) \<Rightarrow> (qid_typ \<Rightarrow> tid_typ list) \<Rightarrow> bool" where
  "qsys H qt A \<longleftrightarrow> heads_ok H \<and> (\<forall>q\<in>H. isq qt q (A q))
     \<and> (\<forall>q\<in>H. \<forall>r\<in>H. q \<noteq> r \<longrightarrow> set (A q) \<inter> set (A r) = {})"

text \<open>Reading a queue back from the table: at most \<^verbatim>\<open>NTHREAD\<close> steps.\<close>

fun walk :: "nat \<Rightarrow> (int \<Rightarrow> queent) \<Rightarrow> int \<Rightarrow> tid_typ list" where
  "walk 0 qt i = []"
| "walk (Suc n) qt i = (if 0 \<le> i \<and> i < NTHREAD then i # walk n qt (qnext (qt i)) else [])"

definition queue_of :: "(int \<Rightarrow> queent) \<Rightarrow> qid_typ \<Rightarrow> tid_typ list" where
  "queue_of qt q = walk (nat NTHREAD) qt (qnext (qt (quehead q)))"

lemma walk_dlink:
  "dlink qt (xs @ [e]) \<Longrightarrow> set xs \<subseteq> {0..<NTHREAD} \<Longrightarrow> NTHREAD \<le> e \<Longrightarrow> length xs \<le> n
   \<Longrightarrow> walk n qt (hd (xs @ [e])) = xs"
proof (induction xs arbitrary: n)
  case Nil
  then show ?case by (cases n) auto
next
  case (Cons x xs)
  then obtain m where m: "n = Suc m" by (cases n) auto
  have "qnext (qt x) = hd (xs @ [e])" and "dlink qt (xs @ [e])"
    using Cons.prems(1) by (cases xs; simp)+
  then show ?case using Cons.prems m Cons.IH [of m] by simp
qed

lemma queue_of_isq: "isq qt q xs \<Longrightarrow> NTHREAD \<le> q \<Longrightarrow> queue_of qt q = xs"
proof -
  assume q: "isq qt q xs" and b: "NTHREAD \<le> q"
  have d: "dlink qt (xs @ [q + 1])" and h: "qnext (qt q) = hd (xs @ [q + 1])"
    using q by (cases xs; simp add: isq_def)+
  have "length xs \<le> nat NTHREAD"
    using q distinct_subset_card_le [of xs] by (simp add: isq_def)
  then show ?thesis
    using walk_dlink [OF d, of "nat NTHREAD"] q b h by (simp add: queue_of_def isq_def)
qed

lemma qsysD:
  assumes "qsys H qt A" and "q \<in> H"
  shows "isq qt q (A q)" and "NTHREAD \<le> q" and "q + 1 < NQENT" and "even q"
    and "queue_of qt q = A q"
  using assms by (auto simp: qsys_def heads_ok_def intro: queue_of_isq)

lemma qsys_cong:
  assumes "qsys H qt A" and "\<And>q. q \<in> H \<Longrightarrow> B q = A q"
  shows "qsys H qt B"
  using assms by (auto simp: qsys_def)

lemma qsys_queue_of: "qsys H qt A \<Longrightarrow> qsys H qt (queue_of qt)"
  by (rule qsys_cong) (simp_all add: qsysD(5))

text \<open>A queue whose cells are not touched stays as it is.\<close>

lemma isq_frame:
  assumes "isq qt q xs" and "qt' q = qt q" and "qt' (q + 1) = qt (q + 1)"
    and "\<And>x. x \<in> set xs \<Longrightarrow> qnext (qt' x) = qnext (qt x) \<and> qprev (qt' x) = qprev (qt x)"
  shows "isq qt' q xs"
proof -
  have "dlink qt' (q # xs @ [q + 1]) = dlink qt (q # xs @ [q + 1])"
  proof (rule dlink_cong)
    show "qnext (qt' x) = qnext (qt x)" if "x \<in> set (butlast (q # xs @ [q + 1]))" for x
      using that assms(2,4) by (auto simp: butlast_append split: if_splits)
    show "qprev (qt' x) = qprev (qt x)" if "x \<in> set (tl (q # xs @ [q + 1]))" for x
      using that assms(3,4) by auto
  qed
  then show ?thesis using assms by (simp add: isq_def)
qed

lemma qsys_keys:
  assumes "qsys H qt A" and "\<And>i. qnext (qt' i) = qnext (qt i) \<and> qprev (qt' i) = qprev (qt i)"
    and "\<And>i. NTHREAD \<le> i \<Longrightarrow> qkey (qt' i) = qkey (qt i)"
  shows "qsys H qt' A"
proof -
  have "isq qt' q (A q)" if "q \<in> H" for q
  proof (rule isq_frame [OF qsysD(1) [OF assms(1) that]])
    have "NTHREAD \<le> q" by (rule qsysD(2) [OF assms(1) that])
    then show "qt' q = qt q" and "qt' (q + 1) = qt (q + 1)"
      using assms(2,3) by (auto intro: queent.equality)
  qed (simp add: assms(2))
  then show ?thesis using assms(1) by (simp add: qsys_def)
qed

text \<open>The two structural updates of a system of queues.\<close>

lemma isq_link:
  assumes q: "isq qt q (xs @ ys)" and b: "NTHREAD \<le> q" and t: "0 \<le> t" "t < NTHREAD"
    and new: "t \<notin> set (xs @ ys)"
  shows "isq (qlink (last (q # xs)) t (hd (ys @ [q + 1])) qt) q (xs @ t # ys)"
proof -
  let ?p = "last (q # xs)" and ?n = "hd (ys @ [q + 1])" and ?u = "butlast (q # xs)"
    and ?v = "tl (ys @ [q + 1])"
  have p: "q # xs = ?u @ [?p]" by simp
  have n: "ys @ [q + 1] = ?n # ?v" by (cases ys) auto
  have eq: "(q # xs) @ zs @ (ys @ [q + 1]) = ?u @ ?p # zs @ ?n # ?v" for zs
    by (subst p, subst n) (simp only: append_assoc append.simps)
  have d: "dlink qt (?u @ ?p # ?n # ?v)"
    using q eq [of "[]"] by (simp only: isq_def append.simps append_assoc)
  have "distinct ((q # xs) @ [t] @ (ys @ [q + 1]))"
    using q b t new by (auto simp: isq_def)
  then have dist: "distinct (?u @ ?p # t # ?n # ?v)"
    using eq [of "[t]"] by (simp only: append.simps)
  have "dlink (qlink ?p t ?n qt) (q # xs @ t # ys @ [q + 1])"
    using qlink_dlink [OF d dist] eq [of "[t]"] by (simp only: append.simps)
  moreover have "qkey (qlink ?p t ?n qt i) = qkey (qt i)" for i
    by (simp add: qlink_def)
  moreover have "qprev (qlink ?p t ?n qt q) = qprev (qt q)"
    using q b t by (auto simp: qlink_def isq_def hd_append dest: hd_in_set split: if_splits)
  moreover have "qnext (qlink ?p t ?n qt (q + 1)) = qnext (qt (q + 1))"
    using q b t by (auto simp: qlink_def isq_def dest: last_in_set split: if_splits)
  ultimately show ?thesis
    using q t new by (simp add: isq_def)
qed

lemma isq_unlink:
  assumes q: "isq qt q (xs @ t # ys)" and b: "NTHREAD \<le> q"
  shows "isq (qunlink t qt) q (xs @ ys)"
proof -
  let ?p = "last (q # xs)" and ?n = "hd (ys @ [q + 1])" and ?u = "butlast (q # xs)"
    and ?v = "tl (ys @ [q + 1])"
  have p: "q # xs = ?u @ [?p]" by simp
  have n: "ys @ [q + 1] = ?n # ?v" by (cases ys) auto
  have eq: "(q # xs) @ zs @ (ys @ [q + 1]) = ?u @ ?p # zs @ ?n # ?v" for zs
    by (subst p, subst n) (simp only: append_assoc append.simps)
  have d: "dlink qt (?u @ ?p # t # ?n # ?v)"
    using q eq [of "[t]"] by (simp only: isq_def append.simps append_assoc)
  have "distinct ((q # xs) @ [t] @ (ys @ [q + 1]))"
    using q b by (auto simp: isq_def)
  then have dist: "distinct (?u @ ?p # t # ?n # ?v)"
    using eq [of "[t]"] by (simp only: append.simps)
  have pn: "qprev (qt t) = ?p" "qnext (qt t) = ?n"
    using dlink_neighbours [OF d] by simp_all
  have "dlink (qunlink t qt) (q # xs @ ys @ [q + 1])"
    using qunlink_dlink [OF d dist] eq [of "[]"] by (simp only: append.simps append_Nil)
  moreover have "qkey (qunlink t qt i) = qkey (qt i)" for i
    by (simp add: qunlink_def Let_def)
  moreover have "qprev (qunlink t qt q) = qprev (qt q)"
    using q b by (auto simp: qunlink_def Let_def pn isq_def hd_append dest: hd_in_set split: if_splits)
  moreover have "qnext (qunlink t qt (q + 1)) = qnext (qt (q + 1))"
    using q b by (auto simp: qunlink_def Let_def pn isq_def dest: last_in_set split: if_splits)
  ultimately show ?thesis
    using q by (simp add: isq_def)
qed

lemma other_queue_cells:
  assumes s: "qsys H qt A" and q: "q \<in> H" and r: "r \<in> H" "r \<noteq> q"
    and c: "c \<in> set (q # A q @ [q + 1])"
  shows "c \<noteq> r" and "c \<noteq> r + 1" and "c \<notin> set (A r)"
proof -
  note qd = qsysD [OF s q] and rd = qsysD [OF s r(1)]
  have "set (A q) \<inter> set (A r) = {}" and "set (A q) \<subseteq> {0..<NTHREAD}" and "set (A r) \<subseteq> {0..<NTHREAD}"
    using s q r qd(1) rd(1) by (auto simp: qsys_def isq_def)
  then show "c \<noteq> r" and "c \<noteq> r + 1" and "c \<notin> set (A r)"
    using qd(2,4) rd(2,4) r(2) c by auto
qed

lemma qsys_link:
  assumes s: "qsys H qt A" and q: "q \<in> H" and A: "A q = xs @ ys"
    and t: "0 \<le> t" "t < NTHREAD" and new: "\<And>r. r \<in> H \<Longrightarrow> t \<notin> set (A r)"
  shows "qsys H (qlink (last (q # xs)) t (hd (ys @ [q + 1])) qt) (A(q := xs @ t # ys))"
proof -
  let ?qt = "qlink (last (q # xs)) t (hd (ys @ [q + 1])) qt" and ?A = "A(q := xs @ t # ys)"
  have pn: "last (q # xs) \<in> set (q # A q @ [q + 1])" "hd (ys @ [q + 1]) \<in> set (q # A q @ [q + 1])"
    using A by (auto simp: hd_append)
  have "isq ?qt r (?A r)" if r: "r \<in> H" for r
  proof (cases "r = q")
    case True
    then show ?thesis
      using isq_link [of qt q xs ys t] qsysD [OF s q] A t new [OF q] by simp
  next
    case False
    note pc = other_queue_cells [OF s q r False pn(1)] and nc = other_queue_cells [OF s q r False pn(2)]
    have "t \<noteq> r" "t \<noteq> r + 1" "t \<notin> set (A r)"
      using t new [OF r] qsysD(2) [OF s r] by auto
    then have "isq ?qt r (A r)"
      using pc nc by (intro isq_frame [OF qsysD(1) [OF s r]]) (auto simp: qlink_def simp del: last.simps)
    then show ?thesis using False by simp
  qed
  moreover have "set (?A r) \<inter> set (?A r') = {}" if "r \<in> H" "r' \<in> H" "r \<noteq> r'" for r r'
  proof -
    have "set (A r) \<inter> set (A r') = {}" using s that by (simp add: qsys_def)
    then show ?thesis using that new A by auto
  qed
  ultimately show ?thesis using s by (simp add: qsys_def)
qed

lemma qsys_unlink:
  assumes s: "qsys H qt A" and q: "q \<in> H" and A: "A q = xs @ t # ys"
  shows "qsys H (qunlink t qt) (A(q := xs @ ys))"
proof -
  let ?A = "A(q := xs @ ys)"
  have n: "ys @ [q + 1] = hd (ys @ [q + 1]) # tl (ys @ [q + 1])" by (cases ys) auto
  have "q # xs = butlast (q # xs) @ [last (q # xs)]" by simp
  then have "dlink qt (butlast (q # xs) @ last (q # xs) # t # hd (ys @ [q + 1]) # tl (ys @ [q + 1]))"
    using qsysD(1) [OF s q] A n
    by (metis append.assoc append_Cons append_Nil isq_def)
  then have pn: "qprev (qt t) = last (q # xs)" "qnext (qt t) = hd (ys @ [q + 1])"
    by (blast dest: dlink_neighbours)+
  have inq: "t \<in> set (q # A q @ [q + 1])" "last (q # xs) \<in> set (q # A q @ [q + 1])"
    "hd (ys @ [q + 1]) \<in> set (q # A q @ [q + 1])"
    using A by (auto simp: hd_append)
  have "isq (qunlink t qt) r (?A r)" if r: "r \<in> H" for r
  proof (cases "r = q")
    case True
    then show ?thesis using isq_unlink [of qt q xs t ys] qsysD [OF s q] A by simp
  next
    case False
    note c = other_queue_cells [OF s q r False inq(1)] other_queue_cells [OF s q r False inq(2)]
      other_queue_cells [OF s q r False inq(3)]
    then have "isq (qunlink t qt) r (A r)"
      by (intro isq_frame [OF qsysD(1) [OF s r]]) (auto simp: qunlink_def pn Let_def simp del: last.simps)
    then show ?thesis using False by simp
  qed
  moreover have "set (?A r) \<inter> set (?A r') = {}" if "r \<in> H" "r' \<in> H" "r \<noteq> r'" for r r'
  proof -
    have "set (A r) \<inter> set (A r') = {}" using s that by (simp add: qsys_def)
    then show ?thesis using that A by auto
  qed
  ultimately show ?thesis using s by (simp add: qsys_def)
qed

section \<open>What the operations do\<close>

text \<open>
  Under \<open>qsys\<close> every operation returns, writes inside the table only, and changes
  the queues as the corresponding list operation. The keys of cells an operation does
  not name stay as they are.
\<close>

lemma isbadqid_head [simp]: "qsys H qt A \<Longrightarrow> q \<in> H \<Longrightarrow> \<not> isbadqid q"
  using qsysD [of H qt A q] by (auto simp: isbadqid_def)

lemma qsys_thread_range:
  "qsys H qt A \<Longrightarrow> q \<in> H \<Longrightarrow> t \<in> set (A q) \<Longrightarrow> 0 \<le> t \<and> t < NTHREAD"
  using qsysD(1) [of H qt A q] by (auto simp: isq_def)

lemma qsys_split:
  assumes "qsys H qt A" and "q \<in> H" and "A q = xs @ ys"
  shows "qnext (qt (last (q # xs))) = hd (ys @ [q + 1])"
    and "qprev (qt (hd (ys @ [q + 1]))) = last (q # xs)"
proof -
  have n: "ys @ [q + 1] = hd (ys @ [q + 1]) # tl (ys @ [q + 1])" by (cases ys) auto
  have "dlink qt (q # A q @ [q + 1])" using qsysD(1) [OF assms(1,2)] by (simp add: isq_def)
  then have "dlink qt (butlast (q # xs) @ last (q # xs) # hd (ys @ [q + 1]) # tl (ys @ [q + 1]))"
    using assms(3) n
    by (metis append.assoc append_Cons append_Nil append_butlast_last_id list.distinct(1))
  then have "dlink qt (last (q # xs) # hd (ys @ [q + 1]) # tl (ys @ [q + 1]))"
    by (rule dlink_append [THEN iffD1, THEN conjunct2])
  then show "qnext (qt (last (q # xs))) = hd (ys @ [q + 1])"
    and "qprev (qt (hd (ys @ [q + 1]))) = last (q # xs)"
    by (simp_all only: dlink.simps)
qed

lemma qsys_first:
  "qsys H qt A \<Longrightarrow> q \<in> H \<Longrightarrow> qnext (qt q) = hd (A q @ [q + 1])"
  using qsys_split(1) [of H qt A q "[]" "A q"] by simp

lemma qsys_last:
  "qsys H qt A \<Longrightarrow> q \<in> H \<Longrightarrow> qprev (qt (q + 1)) = last (q # A q)"
  using qsys_split(2) [of H qt A q "A q" "[]"] by simp

lemma qsys_cell:
  assumes "qsys H qt A" and "q \<in> H" and "c \<in> set (q # A q @ [q + 1])"
  shows "0 \<le> c" and "c < NQENT" and "c = q \<or> c = q + 1 \<or> c < NTHREAD \<and> c \<in> set (A q)"
  using assms(3) qsysD(2,3) [OF assms(1,2)] qsys_thread_range [OF assms(1,2), of c] by auto

lemma isempty_qsys:
  "qsys H (quetab s) A \<Longrightarrow> q \<in> H \<Longrightarrow> isempty q s = Some (A q = [])"
  using qsysD [of H "quetab s" A q] qsys_first [of H "quetab s" A q]
    qsys_thread_range [of H "quetab s" A q "hd (A q)"]
  by (cases "A q") (auto simp: isempty_def qrd_def)

lemma nonempty_qsys:
  "qsys H (quetab s) A \<Longrightarrow> q \<in> H \<Longrightarrow> nonempty q s = Some (A q \<noteq> [])"
  using qsysD [of H "quetab s" A q] qsys_first [of H "quetab s" A q]
    qsys_thread_range [of H "quetab s" A q "hd (A q)"]
  by (cases "A q") (auto simp: nonempty_def qrd_def)

lemma firstkey_qsys:
  "qsys H (quetab s) A \<Longrightarrow> q \<in> H \<Longrightarrow> A q \<noteq> [] \<Longrightarrow> firstkey q s = Some (qkey (quetab s (hd (A q))))"
  using qsysD [of H "quetab s" A q] qsys_first [of H "quetab s" A q]
    qsys_thread_range [of H "quetab s" A q "hd (A q)"]
  by (cases "A q") (auto simp: firstkey_def qrd_def)

lemma qlink_keys [simp]: "qkey (qlink p t n qt i) = qkey (qt i)"
  by (simp add: qlink_def)

lemma qunlink_keys [simp]: "qkey (qunlink t qt i) = qkey (qt i)"
  by (simp add: qunlink_def Let_def)

text \<open>Linking a new thread in, between the parts of a queue.\<close>

lemma qsys_between:
  assumes s: "qsys H qt A" and q: "q \<in> H" and A: "A q = xs @ ys"
    and p: "p = last (q # xs)" and n: "n = hd (ys @ [q + 1])"
    and t: "0 \<le> t" "t < NTHREAD" and new: "\<And>r. r \<in> H \<Longrightarrow> t \<notin> set (A r)"
  shows "0 \<le> p" "p < NQENT" "0 \<le> n" "n < NQENT" "p \<noteq> t" "n \<noteq> t" "p \<noteq> n"
    and "qnext (qt p) = n" "qprev (qt n) = p"
    and "qsys H (qlink p t n qt) (A(q := xs @ t # ys))"
proof -
  have pc: "p = q \<or> p \<in> set xs" unfolding p by simp
  have nc: "n = q + 1 \<or> n \<in> set ys" unfolding n by (simp add: hd_append)
  have d: "distinct (xs @ ys)" and b: "NTHREAD \<le> q"
    using qsysD(1,2) [OF s q] A by (simp_all add: isq_def)
  have pq: "p \<in> set (q # A q @ [q + 1])" and nq: "n \<in> set (q # A q @ [q + 1])"
    using pc nc A by auto
  show "0 \<le> p" "p < NQENT" "0 \<le> n" "n < NQENT"
    using qsys_cell [OF s q pq] qsys_cell [OF s q nq] by simp_all
  show "p \<noteq> t" "n \<noteq> t" using pc nc new [OF q] t b A by auto
  show "p \<noteq> n"
    using pc nc d b qsys_thread_range [OF s q, of p] qsys_thread_range [OF s q, of n] A by auto
  show "qnext (qt p) = n" "qprev (qt n) = p"
    unfolding p n using qsys_split [OF s q A] by simp_all
  show "qsys H (qlink p t n qt) (A(q := xs @ t # ys))"
    unfolding p n by (rule qsys_link [OF s q A t new])
qed

lemma enqueue_spec:
  assumes s: "qsys H (quetab s) A" and q: "q \<in> H" and t: "\<not> isbadtid t s"
    and new: "\<And>r. r \<in> H \<Longrightarrow> t \<notin> set (A r)"
  shows "\<exists>qt. enqueue t q s = Some (t, s\<lparr>quetab := qt\<rparr>) \<and> qsys H qt (A(q := A q @ [t]))
     \<and> (\<forall>i. qkey (qt i) = qkey (quetab s i))"
proof -
  define p where "p = last (q # A q)"
  have r: "0 \<le> t" "t < NTHREAD" using t by (auto simp: isbadtid_def)
  note b = qsys_between [OF s q _ p_def, of "[]" "q + 1" t, simplified, OF r new]
  have "enqueue t q s = Some (t, s\<lparr>quetab := qlink p t (q + 1) (quetab s)\<rparr>)"
    using b isbadqid_head [OF s q] t r qsysD(2) [OF s q]
    by (auto simp: enqueue_def qrd_def qwr_def qlink_def Let_def fun_eq_iff)
  then show ?thesis using b(10) by auto
qed

lemma getitem_spec:
  assumes s: "qsys H (quetab s) A" and q: "q \<in> H" and A: "A q = xs @ t # ys"
  shows "\<exists>qt. getitem t s = Some (t, s\<lparr>quetab := qt\<rparr>) \<and> qsys H qt (A(q := xs @ ys))
     \<and> (\<forall>i. qkey (qt i) = qkey (quetab s i)) \<and> qnext (qt t) = EMPTY \<and> qprev (qt t) = EMPTY"
proof -
  let ?p = "last (q # xs)" and ?n = "hd (ys @ [q + 1])"
  have n: "ys @ [q + 1] = ?n # tl (ys @ [q + 1])" by (cases ys) auto
  have "dlink (quetab s) (butlast (q # xs) @ ?p # t # ?n # tl (ys @ [q + 1]))"
    using qsysD(1) [OF s q] A n
    by (metis append.assoc append_Cons append_Nil append_butlast_last_id isq_def list.distinct(1))
  then have pn: "qprev (quetab s t) = ?p" "qnext (quetab s t) = ?n"
    by (blast dest: dlink_neighbours)+
  have d: "distinct (xs @ t # ys)" using qsysD(1) [OF s q] A by (simp add: isq_def)
  have "0 \<le> t" "t < NTHREAD" using qsys_thread_range [OF s q, of t] A by auto
  moreover have "0 \<le> ?p" "?p < NQENT" "?p \<noteq> t"
    using qsysD [OF s q] qsys_thread_range [OF s q, of ?p] A d \<open>t < NTHREAD\<close>
    by (auto dest: last_in_set split: if_splits)
  moreover have "0 \<le> ?n" "?n < NQENT" "?n \<noteq> t"
    using qsysD [OF s q] qsys_thread_range [OF s q, of ?n] A d \<open>t < NTHREAD\<close>
    by (auto simp: hd_append dest: hd_in_set split: if_splits)
  moreover have "?p \<noteq> ?n"
    using qsysD [OF s q] qsys_thread_range [OF s q, of ?p] qsys_thread_range [OF s q, of ?n] A d
    by (auto simp: hd_append dest: hd_in_set last_in_set split: if_splits)
  ultimately have "getitem t s = Some (t, s\<lparr>quetab := qunlink t (quetab s)\<rparr>)"
    by (auto simp: getitem_def qrd_def qwr_def qunlink_def pn Let_def fun_eq_iff simp del: last.simps)
  then show ?thesis
    using qsys_unlink [OF s q A] by (auto simp: qunlink_def Let_def)
qed

lemma getfirst_spec:
  assumes s: "qsys H (quetab s) A" and q: "q \<in> H" and A: "A q = t # ys"
  shows "\<exists>qt. getfirst q s = Some (t, s\<lparr>quetab := qt\<rparr>) \<and> qsys H qt (A(q := ys))
     \<and> (\<forall>i. qkey (qt i) = qkey (quetab s i)) \<and> qnext (qt t) = EMPTY \<and> qprev (qt t) = EMPTY"
  using getitem_spec [OF s q, of "[]" t ys] A isempty_qsys [OF s q] isbadqid_head [OF s q]
    qsys_first [OF s q] qsysD(2,3) [OF s q]
  by (auto simp: getfirst_def qrd_def)

lemma getlast_spec:
  assumes s: "qsys H (quetab s) A" and q: "q \<in> H" and A: "A q = xs @ [t]"
  shows "\<exists>qt. getlast q s = Some (t, s\<lparr>quetab := qt\<rparr>) \<and> qsys H qt (A(q := xs))
     \<and> (\<forall>i. qkey (qt i) = qkey (quetab s i))"
  using getitem_spec [OF s q, of xs t "[]"] A isempty_qsys [OF s q] isbadqid_head [OF s q]
    qsys_last [OF s q] qsysD(2,3) [OF s q]
  by (auto simp: getlast_def qrd_def)

lemma dequeue_spec:
  assumes s: "qsys H (quetab s) A" and q: "q \<in> H" and A: "A q = t # ys"
  shows "\<exists>qt. dequeue q s = Some (t, s\<lparr>quetab := qt\<rparr>) \<and> qsys H qt (A(q := ys))
     \<and> (\<forall>i. qkey (qt i) = qkey (quetab s i))"
proof -
  obtain qt where g: "getfirst q s = Some (t, s\<lparr>quetab := qt\<rparr>)" and qs: "qsys H qt (A(q := ys))"
    and k: "\<forall>i. qkey (qt i) = qkey (quetab s i)" and e: "qnext (qt t) = EMPTY" "qprev (qt t) = EMPTY"
    using getfirst_spec [OF assms] by blast
  have "qt(t := (qt t)\<lparr>qprev := EMPTY, qnext := EMPTY\<rparr>) = qt"
    using e by (auto simp: fun_eq_iff)
  moreover have "0 \<le> t" "t < NTHREAD"
    using qsys_thread_range [OF s q, of t] A by auto
  ultimately have "dequeue q s = Some (t, s\<lparr>quetab := qt\<rparr>)"
    using isempty_qsys [OF s q] isbadqid_head [OF s q] A g by (simp add: dequeue_def qwr_def)
  then show ?thesis using qs k by blast
qed

lemma dequeue_empty:
  "qsys H (quetab s) A \<Longrightarrow> q \<in> H \<Longrightarrow> A q = [] \<Longrightarrow> dequeue q s = Some (EMPTY, s)"
  using isempty_qsys [of H s A q] isbadqid_head [of H "quetab s" A q] by (simp add: dequeue_def)

subsection \<open>Insertion by descending key\<close>

text \<open>\<^verbatim>\<open>insert\<close> puts a thread behind all threads of at least its key.\<close>

definition ins_desc :: "(tid_typ \<Rightarrow> int) \<Rightarrow> int \<Rightarrow> tid_typ \<Rightarrow> tid_typ list \<Rightarrow> tid_typ list" where
  "ins_desc kf k t xs = takeWhile (\<lambda>x. kf x \<ge> k) xs @ t # dropWhile (\<lambda>x. kf x \<ge> k) xs"

definition sorted_desc :: "(tid_typ \<Rightarrow> int) \<Rightarrow> tid_typ list \<Rightarrow> bool" where
  "sorted_desc kf xs \<longleftrightarrow> sorted_wrt (\<lambda>x y. kf x \<ge> kf y) xs"

lemma set_ins_desc [simp]: "set (ins_desc kf k t xs) = insert t (set xs)"
proof -
  have "set (takeWhile (\<lambda>x. kf x \<ge> k) xs) \<union> set (dropWhile (\<lambda>x. kf x \<ge> k) xs) = set xs"
    by (rule set_takeWhile_dropWhile)
  then show ?thesis by (auto simp: ins_desc_def)
qed

lemma ins_desc_sorted:
  assumes "sorted_desc kf xs" and "t \<notin> set xs"
  shows "sorted_desc (kf(t := k)) (ins_desc kf k t xs)"
proof -
  let ?a = "takeWhile (\<lambda>x. kf x \<ge> k) xs" and ?b = "dropWhile (\<lambda>x. kf x \<ge> k) xs"
  have s: "sorted_wrt (\<lambda>x y. kf x \<ge> kf y) (?a @ ?b)"
    using assms(1) by (simp only: sorted_desc_def takeWhile_dropWhile_id)
  have hi: "kf x \<ge> k" if "x \<in> set ?a" for x using that by (rule set_takeWhileD [THEN conjunct2])
  have lo: "kf x < k" if "x \<in> set ?b" for x
    using assms(1) that by (auto simp: sorted_desc_def dest: sorted_wrt_ge_dropWhile)
  have t: "t \<notin> set (?a @ ?b)"
    using assms(2) by (simp only: takeWhile_dropWhile_id) simp
  have "sorted_wrt (\<lambda>x y. (kf(t := k)) x \<ge> (kf(t := k)) y) (?a @ ?b)"
    by (rule sorted_wrt_mono_rel [OF _ s]) (use t in auto)
  then show ?thesis
    using hi lo t by (auto simp: sorted_desc_def ins_desc_def sorted_wrt_append less_imp_le
        simp del: takeWhile_dropWhile_id)
qed

lemma insert_scan_dlink:
  assumes "dlink (quetab s) (xs @ [e])" and "set xs \<subseteq> {0..<NTHREAD}" and "0 \<le> e" and "e < NQENT"
    and "qkey (quetab s e) < k"
  shows "insert_scan s k (hd (xs @ [e]))
     = Some (hd (dropWhile (\<lambda>x. qkey (quetab s x) \<ge> k) xs @ [e]))"
  using assms
proof (induction xs)
  case Nil
  then show ?case by (subst insert_scan.simps) (simp add: qrd_def)
next
  case (Cons x xs)
  have "dlink (quetab s) (xs @ [e])" and n: "qnext (quetab s x) = hd (xs @ [e])"
    using Cons.prems(1) by (cases xs; simp)+
  then have "insert_scan s k (hd (xs @ [e])) = Some (hd (dropWhile (\<lambda>x. qkey (quetab s x) \<ge> k) xs @ [e]))"
    using Cons.prems by (intro Cons.IH) auto
  then show ?case
    using Cons.prems n by (subst insert_scan.simps) (auto simp: qrd_def)
qed

lemma insert_spec:
  assumes s: "qsys H (quetab s) A" and q: "q \<in> H" and t: "\<not> isbadtid t s"
    and new: "\<And>r. r \<in> H \<Longrightarrow> t \<notin> set (A r)" and k: "MINKEY < k"
  shows "\<exists>qt. insert_k t q k s = Some (OK, s\<lparr>quetab := qt\<rparr>)
     \<and> qsys H qt (A(q := ins_desc (\<lambda>x. qkey (quetab s x)) k t (A q)))
     \<and> (\<forall>i. qkey (qt i) = (if i = t then k else qkey (quetab s i)))"
proof -
  let ?P = "\<lambda>x. qkey (quetab s x) \<ge> k"
  define xs ys where "xs = takeWhile ?P (A q)" and "ys = dropWhile ?P (A q)"
  define p n where "p = last (q # xs)" and "n = hd (ys @ [q + 1])"
  have A: "A q = xs @ ys" by (simp add: xs_def ys_def)
  have r: "0 \<le> t" "t < NTHREAD" using t by (auto simp: isbadtid_def)
  note qd = qsysD [OF s q] and b = qsys_between [OF s q A p_def n_def r new]
  have dl: "dlink (quetab s) (A q @ [q + 1])"
    using qd(1) by (cases "A q") (simp_all add: isq_def)
  have scan: "insert_scan s k (qnext (quetab s q)) = Some n"
    using insert_scan_dlink [OF dl, of k] qd qsys_first [OF s q] k
    by (simp add: isq_def n_def ys_def)
  let ?qt = "(qlink p t n (quetab s))(t := (qlink p t n (quetab s) t)\<lparr>qkey := k\<rparr>)"
  have "insert_k t q k s = Some (OK, s\<lparr>quetab := ?qt\<rparr>)"
    using b(1-9) isbadqid_head [OF s q] t r qd(2,3)
    by (auto simp: insert_k_def qrd_def qwr_def qlink_def Let_def fun_eq_iff scan)
  moreover have "qsys H ?qt (A(q := xs @ t # ys))"
    by (rule qsys_keys [OF b(10)]) (use r in auto)
  ultimately show ?thesis
    by (intro exI [of _ ?qt]) (simp add: ins_desc_def xs_def ys_def)
qed

subsection \<open>Insertion into a delta queue\<close>

text \<open>
  In a delta queue the key of a thread is its delay after the thread in front of it.
  \<open>deltas\<close> reads a queue with its keys, \<open>dinsert\<close> is the insertion on such lists.
\<close>

definition deltas :: "(int \<Rightarrow> queent) \<Rightarrow> tid_typ list \<Rightarrow> (tid_typ \<times> int) list" where
  "deltas qt xs = map (\<lambda>t. (t, qkey (qt t))) xs"

fun dinsert :: "tid_typ \<Rightarrow> int \<Rightarrow> (tid_typ \<times> int) list \<Rightarrow> (tid_typ \<times> int) list" where
  "dinsert t k [] = [(t, k)]"
| "dinsert t k ((u, d) # r) = (if d \<le> k then (u, d) # dinsert t (k - d) r else (t, k) # (u, d - k) # r)"

text \<open>The split point the loop finds, and the key that is left there.\<close>

fun dscan :: "(tid_typ \<Rightarrow> int) \<Rightarrow> int \<Rightarrow> tid_typ list \<Rightarrow> tid_typ list \<times> tid_typ list \<times> int" where
  "dscan kf k [] = ([], [], k)"
| "dscan kf k (x # xs) = (if kf x \<le> k
     then (let (a, b, k') = dscan kf (k - kf x) xs in (x # a, b, k')) else ([], x # xs, k))"

lemma dscan_props:
  "dscan kf k xs = (a, b, k') \<Longrightarrow> 0 \<le> k \<Longrightarrow> k \<le> M \<Longrightarrow> \<forall>x\<in>set xs. 0 \<le> kf x \<Longrightarrow>
   xs = a @ b \<and> 0 \<le> k' \<and> k' \<le> M \<and> (b \<noteq> [] \<longrightarrow> k' < kf (hd b))
   \<and> dinsert t k (map (\<lambda>x. (x, kf x)) xs)
     = map (\<lambda>x. (x, kf x)) a @ (t, k') # (case b of [] \<Rightarrow> [] | y # c \<Rightarrow> (y, kf y - k') # map (\<lambda>x. (x, kf x)) c)"
proof (induction xs arbitrary: k a b k')
  case Nil
  then show ?case by simp
next
  case (Cons x xs)
  show ?case
  proof (cases "kf x \<le> k")
    case True
    obtain a2 b2 k2 where d: "dscan kf (k - kf x) xs = (a2, b2, k2)" by (metis prod_cases3)
    have "a = x # a2" "b = b2" "k' = k2" using Cons.prems(1) True d by auto
    then show ?thesis using Cons.IH [OF d] Cons.prems(2-4) True by auto
  next
    case False
    then show ?thesis using Cons.prems by auto
  qed
qed

lemma insertd_scan_dlink:
  assumes "dlink (quetab s) (p # xs @ [q + 1])" and "set xs \<subseteq> {0..<NTHREAD}" and "NTHREAD \<le> q"
    and "q + 1 < NQENT" and "0 \<le> k" and "k \<le> MAXKEY" and "\<forall>x\<in>set xs. 0 \<le> qkey (quetab s x)"
    and "dscan (\<lambda>x. qkey (quetab s x)) k xs = (a, b, k')"
  shows "insertd_scan s q p (hd (xs @ [q + 1])) k = Some (last (p # a), hd (b @ [q + 1]), k')"
  using assms
proof (induction xs arbitrary: p k a)
  case Nil
  then show ?case by (subst insertd_scan.simps) (simp add: qrd_def)
next
  case (Cons x xs)
  have d: "dlink (quetab s) (x # xs @ [q + 1])" and n: "qnext (quetab s x) = hd (xs @ [q + 1])"
    using Cons.prems(1) by (cases xs; simp)+
  show ?case
  proof (cases "qkey (quetab s x) \<le> k")
    case True
    obtain a2 b2 k2 where d2: "dscan (\<lambda>x. qkey (quetab s x)) (k - qkey (quetab s x)) xs = (a2, b2, k2)"
      by (metis prod_cases3)
    have ab: "a = x # a2" "b = b2" "k' = k2" using Cons.prems(8) True d2 by auto
    have "insertd_scan s q x (hd (xs @ [q + 1])) (k - qkey (quetab s x))
        = Some (last (x # a2), hd (b @ [q + 1]), k')"
      using Cons.prems True d d2 ab by (intro Cons.IH) auto
    then show ?thesis
      using Cons.prems True n ab by (subst insertd_scan.simps) (auto simp: qrd_def)
  next
    case False
    then show ?thesis
      using Cons.prems by (subst insertd_scan.simps) (auto simp: qrd_def)
  qed
qed

lemma insertd_spec:
  assumes s: "qsys H (quetab s) A" and q: "q \<in> H" and t: "\<not> isbadtid t s"
    and new: "\<And>r. r \<in> H \<Longrightarrow> t \<notin> set (A r)" and k: "0 \<le> k" "k \<le> MAXKEY"
    and keys: "\<forall>x\<in>set (A q). 0 \<le> qkey (quetab s x) \<and> qkey (quetab s x) \<le> MAXKEY"
  shows "\<exists>qt B. insertd t q k s = Some (OK, s\<lparr>quetab := qt\<rparr>) \<and> qsys H qt (A(q := B))
     \<and> deltas qt B = dinsert t k (deltas (quetab s) (A q))
     \<and> (\<forall>i. i \<notin> set B \<longrightarrow> qkey (qt i) = qkey (quetab s i))"
proof -
  let ?kf = "\<lambda>x. qkey (quetab s x)"
  obtain xs ys k' where sc: "dscan ?kf k (A q) = (xs, ys, k')" by (metis prod_cases3)
  define p n where "p = last (q # xs)" and "n = hd (ys @ [q + 1])"
  have dp: "A q = xs @ ys \<and> 0 \<le> k' \<and> k' \<le> MAXKEY \<and> (ys \<noteq> [] \<longrightarrow> k' < ?kf (hd ys))
    \<and> dinsert t k (map (\<lambda>x. (x, ?kf x)) (A q)) = map (\<lambda>x. (x, ?kf x)) xs @ (t, k')
      # (case ys of [] \<Rightarrow> [] | y # c \<Rightarrow> (y, ?kf y - k') # map (\<lambda>x. (x, ?kf x)) c)"
    using keys by (intro dscan_props [OF sc k]) auto
  then have A: "A q = xs @ ys" and k': "0 \<le> k'" "k' \<le> MAXKEY" by simp_all
  have r: "0 \<le> t" "t < NTHREAD" using t by (auto simp: isbadtid_def)
  note qd = qsysD [OF s q] and b = qsys_between [OF s q A p_def n_def r new]
  have scan: "insertd_scan s q q (qnext (quetab s q)) k = Some (p, n, k')"
    using insertd_scan_dlink [of s q "A q" q k xs ys k'] qd qsys_first [OF s q] k keys sc
    by (simp add: isq_def p_def n_def)
  let ?q1 = "(qlink p t n (quetab s))(t := (qlink p t n (quetab s) t)\<lparr>qkey := k'\<rparr>)"
  let ?q2 = "if n = q + 1 then ?q1 else ?q1(n := (?q1 n)\<lparr>qkey := ?kf n - k'\<rparr>)"
  have nk: "n \<noteq> q + 1 \<Longrightarrow> n \<in> set (A q) \<and> n = hd ys \<and> ys \<noteq> []"
    using A by (auto simp: n_def hd_append split: if_splits)
  have ok: "ck (?kf n - k') = Some (?kf n - k')" if "n \<noteq> q + 1"
  proof (rule ck_Some)
    have "k' < ?kf n" "?kf n \<le> MAXKEY" using nk [OF that] dp keys by auto
    then show "MINKEY \<le> ?kf n - k'" "?kf n - k' \<le> MAXKEY" using k' by auto
  qed
  have "insertd t q k s = Some (OK, s\<lparr>quetab := ?q2\<rparr>)"
    using b(1-9) isbadqid_head [OF s q] t r qd(2,3) ok
    by (auto simp: insertd_def qrd_def qwr_def qlink_def Let_def fun_eq_iff scan)
  moreover have "qsys H ?q2 (A(q := xs @ t # ys))"
  proof (rule qsys_keys [OF b(10)])
    show "qnext (?q2 i) = qnext (qlink p t n (quetab s) i) \<and> qprev (?q2 i) = qprev (qlink p t n (quetab s) i)" for i
      by auto
    show "qkey (?q2 i) = qkey (qlink p t n (quetab s) i)" if "NTHREAD \<le> i" for i
      using that r nk qsys_thread_range [OF s q, of n] by auto
  qed
  moreover have "deltas ?q2 (xs @ t # ys) = dinsert t k (deltas (quetab s) (A q))"
  proof -
    have d: "distinct (xs @ ys)" "q + 1 \<notin> set (xs @ ys)" "t \<notin> set (xs @ ys)"
      using qd(1,2) A new [OF q] by (auto simp: isq_def)
    then show ?thesis
      using dp b(6) by (cases ys) (auto simp: deltas_def n_def)
  qed
  moreover have "\<forall>i. i \<notin> set (xs @ t # ys) \<longrightarrow> qkey (?q2 i) = qkey (quetab s i)"
    using nk A by auto
  ultimately show ?thesis by blast
qed

text \<open>Delays counted from a start \<open>c\<close>, and what an insertion does to them.\<close>

fun dtimes :: "int \<Rightarrow> (tid_typ \<times> int) list \<Rightarrow> (tid_typ \<times> int) list" where
  "dtimes c [] = []"
| "dtimes c ((t, d) # r) = (t, c + d) # dtimes (c + d) r"

lemma dtimes_ge: "\<forall>(u, d)\<in>set ds. 0 \<le> d \<Longrightarrow> (u, w) \<in> set (dtimes c ds) \<Longrightarrow> c \<le> w"
  by (induction c ds rule: dtimes.induct) force+

lemma dtimes_shift: "dtimes (c + e) ds = map (\<lambda>(u, w). (u, w + e)) (dtimes c ds)"
  by (induction c ds rule: dtimes.induct) (simp_all add: ac_simps)

lemma map_fst_dtimes [simp]: "map fst (dtimes c ds) = map fst ds"
  by (induction c ds rule: dtimes.induct) auto

lemma dinsert_times:
  "0 \<le> k \<Longrightarrow> \<forall>(u, d)\<in>set ds. 0 \<le> d \<Longrightarrow>
   dtimes c (dinsert t k ds) = takeWhile (\<lambda>(u, w). w \<le> c + k) (dtimes c ds) @ (t, c + k)
     # dropWhile (\<lambda>(u, w). w \<le> c + k) (dtimes c ds)"
proof (induction t k ds arbitrary: c rule: dinsert.induct)
  case (1 t k)
  then show ?case by simp
next
  case (2 t k u d r)
  then show ?case by (cases "d \<le> k") (auto simp: add.assoc)
qed

lemma dinsert_nonneg:
  "0 \<le> k \<Longrightarrow> \<forall>(u, d)\<in>set ds. 0 \<le> d \<Longrightarrow> \<forall>(u, d)\<in>set (dinsert t k ds). 0 \<le> d"
  by (induction t k ds rule: dinsert.induct) auto

lemma dinsert_sum:
  "0 \<le> k \<Longrightarrow> \<forall>(u, d)\<in>set ds. 0 \<le> d \<Longrightarrow>
   sum_list (map snd (dinsert t k ds)) = max k (sum_list (map snd ds))"
proof (induction t k ds rule: dinsert.induct)
  case (1 t k)
  then show ?case by simp
next
  case (2 t k u d r)
  have "0 \<le> sum_list (map snd r)" using "2.prems" by (intro sum_list_nonneg) auto
  then show ?case using 2 by (cases "d \<le> k") auto
qed

lemma dinsert_fst: "mset (map fst (dinsert t k ds)) = add_mset t (mset (map fst ds))"
  by (induction t k ds rule: dinsert.induct) auto

subsection \<open>Creating a queue\<close>

lemma queinit_spec:
  assumes s: "qsys H (quetab s) A" and n: "even (nextqid s)" "NTHREAD \<le> nextqid s"
    "nextqid s + 1 < NQENT" and new: "nextqid s \<notin> H"
  shows "\<exists>qt. queinit s = Some (nextqid s, s\<lparr>nextqid := nextqid s + 2, quetab := qt\<rparr>)
     \<and> qsys (insert (nextqid s) H) qt (A(nextqid s := []))"
proof -
  let ?q = "nextqid s"
  let ?qt = "(quetab s)(?q := \<lparr>qkey = MAXKEY, qnext = ?q + 1, qprev = EMPTY\<rparr>,
     ?q + 1 := \<lparr>qkey = MINKEY, qnext = EMPTY, qprev = ?q\<rparr>)"
  have "queinit s = Some (?q, s\<lparr>nextqid := ?q + 2, quetab := ?qt\<rparr>)"
    using n by (auto simp: queinit_def qwr_def Let_def fun_eq_iff)
  moreover have "isq ?qt r (A r)" if r: "r \<in> H" for r
  proof (rule isq_frame [OF qsysD(1) [OF s r]])
    have "even r" "NTHREAD \<le> r" using qsysD [OF s r] by auto
    then have "r \<noteq> ?q" "r \<noteq> ?q + 1" "r + 1 \<noteq> ?q" "r + 1 \<noteq> ?q + 1"
      using new r n(1) by (auto, presburger+)
    then show "?qt r = quetab s r" "?qt (r + 1) = quetab s (r + 1)"
      using n by auto
    show "qnext (?qt x) = qnext (quetab s x) \<and> qprev (?qt x) = qprev (quetab s x)"
      if "x \<in> set (A r)" for x
      using qsys_thread_range [OF s r that] n by auto
  qed
  moreover have "isq ?qt ?q []" by (simp add: isq_def)
  ultimately show ?thesis
    using s n new by (intro exI [of _ ?qt]) (auto simp: qsys_def heads_ok_def)
qed

section \<open>The interfaces the clients use\<close>

text \<open>
  Semaphores use a queue first in, first out; the scheduler uses one by priority. Both
  uses are stated as locales over the contents of the queue, with what follows from
  the laws, and interpreted on the operations above.
\<close>

fun enq_list :: "('t \<Rightarrow> 's \<Rightarrow> ('t \<times> 's) option) \<Rightarrow> 't list \<Rightarrow> 's \<Rightarrow> 's option" where
  "enq_list enq [] s = Some s"
| "enq_list enq (t # ts) s = do { (_, s) \<leftarrow> enq t s; enq_list enq ts s }"

fun deq_list :: "('s \<Rightarrow> ('t \<times> 's) option) \<Rightarrow> nat \<Rightarrow> 's \<Rightarrow> ('t list \<times> 's) option" where
  "deq_list deq 0 s = Some ([], s)"
| "deq_list deq (Suc n) s = do { (t, s) \<leftarrow> deq s; (ts, s) \<leftarrow> deq_list deq n s; Some (t # ts, s) }"

locale deq_queue =
  fixes inv :: "'s \<Rightarrow> bool"
    and contents :: "'s \<Rightarrow> 't list"
    and deq :: "'s \<Rightarrow> ('t \<times> 's) option"
  assumes deq_law: "inv s \<Longrightarrow> contents s = t # ts \<Longrightarrow>
      \<exists>s'. deq s = Some (t, s') \<and> inv s' \<and> contents s' = ts"
begin

lemma drain:
  "inv s \<Longrightarrow> contents s = xs @ ys \<Longrightarrow>
   \<exists>s'. deq_list deq (length xs) s = Some (xs, s') \<and> inv s' \<and> contents s' = ys"
proof (induction xs arbitrary: s)
  case Nil
  then show ?case by simp
next
  case (Cons x xs)
  then obtain s1 where "deq s = Some (x, s1)" "inv s1" "contents s1 = xs @ ys"
    using deq_law [of s x "xs @ ys"] by auto
  then show ?case using Cons.IH [of s1] by auto
qed

end

locale fifo_queue = deq_queue inv contents deq
  for inv :: "'s \<Rightarrow> bool" and contents :: "'s \<Rightarrow> 't list" and deq :: "'s \<Rightarrow> ('t \<times> 's) option" +
  fixes may :: "'t \<Rightarrow> 's \<Rightarrow> bool"
    and enq :: "'t \<Rightarrow> 's \<Rightarrow> ('t \<times> 's) option"
  assumes enq_law: "inv s \<Longrightarrow> may t s \<Longrightarrow>
      \<exists>s'. enq t s = Some (t, s') \<and> inv s' \<and> contents s' = contents s @ [t]
        \<and> (\<forall>u. u \<noteq> t \<longrightarrow> may u s \<longrightarrow> may u s')"
begin

lemma fill:
  "inv s \<Longrightarrow> distinct ts \<Longrightarrow> \<forall>t\<in>set ts. may t s \<Longrightarrow>
   \<exists>s'. enq_list enq ts s = Some s' \<and> inv s' \<and> contents s' = contents s @ ts"
proof (induction ts arbitrary: s)
  case Nil
  then show ?case by simp
next
  case (Cons t ts)
  then obtain s1 where s1: "enq t s = Some (t, s1)" "inv s1" "contents s1 = contents s @ [t]"
    and m: "\<forall>u. u \<noteq> t \<longrightarrow> may u s \<longrightarrow> may u s1"
    using enq_law [of s t] by auto
  have "\<forall>u\<in>set ts. may u s1" using m Cons.prems by auto
  then show ?case using Cons.IH [of s1] s1 Cons.prems(2) by auto
qed

lemma fill_drain:
  assumes "inv s" and "distinct ts" and "\<forall>t\<in>set ts. may t s"
  shows "\<exists>s1 s2. enq_list enq ts s = Some s1
     \<and> deq_list deq (length (contents s @ ts)) s1 = Some (contents s @ ts, s2) \<and> contents s2 = []"
proof -
  obtain s1 where "enq_list enq ts s = Some s1" "inv s1" "contents s1 = contents s @ ts"
    using fill [OF assms] by blast
  then show ?thesis using drain [of s1 "contents s @ ts" "[]"] by auto
qed

end

fun ins_list :: "('t \<Rightarrow> int \<Rightarrow> 's \<Rightarrow> (int \<times> 's) option) \<Rightarrow> ('t \<times> int) list \<Rightarrow> 's \<Rightarrow> 's option" where
  "ins_list ins [] s = Some s"
| "ins_list ins ((t, k) # r) s = do { (_, s) \<leftarrow> ins t k s; ins_list ins r s }"

lemma sort_key_snoc:
  fixes f :: "'a \<Rightarrow> int"
  shows "sort_key f (xs @ [x])
     = takeWhile (\<lambda>y. f y \<le> f x) (sort_key f xs) @ x # dropWhile (\<lambda>y. f y \<le> f x) (sort_key f xs)"
proof -
  let ?s = "sort_key f xs"
  let ?a = "takeWhile (\<lambda>y. f y \<le> f x) ?s" and ?b = "dropWhile (\<lambda>y. f y \<le> f x) ?s"
  have ab: "?a @ ?b = ?s" by (rule takeWhile_dropWhile_id)
  have lo: "f y \<le> f x" if "y \<in> set ?a" for y using that by (rule set_takeWhileD [THEN conjunct2])
  have srt: "sorted (map f ?s)" by (rule sorted_sort_key)
  have hi: "f x < f y" if "y \<in> set ?b" for y
    using srt that by (rule sorted_dropWhile_gt)
  have "sort_key f (xs @ [x]) = ?a @ x # ?b"
  proof (rule properties_for_sort_key)
    show "mset (?a @ x # ?b) = mset (xs @ [x])"
      by (metis ab mset_append mset_sort mset.simps(1,2) union_mset_add_mset_right add_mset_add_single)
    have "sorted (map f ?a)" "sorted (map f ?b)"
      using srt ab by (metis map_append sorted_append)+
    then show "sorted (map f (?a @ x # ?b))"
      using lo hi by (fastforce simp: sorted_append intro: less_imp_le order_trans)
    show "filter (\<lambda>y. f k = f y) (?a @ x # ?b) = filter (\<lambda>y. f k = f y) (xs @ [x])"
      if "k \<in> set (?a @ x # ?b)" for k
    proof -
      have "filter (\<lambda>y. f k = f y) ?s = filter (\<lambda>y. f k = f y) xs"
        using sort_key_stable [of f "f k" xs] by (simp add: eq_commute)
      then have "filter (\<lambda>y. f k = f y) ?a @ filter (\<lambda>y. f k = f y) ?b = filter (\<lambda>y. f k = f y) xs"
        using ab by (metis filter_append)
      moreover have "f k = f x \<Longrightarrow> filter (\<lambda>y. f k = f y) ?b = []"
        using hi by (fastforce simp: filter_empty_conv)
      ultimately show ?thesis by (cases "f k = f x") auto
    qed
  qed
  then show ?thesis .
qed

locale prio_queue = deq_queue inv contents deq
  for inv :: "'s \<Rightarrow> bool" and contents :: "'s \<Rightarrow> 't list" and deq :: "'s \<Rightarrow> ('t \<times> 's) option" +
  fixes may :: "'t \<Rightarrow> 's \<Rightarrow> bool"
    and key :: "'s \<Rightarrow> 't \<Rightarrow> int"
    and low :: int
    and ins :: "'t \<Rightarrow> int \<Rightarrow> 's \<Rightarrow> (int \<times> 's) option"
  assumes ins_law: "inv s \<Longrightarrow> may t s \<Longrightarrow> low < k \<Longrightarrow>
      \<exists>s'. ins t k s = Some (OK, s') \<and> inv s' \<and> key s' = (key s)(t := k)
        \<and> contents s' = takeWhile (\<lambda>x. key s x \<ge> k) (contents s) @ t
            # dropWhile (\<lambda>x. key s x \<ge> k) (contents s)
        \<and> (\<forall>u. u \<noteq> t \<longrightarrow> may u s \<longrightarrow> may u s')"
begin

lemma fill_sorted:
  "inv s \<Longrightarrow> distinct (map fst (xs @ ps)) \<Longrightarrow> \<forall>(t, k)\<in>set ps. may t s \<and> low < k \<Longrightarrow>
   \<forall>(t, k)\<in>set xs. key s t = k \<Longrightarrow> contents s = map fst (sort_key (\<lambda>p. - snd p) xs) \<Longrightarrow>
   \<exists>s'. ins_list ins ps s = Some s' \<and> inv s' \<and> contents s' = map fst (sort_key (\<lambda>p. - snd p) (xs @ ps))"
proof (induction ps arbitrary: s xs)
  case Nil
  then show ?case by simp
next
  case (Cons p ps)
  obtain t k where p: "p = (t, k)" by (cases p)
  let ?L = "sort_key (\<lambda>p. - snd p) xs"
  obtain s1 where s1: "ins t k s = Some (OK, s1)" "inv s1" "key s1 = (key s)(t := k)"
    and c: "contents s1 = takeWhile (\<lambda>x. key s x \<ge> k) (contents s) @ t
        # dropWhile (\<lambda>x. key s x \<ge> k) (contents s)"
    and m: "\<forall>u. u \<noteq> t \<longrightarrow> may u s \<longrightarrow> may u s1"
    using ins_law [of s t k] Cons.prems(1,3) p by auto
  have ky: "key s (fst q) = snd q" if "q \<in> set ?L" for q
    using Cons.prems(4) that by auto
  have "takeWhile (\<lambda>x. key s x \<ge> k) (map fst ?L) = map fst (takeWhile (\<lambda>q. - snd q \<le> - k) ?L)"
    unfolding takeWhile_map by (intro arg_cong [of _ _ "map fst"] takeWhile_cong) (auto simp: ky)
  moreover have "dropWhile (\<lambda>x. key s x \<ge> k) (map fst ?L) = map fst (dropWhile (\<lambda>q. - snd q \<le> - k) ?L)"
    unfolding dropWhile_map by (intro arg_cong [of _ _ "map fst"] dropWhile_cong) (auto simp: ky)
  ultimately have "contents s1 = map fst (sort_key (\<lambda>p. - snd p) (xs @ [(t, k)]))"
    using c Cons.prems(5) by (simp only: sort_key_snoc snd_conv map_append list.map fst_conv)
  moreover have "t \<notin> fst ` set ps" "t \<notin> fst ` set xs" using Cons.prems(2) p by auto
  ultimately have "\<exists>s'. ins_list ins ps s1 = Some s' \<and> inv s'
      \<and> contents s' = map fst (sort_key (\<lambda>p. - snd p) ((xs @ [(t, k)]) @ ps))"
  proof (intro Cons.IH)
    show "\<forall>(u, j)\<in>set ps. may u s1 \<and> low < j"
      using Cons.prems(3) m \<open>t \<notin> fst ` set ps\<close> by (fastforce simp: image_iff)
    show "\<forall>(u, j)\<in>set (xs @ [(t, k)]). key s1 u = j"
      using Cons.prems(4) s1(3) \<open>t \<notin> fst ` set xs\<close> by (fastforce simp: image_iff)
  qed (use Cons.prems(2) p s1(2) in auto)
  then show ?case using s1 p by simp
qed

text \<open>Threads leave in the stable order of descending priority.\<close>

lemma fill_drain_sorted:
  assumes "inv s" and "contents s = []" and "distinct (map fst ps)"
    and "\<forall>(t, k)\<in>set ps. may t s \<and> low < k"
  shows "\<exists>s1 s2. ins_list ins ps s = Some s1
     \<and> deq_list deq (length ps) s1 = Some (map fst (sort_key (\<lambda>p. - snd p) ps), s2)"
proof -
  obtain s1 where s1: "ins_list ins ps s = Some s1" "inv s1"
      "contents s1 = map fst (sort_key (\<lambda>p. - snd p) ps)"
    using fill_sorted [of s "[]" ps] assms by auto
  then show ?thesis
    using drain [of s1 "map fst (sort_key (\<lambda>p. - snd p) ps)" "[]"] by auto
qed

end

text \<open>
  The operations of the kernel satisfy the laws, for any system of queues \<open>H\<close> and any
  queue \<open>q\<close> of it. A thread may be put into a queue when it exists and is in no queue.
\<close>

definition queues_ok :: "qid_typ set \<Rightarrow> kernel \<Rightarrow> bool" where
  "queues_ok H s \<longleftrightarrow> qsys H (quetab s) (queue_of (quetab s))"

definition unqueued :: "qid_typ set \<Rightarrow> tid_typ \<Rightarrow> kernel \<Rightarrow> bool" where
  "unqueued H t s \<longleftrightarrow> \<not> isbadtid t s \<and> (\<forall>q\<in>H. t \<notin> set (queue_of (quetab s) q))"

lemma unqueued_upd:
  assumes "qsys H qt A" and "\<And>r. r \<in> H \<Longrightarrow> set (A r) \<subseteq> insert t (set (queue_of (quetab s) r))"
    and "unqueued H u s" and "u \<noteq> t"
  shows "unqueued H u (s\<lparr>quetab := qt\<rparr>)"
  using assms by (fastforce simp: unqueued_def isbadtid_def qsysD(5))

lemma queues_okI: "qsys H qt A \<Longrightarrow> queues_ok H (s\<lparr>quetab := qt\<rparr>)"
  by (simp add: queues_ok_def qsys_queue_of)

interpretation thread_deq: deq_queue "\<lambda>s. queues_ok H s \<and> q \<in> H" "\<lambda>s. queue_of (quetab s) q" "dequeue q"
  for H q
proof
  fix s t ts
  assume s: "queues_ok H s \<and> q \<in> H" and c: "queue_of (quetab s) q = t # ts"
  then obtain qt where "dequeue q s = Some (t, s\<lparr>quetab := qt\<rparr>)"
      and q: "qsys H qt ((queue_of (quetab s))(q := ts))"
    using dequeue_spec [of H s "queue_of (quetab s)" q t ts] by (auto simp: queues_ok_def)
  then show "\<exists>s'. dequeue q s = Some (t, s') \<and> (queues_ok H s' \<and> q \<in> H) \<and> queue_of (quetab s') q = ts"
    using s queues_okI [OF q] qsysD(5) [OF q, of q] by auto
qed

interpretation thread_fifo: fifo_queue "\<lambda>s. queues_ok H s \<and> q \<in> H" "\<lambda>s. queue_of (quetab s) q"
    "dequeue q" "unqueued H" "\<lambda>t. enqueue t q" for H q
proof unfold_locales
  fix s t
  assume s: "queues_ok H s \<and> q \<in> H" and t: "unqueued H t s"
  then obtain qt where e: "enqueue t q s = Some (t, s\<lparr>quetab := qt\<rparr>)"
      and q: "qsys H qt ((queue_of (quetab s))(q := queue_of (quetab s) q @ [t]))"
    using enqueue_spec [of H s "queue_of (quetab s)" q t] by (auto simp: queues_ok_def unqueued_def)
  have "unqueued H u (s\<lparr>quetab := qt\<rparr>)" if "u \<noteq> t" "unqueued H u s" for u
    by (rule unqueued_upd [OF q _ that(2,1)]) auto
  then show "\<exists>s'. enqueue t q s = Some (t, s') \<and> (queues_ok H s' \<and> q \<in> H)
      \<and> queue_of (quetab s') q = queue_of (quetab s) q @ [t]
      \<and> (\<forall>u. u \<noteq> t \<longrightarrow> unqueued H u s \<longrightarrow> unqueued H u s')"
    using s e queues_okI [OF q] qsysD(5) [OF q, of q] by auto
qed

interpretation thread_prio: prio_queue "\<lambda>s. queues_ok H s \<and> q \<in> H" "\<lambda>s. queue_of (quetab s) q"
    "dequeue q" "unqueued H" "\<lambda>s t. qkey (quetab s t)" MINKEY "\<lambda>t. insert_k t q" for H q
proof unfold_locales
  fix s t k
  assume s: "queues_ok H s \<and> q \<in> H" and t: "unqueued H t s" and k: "MINKEY < (k :: int)"
  then obtain qt where e: "insert_k t q k s = Some (OK, s\<lparr>quetab := qt\<rparr>)"
      and q: "qsys H qt ((queue_of (quetab s))(q := ins_desc (\<lambda>x. qkey (quetab s x)) k t (queue_of (quetab s) q)))"
      and ky: "\<forall>i. qkey (qt i) = (if i = t then k else qkey (quetab s i))"
    using insert_spec [of H s "queue_of (quetab s)" q t k] by (auto simp: queues_ok_def unqueued_def)
  have "unqueued H u (s\<lparr>quetab := qt\<rparr>)" if "u \<noteq> t" "unqueued H u s" for u
    by (rule unqueued_upd [OF q _ that(2,1)]) auto
  then show "\<exists>s'. insert_k t q k s = Some (OK, s') \<and> (queues_ok H s' \<and> q \<in> H)
      \<and> (\<lambda>u. qkey (quetab s' u)) = (\<lambda>u. qkey (quetab s u))(t := k)
      \<and> queue_of (quetab s') q = takeWhile (\<lambda>x. qkey (quetab s x) \<ge> k) (queue_of (quetab s) q) @ t
          # dropWhile (\<lambda>x. qkey (quetab s x) \<ge> k) (queue_of (quetab s) q)
      \<and> (\<forall>u. u \<noteq> t \<longrightarrow> unqueued H u s \<longrightarrow> unqueued H u s')"
    using s e queues_okI [OF q] qsysD(5) [OF q, of q] ky by (auto simp: ins_desc_def fun_eq_iff)
qed

end
