(* ===== verification/Xinu_Sched.thy ===== *)
theory Xinu_Sched
  imports Xinu_Queue
begin

text \<open>
  The scheduler: \<^verbatim>\<open>system/resched.c\<close>, \<^verbatim>\<open>ready.c\<close>, \<^verbatim>\<open>resume.c\<close>,
  \<^verbatim>\<open>suspend.c\<close>, \<^verbatim>\<open>yield.c\<close>, \<^verbatim>\<open>chprio.c\<close>, \<^verbatim>\<open>getprio.c\<close>
  and \<^verbatim>\<open>gettid.c\<close>, with the invariant that ties the state of every thread to the
  queue it is in, and the proof that rescheduling keeps it.

  A call of \<^verbatim>\<open>resched\<close> may hand the processor to another thread. The model of a
  system call ends where its thread loses the processor; what the source does after
  \<^verbatim>\<open>resched\<close> runs at once if the thread still has the processor, and otherwise when
  the thread is next dispatched. Where only the interrupt mask is restored after the
  switch, \<open>ret_restore\<close> says so and the call's value is the one the thread will get;
  where more is done, the call returns a value of type \<open>'a call\<close> and the rest is a
  function of its own.
\<close>

section \<open>The operations\<close>

datatype 'a call = Returned 'a | Switched

definition ret_restore :: "tid_typ \<Rightarrow> irqmask \<Rightarrow> kernel \<Rightarrow> kernel" where
  "ret_restore me im s = (if thrcurrent s = me then restore im s else s)"

text \<open>
  The second half of \<^verbatim>\<open>resched\<close>: take the first ready thread and give it the
  processor and its saved interrupt mask. \<^verbatim>\<open>ctxsw\<close> changes the stack; the thread
  that is resumed restores the same mask again.
\<close>

definition resched_switch :: "kernel \<Rightarrow> (int \<times> kernel) option" where
  "resched_switch s = do {
     (tid, s) \<leftarrow> dequeue (readylist s) s;
     let s = s\<lparr>thrcurrent := tid\<rparr>;
     s \<leftarrow> twr tid (tstate_update (\<lambda>_. THRCURR)) s;
     thrnew \<leftarrow> trd tid s;
     Some (OK, restore (intmask thrnew) s)
   }"

definition resched :: "kernel \<Rightarrow> (int \<times> kernel) option" where
  "resched s =
     (if resdefer s > 0
      then do { r \<leftarrow> ck (resdefer s + 1); Some (OK, s\<lparr>resdefer := r\<rparr>) }
      else do {
        let old = thrcurrent s;
        let (im, s) = disable s;
        s \<leftarrow> twr old (intmask_update (\<lambda>_. im)) s;
        throld \<leftarrow> trd old s;
        if tstate throld = THRCURR
        then do {
          b \<leftarrow> nonempty (readylist s) s;
          keep \<leftarrow> (if b then do { k \<leftarrow> firstkey (readylist s) s; Some (prio throld > k) }
                   else Some False);
          if keep then Some (OK, restore (intmask throld) s)
          else do {
            s \<leftarrow> twr old (tstate_update (\<lambda>_. THRREADY)) s;
            (_, s) \<leftarrow> insert_k old (readylist s) (prio throld) s;
            resched_switch s
          }
        }
        else resched_switch s
      })"

definition ready :: "tid_typ \<Rightarrow> bool \<Rightarrow> kernel \<Rightarrow> (int \<times> kernel) option" where
  "ready tid resch s =
     (if isbadtid tid s then Some (SYSERR, s)
      else do {
        s \<leftarrow> twr tid (tstate_update (\<lambda>_. THRREADY)) s;
        thrptr \<leftarrow> trd tid s;
        (_, s) \<leftarrow> insert_k tid (readylist s) (prio thrptr) s;
        if resch then do { (_, s) \<leftarrow> resched s; Some (OK, s) } else Some (OK, s)
      })"

definition yield :: "kernel \<Rightarrow> (int \<times> kernel) option" where
  "yield s = do {
     let me = thrcurrent s;
     let (im, s) = disable s;
     (_, s) \<leftarrow> resched s;
     Some (OK, ret_restore me im s)
   }"

definition resume :: "tid_typ \<Rightarrow> kernel \<Rightarrow> (int \<times> kernel) option" where
  "resume tid s = do {
     let me = thrcurrent s;
     let (im, s) = disable s;
     if isbadtid tid s \<or> tstate (thrtab s tid) \<noteq> THRSUSP
     then Some (SYSERR, restore im s)
     else do {
       let pr = prio (thrtab s tid);
       (_, s) \<leftarrow> ready tid True s;
       Some (pr, ret_restore me im s)
     }
   }"

text \<open>After the switch \<^verbatim>\<open>suspend\<close> reads the priority of the suspended thread.\<close>

definition suspend_rest :: "tid_typ \<Rightarrow> irqmask \<Rightarrow> kernel \<Rightarrow> int \<times> kernel" where
  "suspend_rest tid im s = (prio (thrtab s tid), restore im s)"

definition suspend :: "tid_typ \<Rightarrow> kernel \<Rightarrow> (int call \<times> kernel) option" where
  "suspend tid s = do {
     let me = thrcurrent s;
     let (im, s) = disable s;
     if isbadtid tid s \<or> tid = NULLTHREAD then Some (Returned SYSERR, restore im s)
     else if tstate (thrtab s tid) \<noteq> THRCURR \<and> tstate (thrtab s tid) \<noteq> THRREADY
     then Some (Returned SYSERR, restore im s)
     else if tstate (thrtab s tid) = THRREADY
     then do {
       (_, s) \<leftarrow> getitem tid s;
       s \<leftarrow> twr tid (tstate_update (\<lambda>_. THRSUSP)) s;
       let (p, s) = suspend_rest tid im s;
       Some (Returned p, s)
     }
     else do {
       s \<leftarrow> twr tid (tstate_update (\<lambda>_. THRSUSP)) s;
       (_, s) \<leftarrow> resched s;
       if thrcurrent s = me
       then (let (p, s) = suspend_rest tid im s in Some (Returned p, s))
       else Some (Switched, s)
     }
   }"

definition chprio :: "tid_typ \<Rightarrow> int \<Rightarrow> kernel \<Rightarrow> (int \<times> kernel) option" where
  "chprio tid newprio s = do {
     let (im, s) = disable s;
     if isbadtid tid s then Some (SYSERR, restore im s)
     else do {
       thrptr \<leftarrow> trd tid s;
       let oldprio = prio thrptr;
       s \<leftarrow> twr tid (prio_update (\<lambda>_. newprio)) s;
       Some (oldprio, restore im s)
     }
   }"

definition getprio :: "tid_typ \<Rightarrow> kernel \<Rightarrow> (int \<times> kernel) option" where
  "getprio tid s = do {
     let (im, s) = disable s;
     if isbadtid tid s then Some (SYSERR, restore im s)
     else do {
       thrptr \<leftarrow> trd tid s;
       Some (prio thrptr, restore im s)
     }
   }"

definition gettid :: "kernel \<Rightarrow> tid_typ" where
  "gettid s = thrcurrent s"

section \<open>The invariant\<close>

text \<open>The queues in use, and the queue a thread belongs to by its state.\<close>

definition qheads :: "kernel \<Rightarrow> qid_typ set" where
  "qheads s = insert (readylist s) (insert (sleepq s) ((\<lambda>i. squeue (semtab s i)) ` {i. i < NSEM}))"

definition qhome :: "kernel \<Rightarrow> tid_typ \<Rightarrow> qid_typ option" where
  "qhome s t = (case tstate (thrtab s t) of
       THRREADY \<Rightarrow> Some (readylist s)
     | THRSLEEP \<Rightarrow> Some (sleepq s)
     | THRTMOUT \<Rightarrow> Some (sleepq s)
     | THRWAIT \<Rightarrow> Some (squeue (semtab s (tsem (thrtab s t))))
     | _ \<Rightarrow> None)"

abbreviation (input) is_tid :: "tid_typ \<Rightarrow> bool" where
  "is_tid t \<equiv> 0 \<le> t \<and> t < NTHREAD"

abbreviation (input) contents :: "kernel \<Rightarrow> qid_typ \<Rightarrow> tid_typ list" where
  "contents s q \<equiv> queue_of (quetab s) q"

text \<open>
  \<open>queue_inv X\<close>: apart from the threads in \<open>X\<close>, which are on their way from one queue to
  another and in none, every thread is in the queue of its state and in no other.
\<close>

definition queue_inv :: "tid_typ set \<Rightarrow> kernel \<Rightarrow> bool" where
  "queue_inv X s \<longleftrightarrow> qsys (qheads s) (quetab s) (queue_of (quetab s))
     \<and> (\<forall>q\<in>qheads s. set (contents s q) = {t. is_tid t \<and> t \<notin> X \<and> qhome s t = Some q})"

text \<open>The queues are distinct, so the queue of a thread says why it waits.\<close>

definition layout_inv :: "kernel \<Rightarrow> bool" where
  "layout_inv s \<longleftrightarrow> readylist s \<noteq> sleepq s
     \<and> (\<forall>i<NSEM. squeue (semtab s i) \<noteq> readylist s \<and> squeue (semtab s i) \<noteq> sleepq s)
     \<and> inj_on (\<lambda>i. squeue (semtab s i)) {i. i < NSEM}"

definition thread_inv :: "kernel \<Rightarrow> bool" where
  "thread_inv s \<longleftrightarrow> is_tid (thrcurrent s)
     \<and> (\<forall>t. is_tid t \<longrightarrow> tstate (thrtab s t) = THRCURR \<longrightarrow> t = thrcurrent s)
     \<and> (\<forall>t. is_tid t \<longrightarrow> MINKEY < prio (thrtab s t) \<and> prio (thrtab s t) \<le> MAXKEY)
     \<and> (\<forall>t. is_tid t \<longrightarrow> tstate (thrtab s t) = THRWAIT \<longrightarrow> tsem (thrtab s t) < NSEM)
     \<and> tstate (thrtab s NULLTHREAD) \<in> {THRCURR, THRREADY}"

definition ready_inv :: "kernel \<Rightarrow> bool" where
  "ready_inv s \<longleftrightarrow> sorted_desc (\<lambda>t. qkey (quetab s t)) (contents s (readylist s))"

definition sleep_inv :: "kernel \<Rightarrow> bool" where
  "sleep_inv s \<longleftrightarrow> (let ds = deltas (quetab s) (contents s (sleepq s))
     in (\<forall>(t, d)\<in>set ds. 0 \<le> d) \<and> sum_list (map snd ds) \<le> MAXKEY)"

text \<open>A negative count is the number of threads that wait.\<close>

definition sem_ok :: "kernel \<Rightarrow> semaphore \<Rightarrow> bool" where
  "sem_ok s i \<longleftrightarrow> int (length (contents s (squeue (semtab s i)))) = max 0 (- scount (semtab s i))
     \<and> scount (semtab s i) \<le> MAXKEY \<and> (sstate (semtab s i) = SFREE \<longrightarrow> scount (semtab s i) = 0)"

definition sem_inv :: "kernel \<Rightarrow> bool" where
  "sem_inv s \<longleftrightarrow> (\<forall>i<NSEM. sem_ok s i)"

definition rest_inv :: "kernel \<Rightarrow> bool" where
  "rest_inv s \<longleftrightarrow> layout_inv s \<and> sleep_inv s \<and> sem_inv s \<and> resdefer s = 0"

text \<open>
  \<open>kmid X\<close> holds inside a system call. \<open>kpre\<close> holds where \<^verbatim>\<open>resched\<close> may be
  called: the current thread has its next state. \<open>kinv\<close> holds between system calls: the current thread is running.
\<close>

definition kmid :: "tid_typ set \<Rightarrow> kernel \<Rightarrow> bool" where
  "kmid X s \<longleftrightarrow> queue_inv X s \<and> thread_inv s \<and> ready_inv s \<and> rest_inv s"

abbreviation (input) kpre :: "kernel \<Rightarrow> bool" where
  "kpre s \<equiv> kmid {} s"

definition kinv :: "kernel \<Rightarrow> bool" where
  "kinv s \<longleftrightarrow> kpre s \<and> tstate (thrtab s (thrcurrent s)) = THRCURR"

section \<open>Fields the invariant does not read\<close>

text \<open>A normal form for the updates of a system call: the mask last.\<close>

lemma upd_order [simp]:
  "s\<lparr>thrcurrent := c\<rparr>\<lparr>quetab := q\<rparr> = s\<lparr>quetab := q\<rparr>\<lparr>thrcurrent := c\<rparr>"
  "s\<lparr>thrtab := T\<rparr>\<lparr>quetab := q\<rparr> = s\<lparr>quetab := q\<rparr>\<lparr>thrtab := T\<rparr>"
  "s\<lparr>semtab := st\<rparr>\<lparr>quetab := q\<rparr> = s\<lparr>quetab := q\<rparr>\<lparr>semtab := st\<rparr>"
  "s\<lparr>thrcount := n\<rparr>\<lparr>quetab := q\<rparr> = s\<lparr>quetab := q\<rparr>\<lparr>thrcount := n\<rparr>"
  "s\<lparr>clkticks := u\<rparr>\<lparr>quetab := q\<rparr> = s\<lparr>quetab := q\<rparr>\<lparr>clkticks := u\<rparr>"
  "s\<lparr>imask := m\<rparr>\<lparr>quetab := q\<rparr> = s\<lparr>quetab := q\<rparr>\<lparr>imask := m\<rparr>"
  "s\<lparr>thrtab := T\<rparr>\<lparr>thrcurrent := c\<rparr> = s\<lparr>thrcurrent := c\<rparr>\<lparr>thrtab := T\<rparr>"
  "s\<lparr>semtab := st\<rparr>\<lparr>thrcurrent := c\<rparr> = s\<lparr>thrcurrent := c\<rparr>\<lparr>semtab := st\<rparr>"
  "s\<lparr>thrcount := n\<rparr>\<lparr>thrcurrent := c\<rparr> = s\<lparr>thrcurrent := c\<rparr>\<lparr>thrcount := n\<rparr>"
  "s\<lparr>clkticks := u\<rparr>\<lparr>thrcurrent := c\<rparr> = s\<lparr>thrcurrent := c\<rparr>\<lparr>clkticks := u\<rparr>"
  "s\<lparr>imask := m\<rparr>\<lparr>thrcurrent := c\<rparr> = s\<lparr>thrcurrent := c\<rparr>\<lparr>imask := m\<rparr>"
  "s\<lparr>semtab := st\<rparr>\<lparr>thrtab := T\<rparr> = s\<lparr>thrtab := T\<rparr>\<lparr>semtab := st\<rparr>"
  "s\<lparr>thrcount := n\<rparr>\<lparr>thrtab := T\<rparr> = s\<lparr>thrtab := T\<rparr>\<lparr>thrcount := n\<rparr>"
  "s\<lparr>clkticks := u\<rparr>\<lparr>thrtab := T\<rparr> = s\<lparr>thrtab := T\<rparr>\<lparr>clkticks := u\<rparr>"
  "s\<lparr>imask := m\<rparr>\<lparr>thrtab := T\<rparr> = s\<lparr>thrtab := T\<rparr>\<lparr>imask := m\<rparr>"
  "s\<lparr>thrcount := n\<rparr>\<lparr>semtab := st\<rparr> = s\<lparr>semtab := st\<rparr>\<lparr>thrcount := n\<rparr>"
  "s\<lparr>clkticks := u\<rparr>\<lparr>semtab := st\<rparr> = s\<lparr>semtab := st\<rparr>\<lparr>clkticks := u\<rparr>"
  "s\<lparr>imask := m\<rparr>\<lparr>semtab := st\<rparr> = s\<lparr>semtab := st\<rparr>\<lparr>imask := m\<rparr>"
  "s\<lparr>clkticks := u\<rparr>\<lparr>thrcount := n\<rparr> = s\<lparr>thrcount := n\<rparr>\<lparr>clkticks := u\<rparr>"
  "s\<lparr>imask := m\<rparr>\<lparr>thrcount := n\<rparr> = s\<lparr>thrcount := n\<rparr>\<lparr>imask := m\<rparr>"
  "s\<lparr>imask := m\<rparr>\<lparr>clkticks := u\<rparr> = s\<lparr>clkticks := u\<rparr>\<lparr>imask := m\<rparr>"
  by simp_all

named_theorems kframe \<open>the parts of the invariant under updates of other fields\<close>

lemma qheads_frame [kframe, simp]:
  "qheads (s\<lparr>imask := m\<rparr>) = qheads s" "qheads (s\<lparr>thrcurrent := c\<rparr>) = qheads s"
  "qheads (s\<lparr>quetab := qt\<rparr>) = qheads s" "qheads (s\<lparr>thrtab := T\<rparr>) = qheads s"
  "qheads (s\<lparr>thrcount := n\<rparr>) = qheads s" "qheads (s\<lparr>clkticks := u\<rparr>) = qheads s"
  "qheads (s\<lparr>clktime := u\<rparr>) = qheads s"
  by (simp_all add: qheads_def)

lemma qhome_frame [kframe, simp]:
  "qhome (s\<lparr>imask := m\<rparr>) = qhome s" "qhome (s\<lparr>thrcurrent := c\<rparr>) = qhome s"
  "qhome (s\<lparr>quetab := qt\<rparr>) = qhome s" "qhome (s\<lparr>thrcount := n\<rparr>) = qhome s"
  "qhome (s\<lparr>clkticks := u\<rparr>) = qhome s" "qhome (s\<lparr>clktime := u\<rparr>) = qhome s"
  by (simp_all add: qhome_def fun_eq_iff split: thrstate.splits)

lemma qhome_other [simp]:
  "u \<noteq> t \<Longrightarrow> qhome (s\<lparr>thrtab := (thrtab s)(t := e)\<rparr>) u = qhome s u"
  by (simp add: qhome_def split: thrstate.splits)

lemma qhome_state:
  "tstate (thrtab s t) = THRREADY \<Longrightarrow> qhome s t = Some (readylist s)"
  "tstate (thrtab s t) \<in> {THRSLEEP, THRTMOUT} \<Longrightarrow> qhome s t = Some (sleepq s)"
  "tstate (thrtab s t) = THRWAIT \<Longrightarrow> qhome s t = Some (squeue (semtab s (tsem (thrtab s t))))"
  "tstate (thrtab s t) \<in> {THRCURR, THRFREE, THRRECV, THRSUSP} \<Longrightarrow> qhome s t = None"
  by (auto simp: qhome_def)

lemma queue_inv_frame [kframe, simp]:
  "queue_inv X (s\<lparr>imask := m\<rparr>) = queue_inv X s" "queue_inv X (s\<lparr>thrcurrent := c\<rparr>) = queue_inv X s"
  "queue_inv X (s\<lparr>thrcount := n\<rparr>) = queue_inv X s" "queue_inv X (s\<lparr>clkticks := u\<rparr>) = queue_inv X s"
  "queue_inv X (s\<lparr>clktime := u\<rparr>) = queue_inv X s"
  by (simp_all add: queue_inv_def)

lemma queue_inv_cong:
  assumes "queue_inv X s" and "quetab s' = quetab s" and "readylist s' = readylist s"
    and "sleepq s' = sleepq s" and "\<And>i. squeue (semtab s' i) = squeue (semtab s i)"
    and "\<And>t. t \<notin> X \<Longrightarrow> tstate (thrtab s' t) = tstate (thrtab s t) \<and> tsem (thrtab s' t) = tsem (thrtab s t)"
  shows "queue_inv X s'"
proof -
  have "qhome s' t = qhome s t" if "t \<notin> X" for t
    using assms(3-6) that by (simp add: qhome_def split: thrstate.splits)
  then have "{t. is_tid t \<and> t \<notin> X \<and> qhome s' t = Some q} = {t. is_tid t \<and> t \<notin> X \<and> qhome s t = Some q}" for q
    by auto
  then show ?thesis using assms by (simp add: queue_inv_def qheads_def)
qed

lemma thread_inv_cong:
  "thread_inv s \<Longrightarrow> thrtab s' = thrtab s \<Longrightarrow> thrcurrent s' = thrcurrent s \<Longrightarrow> thread_inv s'"
  by (simp add: thread_inv_def)

lemma ready_inv_cong:
  "ready_inv s \<Longrightarrow> readylist s' = readylist s \<Longrightarrow> contents s' (readylist s) = contents s (readylist s) \<Longrightarrow>
   (\<And>t. t \<in> set (contents s (readylist s)) \<Longrightarrow> qkey (quetab s' t) = qkey (quetab s t)) \<Longrightarrow> ready_inv s'"
  by (auto simp: ready_inv_def sorted_desc_def elim!: sorted_wrt_mono_rel [rotated])

lemma kpre_frame [kframe, simp]:
  "kmid X (s\<lparr>imask := m\<rparr>) = kmid X s" "kmid X (s\<lparr>thrcount := n\<rparr>) = kmid X s"
  "kmid X (s\<lparr>clkticks := u\<rparr>) = kmid X s" "kmid X (s\<lparr>clktime := u\<rparr>) = kmid X s"
  by (simp_all add: kmid_def layout_inv_def thread_inv_def ready_inv_def sleep_inv_def sem_inv_def
      sem_ok_def rest_inv_def)

text \<open>Of a thread the invariant reads the state, the priority and the semaphore.\<close>

lemma kpre_cong:
  assumes "kmid X s" and "quetab s' = quetab s" and "readylist s' = readylist s"
    and "sleepq s' = sleepq s" and "semtab s' = semtab s" and "thrcurrent s' = thrcurrent s"
    and "resdefer s' = resdefer s"
    and th: "\<And>t. tstate (thrtab s' t) = tstate (thrtab s t) \<and> prio (thrtab s' t) = prio (thrtab s t)
          \<and> tsem (thrtab s' t) = tsem (thrtab s t)"
  shows "kmid X s'"
proof -
  have "qhome s' t = qhome s t" for t
    using assms(2-5) th by (simp add: qhome_def split: thrstate.splits)
  then have "queue_inv X s'" using assms(1-5) by (simp add: kmid_def queue_inv_def qheads_def)
  moreover have "thread_inv s'" using assms(1,6) th by (simp add: kmid_def thread_inv_def)
  ultimately show ?thesis
    using assms(1-5,7) by (simp add: kmid_def ready_inv_def rest_inv_def layout_inv_def sleep_inv_def
        sem_inv_def sem_ok_def)
qed

lemma kinv_frame [kframe, simp]:
  "kinv (s\<lparr>imask := m\<rparr>) = kinv s" "kinv (s\<lparr>thrcount := n\<rparr>) = kinv s"
  "kinv (s\<lparr>clkticks := u\<rparr>) = kinv s" "kinv (s\<lparr>clktime := u\<rparr>) = kinv s"
  by (simp_all add: kinv_def)

lemma kpreD:
  assumes "kmid X s"
  shows "queue_inv X s" and "thread_inv s" and "ready_inv s" and "rest_inv s"
  using assms by (simp_all add: kmid_def)

lemma rest_invD:
  assumes "rest_inv s"
  shows "layout_inv s" and "sleep_inv s" and "sem_inv s" and "resdefer s = 0"
  using assms by (simp_all add: rest_inv_def)

lemma rest_invI:
  assumes "rest_inv s" and "readylist s' = readylist s" and "sleepq s' = sleepq s"
    and "\<And>i. squeue (semtab s' i) = squeue (semtab s i)" and "resdefer s' = resdefer s"
    and "contents s' (sleepq s) = contents s (sleepq s)"
    and "\<And>t. t \<in> set (contents s (sleepq s)) \<Longrightarrow> qkey (quetab s' t) = qkey (quetab s t)"
    and "\<And>i. i < NSEM \<Longrightarrow> sem_ok s i \<Longrightarrow> sem_ok s' i"
  shows "rest_inv s'"
proof -
  have "deltas (quetab s') (contents s' (sleepq s')) = deltas (quetab s) (contents s (sleepq s))"
    using assms(3,6,7) by (simp add: deltas_def)
  then show ?thesis
    using assms(1-5,8) by (simp add: rest_inv_def layout_inv_def sleep_inv_def sem_inv_def)
qed

lemma rest_inv_cong:
  assumes "rest_inv s" and "readylist s' = readylist s" and "sleepq s' = sleepq s"
    and "semtab s' = semtab s" and "resdefer s' = resdefer s"
    and "\<And>q. q \<in> qheads s \<Longrightarrow> q \<noteq> readylist s \<Longrightarrow> contents s' q = contents s q"
    and "\<And>t. t \<in> set (contents s (sleepq s)) \<Longrightarrow> qkey (quetab s' t) = qkey (quetab s t)"
  shows "rest_inv s'"
proof (rule rest_invI [OF assms(1-3) _ assms(5)])
  have l: "sleepq s \<noteq> readylist s" "\<forall>i<NSEM. squeue (semtab s i) \<noteq> readylist s"
    using assms(1) by (auto simp: rest_inv_def layout_inv_def)
  then show "contents s' (sleepq s) = contents s (sleepq s)"
    by (intro assms(6)) (simp_all add: qheads_def)
  show "sem_ok s' i" if i: "i < NSEM" and "sem_ok s i" for i
  proof -
    have "contents s' (squeue (semtab s i)) = contents s (squeue (semtab s i))"
      using i l(2) by (intro assms(6)) (auto simp: qheads_def)
    then show ?thesis using that assms(4) by (simp add: sem_ok_def)
  qed
qed (use assms(4,7) in simp_all)

lemma kinvD: "kinv s \<Longrightarrow> kpre s" "kinv s \<Longrightarrow> tstate (thrtab s (thrcurrent s)) = THRCURR"
  by (simp_all add: kinv_def)

lemma kinv_nextsem [simp]:
  "kinv (s\<lparr>nextsem := n\<rparr>) = kinv s" "kinv (s\<lparr>nexttid := n\<rparr>) = kinv s" "kinv (s\<lparr>mem := m\<rparr>) = kinv s"
  "kinv (s\<lparr>memlist := ml\<rparr>) = kinv s" "kinv (s\<lparr>bfptab := bt\<rparr>) = kinv s" "kinv (s\<lparr>mboxtab := mt\<rparr>) = kinv s"
  "kinv (s\<lparr>nextmbx := n\<rparr>) = kinv s" "kinv (s\<lparr>vectors := vs\<rparr>) = kinv s" "kinv (s\<lparr>timer_c1 := w\<rparr>) = kinv s"
  "kinv (s\<lparr>clkstarted := b\<rparr>) = kinv s" "kinv (s\<lparr>mboxtabsem := sm\<rparr>) = kinv s"
  by (simp_all add: kinv_def kmid_def queue_inv_def qheads_def qhome_def layout_inv_def thread_inv_def ready_inv_def
      sleep_inv_def sem_inv_def sem_ok_def rest_inv_def cong: thrstate.case_cong)

text \<open>\<^verbatim>\<open>restore\<close> keeps only whether interrupts were masked, not the other status bits.\<close>

definition norm_mask :: "irqmask \<Rightarrow> irqmask" where
  "norm_mask im = \<lparr>lower_en = lower_en im, upper_en = upper_en im,
     irqen = (if irqen im = 0 then 0 else 0x80)\<rparr>"

lemma restore_eq: "restore im s = s\<lparr>imask := norm_mask im\<rparr>"
  by (simp add: restore_def vic_set_irqmask_def vic_enable_interrupts_def vic_disable_interrupts_def
      norm_mask_def Let_def)

lemma disable_eq: "disable s = (imask s, s\<lparr>imask := (imask s)\<lparr>irqen := 0x80\<rparr>\<rparr>)"
  by (simp add: disable_def vic_get_irqmask_def vic_disable_interrupts_def)

lemmas irq_simps = restore_eq disable_eq ret_restore_def

section \<open>Moving threads between queues\<close>

lemma queue_invD:
  assumes "queue_inv X s"
  shows "qsys (qheads s) (quetab s) (queue_of (quetab s))"
    and "q \<in> qheads s \<Longrightarrow> set (contents s q) = {t. is_tid t \<and> t \<notin> X \<and> qhome s t = Some q}"
  using assms by (simp_all add: queue_inv_def)

lemma queue_inv_mem:
  "queue_inv X s \<Longrightarrow> q \<in> qheads s \<Longrightarrow>
   t \<in> set (contents s q) \<longleftrightarrow> is_tid t \<and> t \<notin> X \<and> qhome s t = Some q"
  by (simp add: queue_inv_def)

lemma queue_inv_disjoint:
  assumes "queue_inv X s" and "q \<in> qheads s" and "r \<in> qheads s" and "q \<noteq> r" and "t \<in> set (contents s q)"
  shows "t \<notin> set (contents s r)"
  using queue_inv_mem [OF assms(1,2), of t] queue_inv_mem [OF assms(1,3), of t] assms(4,5) by auto

lemma heads_in [simp]: "readylist s \<in> qheads s" "sleepq s \<in> qheads s"
  by (simp_all add: qheads_def)

lemma sem_head_in: "i < NSEM \<Longrightarrow> squeue (semtab s i) \<in> qheads s"
  by (simp add: qheads_def)

text \<open>A thread on its way is in no queue, and its entry may change freely.\<close>

lemma queue_inv_fresh: "queue_inv X s \<Longrightarrow> t \<in> X \<Longrightarrow> r \<in> qheads s \<Longrightarrow> t \<notin> set (contents s r)"
  using queue_invD(2) [of X s r] by simp

lemma queue_inv_entry:
  assumes "queue_inv X s" and "t \<in> X"
  shows "queue_inv X (s\<lparr>thrtab := (thrtab s)(t := e)\<rparr>)"
proof -
  have "{u. is_tid u \<and> u \<notin> X \<and> qhome (s\<lparr>thrtab := (thrtab s)(t := e)\<rparr>) u = Some q}
     = {u. is_tid u \<and> u \<notin> X \<and> qhome s u = Some q}" for q
    using assms(2) by (metis (lifting) qhome_other)
  then show ?thesis using assms(1) by (simp add: queue_inv_def)
qed

lemma queue_inv_park:
  "qhome s t = None \<Longrightarrow> queue_inv (insert t X) s \<longleftrightarrow> queue_inv X s"
  by (auto simp: queue_inv_def)

lemma queue_inv_put:
  assumes "queue_inv X s" and "t \<in> X" and "is_tid t" and "qhome s t = Some q" and "q \<in> qheads s"
    and "qsys (qheads s) qt ((queue_of (quetab s))(q := B))"
    and "set B = insert t (set (contents s q))"
  shows "queue_inv (X - {t}) (s\<lparr>quetab := qt\<rparr>)"
proof -
  have "queue_of qt r = ((queue_of (quetab s))(q := B)) r" if "r \<in> qheads s" for r
    using qsysD(5) [OF assms(6) that] .
  then show ?thesis
    using assms(1-5,7) qsys_queue_of [OF assms(6)] by (auto simp: queue_inv_def)
qed

lemma queue_inv_take:
  assumes "queue_inv X s" and "t \<in> set (contents s q)" and "q \<in> qheads s"
    and "qsys (qheads s) qt ((queue_of (quetab s))(q := B))"
    and "set B = set (contents s q) - {t}"
  shows "queue_inv (insert t X) (s\<lparr>quetab := qt\<rparr>)"
proof -
  have "queue_of qt r = ((queue_of (quetab s))(q := B)) r" if "r \<in> qheads s" for r
    using qsysD(5) [OF assms(4) that] .
  then show ?thesis
    using assms(1-3,5) qsys_queue_of [OF assms(4)] by (auto simp: queue_inv_def)
qed

text \<open>
  The queue operations on a state that satisfies the invariant: what they return, what is
  in the queues afterwards, and which thread is then on its way.
\<close>

abbreviation (input) key_of :: "kernel \<Rightarrow> tid_typ \<Rightarrow> int" where
  "key_of s \<equiv> \<lambda>t. qkey (quetab s t)"

lemma k_insert_ready:
  assumes "queue_inv X s" and "t \<in> X" and "is_tid t" and "tstate (thrtab s t) = THRREADY"
    and "MINKEY < k"
  shows "\<exists>qt. insert_k t (readylist s) k s = Some (OK, s\<lparr>quetab := qt\<rparr>)
     \<and> queue_inv (X - {t}) (s\<lparr>quetab := qt\<rparr>)
     \<and> (\<forall>q\<in>qheads s. queue_of qt q = (if q = readylist s then ins_desc (key_of s) k t (contents s q)
                                       else contents s q))
     \<and> (\<forall>i. qkey (qt i) = (if i = t then k else qkey (quetab s i)))"
proof -
  have "\<not> isbadtid t s" using assms(3,4) by (simp add: isbadtid_def)
  then obtain qt where "insert_k t (readylist s) k s = Some (OK, s\<lparr>quetab := qt\<rparr>)"
    and q: "qsys (qheads s) qt ((queue_of (quetab s))(readylist s :=
       ins_desc (key_of s) k t (contents s (readylist s))))"
    and "\<forall>i. qkey (qt i) = (if i = t then k else qkey (quetab s i))"
    using insert_spec [OF queue_invD(1) [OF assms(1)], of "readylist s" t k]
      queue_inv_fresh [OF assms(1,2)] assms(5) by auto
  moreover have "queue_inv (X - {t}) (s\<lparr>quetab := qt\<rparr>)"
    by (rule queue_inv_put [OF assms(1-3) qhome_state(1) [OF assms(4)] _ q]) simp_all
  ultimately show ?thesis using qsysD(5) [OF q] by (intro exI [of _ qt]) simp
qed

lemma k_dequeue:
  assumes "queue_inv X s" and "q \<in> qheads s" and "contents s q = t # ys"
  shows "\<exists>qt. dequeue q s = Some (t, s\<lparr>quetab := qt\<rparr>)
     \<and> queue_inv (insert t X) (s\<lparr>quetab := qt\<rparr>)
     \<and> (\<forall>r\<in>qheads s. queue_of qt r = (if r = q then ys else contents s r))
     \<and> (\<forall>i. qkey (qt i) = qkey (quetab s i)) \<and> is_tid t \<and> t \<notin> X \<and> qhome s t = Some q"
proof -
  obtain qt where "dequeue q s = Some (t, s\<lparr>quetab := qt\<rparr>)"
    and q: "qsys (qheads s) qt ((queue_of (quetab s))(q := ys))"
    and "\<forall>i. qkey (qt i) = qkey (quetab s i)"
    using dequeue_spec [OF queue_invD(1) [OF assms(1)] assms(2,3)] by auto
  moreover have t: "t \<in> set (contents s q)" using assms(3) by simp
  moreover have "set ys = set (contents s q) - {t}"
    using qsysD(1) [OF queue_invD(1) [OF assms(1)] assms(2)] assms(3) by (auto simp: isq_def)
  then have "queue_inv (insert t X) (s\<lparr>quetab := qt\<rparr>)"
    by (rule queue_inv_take [OF assms(1) t assms(2) q])
  moreover have "is_tid t \<and> t \<notin> X \<and> qhome s t = Some q"
    using queue_inv_mem [OF assms(1,2), of t] t by simp
  ultimately show ?thesis using qsysD(5) [OF q] by (intro exI [of _ qt]) simp
qed

lemma k_getitem:
  assumes "queue_inv X s" and "is_tid t" and "t \<notin> X" and "qhome s t = Some q" and "q \<in> qheads s"
  shows "\<exists>qt xs ys. getitem t s = Some (t, s\<lparr>quetab := qt\<rparr>) \<and> contents s q = xs @ t # ys
     \<and> queue_inv (insert t X) (s\<lparr>quetab := qt\<rparr>)
     \<and> (\<forall>r\<in>qheads s. queue_of qt r = (if r = q then xs @ ys else contents s r))
     \<and> (\<forall>i. qkey (qt i) = qkey (quetab s i))"
proof -
  have t: "t \<in> set (contents s q)" using queue_inv_mem [OF assms(1,5), of t] assms(2-4) by simp
  then obtain xs ys where xy: "contents s q = xs @ t # ys" by (meson split_list)
  obtain qt where "getitem t s = Some (t, s\<lparr>quetab := qt\<rparr>)"
    and q: "qsys (qheads s) qt ((queue_of (quetab s))(q := xs @ ys))"
    and "\<forall>i. qkey (qt i) = qkey (quetab s i)"
    using getitem_spec [OF queue_invD(1) [OF assms(1)] assms(5) xy] by auto
  moreover have "set (xs @ ys) = set (contents s q) - {t}"
    using qsysD(1) [OF queue_invD(1) [OF assms(1)] assms(5)] xy by (auto simp: isq_def)
  then have "queue_inv (insert t X) (s\<lparr>quetab := qt\<rparr>)"
    by (rule queue_inv_take [OF assms(1) t assms(5) q])
  ultimately show ?thesis using qsysD(5) [OF q] xy
    by (intro exI [of _ qt] exI [of _ xs] exI [of _ ys]) simp
qed

lemma k_enqueue:
  assumes "queue_inv X s" and "t \<in> X" and "is_tid t" and "tstate (thrtab s t) \<noteq> THRFREE"
    and "qhome s t = Some q" and "q \<in> qheads s"
  shows "\<exists>qt. enqueue t q s = Some (t, s\<lparr>quetab := qt\<rparr>)
     \<and> queue_inv (X - {t}) (s\<lparr>quetab := qt\<rparr>)
     \<and> (\<forall>r\<in>qheads s. queue_of qt r = (if r = q then contents s q @ [t] else contents s r))
     \<and> (\<forall>i. qkey (qt i) = qkey (quetab s i))"
proof -
  have "\<not> isbadtid t s" using assms(3,4) by (simp add: isbadtid_def)
  then obtain qt where "enqueue t q s = Some (t, s\<lparr>quetab := qt\<rparr>)"
    and q: "qsys (qheads s) qt ((queue_of (quetab s))(q := contents s q @ [t]))"
    and "\<forall>i. qkey (qt i) = qkey (quetab s i)"
    using enqueue_spec [OF queue_invD(1) [OF assms(1)] assms(6), of t]
      queue_inv_fresh [OF assms(1,2)] by auto
  moreover have "queue_inv (X - {t}) (s\<lparr>quetab := qt\<rparr>)"
    by (rule queue_inv_put [OF assms(1-3,5,6) q]) simp
  ultimately show ?thesis using qsysD(5) [OF q] by (intro exI [of _ qt]) simp
qed

section \<open>Rescheduling\<close>

text \<open>
  What rescheduling promises. \<open>ready_next\<close> is the ready list with the current thread
  put back by its priority, if it is still running; the first of it gets the processor.
\<close>

definition ready_next :: "kernel \<Rightarrow> tid_typ list" where
  "ready_next s = (let c = thrcurrent s; R = contents s (readylist s) in
     if tstate (thrtab s c) = THRCURR then ins_desc (key_of s) (prio (thrtab s c)) c R else R)"

text \<open>The entry of a thread apart from its state and its saved mask.\<close>

definition same_entry :: "thrent \<Rightarrow> thrent \<Rightarrow> bool" where
  "same_entry e e' \<longleftrightarrow> e' = e\<lparr>tstate := tstate e', intmask := intmask e'\<rparr>"

definition dispatched :: "kernel \<Rightarrow> kernel \<Rightarrow> bool" where
  "dispatched s s' \<longleftrightarrow> thrcurrent s' = hd (ready_next s)
     \<and> contents s' (readylist s) = tl (ready_next s)
     \<and> (\<forall>q\<in>qheads s. q \<noteq> readylist s \<longrightarrow> contents s' q = contents s q)
     \<and> (\<forall>i. i = thrcurrent s \<and> tstate (thrtab s i) = THRCURR \<or> qkey (quetab s' i) = qkey (quetab s i))
     \<and> (tstate (thrtab s (thrcurrent s)) = THRCURR \<longrightarrow> thrcurrent s' = thrcurrent s
          \<or> qkey (quetab s' (thrcurrent s)) = prio (thrtab s (thrcurrent s)))
     \<and> (\<forall>t. same_entry (thrtab s t) (thrtab s' t)
          \<and> tstate (thrtab s' t) = (if t = thrcurrent s' then THRCURR
              else if t = thrcurrent s \<and> tstate (thrtab s t) = THRCURR then THRREADY
              else tstate (thrtab s t)))
     \<and> s' = s\<lparr>quetab := quetab s', thrcurrent := thrcurrent s', thrtab := thrtab s', imask := imask s'\<rparr>"

text \<open>No thread is running: the switch gives the processor to the first ready thread.\<close>

lemma resched_switch_spec:
  assumes q: "queue_inv {} s" and R: "contents s (readylist s) = t # R" and "ready_inv s" and "rest_inv s"
    and th: "\<And>u. is_tid u \<Longrightarrow> tstate (thrtab s u) \<noteq> THRCURR
          \<and> MINKEY < prio (thrtab s u) \<and> prio (thrtab s u) \<le> MAXKEY
          \<and> (tstate (thrtab s u) = THRWAIT \<longrightarrow> tsem (thrtab s u) < NSEM)"
    and null: "tstate (thrtab s NULLTHREAD) = THRREADY"
  shows "\<exists>qt s'. s' = s\<lparr>quetab := qt, thrcurrent := t,
             thrtab := (thrtab s)(t := (thrtab s t)\<lparr>tstate := THRCURR\<rparr>),
             imask := norm_mask (intmask (thrtab s t))\<rparr>
      \<and> resched_switch s = Some (OK, s') \<and> kinv s'
      \<and> (\<forall>r\<in>qheads s. queue_of qt r = (if r = readylist s then R else contents s r))
      \<and> (\<forall>i. qkey (qt i) = qkey (quetab s i))"
proof -
  obtain qt where d: "dequeue (readylist s) s = Some (t, s\<lparr>quetab := qt\<rparr>)"
    and q1: "queue_inv {t} (s\<lparr>quetab := qt\<rparr>)"
    and c: "\<forall>r\<in>qheads s. queue_of qt r = (if r = readylist s then R else contents s r)"
    and k: "\<forall>i. qkey (qt i) = qkey (quetab s i)" and t: "is_tid t"
    using k_dequeue [OF q _ R] by auto
  let ?s = "s\<lparr>quetab := qt, thrcurrent := t, thrtab := (thrtab s)(t := (thrtab s t)\<lparr>tstate := THRCURR\<rparr>),
             imask := norm_mask (intmask (thrtab s t))\<rparr>"
  have "queue_inv {t} (s\<lparr>quetab := qt\<rparr>\<lparr>thrtab := (thrtab s)(t := (thrtab s t)\<lparr>tstate := THRCURR\<rparr>)\<rparr>)"
    using queue_inv_entry [OF q1, of t] by simp
  then have "queue_inv {t} ?s" by (rule queue_inv_cong) simp_all
  then have "queue_inv {} ?s" by (subst (asm) queue_inv_park) (simp_all add: qhome_state)
  moreover have "ready_inv ?s"
    using assms(3) R c k by (simp add: ready_inv_def sorted_desc_def)
  moreover have "rest_inv ?s"
    by (rule rest_inv_cong [OF assms(4)]) (use c k in simp_all)
  moreover have "thread_inv ?s" using th null t by (auto simp: thread_inv_def)
  ultimately have "kinv ?s" by (simp add: kinv_def kmid_def)
  moreover have "resched_switch s = Some (OK, ?s)"
    using d t by (simp add: resched_switch_def twr_def trd_def restore_eq Let_def)
  ultimately show ?thesis using c k by blast
qed

text \<open>The variables rescheduling does not touch.\<close>

lemma dispatched_globals:
  assumes "dispatched s s'"
  shows "semtab s' = semtab s" "readylist s' = readylist s" "sleepq s' = sleepq s"
    "thrcount s' = thrcount s" "resdefer s' = resdefer s" "mem s' = mem s" "memlist s' = memlist s"
    "clkticks s' = clkticks s" "clktime s' = clktime s" "mboxtab s' = mboxtab s" "bfptab s' = bfptab s"
    "mboxtabsem s' = mboxtabsem s" "nextqid s' = nextqid s"
proof -
  have *: "s' = s\<lparr>quetab := quetab s', thrcurrent := thrcurrent s', thrtab := thrtab s', imask := imask s'\<rparr>"
    using assms unfolding dispatched_def by blast
  show "semtab s' = semtab s" "readylist s' = readylist s" "sleepq s' = sleepq s"
    "thrcount s' = thrcount s" "resdefer s' = resdefer s" "mem s' = mem s" "memlist s' = memlist s"
    "clkticks s' = clkticks s" "clktime s' = clktime s" "mboxtab s' = mboxtab s" "bfptab s' = bfptab s"
    "mboxtabsem s' = mboxtabsem s" "nextqid s' = nextqid s"
    using arg_cong [OF *, of semtab] arg_cong [OF *, of readylist] arg_cong [OF *, of sleepq]
      arg_cong [OF *, of thrcount] arg_cong [OF *, of resdefer] arg_cong [OF *, of mem]
      arg_cong [OF *, of memlist] arg_cong [OF *, of clkticks] arg_cong [OF *, of clktime]
      arg_cong [OF *, of mboxtab] arg_cong [OF *, of bfptab] arg_cong [OF *, of mboxtabsem]
      arg_cong [OF *, of nextqid] by simp_all
qed

lemma dispatched_key:
  "dispatched s s' \<Longrightarrow> tstate (thrtab s t) \<noteq> THRCURR \<Longrightarrow> qkey (quetab s' t) = qkey (quetab s t)"
  unfolding dispatched_def by blast

lemma ready_has_null:
  assumes "kpre s" and "tstate (thrtab s (thrcurrent s)) \<noteq> THRCURR"
  shows "tstate (thrtab s NULLTHREAD) = THRREADY" and "contents s (readylist s) \<noteq> []"
proof -
  show n: "tstate (thrtab s NULLTHREAD) = THRREADY"
    using kpreD(2) [OF assms(1)] assms(2) by (auto simp: thread_inv_def)
  then have "NULLTHREAD \<in> set (contents s (readylist s))"
    using queue_inv_mem [OF kpreD(1) [OF assms(1)], of "readylist s" 0] by (simp add: qhome_state)
  then show "contents s (readylist s) \<noteq> []" by auto
qed

lemma ins_desc_front:
  "R = [] \<or> kf (hd R) < k \<Longrightarrow> ins_desc kf k t R = t # R"
  by (cases R) (auto simp: ins_desc_def)

lemma ins_desc_not_Nil [simp]: "ins_desc kf k t R \<noteq> []"
  by (simp add: ins_desc_def)

text \<open>The three ways through \<^verbatim>\<open>resched\<close>.\<close>

lemma resched_blocked:
  assumes k: "kpre s" and b: "tstate (thrtab s (thrcurrent s)) \<noteq> THRCURR"
  shows "\<exists>s'. resched s = Some (OK, s') \<and> kinv s' \<and> dispatched s s'"
proof -
  define c where "c = thrcurrent s"
  define d where "d = s\<lparr>imask := (imask s)\<lparr>irqen := 0x80\<rparr>,
      thrtab := (thrtab s)(c := (thrtab s c)\<lparr>intmask := imask s\<rparr>)\<rparr>"
  have d: "quetab d = quetab s" "readylist d = readylist s" "qheads d = qheads s"
    by (simp_all add: d_def)
  have k1: "kpre d" by (rule kpre_cong [OF k]) (simp_all add: d_def)
  have th: "thread_inv s" and c: "is_tid c" and rd: "resdefer s = 0"
    using k by (auto simp: kmid_def thread_inv_def rest_inv_def c_def)
  obtain t R where R: "contents s (readylist s) = t # R"
    using ready_has_null(2) [OF k b] by (meson neq_Nil_conv)
  then have rl: "contents d (readylist d) = t # R" by (simp add: d)
  have t1: "tstate (thrtab d u) \<noteq> THRCURR
          \<and> MINKEY < prio (thrtab d u) \<and> prio (thrtab d u) \<le> MAXKEY
          \<and> (tstate (thrtab d u) = THRWAIT \<longrightarrow> tsem (thrtab d u) < NSEM)" if "is_tid u" for u
    using th b that by (auto simp: thread_inv_def d_def)
  have t0: "tstate (thrtab d NULLTHREAD) = THRREADY"
    using ready_has_null(1) [OF k b] by (simp add: d_def)
  obtain qt s' where s': "s' = d\<lparr>quetab := qt, thrcurrent := t,
             thrtab := (thrtab d)(t := (thrtab d t)\<lparr>tstate := THRCURR\<rparr>),
             imask := norm_mask (intmask (thrtab d t))\<rparr>"
    and sw: "resched_switch d = Some (OK, s')" and kv: "kinv s'"
    and c1: "\<forall>r\<in>qheads s. queue_of qt r = (if r = readylist s then R else contents s r)"
    and ky: "\<forall>i. qkey (qt i) = qkey (quetab s i)"
    using resched_switch_spec [OF kpreD(1) [OF k1] rl kpreD(3,4) [OF k1] t1 t0] unfolding d by blast
  have "resched s = Some (OK, s')"
    using sw b rd c by (simp add: resched_def disable_eq twr_def trd_def d_def c_def Let_def)
  moreover have "dispatched s s'"
    using b c1 ky R by (simp add: dispatched_def s' d_def ready_next_def same_entry_def c_def)
  ultimately show ?thesis using kv by blast
qed

lemma resched_tests:
  assumes "kinv s"
  shows "nonempty (readylist s) (s\<lparr>imask := m, thrtab := T\<rparr>) = Some (contents s (readylist s) \<noteq> [])"
    and "contents s (readylist s) \<noteq> [] \<Longrightarrow> firstkey (readylist s) (s\<lparr>imask := m, thrtab := T\<rparr>)
       = Some (qkey (quetab s (hd (contents s (readylist s)))))"
  using nonempty_qsys [of "qheads s" "s\<lparr>imask := m, thrtab := T\<rparr>"]
    firstkey_qsys [of "qheads s" "s\<lparr>imask := m, thrtab := T\<rparr>"]
    queue_invD(1) [OF kpreD(1) [OF kinvD(1) [OF assms]]] by simp_all

lemma resched_keep:
  assumes k: "kinv s" and R: "contents s (readylist s) \<noteq> []"
    and p: "prio (thrtab s (thrcurrent s)) > qkey (quetab s (hd (contents s (readylist s))))"
  shows "\<exists>s'. resched s = Some (OK, s') \<and> kinv s' \<and> dispatched s s'"
proof -
  let ?c = "thrcurrent s"
  let ?s = "s\<lparr>imask := norm_mask (imask s), thrtab := (thrtab s)(?c := (thrtab s ?c)\<lparr>intmask := imask s\<rparr>)\<rparr>"
  note k0 = kinvD(1) [OF k]
  have c: "is_tid ?c" and rd: "resdefer s = 0" and b: "tstate (thrtab s ?c) = THRCURR"
    using k by (auto simp: kinv_def kmid_def thread_inv_def rest_inv_def)
  have "resched s = Some (OK, ?s)"
    using resched_tests [OF k] R b rd c p by (simp add: resched_def disable_eq twr_def trd_def restore_eq Let_def)
  moreover have "kpre ?s" by (rule kpre_cong [OF k0]) simp_all
  then have "kinv ?s" using b by (simp add: kinv_def)
  moreover have "ins_desc (key_of s) (prio (thrtab s ?c)) ?c (contents s (readylist s))
      = ?c # contents s (readylist s)"
    using p by (intro ins_desc_front) simp
  then have "dispatched s ?s"
    using b by (simp add: dispatched_def ready_next_def same_entry_def)
  ultimately show ?thesis by blast
qed

text \<open>Putting the running thread back into the ready list.\<close>

lemma requeue_current:
  assumes k: "kinv s" and c: "c = thrcurrent s"
    and d: "d = s\<lparr>imask := m, thrtab := (thrtab s)(c := (thrtab s c)\<lparr>intmask := m', tstate := THRREADY\<rparr>)\<rparr>"
  shows "\<exists>qt. insert_k c (readylist s) (prio (thrtab s c)) d = Some (OK, d\<lparr>quetab := qt\<rparr>)
     \<and> queue_inv {} (d\<lparr>quetab := qt\<rparr>) \<and> ready_inv (d\<lparr>quetab := qt\<rparr>) \<and> rest_inv (d\<lparr>quetab := qt\<rparr>)
     \<and> (\<forall>q\<in>qheads s. queue_of qt q = (if q = readylist s then ready_next s else contents s q))
     \<and> (\<forall>i. qkey (qt i) = (if i = c then prio (thrtab s c) else qkey (quetab s i)))"
proof -
  note k0 = kinvD(1) [OF k]
  note q = kpreD(1) [OF k0] and rdy = kpreD(3) [OF k0] and rst = kpreD(4) [OF k0]
  have ct: "is_tid c" and b: "tstate (thrtab s c) = THRCURR" and pr: "MINKEY < prio (thrtab s c)"
    using k by (auto simp: kinv_def kmid_def thread_inv_def c)
  have ds: "quetab d = quetab s" "readylist d = readylist s" "qheads d = qheads s"
      "tstate (thrtab d c) = THRREADY"
    by (simp_all add: d)
  have rn: "ready_next s = ins_desc (key_of s) (prio (thrtab s c)) c (contents s (readylist s))"
    using b by (simp add: ready_next_def c Let_def)
  have "queue_inv {c} s" using q b by (simp add: queue_inv_park qhome_state)
  from queue_inv_entry [OF this, of c "(thrtab s c)\<lparr>intmask := m', tstate := THRREADY\<rparr>"]
  have "queue_inv {c} d" by (rule queue_inv_cong) (simp_all add: d)
  from k_insert_ready [OF this, of c "prio (thrtab s c)"]
  have "\<exists>qt. insert_k c (readylist s) (prio (thrtab s c)) d = Some (OK, d\<lparr>quetab := qt\<rparr>)
     \<and> queue_inv {} (d\<lparr>quetab := qt\<rparr>)
     \<and> (\<forall>q\<in>qheads s. queue_of qt q = (if q = readylist s then ready_next s else contents s q))
     \<and> (\<forall>i. qkey (qt i) = (if i = c then prio (thrtab s c) else qkey (quetab s i)))"
    using ct pr by (simp add: ds rn cong: if_cong)
  then obtain qt where i: "insert_k c (readylist s) (prio (thrtab s c)) d = Some (OK, d\<lparr>quetab := qt\<rparr>)"
    and q2: "queue_inv {} (d\<lparr>quetab := qt\<rparr>)"
    and c2: "\<forall>q\<in>qheads s. queue_of qt q = (if q = readylist s then ready_next s else contents s q)"
    and k2: "\<forall>i. qkey (qt i) = (if i = c then prio (thrtab s c) else qkey (quetab s i))"
    by blast
  have cs: "c \<notin> set (contents s q)" if "q \<in> qheads s" for q
    using queue_inv_mem [OF q that, of c] b by (simp add: qhome_state)
  have "sorted_desc ((key_of s)(c := prio (thrtab s c))) (ready_next s)"
    unfolding rn using rdy cs [of "readylist s"] by (intro ins_desc_sorted) (simp_all add: ready_inv_def)
  then have "ready_inv (d\<lparr>quetab := qt\<rparr>)"
    using c2 k2 by (simp add: ready_inv_def d sorted_desc_def fun_upd_def)
  moreover have "rest_inv (d\<lparr>quetab := qt\<rparr>)"
    by (rule rest_inv_cong [OF rst]) (use c2 k2 cs [of "sleepq s"] in \<open>auto simp: d\<close>)
  ultimately show ?thesis using i q2 c2 k2 by blast
qed

lemma resched_rotate:
  assumes k: "kinv s"
    and p: "contents s (readylist s) = [] \<or>
        prio (thrtab s (thrcurrent s)) \<le> qkey (quetab s (hd (contents s (readylist s))))"
  shows "\<exists>s'. resched s = Some (OK, s') \<and> kinv s' \<and> dispatched s s'"
proof -
  define c where "c = thrcurrent s"
  define d where "d = s\<lparr>imask := (imask s)\<lparr>irqen := 0x80\<rparr>,
      thrtab := (thrtab s)(c := (thrtab s c)\<lparr>intmask := imask s, tstate := THRREADY\<rparr>)\<rparr>"
  obtain qt where i: "insert_k c (readylist s) (prio (thrtab s c)) d = Some (OK, d\<lparr>quetab := qt\<rparr>)"
    and q2: "queue_inv {} (d\<lparr>quetab := qt\<rparr>)" "ready_inv (d\<lparr>quetab := qt\<rparr>)" "rest_inv (d\<lparr>quetab := qt\<rparr>)"
    and c2: "\<forall>q\<in>qheads s. queue_of qt q = (if q = readylist s then ready_next s else contents s q)"
    and k2: "\<forall>i. qkey (qt i) = (if i = c then prio (thrtab s c) else qkey (quetab s i))"
    using requeue_current [OF k c_def d_def] by blast
  have ct: "is_tid c" and b: "tstate (thrtab s c) = THRCURR" and rd: "resdefer s = 0" and th: "thread_inv s"
    using k by (auto simp: kinv_def kmid_def thread_inv_def rest_inv_def c_def)
  obtain t R where R: "ready_next s = t # R"
    using b by (cases "ready_next s") (simp_all add: ready_next_def c_def Let_def)
  define d2 where "d2 = d\<lparr>quetab := qt\<rparr>"
  have d2: "quetab d2 = qt" "readylist d2 = readylist s" "qheads d2 = qheads s"
    by (simp_all add: d2_def d_def)
  have rl: "contents d2 (readylist d2) = t # R" using c2 R by (simp add: d2)
  have t1: "tstate (thrtab d2 u) \<noteq> THRCURR
          \<and> MINKEY < prio (thrtab d2 u) \<and> prio (thrtab d2 u) \<le> MAXKEY
          \<and> (tstate (thrtab d2 u) = THRWAIT \<longrightarrow> tsem (thrtab d2 u) < NSEM)" if "is_tid u" for u
    using th that by (auto simp: thread_inv_def d2_def d_def c_def)
  have t0: "tstate (thrtab d2 NULLTHREAD) = THRREADY"
    using th by (auto simp: thread_inv_def d2_def d_def c_def)
  obtain qu s' where s': "s' = d2\<lparr>quetab := qu, thrcurrent := t,
             thrtab := (thrtab d2)(t := (thrtab d2 t)\<lparr>tstate := THRCURR\<rparr>),
             imask := norm_mask (intmask (thrtab d2 t))\<rparr>"
    and sw: "resched_switch d2 = Some (OK, s')" and kv: "kinv s'"
    and c3: "\<forall>r\<in>qheads s. queue_of qu r = (if r = readylist s then R else queue_of qt r)"
    and k3: "\<forall>i. qkey (qu i) = qkey (qt i)"
    using resched_switch_spec [OF q2(1) [folded d2_def] rl q2(2,3) [folded d2_def] t1 t0] unfolding d2 by blast
  have "insert_k c (readylist s) (prio (thrtab s c)) d = Some (OK, d2)" by (simp add: i d2_def)
  then have "resched s = Some (OK, s')"
    using resched_tests [OF k] p b rd ct sw
    by (auto simp: resched_def disable_eq twr_def trd_def c_def d_def Let_def)
  moreover have "dispatched s s'"
    using b c2 k2 c3 k3 R by (simp add: dispatched_def s' d2_def d_def same_entry_def c_def)
  ultimately show ?thesis using kv by blast
qed

lemma resched_spec:
  assumes "kpre s"
  shows "\<exists>s'. resched s = Some (OK, s') \<and> kinv s' \<and> dispatched s s'"
proof (cases "tstate (thrtab s (thrcurrent s)) = THRCURR")
  case False
  then show ?thesis by (rule resched_blocked [OF assms])
next
  case True
  then have k: "kinv s" using assms by (simp add: kinv_def)
  show ?thesis using resched_keep [OF k] resched_rotate [OF k] by (meson not_le)
qed

section \<open>The system calls of the scheduler\<close>

lemma upd_imask_iff:
  "s'\<lparr>imask := m\<rparr> = s\<lparr>quetab := q, thrcurrent := c, thrtab := T, imask := m\<rparr>
     \<longleftrightarrow> s' = s\<lparr>quetab := q, thrcurrent := c, thrtab := T, imask := imask s'\<rparr>"
  by (cases s; cases s') simp

lemma dispatched_imask [simp]:
  "dispatched (s\<lparr>imask := m\<rparr>) s' = dispatched s s'" "dispatched s (s'\<lparr>imask := m\<rparr>) = dispatched s s'"
proof -
  have "ready_next (s\<lparr>imask := m\<rparr>) = ready_next s"
    by (simp add: ready_next_def cong: if_cong)
  then show "dispatched (s\<lparr>imask := m\<rparr>) s' = dispatched s s'" by (simp add: dispatched_def)
  show "dispatched s (s'\<lparr>imask := m\<rparr>) = dispatched s s'" by (simp add: dispatched_def upd_imask_iff)
qed

text \<open>Making a thread ready that is on its way.\<close>

definition made_ready :: "tid_typ \<Rightarrow> kernel \<Rightarrow> kernel \<Rightarrow> bool" where
  "made_ready t s s' \<longleftrightarrow>
     s' = s\<lparr>thrtab := (thrtab s)(t := (thrtab s t)\<lparr>tstate := THRREADY\<rparr>), quetab := quetab s'\<rparr>
     \<and> (\<forall>q\<in>qheads s. contents s' q = (if q = readylist s
           then ins_desc (key_of s) (prio (thrtab s t)) t (contents s q) else contents s q))
     \<and> (\<forall>i. qkey (quetab s' i) = (if i = t then prio (thrtab s t) else qkey (quetab s i)))"

lemma made_ready_globals:
  assumes "made_ready t s s'"
  shows "thrtab s' = (thrtab s)(t := (thrtab s t)\<lparr>tstate := THRREADY\<rparr>)" "thrcurrent s' = thrcurrent s"
    "imask s' = imask s" "semtab s' = semtab s" "readylist s' = readylist s" "sleepq s' = sleepq s"
    "thrcount s' = thrcount s" "resdefer s' = resdefer s" "mem s' = mem s" "memlist s' = memlist s"
    "clkticks s' = clkticks s" "clktime s' = clktime s" "mboxtab s' = mboxtab s" "bfptab s' = bfptab s"
    "mboxtabsem s' = mboxtabsem s" "nextqid s' = nextqid s"
proof -
  have *: "s' = s\<lparr>thrtab := (thrtab s)(t := (thrtab s t)\<lparr>tstate := THRREADY\<rparr>), quetab := quetab s'\<rparr>"
    using assms unfolding made_ready_def by blast
  show "thrtab s' = (thrtab s)(t := (thrtab s t)\<lparr>tstate := THRREADY\<rparr>)" "thrcurrent s' = thrcurrent s"
    "imask s' = imask s" "semtab s' = semtab s" "readylist s' = readylist s" "sleepq s' = sleepq s"
    "thrcount s' = thrcount s" "resdefer s' = resdefer s" "mem s' = mem s" "memlist s' = memlist s"
    "clkticks s' = clkticks s" "clktime s' = clktime s" "mboxtab s' = mboxtab s" "bfptab s' = bfptab s"
    "mboxtabsem s' = mboxtabsem s" "nextqid s' = nextqid s"
    using arg_cong [OF *, of thrtab] arg_cong [OF *, of thrcurrent] arg_cong [OF *, of imask]
      arg_cong [OF *, of semtab] arg_cong [OF *, of readylist] arg_cong [OF *, of sleepq]
      arg_cong [OF *, of thrcount] arg_cong [OF *, of resdefer] arg_cong [OF *, of mem]
      arg_cong [OF *, of memlist] arg_cong [OF *, of clkticks] arg_cong [OF *, of clktime]
      arg_cong [OF *, of mboxtab] arg_cong [OF *, of bfptab] arg_cong [OF *, of mboxtabsem]
      arg_cong [OF *, of nextqid] by simp_all
qed

lemma made_ready_imask:
  "made_ready t (s\<lparr>imask := m\<rparr>) s' \<Longrightarrow> made_ready t s (s'\<lparr>imask := imask s\<rparr>)"
  by (cases s; cases s') (simp add: made_ready_def qheads_def cong: if_cong)

lemma k_ready_queue:
  assumes q: "queue_inv X s" and th: "thread_inv s" and rdy: "ready_inv s" and "t \<in> X" and t: "is_tid t"
    and "t \<noteq> thrcurrent s" and "tstate (thrtab s t) \<noteq> THRFREE"
  shows "\<exists>s'. ready t False s = Some (OK, s') \<and> queue_inv (X - {t}) s' \<and> thread_inv s' \<and> ready_inv s'
     \<and> made_ready t s s'"
proof -
  define d where "d = s\<lparr>thrtab := (thrtab s)(t := (thrtab s t)\<lparr>tstate := THRREADY\<rparr>)\<rparr>"
  have ds: "quetab d = quetab s" "readylist d = readylist s" "qheads d = qheads s"
      "tstate (thrtab d t) = THRREADY"
    by (simp_all add: d_def)
  have pr: "MINKEY < prio (thrtab s t)" using th t by (simp add: thread_inv_def)
  have "queue_inv X d" using queue_inv_entry [OF q assms(4)] by (simp add: d_def)
  then obtain qt where i: "insert_k t (readylist s) (prio (thrtab s t)) d = Some (OK, d\<lparr>quetab := qt\<rparr>)"
    and q2: "queue_inv (X - {t}) (d\<lparr>quetab := qt\<rparr>)"
    and c2: "\<forall>q\<in>qheads s. queue_of qt q = (if q = readylist s
        then ins_desc (key_of s) (prio (thrtab s t)) t (contents s q) else contents s q)"
    and k2: "\<forall>i. qkey (qt i) = (if i = t then prio (thrtab s t) else qkey (quetab s i))"
    using k_insert_ready [of X d t, OF _ assms(4) t ds(4) pr] unfolding ds by blast
  have "t \<notin> set (contents s (readylist s))" by (rule queue_inv_fresh [OF q assms(4)]) simp
  then have "sorted_desc ((key_of s)(t := prio (thrtab s t)))
      (ins_desc (key_of s) (prio (thrtab s t)) t (contents s (readylist s)))"
    using rdy by (intro ins_desc_sorted) (simp_all add: ready_inv_def)
  then have "ready_inv (d\<lparr>quetab := qt\<rparr>)"
    using c2 k2 by (simp add: ready_inv_def d_def sorted_desc_def fun_upd_def)
  moreover have "thread_inv (d\<lparr>quetab := qt\<rparr>)"
    using th assms(6) by (simp add: thread_inv_def d_def)
  moreover have "ready t False s = Some (OK, d\<lparr>quetab := qt\<rparr>)"
    using i t assms(7) by (simp add: ready_def isbadtid_def twr_def trd_def d_def)
  moreover have "made_ready t s (d\<lparr>quetab := qt\<rparr>)"
    using c2 k2 by (simp add: made_ready_def d_def)
  ultimately show ?thesis using q2 by blast
qed

lemma k_ready:
  assumes k: "kmid X s" and "t \<in> X" and t: "is_tid t" and "t \<noteq> thrcurrent s"
    and "tstate (thrtab s t) \<noteq> THRFREE"
  shows "\<exists>s'. ready t False s = Some (OK, s') \<and> kmid (X - {t}) s' \<and> made_ready t s s'"
proof -
  obtain s' where s': "ready t False s = Some (OK, s')" "queue_inv (X - {t}) s'" "thread_inv s'"
      "ready_inv s'" and m: "made_ready t s s'"
    using k_ready_queue [OF kpreD(1-3) [OF k] assms(2-5)] by blast
  have "t \<notin> set (contents s (sleepq s))" by (rule queue_inv_fresh [OF kpreD(1) [OF k] assms(2)]) simp
  then have "rest_inv s'"
    by (intro rest_inv_cong [OF kpreD(4) [OF k]]) (use m made_ready_globals [OF m] in \<open>auto simp: made_ready_def\<close>)
  then show ?thesis using s' m by (auto simp: kmid_def)
qed

text \<open>One round of the loops that release waiting threads: the first of a queue becomes ready.\<close>

lemma upd_qt_trans:
  "s1 = s\<lparr>quetab := quetab s1, thrtab := thrtab s1\<rparr> \<Longrightarrow> s2 = s1\<lparr>quetab := quetab s2, thrtab := thrtab s2\<rparr> \<Longrightarrow>
   s2 = s\<lparr>quetab := quetab s2, thrtab := thrtab s2\<rparr>"
  by (cases s; cases s1; cases s2) simp

lemma release_first:
  assumes q: "queue_inv {} s" and th: "thread_inv s" and rdy: "ready_inv s" and h: "q \<in> qheads s" "q \<noteq> readylist s"
    and W: "contents s q = t # W" and t: "tstate (thrtab s t) \<noteq> THRFREE" "t \<noteq> thrcurrent s"
  shows "\<exists>s1 s2. dequeue q s = Some (t, s1) \<and> ready t False s1 = Some (OK, s2)
     \<and> queue_inv {} s2 \<and> thread_inv s2 \<and> ready_inv s2
     \<and> (\<forall>r\<in>qheads s. r \<noteq> readylist s \<longrightarrow> contents s2 r = (if r = q then W else contents s r))
     \<and> (\<forall>i. i \<noteq> t \<longrightarrow> qkey (quetab s2 i) = qkey (quetab s i))
     \<and> thrtab s2 = (thrtab s)(t := (thrtab s t)\<lparr>tstate := THRREADY\<rparr>)
     \<and> s2 = s\<lparr>quetab := quetab s2, thrtab := thrtab s2\<rparr> \<and> t \<notin> set W"
proof -
  obtain qt where de: "dequeue q s = Some (t, s\<lparr>quetab := qt\<rparr>)" and q1: "queue_inv {t} (s\<lparr>quetab := qt\<rparr>)"
    and c1: "\<forall>r\<in>qheads s. queue_of qt r = (if r = q then W else contents s r)"
    and k1: "\<forall>i. qkey (qt i) = qkey (quetab s i)" and tt: "is_tid t"
    using k_dequeue [OF q h(1) W] by auto
  have th1: "thread_inv (s\<lparr>quetab := qt\<rparr>)" by (rule thread_inv_cong [OF th]) simp_all
  have rd1: "ready_inv (s\<lparr>quetab := qt\<rparr>)"
    by (rule ready_inv_cong [OF rdy]) (use c1 k1 h in simp_all)
  obtain s2 where r: "ready t False (s\<lparr>quetab := qt\<rparr>) = Some (OK, s2)" and i2: "queue_inv {} s2" "thread_inv s2"
      "ready_inv s2" and m: "made_ready t (s\<lparr>quetab := qt\<rparr>) s2"
    using k_ready_queue [OF q1 th1 rd1 _ tt] t by auto
  note g = made_ready_globals [OF m]
  have "\<forall>r\<in>qheads s. r \<noteq> readylist s \<longrightarrow> contents s2 r = (if r = q then W else contents s r)"
    using m c1 by (simp add: made_ready_def)
  moreover have "\<forall>i. i \<noteq> t \<longrightarrow> qkey (quetab s2 i) = qkey (quetab s i)" using m k1 by (simp add: made_ready_def)
  moreover have "t \<notin> set W" using qsysD(1) [OF queue_invD(1) [OF q] h(1)] W by (simp add: isq_def)
  moreover have "s2 = s\<lparr>quetab := quetab s2, thrtab := thrtab s2\<rparr>" using m g(1) by (simp add: made_ready_def)
  ultimately show ?thesis using de r i2 g(1) by (intro exI [of _ "s\<lparr>quetab := qt\<rparr>"] exI [of _ s2]) simp
qed

lemma upd_qt_globals:
  assumes "s' = s\<lparr>quetab := quetab s', thrtab := thrtab s'\<rparr>"
  shows "thrcurrent s' = thrcurrent s" "imask s' = imask s" "semtab s' = semtab s" "readylist s' = readylist s"
    "sleepq s' = sleepq s" "resdefer s' = resdefer s" "qheads s' = qheads s" "clkticks s' = clkticks s"
    "clktime s' = clktime s"
  using arg_cong [OF assms, of thrcurrent] arg_cong [OF assms, of imask] arg_cong [OF assms, of semtab]
    arg_cong [OF assms, of readylist] arg_cong [OF assms, of sleepq] arg_cong [OF assms, of resdefer]
    arg_cong [OF assms, of qheads] arg_cong [OF assms, of clkticks] arg_cong [OF assms, of clktime] by simp_all

lemma k_ready_resched:
  assumes "kmid {t} s" and "is_tid t" and "t \<noteq> thrcurrent s" and "tstate (thrtab s t) \<noteq> THRFREE"
  shows "\<exists>s1 s'. ready t True s = Some (OK, s') \<and> made_ready t s s1 \<and> kpre s1 \<and> dispatched s1 s' \<and> kinv s'"
proof -
  obtain s1 where r: "ready t False s = Some (OK, s1)" and k: "kpre s1" and m: "made_ready t s s1"
    using k_ready [OF assms(1) _ assms(2-4)] by auto
  obtain s' where "resched s1 = Some (OK, s')" "kinv s'" "dispatched s1 s'"
    using resched_spec [OF k] by blast
  moreover from this(1) r have "ready t True s = Some (OK, s')"
    using assms(2,4) by (auto simp: ready_def isbadtid_def split: bind_splits)
  ultimately show ?thesis using k m by blast
qed

lemma yield_spec:
  assumes "kinv s"
  shows "\<exists>s'. yield s = Some (OK, s') \<and> kinv s' \<and> dispatched s s'"
proof -
  have "kpre (s\<lparr>imask := (imask s)\<lparr>irqen := 0x80\<rparr>\<rparr>)" using kinvD(1) [OF assms] by simp
  from resched_spec [OF this] show ?thesis by (auto simp: yield_def irq_simps Let_def)
qed

text \<open>A thread that is in no queue may be taken to be on its way.\<close>

lemma kmid_park: "qhome s t = None \<Longrightarrow> kmid (insert t X) s \<longleftrightarrow> kmid X s"
  by (simp add: kmid_def queue_inv_park)

lemma resume_spec:
  assumes "kinv s"
  shows "isbadtid t s \<or> tstate (thrtab s t) \<noteq> THRSUSP \<Longrightarrow>
      resume t s = Some (SYSERR, s\<lparr>imask := norm_mask (imask s)\<rparr>)"
    and "\<not> isbadtid t s \<Longrightarrow> tstate (thrtab s t) = THRSUSP \<Longrightarrow>
      \<exists>s1 s'. resume t s = Some (prio (thrtab s t), s') \<and> kinv s' \<and> made_ready t s (s1\<lparr>imask := imask s\<rparr>)
         \<and> dispatched s1 s'"
proof -
  let ?s = "s\<lparr>imask := (imask s)\<lparr>irqen := 0x80\<rparr>\<rparr>"
  show "resume t s = Some (SYSERR, s\<lparr>imask := norm_mask (imask s)\<rparr>)"
    if "isbadtid t s \<or> tstate (thrtab s t) \<noteq> THRSUSP"
    using that by (simp add: resume_def irq_simps isbadtid_def)
  assume b: "\<not> isbadtid t s" and st: "tstate (thrtab s t) = THRSUSP"
  then have t: "is_tid t" and c: "t \<noteq> thrcurrent s" using kinvD(2) [OF assms] by (auto simp: isbadtid_def)
  have "kmid {t} ?s" using kinvD(1) [OF assms] st by (simp add: kmid_park qhome_state)
  then obtain s1 s' where r: "ready t True ?s = Some (OK, s')" and m: "made_ready t ?s s1"
    and d: "dispatched s1 s'" "kinv s'"
    using k_ready_resched [of t ?s] t c st by auto
  have "resume t s = Some (prio (thrtab s t), ret_restore (thrcurrent s) (imask s) s')"
    using r b st by (simp add: resume_def irq_simps isbadtid_def Let_def)
  moreover have "made_ready t s (s1\<lparr>imask := imask s\<rparr>)" by (rule made_ready_imask [OF m])
  ultimately show "\<exists>s1 s'. resume t s = Some (prio (thrtab s t), s') \<and> kinv s'
      \<and> made_ready t s (s1\<lparr>imask := imask s\<rparr>) \<and> dispatched s1 s'"
    using d by (intro exI [of _ s1] exI [of _ "ret_restore (thrcurrent s) (imask s) s'"]) (simp add: irq_simps)
qed

text \<open>The current thread, unless it is the null thread, may give up the processor.\<close>

lemma thread_inv_block:
  assumes "thread_inv s" and "t = thrcurrent s \<or> tstate e \<noteq> THRCURR" and "t \<noteq> NULLTHREAD"
    and "MINKEY < prio e" and "prio e \<le> MAXKEY" and "tstate e = THRWAIT \<longrightarrow> tsem e < NSEM"
  shows "thread_inv (s\<lparr>thrtab := (thrtab s)(t := e)\<rparr>)"
  using assms by (auto simp: thread_inv_def)

lemma rest_inv_thrtab [simp]: "rest_inv (s\<lparr>thrtab := T\<rparr>) = rest_inv s"
  by (simp add: rest_inv_def layout_inv_def sleep_inv_def sem_inv_def sem_ok_def)

lemma ready_inv_thrtab [simp]: "ready_inv (s\<lparr>thrtab := T\<rparr>) = ready_inv s"
  by (simp add: ready_inv_def)

lemma kmid_entry:
  assumes "kmid X s" and "t \<in> X" and "t = thrcurrent s \<or> tstate e \<noteq> THRCURR" and "t \<noteq> NULLTHREAD"
    and "is_tid t" and "prio e = prio (thrtab s t)" and "tstate e = THRWAIT \<longrightarrow> tsem e < NSEM"
  shows "kmid X (s\<lparr>thrtab := (thrtab s)(t := e)\<rparr>)"
proof -
  have "thread_inv (s\<lparr>thrtab := (thrtab s)(t := e)\<rparr>)"
    using kpreD(2) [OF assms(1)] assms(3-7) by (intro thread_inv_block) (simp_all add: thread_inv_def)
  then show ?thesis using assms(1,2) by (simp add: kmid_def queue_inv_entry)
qed

lemma kpre_block:
  assumes "kinv s" and "thrcurrent s \<noteq> NULLTHREAD" and "tstate e \<in> {THRSUSP, THRRECV, THRFREE}"
    and "prio e = prio (thrtab s (thrcurrent s))"
  shows "kpre (s\<lparr>thrtab := (thrtab s)(thrcurrent s := e)\<rparr>)"
proof -
  have "kmid {thrcurrent s} s" using assms(1) by (simp add: kinv_def kmid_park qhome_state)
  then have "kmid {thrcurrent s} (s\<lparr>thrtab := (thrtab s)(thrcurrent s := e)\<rparr>)"
    using assms kpreD(2) [OF kinvD(1) [OF assms(1)]] by (intro kmid_entry) (auto simp: thread_inv_def)
  then show ?thesis using assms(3) by (subst (asm) kmid_park) (auto simp: qhome_state)
qed

lemma ready_member_state:
  assumes "kmid X s" and "t \<in> set (contents s (readylist s))"
  shows "tstate (thrtab s t) = THRREADY" and "is_tid t"
proof -
  have h: "is_tid t" "qhome s t = Some (readylist s)"
    using queue_inv_mem [OF kpreD(1) [OF assms(1)], of "readylist s" t] assms(2) by simp_all
  then show "is_tid t" by simp
  have "tstate (thrtab s t) = THRWAIT \<longrightarrow> tsem (thrtab s t) < NSEM"
    using kpreD(2) [OF assms(1)] h(1) by (simp add: thread_inv_def)
  then show "tstate (thrtab s t) = THRREADY"
    using h(2) rest_invD(1) [OF kpreD(4) [OF assms(1)]]
    by (auto simp: qhome_def layout_inv_def split: thrstate.splits)
qed

lemma dispatched_other:
  assumes "kpre s" and "dispatched s s'" and "tstate (thrtab s (thrcurrent s)) \<notin> {THRCURR, THRREADY}"
  shows "thrcurrent s' \<noteq> thrcurrent s"
proof -
  have "contents s (readylist s) \<noteq> []" using ready_has_null(2) [OF assms(1)] assms(3) by simp
  then have "tstate (thrtab s (hd (contents s (readylist s)))) = THRREADY"
    using ready_member_state(1) [OF assms(1)] by simp
  moreover have "thrcurrent s' = hd (contents s (readylist s))"
    using assms(2,3) by (simp add: dispatched_def ready_next_def)
  ultimately show ?thesis using assms(3) by auto
qed

lemma suspend_error:
  assumes "isbadtid t s \<or> t = NULLTHREAD \<or> tstate (thrtab s t) \<notin> {THRCURR, THRREADY}"
  shows "suspend t s = Some (Returned SYSERR, s\<lparr>imask := norm_mask (imask s)\<rparr>)"
  using assms by (auto simp: suspend_def irq_simps isbadtid_def)

text \<open>Taking a thread out of the ready list.\<close>

lemma sorted_desc_remove: "sorted_desc kf (xs @ t # ys) \<Longrightarrow> sorted_desc kf (xs @ ys)"
  by (simp add: sorted_desc_def sorted_wrt_append)

lemma k_unready:
  assumes k: "kmid X s" and t: "is_tid t" "t \<notin> X" and st: "tstate (thrtab s t) = THRREADY"
  shows "\<exists>qt. getitem t s = Some (t, s\<lparr>quetab := qt\<rparr>) \<and> kmid (insert t X) (s\<lparr>quetab := qt\<rparr>)
     \<and> queue_of qt (readylist s) = remove1 t (contents s (readylist s))
     \<and> (\<forall>q\<in>qheads s. q \<noteq> readylist s \<longrightarrow> queue_of qt q = contents s q)"
proof -
  obtain qt xs ys where g: "getitem t s = Some (t, s\<lparr>quetab := qt\<rparr>)" "contents s (readylist s) = xs @ t # ys"
    and q: "queue_inv (insert t X) (s\<lparr>quetab := qt\<rparr>)"
    and c: "\<forall>r\<in>qheads s. queue_of qt r = (if r = readylist s then xs @ ys else contents s r)"
    and ky: "\<forall>i. qkey (qt i) = qkey (quetab s i)"
    using k_getitem [OF kpreD(1) [OF k] t qhome_state(1) [OF st]] by auto
  have "ready_inv (s\<lparr>quetab := qt\<rparr>)"
    using kpreD(3) [OF k] c ky g(2) sorted_desc_remove by (simp add: ready_inv_def)
  moreover have "rest_inv (s\<lparr>quetab := qt\<rparr>)"
    by (rule rest_inv_cong [OF kpreD(4) [OF k]]) (use c ky in simp_all)
  moreover have "thread_inv (s\<lparr>quetab := qt\<rparr>)" using kpreD(2) [OF k] by (simp add: thread_inv_def)
  moreover have "distinct (contents s (readylist s))"
    using qsysD(1) [OF queue_invD(1) [OF kpreD(1) [OF k]], of "readylist s"] by (simp add: isq_def)
  then have "remove1 t (contents s (readylist s)) = xs @ ys"
    using g(2) by (simp add: remove1_append)
  ultimately show ?thesis using g q c by (auto simp: kmid_def)
qed

lemma suspend_ready:
  assumes k: "kinv s" and t: "is_tid t" "t \<noteq> NULLTHREAD" and st: "tstate (thrtab s t) = THRREADY"
  shows "\<exists>s'. suspend t s = Some (Returned (prio (thrtab s t)), s') \<and> kinv s'
     \<and> imask s' = norm_mask (imask s) \<and> thrcurrent s' = thrcurrent s
     \<and> tstate (thrtab s' t) = THRSUSP
     \<and> contents s' (readylist s) = remove1 t (contents s (readylist s))"
proof -
  define d where "d = s\<lparr>imask := (imask s)\<lparr>irqen := 0x80\<rparr>\<rparr>"
  have kd: "kpre d" using kinvD(1) [OF k] by (simp add: d_def)
  obtain qt where g: "getitem t d = Some (t, d\<lparr>quetab := qt\<rparr>)" and k1: "kmid {t} (d\<lparr>quetab := qt\<rparr>)"
    and c: "queue_of qt (readylist s) = remove1 t (contents s (readylist s))"
    using k_unready [OF kd t(1)] st by (auto simp: d_def)
  have tc: "t \<noteq> thrcurrent s" using kinvD(2) [OF k] st by auto
  define e where "e = (thrtab s t)\<lparr>tstate := THRSUSP\<rparr>"
  have "kmid {t} (d\<lparr>quetab := qt\<rparr>\<lparr>thrtab := (thrtab (d\<lparr>quetab := qt\<rparr>))(t := e)\<rparr>)"
    by (rule kmid_entry [OF k1]) (use t in \<open>simp_all add: e_def d_def\<close>)
  then have "kpre (d\<lparr>quetab := qt\<rparr>\<lparr>thrtab := (thrtab s)(t := e)\<rparr>)"
    by (subst (asm) kmid_park) (auto simp: qhome_state e_def d_def)
  then have "kinv (d\<lparr>quetab := qt\<rparr>\<lparr>thrtab := (thrtab s)(t := e)\<rparr>)"
    using kinvD(2) [OF k] tc by (simp add: kinv_def d_def)
  moreover have "suspend t s = Some (Returned (prio (thrtab s t)),
      d\<lparr>quetab := qt\<rparr>\<lparr>thrtab := (thrtab s)(t := e), imask := norm_mask (imask s)\<rparr>)"
    using g t st by (simp add: suspend_def irq_simps isbadtid_def d_def e_def twr_def suspend_rest_def)
  ultimately show ?thesis using c
    by (intro exI [of _ "d\<lparr>quetab := qt\<rparr>\<lparr>thrtab := (thrtab s)(t := e), imask := norm_mask (imask s)\<rparr>"])
      (simp add: d_def e_def)
qed

lemma suspend_self:
  assumes k: "kinv s" and t: "t = thrcurrent s" "t \<noteq> NULLTHREAD"
  shows "\<exists>s'. suspend t s = Some (Switched, s') \<and> kinv s' \<and> thrcurrent s' \<noteq> t
     \<and> dispatched (s\<lparr>thrtab := (thrtab s)(t := (thrtab s t)\<lparr>tstate := THRSUSP\<rparr>)\<rparr>) s'"
proof -
  define d where "d = s\<lparr>thrtab := (thrtab s)(t := (thrtab s t)\<lparr>tstate := THRSUSP\<rparr>)\<rparr>"
  have kd: "kpre d" unfolding d_def t(1) by (rule kpre_block [OF k]) (use t in simp_all)
  then have "kpre (d\<lparr>imask := (imask s)\<lparr>irqen := 0x80\<rparr>\<rparr>)" by simp
  from resched_spec [OF this] obtain s' where r: "resched (d\<lparr>imask := (imask s)\<lparr>irqen := 0x80\<rparr>\<rparr>) = Some (OK, s')"
    and v: "kinv s'" "dispatched d s'" by auto
  have "thrcurrent s' \<noteq> t" using dispatched_other [OF kd v(2)] by (simp add: d_def t)
  moreover have "is_tid t" using kpreD(2) [OF kinvD(1) [OF k]] t(1) by (simp add: thread_inv_def)
  moreover have "s\<lparr>imask := m, thrtab := T\<rparr> = s\<lparr>thrtab := T, imask := m\<rparr>" for m T by simp
  ultimately have "suspend t s = Some (Switched, s')"
    using r t kinvD(2) [OF k] by (simp add: suspend_def irq_simps isbadtid_def twr_def d_def)
  then show ?thesis using v \<open>thrcurrent s' \<noteq> t\<close> d_def by blast
qed

lemma chprio_spec:
  assumes k: "kinv s" and t: "\<not> isbadtid t s" and p: "MINKEY < p" "p \<le> MAXKEY"
  shows "\<exists>s'. chprio t p s = Some (prio (thrtab s t), s') \<and> kinv s'
     \<and> prio (thrtab s' t) = p \<and> quetab s' = quetab s \<and> imask s' = norm_mask (imask s)"
proof -
  let ?s = "s\<lparr>imask := norm_mask (imask s), thrtab := (thrtab s)(t := (thrtab s t)\<lparr>prio := p\<rparr>)\<rparr>"
  have "qhome ?s u = qhome s u" for u by (simp add: qhome_def split: thrstate.splits)
  then have "queue_inv {} ?s" using kpreD(1) [OF kinvD(1) [OF k]] by (simp add: queue_inv_def)
  moreover have "thread_inv ?s" using kpreD(2) [OF kinvD(1) [OF k]] p by (simp add: thread_inv_def)
  ultimately have "kinv ?s"
    using k by (auto simp: kinv_def kmid_def ready_inv_def rest_inv_def layout_inv_def sleep_inv_def
        sem_inv_def sem_ok_def)
  moreover have "chprio t p s = Some (prio (thrtab s t), ?s)"
    using t by (simp add: chprio_def irq_simps isbadtid_def trd_def twr_def Let_def)
  ultimately show ?thesis by simp
qed

end
