(* ===== verification/Xinu_Sem.thy ===== *)
theory Xinu_Sem
  imports Xinu_Sched
begin

text \<open>
  Counting semaphores: \<^verbatim>\<open>system/wait.c\<close>, \<^verbatim>\<open>signal.c\<close>, \<^verbatim>\<open>signaln.c\<close>,
  \<^verbatim>\<open>semcreate.c\<close>, \<^verbatim>\<open>semfree.c\<close> and \<^verbatim>\<open>semcount.c\<close>. The lemmas say
  what each call returns and does on every path, that it keeps the invariant of the
  kernel, and that threads are released in the order in which they began to wait.
\<close>

section \<open>The operations\<close>

definition wait :: "semaphore \<Rightarrow> kernel \<Rightarrow> (int \<times> kernel) option" where
  "wait sem s = do {
     let me = thrcurrent s;
     let (im, s) = disable s;
     if isbadsem sem s then Some (SYSERR, restore im s)
     else do {
       c \<leftarrow> ck (scount (semtab s sem) - 1);
       let s = swr sem (scount_update (\<lambda>_. c)) s;
       if c < 0
       then do {
         s \<leftarrow> twr (thrcurrent s) (tstate_update (\<lambda>_. THRWAIT)) s;
         s \<leftarrow> twr (thrcurrent s) (tsem_update (\<lambda>_. sem)) s;
         (_, s) \<leftarrow> enqueue (thrcurrent s) (squeue (semtab s sem)) s;
         (_, s) \<leftarrow> resched s;
         Some (OK, ret_restore me im s)
       }
       else Some (OK, restore im s)
     }
   }"

text \<open>Counting up once and, if a thread waits, making the first one ready.\<close>

definition sig_step :: "semaphore \<Rightarrow> bool \<Rightarrow> kernel \<Rightarrow> kernel option" where
  "sig_step sem resch s = do {
     let old = scount (semtab s sem);
     c \<leftarrow> ck (old + 1);
     let s = swr sem (scount_update (\<lambda>_. c)) s;
     if old < 0
     then do {
       (tid, s) \<leftarrow> dequeue (squeue (semtab s sem)) s;
       (_, s) \<leftarrow> ready tid resch s;
       Some s
     }
     else Some s
   }"

definition signal :: "semaphore \<Rightarrow> kernel \<Rightarrow> (int \<times> kernel) option" where
  "signal sem s = do {
     let me = thrcurrent s;
     let (im, s) = disable s;
     if isbadsem sem s then Some (SYSERR, restore im s)
     else do {
       s \<leftarrow> sig_step sem True s;
       Some (OK, ret_restore me im s)
     }
   }"

fun signaln_loop :: "nat \<Rightarrow> semaphore \<Rightarrow> kernel \<Rightarrow> kernel option" where
  "signaln_loop 0 sem s = Some s"
| "signaln_loop (Suc n) sem s = do { s \<leftarrow> sig_step sem False s; signaln_loop n sem s }"

definition signaln :: "semaphore \<Rightarrow> int \<Rightarrow> kernel \<Rightarrow> (int \<times> kernel) option" where
  "signaln sem n s = do {
     let me = thrcurrent s;
     let (im, s) = disable s;
     if isbadsem sem s \<or> n \<le> 0 then Some (SYSERR, restore im s)
     else do {
       s \<leftarrow> signaln_loop (nat n) sem s;
       (_, s) \<leftarrow> resched s;
       Some (OK, ret_restore me im s)
     }
   }"

text \<open>
  The scan of \<^verbatim>\<open>semalloc\<close> over the table, from the slot after the last one given
  out. \<^verbatim>\<open>nextsem\<close> is never negative, so \<open>mod\<close> is the C remainder.
\<close>

fun semalloc_loop :: "nat \<Rightarrow> kernel \<Rightarrow> semaphore \<times> kernel" where
  "semalloc_loop 0 s = (-1, s)"
| "semalloc_loop (Suc n) s =
     (let s = s\<lparr>nextsem := (nextsem s + 1) mod 100\<rparr>; i = word_of_int (nextsem s) in
      if sstate (semtab s i) = SFREE then (i, swr i (sstate_update (\<lambda>_. SUSED)) s)
      else semalloc_loop n s)"

definition semalloc :: "kernel \<Rightarrow> semaphore \<times> kernel" where
  "semalloc s = semalloc_loop 100 s"

definition semcreate :: "int \<Rightarrow> kernel \<Rightarrow> semaphore \<times> kernel" where
  "semcreate n s =
     (let (im, s) = disable s; (sem, s) = semalloc s in
      if sem \<noteq> -1 \<and> n \<ge> 0
      then (sem, restore im (swr sem (scount_update (\<lambda>_. n)) s))
      else (-1, restore im s))"

partial_function (option) semfree_loop :: "qid_typ \<Rightarrow> kernel \<Rightarrow> kernel option" where
  "semfree_loop q s = do {
     b \<leftarrow> nonempty q s;
     if b then do {
       (tid, s) \<leftarrow> dequeue q s;
       (_, s) \<leftarrow> ready tid False s;
       semfree_loop q s
     }
     else Some s
   }"

definition semfree :: "semaphore \<Rightarrow> kernel \<Rightarrow> (int \<times> kernel) option" where
  "semfree sem s = do {
     let (im, s) = disable s;
     if isbadsem sem s then Some (SYSERR, restore im s)
     else do {
       s \<leftarrow> semfree_loop (squeue (semtab s sem)) s;
       let s = swr sem (scount_update (\<lambda>_. 0)) s;
       let s = swr sem (sstate_update (\<lambda>_. SFREE)) s;
       Some (OK, restore im s)
     }
   }"

definition semcount :: "semaphore \<Rightarrow> kernel \<Rightarrow> int" where
  "semcount sem s = (if isbadsem sem s then SYSERR else scount (semtab s sem))"

section \<open>Waiting\<close>

lemma kmid_imask: "kmid X s \<Longrightarrow> kmid X (s\<lparr>imask := m\<rparr>)" by simp

lemma sem_okD:
  assumes "kmid X s" and "i < NSEM"
  shows "int (length (contents s (squeue (semtab s i)))) = max 0 (- scount (semtab s i))"
    and "scount (semtab s i) \<le> MAXKEY" and "sstate (semtab s i) = SFREE \<Longrightarrow> scount (semtab s i) = 0"
  using assms by (auto simp: kmid_def rest_inv_def sem_inv_def sem_ok_def)

lemma sem_layout:
  assumes "kmid X s" and "i < NSEM"
  shows "squeue (semtab s i) \<noteq> readylist s" and "squeue (semtab s i) \<noteq> sleepq s"
    and "j < NSEM \<Longrightarrow> squeue (semtab s i) = squeue (semtab s j) \<longleftrightarrow> i = j"
  using assms by (auto simp: kmid_def rest_inv_def layout_inv_def inj_on_def)

lemma queue_length_bound:
  "queue_inv X s \<Longrightarrow> q \<in> qheads s \<Longrightarrow> length (contents s q) \<le> nat NTHREAD"
  using qsysD(1) [OF queue_invD(1), of X s q] by (intro distinct_subset_card_le) (simp_all add: isq_def)

lemma scount_bound:
  assumes "kmid X s" and "i < NSEM"
  shows "- NTHREAD \<le> scount (semtab s i)"
  using sem_okD(1) [OF assms] queue_length_bound [OF kpreD(1) [OF assms(1)] sem_head_in [OF assms(2)]]
  by linarith

text \<open>A change of a count with no change of the queues.\<close>

lemma kmid_count:
  assumes "kmid X s" and "e = (semtab s i)\<lparr>scount := c, sstate := st\<rparr>"
    and "i < NSEM \<Longrightarrow> int (length (contents s (squeue (semtab s i)))) = max 0 (- c)"
    and "c \<le> MAXKEY" and "st = SFREE \<longrightarrow> c = 0"
  shows "kmid X (s\<lparr>semtab := (semtab s)(i := e)\<rparr>)"
proof -
  let ?s = "s\<lparr>semtab := (semtab s)(i := e)\<rparr>"
  have sq: "squeue (((semtab s)(i := e)) j) = squeue (semtab s j)" for j using assms(2) by simp
  have "queue_inv X ?s" by (rule queue_inv_cong [OF kpreD(1) [OF assms(1)]]) (use sq in simp_all)
  moreover have "rest_inv ?s"
    by (rule rest_invI [OF kpreD(4) [OF assms(1)]]) (use sq assms in \<open>auto simp: sem_ok_def\<close>)
  ultimately show ?thesis using assms(1) by (simp add: kmid_def thread_inv_def ready_inv_def)
qed

lemma not_isbadsemD: "\<not> isbadsem i s \<Longrightarrow> i < NSEM \<and> sstate (semtab s i) = SUSED"
  by (auto simp: isbadsem_def) (metis semstate.exhaust)

lemma isbadsem_imask [simp]: "isbadsem i (s\<lparr>imask := m\<rparr>) = isbadsem i s"
  by (simp add: isbadsem_def)

lemma wait_error:
  "isbadsem i s \<Longrightarrow> wait i s = Some (SYSERR, s\<lparr>imask := norm_mask (imask s)\<rparr>)"
  by (simp add: wait_def irq_simps Let_def)

text \<open>The state after a change of one count.\<close>

definition set_count :: "semaphore \<Rightarrow> int \<Rightarrow> kernel \<Rightarrow> kernel" where
  "set_count i c s = s\<lparr>semtab := (semtab s)(i := (semtab s i)\<lparr>scount := c\<rparr>)\<rparr>"

lemma swr_count: "swr i (scount_update (\<lambda>_. c)) s = set_count i c s"
  by (simp add: swr_def set_count_def)

lemma set_count_sel [simp]:
  "quetab (set_count i c s) = quetab s" "thrtab (set_count i c s) = thrtab s"
  "thrcurrent (set_count i c s) = thrcurrent s" "readylist (set_count i c s) = readylist s"
  "sleepq (set_count i c s) = sleepq s" "imask (set_count i c s) = imask s"
  "resdefer (set_count i c s) = resdefer s"
  "squeue (semtab (set_count i c s) j) = squeue (semtab s j)"
  "sstate (semtab (set_count i c s) j) = sstate (semtab s j)"
  "scount (semtab (set_count i c s) j) = (if j = i then c else scount (semtab s j))"
  by (simp_all add: set_count_def)

lemma qheads_set_count [simp]: "qheads (set_count i c s) = qheads s"
  by (simp add: qheads_def)

lemma kmid_set_count:
  assumes "kmid X s" and "int (length (contents s (squeue (semtab s i)))) = max 0 (- c)" and "c \<le> MAXKEY"
    and "sstate (semtab s i) = SUSED"
  shows "kmid X (set_count i c s)"
  unfolding set_count_def by (rule kmid_count [OF assms(1) _ _ assms(3), where st = SUSED]) (use assms in simp_all)

lemma wait_pass:
  assumes k: "kinv s" and b: "\<not> isbadsem i s" and c: "0 < scount (semtab s i)"
  shows "wait i s = Some (OK, (set_count i (scount (semtab s i) - 1) s)\<lparr>imask := norm_mask (imask s)\<rparr>)"
    and "kinv (set_count i (scount (semtab s i) - 1) s)"
proof -
  have i: "i < NSEM" and u: "sstate (semtab s i) = SUSED"
    using not_isbadsemD [OF b] by simp_all
  note o = sem_okD [OF kinvD(1) [OF k] i]
  show "wait i s = Some (OK, (set_count i (scount (semtab s i) - 1) s)\<lparr>imask := norm_mask (imask s)\<rparr>)"
    using b c o(2) by (simp add: wait_def irq_simps Let_def swr_def set_count_def)
  have "kpre (set_count i (scount (semtab s i) - 1) s)"
    using o c u by (intro kmid_set_count [OF kinvD(1) [OF k]]) simp_all
  then show "kinv (set_count i (scount (semtab s i) - 1) s)"
    using kinvD(2) [OF k] by (simp add: kinv_def)
qed

text \<open>The state in which a thread that has to wait calls \<^verbatim>\<open>resched\<close>.\<close>

lemma wait_enqueue:
  assumes k: "kinv s" and i: "i < NSEM" "sstate (semtab s i) = SUSED" and c: "scount (semtab s i) \<le> 0"
    and n: "thrcurrent s \<noteq> NULLTHREAD" and d: "d = (set_count i (scount (semtab s i) - 1) s)\<lparr>
      thrtab := (thrtab s)(thrcurrent s := (thrtab s (thrcurrent s))\<lparr>tstate := THRWAIT, tsem := i\<rparr>)\<rparr>"
  shows "\<exists>qt. enqueue (thrcurrent s) (squeue (semtab s i)) d = Some (thrcurrent s, d\<lparr>quetab := qt\<rparr>)
     \<and> kpre (d\<lparr>quetab := qt\<rparr>) \<and> (\<forall>q\<in>qheads s. queue_of qt q
        = (if q = squeue (semtab s i) then contents s q @ [thrcurrent s] else contents s q))"
proof -
  define t where "t = thrcurrent s"
  define e where "e = (thrtab s t)\<lparr>tstate := THRWAIT, tsem := i\<rparr>"
  note k0 = kinvD(1) [OF k]
  have t: "is_tid t" using kpreD(2) [OF k0] by (simp add: thread_inv_def t_def)
  have "queue_inv {t} s" using kpreD(1) [OF k0] kinvD(2) [OF k] by (simp add: queue_inv_park qhome_state t_def)
  then have q: "queue_inv {t} d" by (rule queue_inv_cong) (simp_all add: d t_def)
  have h: "qhome d t = Some (squeue (semtab s i))" "qheads d = qheads s" "quetab d = quetab s"
    by (simp_all add: d t_def qhome_def)
  have "tstate (thrtab d t) \<noteq> THRFREE" by (simp add: d t_def)
  from k_enqueue [OF q _ t this h(1)] obtain qt where
      en: "enqueue t (squeue (semtab s i)) d = Some (t, d\<lparr>quetab := qt\<rparr>)"
    and q2: "queue_inv {} (d\<lparr>quetab := qt\<rparr>)"
    and c2: "\<forall>q\<in>qheads s. queue_of qt q = (if q = squeue (semtab s i) then contents s q @ [t] else contents s q)"
    and k2: "\<forall>j. qkey (qt j) = qkey (quetab s j)"
    unfolding h using sem_head_in [OF i(1), of s] by auto
  note l = sem_layout [OF k0 i(1)] and o = sem_okD [OF k0 i(1)]
  have "thread_inv (s\<lparr>thrtab := (thrtab s)(t := e)\<rparr>)"
    by (rule thread_inv_block) (use kpreD(2) [OF k0] n i t in \<open>auto simp: thread_inv_def t_def e_def\<close>)
  then have "thread_inv (d\<lparr>quetab := qt\<rparr>)" by (rule thread_inv_cong) (simp_all add: d t_def e_def)
  moreover have "ready_inv (d\<lparr>quetab := qt\<rparr>)"
    by (rule ready_inv_cong [OF kpreD(3) [OF k0]]) (use c2 k2 l(1) in \<open>simp_all add: d\<close>)
  moreover have "sem_ok (d\<lparr>quetab := qt\<rparr>) j" if "j < NSEM" "sem_ok s j" for j
    using that c2 sem_head_in [OF that(1), of s] o l(3) [OF that(1)] c i by (auto simp: sem_ok_def d)
  then have "rest_inv (d\<lparr>quetab := qt\<rparr>)"
    by (intro rest_invI [OF kpreD(4) [OF k0]]) (use c2 k2 l(2) in \<open>auto simp: d\<close>)
  ultimately show ?thesis using en q2 c2 by (auto simp: kmid_def t_def)
qed

lemma wait_block:
  assumes k: "kinv s" and b: "\<not> isbadsem i s" and c: "scount (semtab s i) \<le> 0"
    and n: "thrcurrent s \<noteq> NULLTHREAD"
  shows "\<exists>s'. wait i s = Some (OK, s') \<and> kinv s' \<and> thrcurrent s' \<noteq> thrcurrent s
     \<and> thrcurrent s' = hd (contents s (readylist s))
     \<and> tstate (thrtab s' (thrcurrent s)) = THRWAIT
     \<and> contents s' (squeue (semtab s i)) = contents s (squeue (semtab s i)) @ [thrcurrent s]
     \<and> semtab s' = semtab (set_count i (scount (semtab s i) - 1) s)"
proof -
  have i: "i < NSEM" "sstate (semtab s i) = SUSED" using not_isbadsemD [OF b] by simp_all
  define z where "z = s\<lparr>imask := (imask s)\<lparr>irqen := 0x80\<rparr>\<rparr>"
  have z: "quetab z = quetab s" "thrtab z = thrtab s" "thrcurrent z = thrcurrent s" "semtab z = semtab s"
      "qheads z = qheads s" "readylist z = readylist s" by (simp_all add: z_def)
  have kz: "kinv z" using k by (simp add: z_def)
  define d where "d = (set_count i (scount (semtab s i) - 1) z)\<lparr>
      thrtab := (thrtab s)(thrcurrent s := (thrtab s (thrcurrent s))\<lparr>tstate := THRWAIT, tsem := i\<rparr>)\<rparr>"
  obtain qt where en: "enqueue (thrcurrent s) (squeue (semtab s i)) d = Some (thrcurrent s, d\<lparr>quetab := qt\<rparr>)"
    and kd: "kpre (d\<lparr>quetab := qt\<rparr>)"
    and c2: "\<forall>q\<in>qheads s. queue_of qt q
        = (if q = squeue (semtab s i) then contents s q @ [thrcurrent s] else contents s q)"
    using wait_enqueue [OF kz, of i d] i c n d_def unfolding z by blast
  obtain s' where r: "resched (d\<lparr>quetab := qt\<rparr>) = Some (OK, s')" and v: "kinv s'"
      "dispatched (d\<lparr>quetab := qt\<rparr>) s'"
    using resched_spec [OF kd] by blast
  have ne: "thrcurrent s' \<noteq> thrcurrent s" using dispatched_other [OF kd v(2)] by (simp add: d_def z)
  have "is_tid (thrcurrent s)" using kpreD(2) [OF kinvD(1) [OF k]] by (simp add: thread_inv_def)
  moreover have "- NTHREAD \<le> scount (semtab s i)" by (rule scount_bound [OF kinvD(1) [OF k] i(1)])
  ultimately have "wait i s = Some (OK, s')"
    using r en b c ne
    by (simp add: wait_def irq_simps Let_def swr_def set_count_def twr_def d_def z_def)
  moreover have "thrcurrent s' = hd (contents s (readylist s))"
    using v(2) c2 sem_layout(1) [OF kinvD(1) [OF k] i(1)]
    by (simp add: dispatched_def ready_next_def d_def z Let_def)
  moreover have "tstate (thrtab s' (thrcurrent s)) = THRWAIT" using v(2) ne
    by (simp add: dispatched_def d_def z)
  moreover have "contents s' (squeue (semtab s i)) = contents s (squeue (semtab s i)) @ [thrcurrent s]"
    using v(2) c2 sem_layout(1) [OF kinvD(1) [OF k] i(1)] sem_head_in [OF i(1), of s]
    by (simp add: dispatched_def d_def z)
  moreover have "semtab s' = semtab (set_count i (scount (semtab s i) - 1) s)"
    using dispatched_globals(1) [OF v(2)] by (simp add: d_def set_count_def z)
  ultimately show ?thesis using v(1) ne by blast
qed

section \<open>Signalling\<close>

lemma sem_member_state:
  assumes "kmid X s" and "i < NSEM" and "t \<in> set (contents s (squeue (semtab s i)))"
  shows "tstate (thrtab s t) = THRWAIT" and "tsem (thrtab s t) = i" and "is_tid t"
proof -
  have h: "is_tid t" "qhome s t = Some (squeue (semtab s i))"
    using queue_inv_mem [OF kpreD(1) [OF assms(1)] sem_head_in [OF assms(2)], of t] assms(3) by simp_all
  then show "is_tid t" by simp
  have "tstate (thrtab s t) = THRWAIT \<longrightarrow> tsem (thrtab s t) < NSEM"
    using kpreD(2) [OF assms(1)] h(1) by (simp add: thread_inv_def)
  then show "tstate (thrtab s t) = THRWAIT" and "tsem (thrtab s t) = i"
    using h(2) sem_layout [OF assms(1,2)] by (auto simp: qhome_def split: thrstate.splits) metis
qed

lemma sem_waiters:
  assumes "kmid X s" and "i < NSEM"
  shows "scount (semtab s i) < 0 \<longleftrightarrow> contents s (squeue (semtab s i)) \<noteq> []"
  using sem_okD(1) [OF assms] by (cases "contents s (squeue (semtab s i))") auto

text \<open>The first waiting thread leaves the queue as the count goes up.\<close>

lemma sig_dequeue:
  assumes k: "kinv s" and i: "i < NSEM" "sstate (semtab s i) = SUSED"
    and ts: "contents s (squeue (semtab s i)) = t # ts"
    and d: "d = set_count i (scount (semtab s i) + 1) s"
  shows "\<exists>qt. dequeue (squeue (semtab s i)) d = Some (t, d\<lparr>quetab := qt\<rparr>) \<and> kmid {t} (d\<lparr>quetab := qt\<rparr>)
     \<and> (\<forall>q\<in>qheads s. queue_of qt q = (if q = squeue (semtab s i) then ts else contents s q))
     \<and> (\<forall>j. qkey (qt j) = qkey (quetab s j))"
proof -
  note k0 = kinvD(1) [OF k]
  note l = sem_layout [OF k0 i(1)] and o = sem_okD [OF k0 i(1)]
  have q: "queue_inv {} d" by (rule queue_inv_cong [OF kpreD(1) [OF k0]]) (simp_all add: d)
  have h: "qheads d = qheads s" "quetab d = quetab s" by (simp_all add: d)
  from k_dequeue [OF q, of "squeue (semtab s i)" t ts] obtain qt where
      de: "dequeue (squeue (semtab s i)) d = Some (t, d\<lparr>quetab := qt\<rparr>)"
    and q2: "queue_inv {t} (d\<lparr>quetab := qt\<rparr>)"
    and c2: "\<forall>q\<in>qheads s. queue_of qt q = (if q = squeue (semtab s i) then ts else contents s q)"
    and k2: "\<forall>j. qkey (qt j) = qkey (quetab s j)"
    unfolding h using ts sem_head_in [OF i(1), of s] by auto
  have "thread_inv (d\<lparr>quetab := qt\<rparr>)" by (rule thread_inv_cong [OF kpreD(2) [OF k0]]) (simp_all add: d)
  moreover have "ready_inv (d\<lparr>quetab := qt\<rparr>)"
    by (rule ready_inv_cong [OF kpreD(3) [OF k0]]) (use c2 k2 l(1) in \<open>simp_all add: d\<close>)
  moreover have "sem_ok (d\<lparr>quetab := qt\<rparr>) j" if "j < NSEM" "sem_ok s j" for j
    using that c2 sem_head_in [OF that(1), of s] o l(3) [OF that(1)] ts i by (auto simp: sem_ok_def d)
  then have "rest_inv (d\<lparr>quetab := qt\<rparr>)"
    by (intro rest_invI [OF kpreD(4) [OF k0]]) (use c2 k2 l(2) in \<open>auto simp: d\<close>)
  ultimately show ?thesis using de q2 c2 k2 by (auto simp: kmid_def)
qed

text \<open>
  What \<open>n\<close> signals do to semaphore \<open>i\<close>: the count goes up by \<open>n\<close>, and the first \<open>n\<close>
  waiting threads, in their order, become ready; no other thread changes its state.
\<close>

definition released :: "nat \<Rightarrow> semaphore \<Rightarrow> kernel \<Rightarrow> kernel \<Rightarrow> bool" where
  "released n i s s' \<longleftrightarrow> (let W = contents s (squeue (semtab s i)) in
     thrcurrent s' = thrcurrent s \<and> readylist s' = readylist s
     \<and> semtab s' = semtab (set_count i (scount (semtab s i) + int n) s)
     \<and> contents s' (squeue (semtab s i)) = drop n W
     \<and> (\<forall>t. tstate (thrtab s' t) = (if t \<in> set (take n W) then THRREADY else tstate (thrtab s t))))"

lemma sig_step_spec:
  assumes k: "kinv s" and i: "i < NSEM" "sstate (semtab s i) = SUSED" and m: "scount (semtab s i) < MAXKEY"
  shows "\<exists>s'. sig_step i False s = Some s' \<and> kinv s' \<and> released 1 i s s'"
proof (cases "contents s (squeue (semtab s i))")
  case Nil
  note k0 = kinvD(1) [OF k]
  have c: "0 \<le> scount (semtab s i)" using sem_waiters [OF k0 i(1)] Nil by simp
  let ?s = "set_count i (scount (semtab s i) + 1) s"
  have "kpre ?s" using Nil c m i by (intro kmid_set_count [OF k0]) simp_all
  then have "kinv ?s" using kinvD(2) [OF k] by (simp add: kinv_def)
  moreover have "sig_step i False s = Some ?s" using c m by (simp add: sig_step_def swr_count Let_def)
  moreover have "released 1 i s ?s" using Nil by (simp add: released_def)
  ultimately show ?thesis by blast
next
  case (Cons t ts)
  note k0 = kinvD(1) [OF k]
  have c: "scount (semtab s i) < 0" using sem_waiters [OF k0 i(1)] Cons by simp
  have w: "tstate (thrtab s t) = THRWAIT" "is_tid t" using sem_member_state [OF k0 i(1), of t] Cons by simp_all
  define d where "d = set_count i (scount (semtab s i) + 1) s"
  obtain qt where de: "dequeue (squeue (semtab s i)) d = Some (t, d\<lparr>quetab := qt\<rparr>)"
    and kd: "kmid {t} (d\<lparr>quetab := qt\<rparr>)"
    and c2: "\<forall>q\<in>qheads s. queue_of qt q = (if q = squeue (semtab s i) then ts else contents s q)"
    using sig_dequeue [OF k i Cons d_def] by blast
  have tc: "t \<noteq> thrcurrent s" using w kinvD(2) [OF k] by auto
  obtain s' where r: "ready t False (d\<lparr>quetab := qt\<rparr>) = Some (OK, s')" and ks: "kpre s'"
    and mr: "made_ready t (d\<lparr>quetab := qt\<rparr>) s'"
    using k_ready [OF kd _ w(2)] tc w by (auto simp: d_def)
  note g = made_ready_globals [OF mr]
  have "- NTHREAD \<le> scount (semtab s i)" by (rule scount_bound [OF k0 i(1)])
  then have "sig_step i False s = Some s'"
    using c de r by (simp add: sig_step_def swr_count Let_def d_def)
  moreover have "kinv s'" using ks kinvD(2) [OF k] tc by (simp add: kinv_def g d_def)
  moreover have "contents s' (squeue (semtab s i)) = ts"
    using mr c2 sem_head_in [OF i(1), of s] sem_layout(1) [OF k0 i(1)] by (simp add: made_ready_def d_def)
  then have "released 1 i s s'"
    using Cons by (simp add: released_def g d_def)
  ultimately show ?thesis by blast
qed

lemma released_imask [simp]: "released n i (s\<lparr>imask := m\<rparr>) s' = released n i s s'"
  by (simp add: released_def set_count_def)

lemma released_trans:
  assumes "released 1 i s s1" and "released n i s1 s2"
  shows "released (Suc n) i s s2"
proof -
  have "set (take (Suc n) W) = set (take 1 W) \<union> set (take n (drop 1 W))" for W :: "tid_typ list"
    by (cases W) auto
  then show ?thesis
    using assms by (auto simp: released_def Let_def set_count_def algebra_simps)
qed

lemma signaln_loop_spec:
  "kinv s \<Longrightarrow> i < NSEM \<Longrightarrow> sstate (semtab s i) = SUSED \<Longrightarrow> scount (semtab s i) + int n \<le> MAXKEY \<Longrightarrow>
   \<exists>s'. signaln_loop n i s = Some s' \<and> kinv s' \<and> released n i s s'"
proof (induction n arbitrary: s)
  case 0
  then show ?case by (simp add: released_def set_count_def)
next
  case (Suc n)
  obtain s1 where s1: "sig_step i False s = Some s1" "kinv s1" "released 1 i s s1"
    using sig_step_spec [OF Suc.prems(1-3)] Suc.prems(4) by auto
  then have "sstate (semtab s1 i) = SUSED" "scount (semtab s1 i) + int n \<le> MAXKEY"
    using Suc.prems(3,4) by (simp_all add: released_def Let_def)
  from Suc.IH [OF s1(2) Suc.prems(2) this] obtain s2 where
    "signaln_loop n i s1 = Some s2" "kinv s2" "released n i s1 s2" by blast
  then show ?case using s1 released_trans [OF s1(3)] by auto
qed

lemma signaln_error:
  "isbadsem i s \<or> n \<le> 0 \<Longrightarrow> signaln i n s = Some (SYSERR, s\<lparr>imask := norm_mask (imask s)\<rparr>)"
  by (auto simp: signaln_def irq_simps Let_def)

lemma signaln_spec:
  assumes k: "kinv s" and b: "\<not> isbadsem i s" and n: "0 < n" "scount (semtab s i) + n \<le> MAXKEY"
  shows "\<exists>s1 s'. signaln i n s = Some (OK, s') \<and> kinv s' \<and> released (nat n) i s s1 \<and> dispatched s1 s' \<and> kinv s1"
proof -
  define z where "z = s\<lparr>imask := (imask s)\<lparr>irqen := 0x80\<rparr>\<rparr>"
  have "kinv z" using k by (simp add: z_def)
  then obtain s1 where s1: "signaln_loop (nat n) i z = Some s1" "kinv s1" "released (nat n) i s s1"
    using signaln_loop_spec [of z i "nat n"] not_isbadsemD [OF b] n by (auto simp: z_def)
  obtain s' where "resched s1 = Some (OK, s')" "kinv s'" "dispatched s1 s'"
    using resched_spec [OF kinvD(1) [OF s1(2)]] by blast
  then have "signaln i n s = Some (OK, ret_restore (thrcurrent s) (imask s) s')"
    using s1 b n by (simp add: signaln_def disable_eq Let_def z_def)
  then show ?thesis using s1(2,3) \<open>kinv s'\<close> \<open>dispatched s1 s'\<close>
    by (intro exI [of _ s1] exI [of _ "ret_restore (thrcurrent s) (imask s) s'"]) (simp add: irq_simps)
qed

text \<open>A single signal reschedules only when it has released a thread.\<close>

lemma signal_error:
  "isbadsem i s \<Longrightarrow> signal i s = Some (SYSERR, s\<lparr>imask := norm_mask (imask s)\<rparr>)"
  by (simp add: signal_def irq_simps Let_def)

lemma signal_free:
  assumes "kinv s" and "\<not> isbadsem i s" and "0 \<le> scount (semtab s i)" and "scount (semtab s i) < MAXKEY"
  shows "signal i s = Some (OK, (set_count i (scount (semtab s i) + 1) s)\<lparr>imask := norm_mask (imask s)\<rparr>)"
    and "kinv (set_count i (scount (semtab s i) + 1) s)"
proof -
  note i = not_isbadsemD [OF assms(2)]
  show "signal i s = Some (OK, (set_count i (scount (semtab s i) + 1) s)\<lparr>imask := norm_mask (imask s)\<rparr>)"
    using assms by (simp add: signal_def sig_step_def irq_simps Let_def swr_def set_count_def)
  have "kpre (set_count i (scount (semtab s i) + 1) s)"
    using sem_waiters [OF kinvD(1) [OF assms(1)], of i] assms(3,4) i
    by (intro kmid_set_count [OF kinvD(1) [OF assms(1)]]) simp_all
  then show "kinv (set_count i (scount (semtab s i) + 1) s)"
    using kinvD(2) [OF assms(1)] by (simp add: kinv_def)
qed

lemma sig_step_resched:
  assumes k: "kinv s" and i: "i < NSEM" "sstate (semtab s i) = SUSED" and c: "scount (semtab s i) < 0"
  shows "sig_step i True s = sig_step i False s \<bind> (\<lambda>s. resched s \<bind> (\<lambda>(_, s). Some s))"
proof -
  obtain t ts where W: "contents s (squeue (semtab s i)) = t # ts"
    using sem_waiters [OF kinvD(1) [OF k] i(1)] c by (cases "contents s (squeue (semtab s i))") auto
  obtain qt where de: "dequeue (squeue (semtab s i)) (set_count i (scount (semtab s i) + 1) s)
      = Some (t, (set_count i (scount (semtab s i) + 1) s)\<lparr>quetab := qt\<rparr>)"
    using sig_dequeue [OF k i W refl] by blast
  have "- NTHREAD \<le> scount (semtab s i)" by (rule scount_bound [OF kinvD(1) [OF k] i(1)])
  moreover have "\<not> isbadtid t ((set_count i (scount (semtab s i) + 1) s)\<lparr>quetab := qt\<rparr>)"
    using sem_member_state [OF kinvD(1) [OF k] i(1), of t] W by (simp add: isbadtid_def)
  ultimately show ?thesis using de c
    by (simp add: sig_step_def swr_count Let_def ready_def twr_def trd_def isbadtid_def
        split: Option.bind_split)
qed

lemma signal_release:
  assumes k: "kinv s" and b: "\<not> isbadsem i s" and c: "scount (semtab s i) < 0"
  shows "\<exists>s1 s'. signal i s = Some (OK, s') \<and> kinv s' \<and> released 1 i s s1 \<and> dispatched s1 s' \<and> kinv s1"
proof -
  define z where "z = s\<lparr>imask := (imask s)\<lparr>irqen := 0x80\<rparr>\<rparr>"
  have kz: "kinv z" and i: "i < NSEM" "sstate (semtab z i) = SUSED"
    using k not_isbadsemD [OF b] by (simp_all add: z_def)
  then obtain s1 where s1: "sig_step i False z = Some s1" "kinv s1" "released 1 i s s1"
    using sig_step_spec [of z i] c by (auto simp: z_def)
  obtain s' where "resched s1 = Some (OK, s')" "kinv s'" "dispatched s1 s'"
    using resched_spec [OF kinvD(1) [OF s1(2)]] by blast
  then have "signal i s = Some (OK, ret_restore (thrcurrent s) (imask s) s')"
    using s1 b c sig_step_resched [OF kz i] by (simp add: signal_def disable_eq Let_def z_def)
  then show ?thesis using s1(2,3) \<open>kinv s'\<close> \<open>dispatched s1 s'\<close>
    by (intro exI [of _ s1] exI [of _ "ret_restore (thrcurrent s) (imask s) s'"]) (simp add: irq_simps)
qed

section \<open>Creating and freeing semaphores\<close>

text \<open>Every round of the loop of \<^verbatim>\<open>semfree\<close> releases the first waiting thread.\<close>

lemma semfree_loop_spec:
  assumes "queue_inv {} s" and "thread_inv s" and "ready_inv s" and "q \<in> qheads s" and "q \<noteq> readylist s"
    and "contents s q = W" and "\<forall>t\<in>set W. tstate (thrtab s t) = THRWAIT"
    and "tstate (thrtab s (thrcurrent s)) = THRCURR"
  shows "\<exists>s'. semfree_loop q s = Some s' \<and> queue_inv {} s' \<and> thread_inv s' \<and> ready_inv s' \<and> contents s' q = []
     \<and> (\<forall>r\<in>qheads s. r \<noteq> q \<longrightarrow> r \<noteq> readylist s \<longrightarrow> contents s' r = contents s r)
     \<and> (\<forall>t. t \<notin> set W \<longrightarrow> qkey (quetab s' t) = qkey (quetab s t))
     \<and> (\<forall>t. tstate (thrtab s' t) = (if t \<in> set W then THRREADY else tstate (thrtab s t)))
     \<and> s' = s\<lparr>quetab := quetab s', thrtab := thrtab s'\<rparr>"
  using assms
proof (induction W arbitrary: s)
  case Nil
  have "nonempty q s = Some False"
    using nonempty_qsys [OF queue_invD(1) [OF Nil(1)] Nil(4)] Nil(6) by simp
  then have "semfree_loop q s = Some s" by (subst semfree_loop.simps) simp
  then show ?case using Nil by simp
next
  case (Cons t W)
  have ne: "nonempty q s = Some True"
    using nonempty_qsys [OF queue_invD(1) [OF Cons(2)] Cons(5)] Cons(7) by simp
  have w: "tstate (thrtab s t) \<noteq> THRFREE" and tc: "t \<noteq> thrcurrent s" using Cons(8,9) by auto
  obtain s0 s1 where de: "dequeue q s = Some (t, s0)" "ready t False s0 = Some (OK, s1)"
    and i1: "queue_inv {} s1" "thread_inv s1" "ready_inv s1"
    and c2: "\<forall>r\<in>qheads s. r \<noteq> readylist s \<longrightarrow> contents s1 r = (if r = q then W else contents s r)"
    and k2: "\<forall>i. i \<noteq> t \<longrightarrow> qkey (quetab s1 i) = qkey (quetab s i)"
    and t2: "thrtab s1 = (thrtab s)(t := (thrtab s t)\<lparr>tstate := THRREADY\<rparr>)"
    and e2: "s1 = s\<lparr>quetab := quetab s1, thrtab := thrtab s1\<rparr>" and tW: "t \<notin> set W"
    using release_first [OF Cons(2-7) w tc] by blast
  note g = upd_qt_globals [OF e2]
  have W: "\<forall>u\<in>set W. tstate (thrtab s1 u) = THRWAIT" using Cons(8) tW by (auto simp: t2)
  from Cons.IH [OF i1] obtain s' where s': "semfree_loop q s1 = Some s'" "queue_inv {} s'" "thread_inv s'"
      "ready_inv s'" "contents s' q = []"
    and c3: "\<forall>r\<in>qheads s. r \<noteq> q \<longrightarrow> r \<noteq> readylist s \<longrightarrow> contents s' r = contents s1 r"
    and k3: "\<forall>t. t \<notin> set W \<longrightarrow> qkey (quetab s' t) = qkey (quetab s1 t)"
    and t3: "\<forall>t. tstate (thrtab s' t) = (if t \<in> set W then THRREADY else tstate (thrtab s1 t))"
    and e3: "s' = s1\<lparr>quetab := quetab s', thrtab := thrtab s'\<rparr>"
    using g Cons(5,6) c2 W tc Cons(9) t2 by auto
  have "semfree_loop q s = Some s'" using ne de s'(1) by (subst semfree_loop.simps) simp
  moreover have "s' = s\<lparr>quetab := quetab s', thrtab := thrtab s'\<rparr>" using e2 e3 by (rule upd_qt_trans)
  ultimately show ?case using s' c2 c3 k2 k3 t3 t2 by auto
qed

lemma semfree_error:
  "isbadsem i s \<Longrightarrow> semfree i s = Some (SYSERR, s\<lparr>imask := norm_mask (imask s)\<rparr>)"
  by (simp add: semfree_def irq_simps Let_def)

lemma semfree_done:
  assumes k: "kinv s" and i: "i < NSEM" and q: "q = squeue (semtab s i)"
    and u: "queue_inv {} u" "thread_inv u" "ready_inv u" "contents u q = []"
    and c: "\<forall>r\<in>qheads s. r \<noteq> q \<longrightarrow> r \<noteq> readylist s \<longrightarrow> contents u r = contents s r"
    and ky: "\<forall>t. t \<notin> set (contents s q) \<longrightarrow> qkey (quetab u t) = qkey (quetab s t)"
    and g: "semtab u = semtab s" "readylist u = readylist s" "sleepq u = sleepq s" "resdefer u = resdefer s"
    and v: "v = u\<lparr>semtab := (semtab s)(i := (semtab s i)\<lparr>scount := 0, sstate := SFREE\<rparr>)\<rparr>"
  shows "kpre v"
proof -
  note k0 = kinvD(1) [OF k]
  note l = sem_layout [OF k0 i, folded q]
  have "queue_inv {} v" by (rule queue_inv_cong [OF u(1)]) (simp_all add: v g)
  moreover have "thread_inv v" by (rule thread_inv_cong [OF u(2)]) (simp_all add: v)
  moreover have "ready_inv v" by (rule ready_inv_cong [OF u(3)]) (simp_all add: v)
  moreover have "rest_inv v"
  proof (rule rest_invI [OF kpreD(4) [OF k0]])
    show "contents v (sleepq s) = contents s (sleepq s)"
      using c l(2) rest_invD(1) [OF kpreD(4) [OF k0]] by (simp add: layout_inv_def v)
    show "sem_ok v j" if "j < NSEM" "sem_ok s j" for j
      using that u(4) c l(3) [OF that(1)] sem_layout(1) [OF k0 that(1)] sem_head_in [OF that(1), of s]
      by (auto simp: v sem_ok_def q)
    show "qkey (quetab v t) = qkey (quetab s t)" if "t \<in> set (contents s (sleepq s))" for t
      using ky queue_inv_disjoint [OF kpreD(1) [OF k0] _ _ _ that, of q] l(2) sem_head_in [OF i, of s]
      by (simp add: v q)
  qed (simp_all add: v g)
  ultimately show ?thesis by (simp add: kmid_def)
qed

lemma semfree_spec:
  assumes k: "kinv s" and b: "\<not> isbadsem i s"
  shows "\<exists>s'. semfree i s = Some (OK, s') \<and> kinv s' \<and> thrcurrent s' = thrcurrent s
     \<and> imask s' = norm_mask (imask s) \<and> contents s' (squeue (semtab s i)) = []
     \<and> semtab s' = (semtab s)(i := (semtab s i)\<lparr>scount := 0, sstate := SFREE\<rparr>)
     \<and> (\<forall>t. tstate (thrtab s' t) = (if t \<in> set (contents s (squeue (semtab s i))) then THRREADY
                                    else tstate (thrtab s t)))"
proof -
  have i: "i < NSEM" using not_isbadsemD [OF b] by simp
  define z where "z = s\<lparr>imask := (imask s)\<lparr>irqen := 0x80\<rparr>\<rparr>"
  define q where "q = squeue (semtab s i)"
  have kz: "kpre z" using kinvD(1) [OF k] by (simp add: z_def)
  have z: "quetab z = quetab s" "thrtab z = thrtab s" "thrcurrent z = thrcurrent s" "semtab z = semtab s"
      "qheads z = qheads s" "readylist z = readylist s" "sleepq z = sleepq s" by (simp_all add: z_def)
  have w: "\<forall>t\<in>set (contents s q). tstate (thrtab s t) = THRWAIT"
    using sem_member_state(1) [OF kinvD(1) [OF k] i] by (simp add: q_def)
  obtain u where u: "semfree_loop q z = Some u" "queue_inv {} u" "thread_inv u" "ready_inv u" "contents u q = []"
    and c: "\<forall>r\<in>qheads s. r \<noteq> q \<longrightarrow> r \<noteq> readylist s \<longrightarrow> contents u r = contents s r"
    and ky: "\<forall>t. t \<notin> set (contents s q) \<longrightarrow> qkey (quetab u t) = qkey (quetab s t)"
    and ts: "\<forall>t. tstate (thrtab u t) = (if t \<in> set (contents s q) then THRREADY else tstate (thrtab s t))"
    and e: "u = z\<lparr>quetab := quetab u, thrtab := thrtab u\<rparr>"
    using semfree_loop_spec [OF kpreD(1-3) [OF kz], of q "contents s q"] w kinvD(2) [OF k]
      sem_layout(1) [OF kinvD(1) [OF k] i] sem_head_in [OF i, of s] unfolding z q_def by auto
  have g: "semtab u = semtab s" "thrcurrent u = thrcurrent s" "readylist u = readylist s" "sleepq u = sleepq s"
      "resdefer u = resdefer s"
    using arg_cong [OF e, of semtab] arg_cong [OF e, of thrcurrent] arg_cong [OF e, of readylist]
      arg_cong [OF e, of sleepq] arg_cong [OF e, of resdefer] by (simp_all add: z_def)
  define v where "v = u\<lparr>semtab := (semtab s)(i := (semtab s i)\<lparr>scount := 0, sstate := SFREE\<rparr>)\<rparr>"
  have "kpre v" by (rule semfree_done [OF k i q_def u(2-5) c ky g(1,3-5) v_def])
  moreover have "thrcurrent s \<notin> set (contents s q)" using w kinvD(2) [OF k] by force
  ultimately have "kinv v" using kinvD(2) [OF k] ts by (simp add: kinv_def v_def g)
  moreover have "semfree i s = Some (OK, v\<lparr>imask := norm_mask (imask s)\<rparr>)"
    using b u(1) by (simp add: semfree_def irq_simps swr_def v_def g q_def z_def)
  ultimately show ?thesis using u(5) ts by (simp add: v_def g q_def)
qed

text \<open>
  The scan finds a free slot if there is one; it looks at the slots from
  \<^verbatim>\<open>nextsem + 1\<close> on, around the table.
\<close>

lemma semalloc_loop_spec:
  "semalloc_loop n s = (i, s') \<Longrightarrow> n \<le> 100 \<Longrightarrow>
   (i < NSEM \<and> sstate (semtab s i) = SFREE \<and> s' = s\<lparr>nextsem := nextsem s',
       semtab := (semtab s)(i := (semtab s i)\<lparr>sstate := SUSED\<rparr>)\<rparr>)
   \<or> (i = -1 \<and> s' = s\<lparr>nextsem := nextsem s'\<rparr>
       \<and> (\<forall>k<n. sstate (semtab s (word_of_int ((nextsem s + 1 + int k) mod 100))) = SUSED))"
proof (induction n arbitrary: s)
  case 0
  then show ?case by simp
next
  case (Suc n)
  define z where "z = s\<lparr>nextsem := (nextsem s + 1) mod 100\<rparr>"
  have z1: "semtab z = semtab s" "nextsem z = (nextsem s + 1) mod 100" "\<And>a. z\<lparr>nextsem := a\<rparr> = s\<lparr>nextsem := a\<rparr>"
    by (simp_all add: z_def)
  define j :: semaphore where "j = word_of_int ((nextsem s + 1) mod 100)"
  have j: "j < NSEM" by (simp add: j_def word_less_def uint_word_of_int take_bit_eq_mod)
  show ?case
  proof (cases "sstate (semtab s j) = SFREE")
    case True
    then have "semalloc_loop (Suc n) s = (j, swr j (sstate_update (\<lambda>_. SUSED)) z)"
      by (simp add: Let_def j_def z_def)
    then have ij: "i = j" and s': "s' = swr j (sstate_update (\<lambda>_. SUSED)) z"
      using Suc.prems(1) by (simp_all only: prod.inject)
    have "s' = s\<lparr>nextsem := nextsem s', semtab := (semtab s)(j := (semtab s j)\<lparr>sstate := SUSED\<rparr>)\<rparr>"
      unfolding s' by (simp add: swr_def z_def)
    then show ?thesis using True j ij by blast
  next
    case False
    then have u: "sstate (semtab s j) = SUSED" by (cases "sstate (semtab s j)") simp_all
    have "semalloc_loop n z = (i, s')" using False Suc.prems by (auto simp: Let_def j_def z_def)
    from Suc.IH [OF this, unfolded z1] Suc.prems(2) consider
        "i < NSEM" "sstate (semtab s i) = SFREE"
        "s' = s\<lparr>nextsem := nextsem s', semtab := (semtab s)(i := (semtab s i)\<lparr>sstate := SUSED\<rparr>)\<rparr>"
      | "i = -1" "s' = s\<lparr>nextsem := nextsem s'\<rparr>"
        "\<forall>k<n. sstate (semtab s (word_of_int (((nextsem s + 1) mod 100 + 1 + int k) mod 100))) = SUSED"
      by (meson Suc_leD)
    then show ?thesis
    proof cases
      case 2
      have "sstate (semtab s (word_of_int ((nextsem s + 1 + int k) mod 100))) = SUSED" if "k < Suc n" for k
      proof (cases k)
        case 0
        then show ?thesis using u by (simp add: j_def)
      next
        case (Suc m)
        have "((nextsem s + 1) mod 100 + 1 + int m) mod 100 = (nextsem s + 1 + int k) mod 100"
          by (simp add: Suc add.assoc mod_add_left_eq)
        then show ?thesis using 2(3) that Suc by auto
      qed
      then show ?thesis using 2(1,2) by blast
    qed blast
  qed
qed

lemma semalloc_full:
  assumes "\<forall>k<100. P (word_of_int ((c + 1 + int k) mod 100) :: u32)" and "i < NSEM"
  shows "P i"
proof -
  define k where "k = nat ((uint i - c - 1) mod 100)"
  have u: "uint i < 100" using assms(2) by (simp add: word_less_def)
  have "(c + 1 + int k) mod 100 = (c + 1 + (uint i - c - 1)) mod 100"
    unfolding k_def by (simp add: mod_add_right_eq)
  also have "\<dots> = uint i" using u by simp
  finally have "word_of_int ((c + 1 + int k) mod 100) = i" by simp
  moreover have "k < 100" by (simp add: k_def nat_less_iff)
  ultimately show ?thesis using assms(1) by metis
qed

lemma upd_semtab_nextsem: "s\<lparr>nextsem := n, semtab := S\<rparr> = s\<lparr>semtab := S\<rparr>\<lparr>nextsem := n\<rparr>"
  by simp

text \<open>A slot taken by \<^verbatim>\<open>semalloc\<close> has an empty queue and count 0.\<close>

lemma semalloc_spec:
  assumes k: "kinv s" and a: "semalloc s = (i, s')"
  shows "i \<noteq> -1 \<Longrightarrow> i < NSEM \<and> sstate (semtab s i) = SFREE \<and> kinv s' \<and> contents s (squeue (semtab s i)) = []
       \<and> s' = s\<lparr>nextsem := nextsem s', semtab := (semtab s)(i := (semtab s i)\<lparr>sstate := SUSED\<rparr>)\<rparr>"
    and "i = -1 \<Longrightarrow> (\<forall>j<NSEM. sstate (semtab s j) = SUSED) \<and> kinv s' \<and> s' = s\<lparr>nextsem := nextsem s'\<rparr>"
proof -
  note l = semalloc_loop_spec [of 100 s i s'] and k0 = kinvD(1) [OF k]
  have c: "semalloc_loop 100 s = (i, s')" using a by (simp add: semalloc_def)
  show "i < NSEM \<and> sstate (semtab s i) = SFREE \<and> kinv s' \<and> contents s (squeue (semtab s i)) = []
       \<and> s' = s\<lparr>nextsem := nextsem s', semtab := (semtab s)(i := (semtab s i)\<lparr>sstate := SUSED\<rparr>)\<rparr>" if "i \<noteq> -1"
  proof -
    have i: "i < NSEM" and f: "sstate (semtab s i) = SFREE"
      and e: "s' = s\<lparr>nextsem := nextsem s', semtab := (semtab s)(i := (semtab s i)\<lparr>sstate := SUSED\<rparr>)\<rparr>"
      using l c that by blast+
    have o: "scount (semtab s i) = 0" using sem_okD(3) [OF k0 i f] .
    have w: "contents s (squeue (semtab s i)) = []" using sem_okD(1) [OF k0 i] o by simp
    have "kpre (s\<lparr>semtab := (semtab s)(i := (semtab s i)\<lparr>sstate := SUSED\<rparr>)\<rparr>)"
      by (rule kmid_count [OF k0, where c = 0 and st = SUSED]) (use o w in simp_all)
    then have "kinv (s\<lparr>semtab := (semtab s)(i := (semtab s i)\<lparr>sstate := SUSED\<rparr>)\<rparr>)"
      using kinvD(2) [OF k] by (simp add: kinv_def)
    then have "kinv (s\<lparr>nextsem := nextsem s', semtab := (semtab s)(i := (semtab s i)\<lparr>sstate := SUSED\<rparr>)\<rparr>)"
      using kinv_nextsem(1) [where n = "nextsem s'"] by (metis (no_types) upd_semtab_nextsem)
    then have "kinv s'" using e by metis
    then show ?thesis using i f e w by blast
  qed
  show "(\<forall>j<NSEM. sstate (semtab s j) = SUSED) \<and> kinv s' \<and> s' = s\<lparr>nextsem := nextsem s'\<rparr>" if "i = -1"
  proof -
    have "\<not> (-1 :: semaphore) < NSEM" by simp
    then have e: "s' = s\<lparr>nextsem := nextsem s'\<rparr>"
      and u: "\<forall>k<100. sstate (semtab s (word_of_int ((nextsem s + 1 + int k) mod 100))) = SUSED"
      using l c that by blast+
    then show ?thesis using k semalloc_full [of "\<lambda>j. sstate (semtab s j) = SUSED", OF u] kinv_nextsem
      by metis
  qed
qed

lemma semcreate_ok:
  assumes k: "kinv s" and n: "0 \<le> n" "n \<le> MAXKEY" and f: "\<exists>j<NSEM. sstate (semtab s j) = SFREE"
  shows "\<exists>i s'. semcreate n s = (i, s') \<and> i < NSEM \<and> sstate (semtab s i) = SFREE \<and> kinv s'
       \<and> semtab s' = (semtab s)(i := (semtab s i)\<lparr>sstate := SUSED, scount := n\<rparr>)
       \<and> contents s' (squeue (semtab s i)) = [] \<and> imask s' = norm_mask (imask s)"
proof -
  define z where "z = s\<lparr>imask := (imask s)\<lparr>irqen := 0x80\<rparr>\<rparr>"
  have kz: "kinv z" using k by (simp add: z_def)
  have z: "semtab z = semtab s" "quetab z = quetab s" by (simp_all add: z_def)
  obtain i u where a: "semalloc z = (i, u)" by fastforce
  have "i \<noteq> -1" using semalloc_spec(2) [OF kz a] f z by auto
  then have i: "i < NSEM" "sstate (semtab s i) = SFREE" and ku: "kinv u" and w: "contents s (squeue (semtab s i)) = []"
    and e: "u = z\<lparr>nextsem := nextsem u, semtab := (semtab s)(i := (semtab s i)\<lparr>sstate := SUSED\<rparr>)\<rparr>"
    using semalloc_spec(1) [OF kz a] unfolding z by blast+
  have ue: "semtab u = (semtab s)(i := (semtab s i)\<lparr>sstate := SUSED\<rparr>)" "quetab u = quetab s"
    using arg_cong [OF e, of semtab] arg_cong [OF e, of quetab] by (simp_all add: z)
  have "kpre (set_count i n u)"
    using w n by (intro kmid_set_count [OF kinvD(1) [OF ku]]) (simp_all add: ue)
  then have "kinv (set_count i n u)" using kinvD(2) [OF ku] by (simp add: kinv_def)
  moreover have "semcreate n s = (i, (set_count i n u)\<lparr>imask := norm_mask (imask s)\<rparr>)"
    using a \<open>i \<noteq> -1\<close> n by (simp add: semcreate_def irq_simps z_def swr_count)
  moreover have "semtab (set_count i n u) = (semtab s)(i := (semtab s i)\<lparr>sstate := SUSED, scount := n\<rparr>)"
    by (simp add: set_count_def ue)
  ultimately show ?thesis using i w ue by simp
qed

lemma semcreate_full:
  assumes k: "kinv s" and f: "\<forall>j<NSEM. sstate (semtab s j) = SUSED"
  shows "\<exists>s'. semcreate n s = (-1, s') \<and> kinv s' \<and> semtab s' = semtab s \<and> imask s' = norm_mask (imask s)"
proof -
  define z where "z = s\<lparr>imask := (imask s)\<lparr>irqen := 0x80\<rparr>\<rparr>"
  have kz: "kinv z" using k by (simp add: z_def)
  obtain i u where a: "semalloc z = (i, u)" by fastforce
  have z: "semtab z = semtab s" by (simp add: z_def)
  have i: "i = -1" using semalloc_spec(1) [OF kz a, unfolded z] f semstate.distinct(1) by metis
  then have e: "u = z\<lparr>nextsem := nextsem u\<rparr>" and ku: "kinv u" using semalloc_spec(2) [OF kz a] by blast+
  have "semtab u = semtab s" using arg_cong [OF e, of semtab] by (simp add: z_def)
  then show ?thesis using a ku i by (simp add: semcreate_def irq_simps z_def)
qed

text \<open>A negative count is refused, but only after the slot has been taken.\<close>

lemma semcreate_negative:
  assumes k: "kinv s" and n: "n < 0" and f: "\<exists>j<NSEM. sstate (semtab s j) = SFREE"
  shows "\<exists>i s'. semcreate n s = (-1, s') \<and> i < NSEM \<and> sstate (semtab s i) = SFREE
     \<and> semtab s' = (semtab s)(i := (semtab s i)\<lparr>sstate := SUSED\<rparr>) \<and> kinv s'"
proof -
  define z where "z = s\<lparr>imask := (imask s)\<lparr>irqen := 0x80\<rparr>\<rparr>"
  have kz: "kinv z" using k by (simp add: z_def)
  have z: "semtab z = semtab s" by (simp add: z_def)
  obtain i u where a: "semalloc z = (i, u)" by fastforce
  have "i \<noteq> -1" using semalloc_spec(2) [OF kz a] f z by auto
  then have i: "i < NSEM" "sstate (semtab s i) = SFREE" and ku: "kinv u"
    and e: "u = z\<lparr>nextsem := nextsem u, semtab := (semtab s)(i := (semtab s i)\<lparr>sstate := SUSED\<rparr>)\<rparr>"
    using semalloc_spec(1) [OF kz a] unfolding z by blast+
  have "semtab u = (semtab s)(i := (semtab s i)\<lparr>sstate := SUSED\<rparr>)"
    using arg_cong [OF e, of semtab] by (simp add: z)
  then show ?thesis using a n i ku
    by (intro exI [of _ i] exI [of _ "u\<lparr>imask := norm_mask (imask s)\<rparr>"]) (simp add: semcreate_def irq_simps z_def)
qed

text \<open>What \<^verbatim>\<open>semcreate\<close> does not touch.\<close>

lemma semalloc_loop_frame:
  "semalloc_loop n s = (i, s') \<Longrightarrow> s' = s\<lparr>nextsem := nextsem s', semtab := semtab s'\<rparr>"
proof (induction n arbitrary: s)
  case (Suc n)
  let ?u = "s\<lparr>nextsem := (nextsem s + 1) mod 100\<rparr>"
  show ?case
  proof (cases "sstate (semtab s (word_of_int ((nextsem s + 1) mod 100))) = SFREE")
    case True
    then show ?thesis using Suc.prems by (auto simp: Let_def swr_def fun_upd_def)
  next
    case False
    then have "semalloc_loop n ?u = (i, s')" using Suc.prems by (simp add: Let_def)
    from Suc.IH [OF this] show ?thesis by simp
  qed
qed simp

lemma semcreate_frame:
  assumes "semcreate n s = (i, s')"
  shows "mem s' = mem s" "memlist s' = memlist s" "memheap s' = memheap s" "maxaddr s' = maxaddr s"
    "thrtab s' = thrtab s" "thrcurrent s' = thrcurrent s" "thrcount s' = thrcount s" "mboxtab s' = mboxtab s"
    "nexttid s' = nexttid s" "quetab s' = quetab s" "bfptab s' = bfptab s"
proof -
  obtain j u where a: "semalloc_loop 100 (s\<lparr>imask := (imask s)\<lparr>irqen := 0x80\<rparr>\<rparr>) = (j, u)" by fastforce
  note e = semalloc_loop_frame [OF a]
  have "s' = restore (imask s) (if j \<noteq> -1 \<and> 0 \<le> n then swr j (scount_update (\<lambda>_. n)) u else u)"
    using assms a by (auto simp: semcreate_def semalloc_def disable_eq split: if_splits)
  moreover have "mem u = mem s \<and> memlist u = memlist s \<and> memheap u = memheap s \<and> maxaddr u = maxaddr s
    \<and> thrtab u = thrtab s \<and> thrcurrent u = thrcurrent s \<and> thrcount u = thrcount s \<and> mboxtab u = mboxtab s
    \<and> nexttid u = nexttid s \<and> quetab u = quetab s \<and> bfptab u = bfptab s" using e by (cases u; cases s) simp
  ultimately show "mem s' = mem s" "memlist s' = memlist s" "memheap s' = memheap s" "maxaddr s' = maxaddr s"
    "thrtab s' = thrtab s" "thrcurrent s' = thrcurrent s" "thrcount s' = thrcount s" "mboxtab s' = mboxtab s"
    "nexttid s' = nexttid s" "quetab s' = quetab s" "bfptab s' = bfptab s"
    by (simp_all add: restore_eq swr_def)
qed

text \<open>Signals to a semaphore nobody waits for only count; \<^verbatim>\<open>signaln\<close> reschedules all the same.\<close>

lemma signaln_loop_free:
  "0 \<le> scount (semtab s i) \<Longrightarrow> scount (semtab s i) + int n \<le> MAXKEY \<Longrightarrow>
   signaln_loop n i s = Some (set_count i (scount (semtab s i) + int n) s)"
proof (induction n arbitrary: s)
  case (Suc n)
  let ?u = "set_count i (scount (semtab s i) + 1) s"
  have "sig_step i False s = Some ?u" using Suc.prems by (simp add: sig_step_def swr_count Let_def)
  moreover have "signaln_loop n i ?u = Some (set_count i (scount (semtab ?u i) + int n) ?u)"
    using Suc.prems by (intro Suc.IH) (simp_all add: set_count_def)
  ultimately show ?case by (simp add: set_count_def algebra_simps)
qed (simp add: set_count_def)

lemma signaln_free:
  assumes k: "kinv s" and b: "\<not> isbadsem i s" and n: "0 < n" "scount (semtab s i) + n \<le> MAXKEY" "0 \<le> scount (semtab s i)"
  shows "\<exists>s'. signaln i n s = Some (OK, s') \<and> kinv s' \<and> dispatched (set_count i (scount (semtab s i) + n) s) s'"
proof -
  define z where "z = s\<lparr>imask := (imask s)\<lparr>irqen := 0x80\<rparr>\<rparr>"
  have kz: "kinv z" and z: "semtab z = semtab s" using k by (simp_all add: z_def)
  have l: "signaln_loop (nat n) i z = Some (set_count i (scount (semtab s i) + n) z)"
    using signaln_loop_free [of z i "nat n"] n by (simp add: z)
  have "kinv (set_count i (scount (semtab s i) + n) z)"
    using signaln_loop_spec [of z i "nat n"] kz not_isbadsemD [OF b] n l by (simp add: z)
  then obtain s' where "resched (set_count i (scount (semtab s i) + n) z) = Some (OK, s')" "kinv s'"
    "dispatched (set_count i (scount (semtab s i) + n) z) s'" using resched_spec [OF kinvD(1)] by blast
  moreover have "set_count i c z = (set_count i c s)\<lparr>imask := imask z\<rparr>" for c by (simp add: z_def set_count_def)
  moreover have "disable s = (imask s, z)" "isbadsem i z = isbadsem i s" by (simp_all add: z_def disable_eq isbadsem_def)
  ultimately show ?thesis using l b n
    by (intro exI [of _ "ret_restore (thrcurrent s) (imask s) s'"]) (simp add: signaln_def restore_eq ret_restore_def)
qed

text \<open>Giving up a semaphore nobody waits for.\<close>

lemma semfree_idle:
  assumes k: "kinv s" and b: "\<not> isbadsem i s" and c: "0 \<le> scount (semtab s i)"
  shows "semfree i s = Some (OK, s\<lparr>semtab := (semtab s)(i := (semtab s i)\<lparr>scount := 0, sstate := SFREE\<rparr>), imask := norm_mask (imask s)\<rparr>)"
    and "kinv (s\<lparr>semtab := (semtab s)(i := (semtab s i)\<lparr>scount := 0, sstate := SFREE\<rparr>)\<rparr>)"
proof -
  have i: "i < NSEM" using not_isbadsemD [OF b] by simp
  define z where "z = s\<lparr>imask := (imask s)\<lparr>irqen := 0x80\<rparr>\<rparr>"
  have kz: "kinv z" and bz: "\<not> isbadsem i z" using k b by (simp_all add: z_def isbadsem_def)
  have e: "contents z (squeue (semtab z i)) = []" using sem_waiters [OF kinvD(1) [OF k] i] c by (simp add: z_def)
  have "nonempty (squeue (semtab z i)) z = Some False"
    using nonempty_qsys [OF queue_invD(1) [OF kpreD(1) [OF kinvD(1) [OF kz]]] sem_head_in [OF i]] e by simp
  then have l: "semfree_loop (squeue (semtab z i)) z = Some z" by (subst semfree_loop.simps) simp
  then show f: "semfree i s = Some (OK, s\<lparr>semtab := (semtab s)(i := (semtab s i)\<lparr>scount := 0, sstate := SFREE\<rparr>), imask := norm_mask (imask s)\<rparr>)"
    using b bz by (simp add: semfree_def disable_eq z_def [symmetric] swr_def restore_eq Let_def) (simp add: z_def)
  then show "kinv (s\<lparr>semtab := (semtab s)(i := (semtab s i)\<lparr>scount := 0, sstate := SFREE\<rparr>)\<rparr>)"
    using semfree_spec [OF k b] by auto
qed

end
