(* ===== verification/Xinu_Memory.thy ===== *)
theory Xinu_Memory
  imports Xinu_Sched
begin

text \<open>
  The heap: \<^verbatim>\<open>system/memget.c\<close>, \<^verbatim>\<open>memfree.c\<close>, \<^verbatim>\<open>stkget.c\<close> and the macros of
  \<^verbatim>\<open>include/memory.h\<close>. Memory is a function from byte addresses to words; a free
  block at address \<open>a\<close> has its \<^verbatim>\<open>next\<close> pointer at \<open>a\<close> and its \<^verbatim>\<open>length\<close> at
  \<open>a + 4\<close>. The lemmas show that the operations implement first fit (heap) and last fit
  (stacks) on the ordered list of free blocks, write only into free memory, and keep the
  list ordered, coalesced and inside the heap.
\<close>

section \<open>The operations\<close>

definition roundmb :: "u32 \<Rightarrow> u32" where
  "roundmb x = and (7 + x) (not 7)"

definition truncmb :: "u32 \<Rightarrow> u32" where
  "truncmb x = and x (not 7)"

text \<open>A pointer to a block: the list head \<^verbatim>\<open>&memlist\<close> or an address.\<close>

datatype mptr = MHead | MBlk u32

text \<open>A block pointer must be aligned and not \<^verbatim>\<open>NULL\<close> to be followed.\<close>

definition blk_ok :: "u32 \<Rightarrow> bool" where
  "blk_ok a \<longleftrightarrow> a \<noteq> 0 \<and> and a 3 = 0"

definition blk_next :: "u32 \<Rightarrow> kernel \<Rightarrow> u32 option" where
  "blk_next a s = (if blk_ok a then Some (mem s a) else None)"

definition blk_len :: "u32 \<Rightarrow> kernel \<Rightarrow> u32 option" where
  "blk_len a s = (if blk_ok a then Some (mem s (a + 4)) else None)"

definition set_next :: "mptr \<Rightarrow> u32 \<Rightarrow> kernel \<Rightarrow> kernel option" where
  "set_next p v s = (case p of
       MHead \<Rightarrow> Some (s\<lparr>memlist := (memlist s)\<lparr>mb_next := v\<rparr>\<rparr>)
     | MBlk a \<Rightarrow> if blk_ok a then Some (s\<lparr>mem := (mem s)(a := v)\<rparr>) else None)"

definition set_len :: "mptr \<Rightarrow> u32 \<Rightarrow> kernel \<Rightarrow> kernel option" where
  "set_len p v s = (case p of
       MHead \<Rightarrow> Some (s\<lparr>memlist := (memlist s)\<lparr>mb_length := v\<rparr>\<rparr>)
     | MBlk a \<Rightarrow> if blk_ok a then Some (s\<lparr>mem := (mem s)(a + 4 := v)\<rparr>) else None)"

definition add_free :: "u32 \<Rightarrow> kernel \<Rightarrow> kernel" where
  "add_free n s = s\<lparr>memlist := (memlist s)\<lparr>mb_length := mb_length (memlist s) + n\<rparr>\<rparr>"

definition sub_free :: "u32 \<Rightarrow> kernel \<Rightarrow> kernel" where
  "sub_free n s = s\<lparr>memlist := (memlist s)\<lparr>mb_length := mb_length (memlist s) - n\<rparr>\<rparr>"

partial_function (option) memget_scan :: "u32 \<Rightarrow> mptr \<Rightarrow> u32 \<Rightarrow> kernel \<Rightarrow> (u32 \<times> kernel) option" where
  "memget_scan nbytes prev cur s =
     (if cur = 0 then Some (-1, s)
      else do {
        len \<leftarrow> blk_len cur s;
        if len = nbytes
        then do {
          nx \<leftarrow> blk_next cur s;
          s \<leftarrow> set_next prev nx s;
          Some (cur, sub_free nbytes s)
        }
        else if len > nbytes
        then do {
          let leftover = cur + nbytes;
          s \<leftarrow> set_next prev leftover s;
          nx \<leftarrow> blk_next cur s;
          s \<leftarrow> set_next (MBlk leftover) nx s;
          len \<leftarrow> blk_len cur s;
          s \<leftarrow> set_len (MBlk leftover) (len - nbytes) s;
          Some (cur, sub_free nbytes s)
        }
        else do {
          nx \<leftarrow> blk_next cur s;
          memget_scan nbytes (MBlk cur) nx s
        }
      })"

definition memget :: "u32 \<Rightarrow> kernel \<Rightarrow> (u32 \<times> kernel) option" where
  "memget nbytes s =
     (if nbytes = 0 then Some (-1, s)
      else do {
        let nbytes = roundmb nbytes;
        let (im, s) = disable s;
        (p, s) \<leftarrow> memget_scan nbytes MHead (mb_next (memlist s)) s;
        Some (p, restore im s)
      })"

partial_function (option) memfree_scan :: "u32 \<Rightarrow> mptr \<Rightarrow> u32 \<Rightarrow> kernel \<Rightarrow> (mptr \<times> u32) option" where
  "memfree_scan block prev nxt s =
     (if nxt \<noteq> 0 \<and> nxt < block
      then do { nx \<leftarrow> blk_next nxt s; memfree_scan block (MBlk nxt) nx s }
      else Some (prev, nxt))"

definition memfree_join :: "u32 \<Rightarrow> u32 \<Rightarrow> kernel \<Rightarrow> kernel option" where
  "memfree_join block nxt s = do {
     len \<leftarrow> blk_len block s;
     if block + len = nxt
     then do {
       nlen \<leftarrow> blk_len nxt s;
       s \<leftarrow> set_len (MBlk block) (len + nlen) s;
       nn \<leftarrow> blk_next nxt s;
       set_next (MBlk block) nn s
     }
     else Some s
   }"

text \<open>
  Joining the freed block to the block below it or linking it in. The case \<^verbatim>\<open>top == block\<close>
  with \<^verbatim>\<open>prev == &memlist\<close> needs a block at address 0, below the heap.
\<close>

definition memfree_link :: "mptr \<Rightarrow> u32 \<Rightarrow> u32 \<Rightarrow> u32 \<Rightarrow> u32 \<Rightarrow> kernel \<Rightarrow> (u32 \<times> kernel) option" where
  "memfree_link prev tp block nbytes nxt s =
     (if tp = block
      then (case prev of
          MHead \<Rightarrow> None
        | MBlk p \<Rightarrow> do { len \<leftarrow> blk_len p s; s \<leftarrow> set_len prev (len + nbytes) s; Some (p, s) })
      else do {
        s \<leftarrow> set_next (MBlk block) nxt s;
        s \<leftarrow> set_len (MBlk block) nbytes s;
        s \<leftarrow> set_next prev block s;
        Some (block, s)
      })"

definition memfree :: "u32 \<Rightarrow> u32 \<Rightarrow> kernel \<Rightarrow> (int \<times> kernel) option" where
  "memfree memptr nbytes s =
     (if nbytes = 0 \<or> memptr < memheap s \<or> memptr > maxaddr s then Some (SYSERR, s)
      else do {
        let block = memptr;
        let nbytes = roundmb nbytes;
        let (im, s) = disable s;
        (prev, nxt) \<leftarrow> memfree_scan block MHead (mb_next (memlist s)) s;
        tp \<leftarrow> (case prev of MHead \<Rightarrow> Some 0
               | MBlk p \<Rightarrow> do { len \<leftarrow> blk_len p s; Some (p + len) });
        if tp > block \<or> nxt \<noteq> 0 \<and> block + nbytes > nxt
        then Some (SYSERR, restore im s)
        else do {
          let s = add_free nbytes s;
          (block, s) \<leftarrow> memfree_link prev tp block nbytes nxt s;
          s \<leftarrow> memfree_join block nxt s;
          Some (OK, restore im s)
        }
      })"

partial_function (option) stkget_scan ::
  "u32 \<Rightarrow> mptr \<Rightarrow> u32 \<Rightarrow> (mptr \<times> u32) option \<Rightarrow> kernel \<Rightarrow> (mptr \<times> u32) option option" where
  "stkget_scan nbytes prev nxt fits s =
     (if nxt = 0 then Some fits
      else do {
        len \<leftarrow> blk_len nxt s;
        let fits = (if len \<ge> nbytes then Some (prev, nxt) else fits);
        nx \<leftarrow> blk_next nxt s;
        stkget_scan nbytes (MBlk nxt) nx fits s
      })"

definition stkget :: "u32 \<Rightarrow> kernel \<Rightarrow> (u32 \<times> kernel) option" where
  "stkget nbytes s =
     (if nbytes = 0 then Some (-1, s)
      else do {
        let nbytes = roundmb nbytes;
        let (im, s) = disable s;
        found \<leftarrow> stkget_scan nbytes MHead (mb_next (memlist s)) None s;
        case found of
          None \<Rightarrow> Some (-1, restore im s)
        | Some (fitsprev, fits) \<Rightarrow> do {
            len \<leftarrow> blk_len fits s;
            (fits, s) \<leftarrow>
              (if nbytes = len
               then do { nx \<leftarrow> blk_next fits s; s \<leftarrow> set_next fitsprev nx s; Some (fits, s) }
               else do {
                 s \<leftarrow> set_len (MBlk fits) (len - nbytes) s;
                 len \<leftarrow> blk_len fits s;
                 Some (fits + len, s)
               });
            let s = sub_free nbytes s;
            Some (fits + nbytes - 4, restore im s)
          }
      })"

definition stkfree :: "u32 \<Rightarrow> u32 \<Rightarrow> kernel \<Rightarrow> (int \<times> kernel) option" where
  "stkfree p len s = memfree (p - roundmb len + 4) (roundmb len) s"

section \<open>Rounding and alignment\<close>

lemma and_not7: "and x (not 7) = x - x mod (8 :: u32)"
proof -
  have "x - take_bit 3 x = and x (not (take_bit 3 x))"
    by (rule disjunctive_diff) (simp add: bit_take_bit_iff)
  also have "\<dots> = and x (not (mask 3))"
    by (rule bit_eqI) (auto simp: bit_simps)
  finally show ?thesis by (simp add: take_bit_eq_mod mask_eq_exp_minus_1)
qed

lemma unat_and_not7: "unat (and x (not 7) :: u32) = unat x - unat x mod 8"
  unfolding and_not7 by (subst unat_sub) (simp_all add: unat_mod word_le_nat_alt)

lemma and3_iff: "and x 3 = (0 :: u32) \<longleftrightarrow> 4 dvd unat x"
proof -
  have "and x (mask 2) = x mod 4" by (simp add: take_bit_eq_mod flip: take_bit_eq_mask)
  then have "and x 3 = x mod 4" by (simp add: mask_eq_exp_minus_1)
  then show ?thesis by (simp add: word_unat_eq_iff unat_mod dvd_eq_mod_eq_0)
qed

lemma unat_add_small: "unat a + unat b < 2 ^ 32 \<Longrightarrow> unat (a + b :: u32) = unat a + unat b"
  by (simp add: unat_word_ariths)

text \<open>A request is rounded up to the next multiple of 8, unless that wraps around.\<close>

lemma roundmb_spec:
  assumes "unat n \<le> 2 ^ 32 - 8"
  shows "8 dvd unat (roundmb n)" and "unat n \<le> unat (roundmb n)" and "unat (roundmb n) < unat n + 8"
proof -
  have "unat (7 + n) = unat n + 7" using assms by (subst unat_add_small) auto
  then have r: "unat (roundmb n) = (unat n + 7) - (unat n + 7) mod 8"
    unfolding roundmb_def unat_and_not7 by simp
  show "8 dvd unat (roundmb n)" unfolding r by (metis dvd_minus_mod)
  show "unat n \<le> unat (roundmb n)" unfolding r by linarith
  show "unat (roundmb n) < unat n + 8" unfolding r by linarith
qed

lemma roundmb_wraps:
  assumes "2 ^ 32 - 8 < unat n"
  shows "roundmb n = 0"
proof -
  have "unat n < 2 ^ 32" using unsigned_less [of n] by simp
  then have "unat (7 + n) = unat n + 7 - 2 ^ 32" using assms by (simp add: unat_word_ariths le_mod_geq)
  then have "unat (roundmb n) = 0"
    using assms \<open>unat n < 2 ^ 32\<close> unfolding roundmb_def unat_and_not7 by simp
  then show ?thesis by (simp add: unat_eq_0)
qed

lemma roundmb_id:
  assumes "8 dvd unat n"
  shows "roundmb n = n"
proof -
  have "unat n < 2 ^ 32" using unsigned_less [of n] by simp
  then have "unat n \<le> 2 ^ 32 - 8" using assms by (auto elim!: dvdE)
  then have "unat (roundmb n) = unat n"
    using roundmb_spec [of n] assms by (auto elim!: dvdE)
  then show ?thesis by (simp add: word_unat_eq_iff)
qed

section \<open>The list of free blocks\<close>

type_synonym blocks = "(u32 \<times> u32) list"

text \<open>\<open>mseg m p bs q\<close>: following \<^verbatim>\<open>next\<close> from \<open>p\<close> visits the blocks \<open>bs\<close> and ends at \<open>q\<close>.\<close>

fun mseg :: "(u32 \<Rightarrow> u32) \<Rightarrow> u32 \<Rightarrow> blocks \<Rightarrow> u32 \<Rightarrow> bool" where
  "mseg m p [] q \<longleftrightarrow> p = q"
| "mseg m p ((a, l) # bs) q \<longleftrightarrow> p = a \<and> m (a + 4) = l \<and> mseg m (m a) bs q"

text \<open>
  \<open>blocks_ok lo hi bs\<close>: the blocks lie in \<open>[lo, hi)\<close>, are made of 8-byte units and are in
  ascending order with a gap after each, so no two of them could be joined.
\<close>

fun blocks_ok :: "nat \<Rightarrow> nat \<Rightarrow> blocks \<Rightarrow> bool" where
  "blocks_ok lo hi [] \<longleftrightarrow> True"
| "blocks_ok lo hi ((a, l) # bs) \<longleftrightarrow> lo \<le> unat a \<and> 8 dvd unat a \<and> 8 dvd unat l \<and> 0 < unat l
     \<and> unat a + unat l \<le> hi \<and> blocks_ok (unat a + unat l + 1) hi bs"

fun after :: "nat \<Rightarrow> blocks \<Rightarrow> nat" where
  "after lo [] = lo"
| "after lo ((a, l) # bs) = after (unat a + unat l + 1) bs"

definition region :: "u32 \<Rightarrow> u32 \<Rightarrow> nat set" where
  "region a l = {unat a ..< unat a + unat l}"

definition free_bytes :: "blocks \<Rightarrow> nat set" where
  "free_bytes bs = (\<Union>(a, l)\<in>set bs. region a l)"

definition total :: "blocks \<Rightarrow> nat" where
  "total bs = sum_list (map (unat \<circ> snd) bs)"

definition mem_inv :: "kernel \<Rightarrow> blocks \<Rightarrow> bool" where
  "mem_inv s bs \<longleftrightarrow> mseg (mem s) (mb_next (memlist s)) bs 0
     \<and> blocks_ok (unat (memheap s)) (unat (maxaddr s)) bs
     \<and> 0 < unat (memheap s) \<and> 8 dvd unat (memheap s) \<and> 8 dvd unat (maxaddr s)
     \<and> unat (mb_length (memlist s)) = total bs"

lemma mseg_append: "mseg m p (xs @ ys) r \<longleftrightarrow> (\<exists>q. mseg m p xs q \<and> mseg m q ys r)"
  by (induction m p xs r rule: mseg.induct) auto

lemma blocks_ok_append:
  "blocks_ok lo hi (xs @ ys) \<longleftrightarrow> blocks_ok lo hi xs \<and> blocks_ok (after lo xs) hi ys"
  by (induction lo hi xs rule: blocks_ok.induct) auto

lemma blocks_ok_weaken: "blocks_ok lo hi bs \<Longrightarrow> lo' \<le> lo \<Longrightarrow> blocks_ok lo' hi bs"
  by (cases bs) auto

lemma after_ge: "blocks_ok lo hi xs \<Longrightarrow> lo \<le> after lo xs"
  by (induction lo hi xs rule: blocks_ok.induct) auto

lemma blocks_okD:
  "blocks_ok lo hi bs \<Longrightarrow> (a, l) \<in> set bs \<Longrightarrow>
   lo \<le> unat a \<and> 8 dvd unat a \<and> 8 dvd unat l \<and> 0 < unat l \<and> unat a + unat l \<le> hi"
  by (induction lo hi bs rule: blocks_ok.induct) auto

lemma blocks_before: "blocks_ok lo hi xs \<Longrightarrow> (a, l) \<in> set xs \<Longrightarrow> unat a + unat l < after lo xs"
proof (induction lo hi xs rule: blocks_ok.induct)
  case (2 lo hi b k bs)
  then show ?case using after_ge [of "unat b + unat k + 1" hi bs] by auto
qed simp

lemma free_bytes_append [simp]: "free_bytes (xs @ ys) = free_bytes xs \<union> free_bytes ys"
  by (simp add: free_bytes_def)

lemma free_bytes_Cons [simp]: "free_bytes ((a, l) # bs) = region a l \<union> free_bytes bs"
  by (simp add: free_bytes_def)

lemma free_bytes_Nil [simp]: "free_bytes [] = {}"
  by (simp add: free_bytes_def)

lemma free_bytes_bounds:
  assumes "blocks_ok lo hi bs" and "x \<in> free_bytes bs"
  shows "lo \<le> x" and "x < hi"
  using assms blocks_okD [OF assms(1)] by (fastforce simp: free_bytes_def region_def)+

lemma free_bytes_before:
  assumes "blocks_ok lo hi xs" and "x \<in> free_bytes xs"
  shows "x < after lo xs"
proof -
  obtain a l where "(a, l) \<in> set xs" "x \<in> region a l" using assms(2) by (auto simp: free_bytes_def)
  then show ?thesis using blocks_before [OF assms(1)] by (fastforce simp: region_def)
qed

lemma mseg_frame:
  "(\<And>a l. (a, l) \<in> set bs \<Longrightarrow> m' a = m a \<and> m' (a + 4) = m (a + 4)) \<Longrightarrow> mseg m' p bs q = mseg m p bs q"
proof (induction bs arbitrary: p)
  case (Cons b bs)
  obtain a l where b: "b = (a, l)" by fastforce
  have "m' a = m a" "m' (a + 4) = m (a + 4)" using Cons.prems [of a l] b by simp_all
  moreover have "mseg m' (m a) bs q = mseg m (m a) bs q" 
  proof (rule Cons.IH)
    show "m' c = m c \<and> m' (c + 4) = m (c + 4)" if "(c, k) \<in> set bs" for c k
      using Cons.prems [of c k] that by simp
  qed
  ultimately show ?case by (simp add: b)
qed simp

lemma al8_bound: "8 dvd unat (a :: u32) \<Longrightarrow> unat a \<le> 2 ^ 32 - 8"
proof -
  assume "8 dvd unat a"
  moreover have "unat a < 2 ^ 32" using unsigned_less [of a] by simp
  ultimately show ?thesis by (auto elim!: dvdE)
qed

lemma al8_plus4: "8 dvd unat a \<Longrightarrow> unat (a + 4 :: u32) = unat a + 4"
  using al8_bound [of a] by (subst unat_add_small) auto

lemma al8_ne: "8 dvd unat a \<Longrightarrow> 8 dvd unat b \<Longrightarrow> a + 4 \<noteq> (b :: u32)"
proof
  assume "8 dvd unat a" "8 dvd unat b" "a + 4 = b"
  then have "8 dvd unat a + 4" using al8_plus4 [of a] by simp
  then have "8 dvd (4 :: nat)" using \<open>8 dvd unat a\<close> by (simp only: dvd_add_right_iff)
  then show False by simp
qed

lemma al8_blk_ok: "8 dvd unat a \<Longrightarrow> 0 < unat a \<Longrightarrow> blk_ok a"
  using dvd_trans [of 4 8 "unat a"] by (auto simp: blk_ok_def and3_iff)

text \<open>The pointer the scan loops keep behind them.\<close>

definition prev_after :: "mptr \<Rightarrow> blocks \<Rightarrow> mptr" where
  "prev_after pr xs = (if xs = [] then pr else MBlk (fst (last xs)))"

lemma prev_after_Cons: "prev_after pr ((a, l) # xs) = prev_after (MBlk a) xs"
  by (simp add: prev_after_def)

lemma blocks_addr_ne:
  assumes "blocks_ok lo hi (xs @ (a, l) # ys)"
  shows "(b, k) \<in> set xs \<Longrightarrow> unat b + unat k < unat a" and "(b, k) \<in> set ys \<Longrightarrow> unat a + unat l < unat b"
proof -
  have x: "blocks_ok lo hi xs" "after lo xs \<le> unat a" and y: "blocks_ok (unat a + unat l + 1) hi ys"
    using assms by (auto simp: blocks_ok_append)
  show "(b, k) \<in> set xs \<Longrightarrow> unat b + unat k < unat a" using blocks_before [OF x(1), of b k] x(2) by linarith
  show "(b, k) \<in> set ys \<Longrightarrow> unat a + unat l < unat b" using blocks_okD [OF y, of b k] by simp
qed

text \<open>Redirecting the pointer behind a prefix of the list.\<close>

lemma mseg_redirect:
  assumes "mseg m h xs q" and "blocks_ok lo hi xs"
  shows "mseg (if xs = [] then m else m(fst (last xs) := v)) (if xs = [] then v else h) xs v"
proof (cases xs rule: rev_cases)
  case (snoc ys p)
  obtain a l where p: "p = (a, l)" by fastforce
  have b: "blocks_ok lo hi (ys @ (a, l) # [])" using assms(2) snoc p by simp
  have "m' c = m c \<and> m' (c + 4) = m (c + 4)" if "(c, k) \<in> set ys" "m' = m(a := v)" for m' c k
    using that blocks_addr_ne(1) [OF b that(1)] blocks_okD [OF b, of c k] blocks_okD [OF b, of a l] al8_ne [of c a]
    by auto
  then have "mseg (m(a := v)) h ys a = mseg m h ys a" by (intro mseg_frame) blast
  moreover have "a + 4 \<noteq> a" using al8_ne [of a a] blocks_okD [OF b, of a l] by simp
  ultimately show ?thesis using assms(1) snoc p by (auto simp: mseg_append)
qed simp

definition redirect :: "blocks \<Rightarrow> u32 \<Rightarrow> kernel \<Rightarrow> kernel" where
  "redirect xs v s = (if xs = [] then s\<lparr>memlist := (memlist s)\<lparr>mb_next := v\<rparr>\<rparr>
     else s\<lparr>mem := (mem s)(fst (last xs) := v)\<rparr>)"

lemma redirect_sel [simp]:
  "mem (redirect xs v s) = (if xs = [] then mem s else (mem s)(fst (last xs) := v))"
  "mb_next (memlist (redirect xs v s)) = (if xs = [] then v else mb_next (memlist s))"
  "mb_length (memlist (redirect xs v s)) = mb_length (memlist s)"
  "memheap (redirect xs v s) = memheap s" "maxaddr (redirect xs v s) = maxaddr s"
  by (simp_all add: redirect_def)

lemma free_sel [simp]:
  "mem (sub_free n s) = mem s" "mb_next (memlist (sub_free n s)) = mb_next (memlist s)"
  "memheap (sub_free n s) = memheap s" "maxaddr (sub_free n s) = maxaddr s"
  "mem (add_free n s) = mem s" "mb_next (memlist (add_free n s)) = mb_next (memlist s)"
  "memheap (add_free n s) = memheap s" "maxaddr (add_free n s) = maxaddr s"
  "mb_length (memlist (sub_free n s)) = mb_length (memlist s) - n"
  "mb_length (memlist (add_free n s)) = mb_length (memlist s) + n"
  by (simp_all add: sub_free_def add_free_def)

text \<open>Only the memory and the list head change.\<close>

definition mem_only :: "kernel \<Rightarrow> kernel \<Rightarrow> bool" where
  "mem_only s s' \<longleftrightarrow> s' = s\<lparr>mem := mem s', memlist := memlist s'\<rparr>"

lemma mem_only_intros [intro!]:
  "mem_only s s" "mem_only s s' \<Longrightarrow> mem_only s (redirect xs v s')" "mem_only s s' \<Longrightarrow> mem_only s (sub_free n s')"
  "mem_only s s' \<Longrightarrow> mem_only s (add_free n s')" "mem_only s s' \<Longrightarrow> mem_only s (s'\<lparr>mem := m\<rparr>)"
  by (simp_all add: mem_only_def redirect_def sub_free_def add_free_def) (cases s; cases s'; simp)+

lemma mem_only_globals:
  assumes "mem_only s s'"
  shows "memheap s' = memheap s" "maxaddr s' = maxaddr s"
  using arg_cong [OF assms [unfolded mem_only_def], of memheap] arg_cong [OF assms [unfolded mem_only_def], of maxaddr]
  by simp_all

lemma last_in_free:
  assumes "blocks_ok lo hi xs" and "xs \<noteq> []"
  shows "unat (fst (last xs)) \<in> free_bytes xs"
proof -
  have l: "(fst (last xs), snd (last xs)) \<in> set xs" using assms(2) by simp
  then have "unat (fst (last xs)) \<in> region (fst (last xs)) (snd (last xs))"
    using blocks_okD [OF assms(1) l] by (simp add: region_def)
  then show ?thesis using l unfolding free_bytes_def by blast
qed

lemma set_next_prev:
  assumes "blocks_ok lo hi xs" and "0 < lo"
  shows "set_next (prev_after MHead xs) v s = Some (redirect xs v s)"
proof (cases xs rule: rev_cases)
  case (snoc ys p)
  then have "blk_ok (fst p)"
    using blocks_okD [OF assms(1), of "fst p" "snd p"] assms(2) by (intro al8_blk_ok) auto
  then show ?thesis using snoc by (simp add: set_next_def prev_after_def redirect_def)
qed (simp add: set_next_def prev_after_def redirect_def)

lemma last_ne:
  assumes b: "blocks_ok lo hi (xs @ (a, l) # ys)" and "xs \<noteq> []"
  shows "fst (last xs) \<noteq> a" and "fst (last xs) \<noteq> a + 4"
proof -
  have i: "(fst (last xs), snd (last xs)) \<in> set xs" using assms(2) by simp
  show "fst (last xs) \<noteq> a" using blocks_addr_ne(1) [OF b i] by auto
  show "fst (last xs) \<noteq> a + 4"
    using al8_ne [of a "fst (last xs)"] blocks_okD [OF b, of a l] blocks_okD [OF b, of "fst (last xs)" "snd (last xs)"] i
    by auto
qed

section \<open>First fit\<close>

lemma memget_scan_skip:
  "mseg (mem s) p xs q \<Longrightarrow> \<forall>(a, l)\<in>set xs. l < nb \<Longrightarrow> blocks_ok lo hi xs \<Longrightarrow> 0 < lo \<Longrightarrow>
   memget_scan nb pr p s = memget_scan nb (prev_after pr xs) q s"
proof (induction xs arbitrary: pr p lo)
  case Nil
  then show ?case by (simp add: prev_after_def)
next
  case (Cons b xs)
  obtain a l where b: "b = (a, l)" by fastforce
  have a: "blk_ok a" and "a \<noteq> 0" using Cons.prems b by (auto intro: al8_blk_ok)
  then have "memget_scan nb pr p s = memget_scan nb (MBlk a) (mem s a) s"
    using Cons.prems b by (subst memget_scan.simps) (auto simp: blk_len_def blk_next_def)
  also have "\<dots> = memget_scan nb (prev_after (MBlk a) xs) q s"
    by (rule Cons.IH [of _ "unat a + unat l + 1"]) (use Cons.prems b in auto)
  finally show ?case by (simp add: b prev_after_Cons)
qed

fun first_fit :: "u32 \<Rightarrow> blocks \<Rightarrow> (u32 \<times> blocks) option" where
  "first_fit nb [] = None"
| "first_fit nb ((a, l) # bs) =
     (if l = nb then Some (a, bs)
      else if l > nb then Some (a, (a + nb, l - nb) # bs)
      else map_option (\<lambda>(p, bs'). (p, (a, l) # bs')) (first_fit nb bs))"

lemma first_fit_None: "first_fit nb bs = None \<longleftrightarrow> (\<forall>(a, l)\<in>set bs. l < nb)"
  by (induction bs) (auto simp: not_less split: if_splits)

lemma first_fit_Some:
  "first_fit nb bs = Some (p, bs') \<Longrightarrow> \<exists>xs l ys. bs = xs @ (p, l) # ys \<and> (\<forall>(a, l)\<in>set xs. l < nb) \<and> nb \<le> l
     \<and> bs' = xs @ (if l = nb then [] else [(p + nb, l - nb)]) @ ys"
proof (induction bs arbitrary: bs')
  case (Cons b bs)
  obtain a l where b: "b = (a, l)" by fastforce
  show ?case
  proof (cases "l < nb")
    case False
    then show ?thesis using Cons.prems b by (intro exI [of _ "[]"]) (auto split: if_splits)
  next
    case True
    then obtain cs where cs: "first_fit nb bs = Some (p, cs)" "bs' = (a, l) # cs"
      using Cons.prems b by (auto split: if_splits)
    from Cons.IH [OF cs(1)] obtain xs k ys where "bs = xs @ (p, k) # ys" "\<forall>(a, l)\<in>set xs. l < nb" "nb \<le> k"
      "cs = xs @ (if k = nb then [] else [(p + nb, k - nb)]) @ ys" by blast
    then show ?thesis using b cs(2) True by (intro exI [of _ "(a, l) # xs"] exI [of _ k] exI [of _ ys]) simp
  qed
qed simp

text \<open>Cutting a piece off the low end of a block, or taking the block whole.\<close>

lemma mseg_take:
  assumes c: "mseg m h (xs @ (a, l) # ys) 0" and b: "blocks_ok lo hi (xs @ (a, l) # ys)"
  shows "mseg (if xs = [] then m else m(fst (last xs) := m a)) (if xs = [] then m a else h) (xs @ ys) 0"
proof -
  let ?m = "if xs = [] then m else m(fst (last xs) := m a)"
  have bx: "blocks_ok lo hi xs" and ha: "mseg m h xs a" "mseg m (m a) ys 0"
    using b c by (auto simp: blocks_ok_append mseg_append)
  have "?m c = m c \<and> ?m (c + 4) = m (c + 4)" if y: "(c, k) \<in> set ys" for c k
  proof (cases xs rule: rev_cases)
    case (snoc zs p)
    obtain d j where p: "p = (d, j)" by fastforce
    have "unat d < unat c" using blocks_addr_ne [OF b, of d j] blocks_addr_ne(2) [OF b y] snoc p by simp
    moreover have "c + 4 \<noteq> d" using blocks_okD [OF b, of c k] blocks_okD [OF b, of d j] y snoc p by (intro al8_ne) auto
    ultimately show ?thesis using snoc p by auto
  qed simp
  then have "mseg ?m (m a) ys 0" using ha(2) mseg_frame [of ys ?m m "m a" 0] by blast
  then show ?thesis using mseg_redirect [OF ha(1) bx, of "m a"] by (auto simp: mseg_append)
qed

lemma cut_bounds:
  assumes b: "blocks_ok lo hi (xs @ (a, l) # ys)" and n: "8 dvd unat nb" "0 < unat nb" "nb < l" and h: "hi < 2 ^ 32"
  shows "unat (a + nb) = unat a + unat nb" and "unat (l - nb) = unat l - unat nb"
    and "8 dvd unat (a + nb)" and "8 dvd unat (l - nb)" and "unat nb < unat l" and "unat nb + 8 \<le> unat l"
proof -
  have al: "8 dvd unat a" "8 dvd unat l" "unat a + unat l \<le> hi" using blocks_okD [OF b, of a l] by auto
  show nl: "unat nb < unat l" using n(3) by (simp add: word_less_nat_alt)
  show 1: "unat (a + nb) = unat a + unat nb" using al nl h by (intro unat_add_small) simp
  show 2: "unat (l - nb) = unat l - unat nb" using n(3) by (intro unat_sub) simp
  show "8 dvd unat (a + nb)" "8 dvd unat (l - nb)" using 1 2 al n by simp_all
  show "unat nb + 8 \<le> unat l" using nl al(2) n(1) by (auto elim!: dvdE)
qed

lemma mseg_cut:
  assumes c: "mseg m h (xs @ (a, l) # ys) 0" and b: "blocks_ok lo hi (xs @ (a, l) # ys)"
    and n: "8 dvd unat nb" "0 < unat nb" "nb < l" and hi: "hi < 2 ^ 32"
  shows "mseg ((if xs = [] then m else m(fst (last xs) := a + nb))(a + nb := m a, a + nb + 4 := l - nb))
     (if xs = [] then a + nb else h) (xs @ (a + nb, l - nb) # ys) 0"
proof -
  let ?m1 = "if xs = [] then m else m(fst (last xs) := a + nb)"
  let ?c = "a + nb"
  let ?m = "?m1(?c := m a, ?c + 4 := l - nb)"
  note cb = cut_bounds [OF b n hi]
  have bx: "blocks_ok lo hi xs" and ha: "mseg m h xs a" "mseg m (m a) ys 0"
    using b c by (auto simp: blocks_ok_append mseg_append)
  have x: "?m d = ?m1 d \<and> ?m (d + 4) = ?m1 (d + 4)" if "(d, k) \<in> set xs" for d k
  proof -
    have "unat d < unat a" "8 dvd unat d" using blocks_addr_ne(1) [OF b that] blocks_okD [OF b, of d k] that by auto
    then have "d \<noteq> ?c" using cb(1) by auto
    then show ?thesis using al8_ne [of d ?c] al8_ne [of ?c d] cb(3) \<open>8 dvd unat d\<close> by auto
  qed
  have y: "?m d = m d \<and> ?m (d + 4) = m (d + 4)" if "(d, k) \<in> set ys" for d k
  proof -
    have d: "unat a + unat l < unat d" "8 dvd unat d" using blocks_addr_ne(2) [OF b that] blocks_okD [OF b, of d k] that by auto
    then have "d \<noteq> ?c" using cb(1,5) by auto
    moreover have "fst (last xs) \<noteq> d \<and> fst (last xs) \<noteq> d + 4" if "xs \<noteq> []"
    proof -
      have "(fst (last xs), snd (last xs)) \<in> set xs" using that by simp
      then show ?thesis using blocks_addr_ne(1) [OF b] blocks_okD [OF b, of "fst (last xs)" "snd (last xs)"] d al8_ne [of d] by fastforce
    qed
    ultimately show ?thesis using al8_ne [of d ?c] al8_ne [of ?c d] cb(3) d(2) by auto
  qed
  have "mseg ?m (if xs = [] then ?c else h) xs ?c"
    using mseg_frame [of xs ?m ?m1 "if xs = [] then ?c else h" ?c] x mseg_redirect [OF ha(1) bx, of ?c] by blast
  moreover have "mseg ?m (m a) ys 0" using mseg_frame [of ys ?m m "m a" 0] y ha(2) by blast
  moreover have "?c + 4 \<noteq> ?c" by simp
  ultimately show ?thesis by (auto simp: mseg_append)
qed

lemma first_fit_blocks:
  assumes b: "blocks_ok lo hi bs" and f: "first_fit nb bs = Some (p, bs')" and n: "8 dvd unat nb" "0 < unat nb"
    and hi: "hi < 2 ^ 32"
  shows "blocks_ok lo hi bs'" and "free_bytes bs = free_bytes bs' \<union> region p nb"
    and "free_bytes bs' \<inter> region p nb = {}" and "total bs = total bs' + unat nb"
proof -
  obtain xs l ys where bs: "bs = xs @ (p, l) # ys" and l: "nb \<le> l"
    and bs': "bs' = xs @ (if l = nb then [] else [(p + nb, l - nb)]) @ ys"
    using first_fit_Some [OF f] by blast
  have bx: "blocks_ok lo hi xs" and bp: "blocks_ok (after lo xs) hi ((p, l) # ys)"
    using b bs by (simp_all add: blocks_ok_append)
  have fx: "x < unat p" if "x \<in> free_bytes xs" for x using free_bytes_before [OF bx that] bp by simp
  have by': "blocks_ok (unat p + unat l + 1) hi ys" using bp by simp
  have fy: "unat p + unat l < x" if "x \<in> free_bytes ys" for x using free_bytes_bounds(1) [OF by' that] by simp
  have nl: "unat nb \<le> unat l" using l by (simp add: word_le_nat_alt)
  consider (whole) "l = nb" | (cut) "nb < l" using l by fastforce
  note cs = this
  show "blocks_ok lo hi bs'"
  proof (cases rule: cs)
    case whole
    then show ?thesis using bx bp blocks_ok_weaken [of "unat p + unat l + 1" hi ys "after lo xs"]
      by (simp add: bs' blocks_ok_append)
  next
    case cut
    note cb = cut_bounds [OF b [unfolded bs] n cut hi]
    show ?thesis using bx bp cut cb by (auto simp: bs' blocks_ok_append)
  qed
  have r: "region p l = region p nb \<union> (if l = nb then {} else region (p + nb) (l - nb))
      \<and> region p nb \<inter> (if l = nb then {} else region (p + nb) (l - nb)) = {}
      \<and> unat l = unat nb + (if l = nb then 0 else unat (l - nb))"
  proof (cases rule: cs)
    case cut
    note cb = cut_bounds [OF b [unfolded bs] n cut hi]
    have "region (p + nb) (l - nb) = {unat p + unat nb ..< unat p + unat l}"
      unfolding region_def cb(1,2) using cb(5) by simp
    then show ?thesis using cut cb by (auto simp: region_def)
  qed simp
  then show "free_bytes bs = free_bytes bs' \<union> region p nb" by (auto simp: bs bs')
  have "free_bytes xs \<inter> region p nb = {}" "free_bytes ys \<inter> region p nb = {}"
    using fx fy nl by (fastforce simp: region_def)+
  then show "free_bytes bs' \<inter> region p nb = {}" using r by (auto simp: bs')
  show "total bs = total bs' + unat nb" using r by (simp add: bs bs' total_def)
qed

text \<open>What the scan leaves when it has found a block.\<close>

lemma memget_scan_spec:
  assumes v: "mem_inv s bs" and f: "first_fit nb bs = Some (p, bs')" and n: "8 dvd unat nb" "0 < unat nb"
  shows "\<exists>s'. memget_scan nb MHead (mb_next (memlist s)) s = Some (p, s') \<and> mem_inv s' bs'
     \<and> mem_only s s' \<and> (\<forall>x. unat x \<notin> free_bytes bs \<longrightarrow> mem s' x = mem s x)"
proof -
  obtain xs l ys where bs: "bs = xs @ (p, l) # ys" and sm: "\<forall>(a, l)\<in>set xs. l < nb" and l: "nb \<le> l"
    and bs': "bs' = xs @ (if l = nb then [] else [(p + nb, l - nb)]) @ ys"
    using first_fit_Some [OF f] by blast
  let ?lo = "unat (memheap s)" and ?hi = "unat (maxaddr s)" and ?h = "mb_next (memlist s)"
  have b: "blocks_ok ?lo ?hi (xs @ (p, l) # ys)" and lo: "0 < ?lo" and hi: "?hi < 2 ^ 32"
    and ch: "mseg (mem s) ?h (xs @ (p, l) # ys) 0"
    using v bs unsigned_less [of "maxaddr s"] by (simp_all add: mem_inv_def)
  have bx: "blocks_ok ?lo ?hi xs" and hx: "mseg (mem s) ?h xs p" using b ch by (auto simp: blocks_ok_append mseg_append)
  have pm: "mem s (p + 4) = l" and pp: "blk_ok p" "p \<noteq> 0"
    using ch blocks_okD [OF b, of p l] lo by (auto simp: mseg_append intro: al8_blk_ok)
  have sk: "memget_scan nb MHead ?h s = memget_scan nb (prev_after MHead xs) p s"
    by (rule memget_scan_skip [OF hx sm bx lo])
  note sn = set_next_prev [OF bx lo]
  have "blocks_ok ?lo ?hi bs" using b bs by simp
  note fb = first_fit_blocks [OF this f n hi]
  have len: "unat (mb_length (memlist s) - nb) = total bs'"
    using v fb(4) by (subst unat_sub) (simp_all add: mem_inv_def word_le_nat_alt)
  have lx: "xs \<noteq> [] \<Longrightarrow> unat (fst (last xs)) \<in> free_bytes bs" using last_in_free [OF bx] bs by simp
  consider (whole) "l = nb" | (cut) "nb < l" using l by fastforce
  then show ?thesis
  proof cases
    case whole
    define s' where "s' = sub_free nb (redirect xs (mem s p) s)"
    have "memget_scan nb MHead ?h s = Some (p, s')"
      unfolding sk using pm pp whole sn by (subst memget_scan.simps) (simp add: blk_len_def blk_next_def s'_def)
    moreover have "mem_inv s' bs'"
      using v fb(1) len mseg_take [OF ch b] whole by (simp add: mem_inv_def s'_def bs')
    moreover have "mem_only s s'" unfolding s'_def by blast
    ultimately show ?thesis using lx by (intro exI [of _ s']) (auto simp: s'_def)
  next
    case cut
    note cb = cut_bounds [OF b n cut hi]
    define r where "r = redirect xs (p + nb) s"
    define s' where "s' = sub_free nb (r\<lparr>mem := (mem r)(p + nb := mem s p, p + nb + 4 := l - nb)\<rparr>)"
    have o: "blk_ok (p + nb)" using cb(1,3) n by (intro al8_blk_ok) simp_all
    have rp: "mem r p = mem s p" "mem r (p + 4) = l" "p + 4 \<noteq> p + nb"
      using last_ne [OF b] pm al8_ne [OF _ cb(3), of p] blocks_okD [OF b, of p l] by (auto simp: r_def)
    have "memget_scan nb MHead ?h s = Some (p, s')"
      unfolding sk using pm pp cut sn o rp
      by (subst memget_scan.simps) (auto simp: blk_len_def blk_next_def s'_def r_def set_next_def set_len_def Let_def)
    moreover have b2: "bs' = xs @ (p + nb, l - nb) # ys" using cut bs' by auto
    have "mseg (mem s') (mb_next (memlist s')) bs' 0"
      using mseg_cut [OF ch b n cut hi] unfolding b2 s'_def r_def by (cases "xs = []") simp_all
    then have "mem_inv s' bs'" using v fb(1) len by (simp add: mem_inv_def s'_def r_def)
    moreover have "mem_only s s'" unfolding s'_def r_def by blast
    moreover have "unat (p + nb) \<in> free_bytes bs" "unat (p + nb + 4) \<in> free_bytes bs"
      using al8_plus4 [OF cb(3)] cb by (auto simp: bs region_def)
    ultimately show ?thesis using lx by (intro exI [of _ s']) (auto simp: s'_def r_def)
  qed
qed

lemma memget_scan_none:
  assumes v: "mem_inv s bs" and f: "first_fit nb bs = None"
  shows "memget_scan nb MHead (mb_next (memlist s)) s = Some (-1, s)"
proof -
  have "memget_scan nb MHead (mb_next (memlist s)) s = memget_scan nb (prev_after MHead bs) 0 s"
    by (rule memget_scan_skip) (use v f in \<open>auto simp: mem_inv_def first_fit_None\<close>)
  then show ?thesis by (subst (asm) (2) memget_scan.simps) simp
qed

lemma mem_inv_imask [simp]: "mem_inv (s\<lparr>imask := m\<rparr>) bs = mem_inv s bs"
  by (simp add: mem_inv_def)

lemma memget_none:
  assumes "mem_inv s bs" and "first_fit (roundmb n) bs = None" and "n \<noteq> 0"
  shows "memget n s = Some (-1, s\<lparr>imask := norm_mask (imask s)\<rparr>)"
  using memget_scan_none [of "s\<lparr>imask := (imask s)\<lparr>irqen := 0x80\<rparr>\<rparr>" bs] assms
  by (simp add: memget_def irq_simps Let_def)

lemma round_ok:
  assumes "n \<noteq> 0" and "unat n \<le> 2 ^ 32 - 8"
  shows "8 dvd unat (roundmb n)" and "0 < unat (roundmb n)"
  using roundmb_spec [OF assms(2)] assms(1) unat_gt_0 [of n] by auto

lemma mem_only_imask: "mem_only (s\<lparr>imask := m\<rparr>) s' \<Longrightarrow> mem_only s (s'\<lparr>imask := imask s\<rparr>)"
  unfolding mem_only_def by (cases s; cases s') simp

text \<open>An allocated region was free and is not any more; memory that was not free is untouched.\<close>

lemma memget_spec:
  assumes v: "mem_inv s bs" and n: "n \<noteq> 0" "unat n \<le> 2 ^ 32 - 8" and f: "first_fit (roundmb n) bs = Some (p, bs')"
  shows "\<exists>s'. memget n s = Some (p, s'\<lparr>imask := norm_mask (imask s)\<rparr>) \<and> mem_inv s' bs' \<and> mem_only s s'
     \<and> (\<forall>x. unat x \<notin> free_bytes bs \<longrightarrow> mem s' x = mem s x)"
proof -
  define z where "z = s\<lparr>imask := (imask s)\<lparr>irqen := 0x80\<rparr>\<rparr>"
  have z: "memlist z = memlist s" "mem z = mem s" by (simp_all add: z_def)
  have "mem_inv z bs" using v by (simp add: z_def)
  from memget_scan_spec [OF this f round_ok [OF n]] obtain u where
    u: "memget_scan (roundmb n) MHead (mb_next (memlist s)) z = Some (p, u)" "mem_inv u bs'" "mem_only z u"
      "\<forall>x. unat x \<notin> free_bytes bs \<longrightarrow> mem u x = mem s x" unfolding z by blast
  have "memget n s = Some (p, u\<lparr>imask := norm_mask (imask s)\<rparr>)"
    using u(1) n by (simp add: memget_def irq_simps z_def Let_def)
  then show ?thesis using u mem_only_imask [OF u(3) [unfolded z_def]]
    by (intro exI [of _ "u\<lparr>imask := imask s\<rparr>"]) simp
qed

text \<open>A size above \<open>2 ^ 32 - 8\<close> is rounded to 0: nothing is cut off the first block, which is handed out and stays free.\<close>

lemma memget_wrapped:
  assumes v: "mem_inv s ((a, l) # bs)" and n: "2 ^ 32 - 8 < unat n"
  shows "memget n s = Some (a, s\<lparr>imask := norm_mask (imask s)\<rparr>)"
proof -
  have "blk_ok a" "a \<noteq> 0" "0 < l" "mem s (a + 4) = l" "mb_next (memlist s) = a"
    using v by (auto simp: mem_inv_def word_less_nat_alt intro: al8_blk_ok)
  moreover have "n \<noteq> 0" using n by auto
  ultimately show ?thesis unfolding memget_def roundmb_wraps [OF n]
    by (subst memget_scan.simps)
      (auto simp: irq_simps Let_def blk_len_def blk_next_def set_next_def set_len_def sub_free_def fun_upd_idem)
qed

lemma kinv_mem_only: "mem_only s s' \<Longrightarrow> kinv s' = kinv s"
proof -
  assume "mem_only s s'"
  then have "kinv s' = kinv (s\<lparr>mem := mem s', memlist := memlist s'\<rparr>)" unfolding mem_only_def by (rule arg_cong)
  then show ?thesis by simp
qed

section \<open>Returning memory\<close>

text \<open>Putting a block in its place, joined to the neighbours it touches.\<close>

definition lower :: "u32 \<Rightarrow> blocks \<Rightarrow> blocks" where
  "lower b bs = takeWhile (\<lambda>(a, l). a < b) bs"

definition upper :: "u32 \<Rightarrow> blocks \<Rightarrow> blocks" where
  "upper b bs = dropWhile (\<lambda>(a, l). a < b) bs"

definition attach :: "u32 \<Rightarrow> u32 \<Rightarrow> blocks \<Rightarrow> blocks \<times> u32 \<times> u32" where
  "attach b n xs = (if xs \<noteq> [] \<and> fst (last xs) + snd (last xs) = b
     then (butlast xs, fst (last xs), snd (last xs) + n) else (xs, b, n))"

fun join_next :: "u32 \<Rightarrow> u32 \<Rightarrow> blocks \<Rightarrow> blocks" where
  "join_next a l [] = [(a, l)]"
| "join_next a l ((c, k) # r) = (if a + l = c then (a, l + k) # r else (a, l) # (c, k) # r)"

definition give_back :: "u32 \<Rightarrow> u32 \<Rightarrow> blocks \<Rightarrow> blocks" where
  "give_back b n bs = (case attach b n (lower b bs) of (xs, c, k) \<Rightarrow> xs @ join_next c k (upper b bs))"

definition may_free :: "nat \<Rightarrow> nat \<Rightarrow> u32 \<Rightarrow> u32 \<Rightarrow> blocks \<Rightarrow> bool" where
  "may_free lo hi b n bs \<longleftrightarrow> 8 dvd unat b \<and> 8 dvd unat n \<and> 0 < unat n \<and> lo \<le> unat b
     \<and> unat b + unat n \<le> hi \<and> region b n \<inter> free_bytes bs = {}"

text \<open>Two regions that do not meet: one ends before the other begins.\<close>

lemma region_disjoint:
  assumes "region a l \<inter> region b n = {}" and "0 < unat l" and "0 < unat n"
  shows "unat a + unat l \<le> unat b \<or> unat b + unat n \<le> unat a"
proof (rule ccontr)
  assume "\<not> ?thesis"
  then have "max (unat a) (unat b) \<in> region a l \<inter> region b n" using assms by (auto simp: region_def)
  then show False using assms(1) by blast
qed

lemma lower_upper: "lower b bs @ upper b bs = bs"
  by (simp add: lower_def upper_def)

lemma lower_less: "(a, l) \<in> set (lower b bs) \<Longrightarrow> a < b"
  by (auto simp: lower_def dest: set_takeWhileD)

lemma upper_ge: "blocks_ok lo hi bs \<Longrightarrow> (a, l) \<in> set (upper b bs) \<Longrightarrow> b \<le> a"
proof (induction lo hi bs rule: blocks_ok.induct)
  case (2 lo hi c k bs)
  have "c \<le> a" if "(a, l) \<in> set ((c, k) # bs)"
    using that blocks_okD [of "unat c + unat k + 1" hi bs a l] 2(2) by (auto simp: word_le_nat_alt)
  then show ?case using 2 by (auto simp: upper_def split: if_splits)
qed (simp add: upper_def)

text \<open>What a block that may be freed looks like beside the blocks below and above it.\<close>

lemma may_free_split:
  assumes b: "blocks_ok lo hi bs" and m: "may_free lo hi b n bs"
  shows "blocks_ok lo hi (lower b bs)" and "after lo (lower b bs) \<le> unat b + 1"
    and "blocks_ok (unat b + unat n) hi (upper b bs)"
proof -
  have ok: "blocks_ok lo hi (lower b bs)" "blocks_ok (after lo (lower b bs)) hi (upper b bs)"
    using b lower_upper [of b bs] blocks_ok_append [of lo hi "lower b bs" "upper b bs"] by simp_all
  have dj: "unat a + unat l \<le> unat b \<or> unat b + unat n \<le> unat a" if "(a, l) \<in> set bs" for a l
  proof (rule region_disjoint)
    show "region a l \<inter> region b n = {}" using m that by (fastforce simp: may_free_def free_bytes_def)
  qed (use blocks_okD [OF b that] m in \<open>auto simp: may_free_def\<close>)
  have sub: "set (lower b bs) \<subseteq> set bs" "set (upper b bs) \<subseteq> set bs"
    by (auto simp: lower_def upper_def dest: set_takeWhileD set_dropWhileD)
  show "blocks_ok lo hi (lower b bs)" by (rule ok(1))
  show "after lo (lower b bs) \<le> unat b + 1"
  proof (cases "lower b bs" rule: rev_cases)
    case Nil then show ?thesis using m by (simp add: may_free_def)
  next
    case (snoc zs p)
    obtain a l where p: "p = (a, l)" by fastforce
    have "unat a < unat b" using lower_less [of a l b bs] snoc p by (simp add: word_less_nat_alt)
    moreover have "after lo' (zs @ [(a, l)]) = unat a + unat l + 1" for lo'
      by (induction zs arbitrary: lo') auto
    ultimately show ?thesis using dj [of a l] sub(1) snoc p by auto
  qed
  show "blocks_ok (unat b + unat n) hi (upper b bs)"
  proof (cases "upper b bs")
    case (Cons p zs)
    obtain a l where p: "p = (a, l)" by fastforce
    have "unat b \<le> unat a" using upper_ge [OF b, of a l b] Cons p by (simp add: word_le_nat_alt)
    moreover have "0 < unat l" using ok(2) Cons p by simp
    ultimately show ?thesis using dj [of a l] sub(2) ok(2) Cons p by auto
  qed simp
qed

lemma join_next_ok:
  assumes "lo \<le> unat a" "8 dvd unat a" "8 dvd unat l" "0 < unat l" and b: "blocks_ok (unat a + unat l) hi r"
    and e: "unat a + unat l \<le> hi" and hi: "hi < 2 ^ 32"
  shows "blocks_ok lo hi (join_next a l r) \<and> free_bytes (join_next a l r) = region a l \<union> free_bytes r
    \<and> total (join_next a l r) = unat l + total r"
proof (cases r)
  case (Cons p q)
  have s: "unat (a + l) = unat a + unat l" using e hi by (intro unat_add_small) simp
  obtain c k where p: "p = (c, k)" by fastforce
  have c: "unat a + unat l \<le> unat c" "8 dvd unat k" "unat c + unat k \<le> hi" "0 < unat k" "8 dvd unat c"
      "blocks_ok (unat c + unat k + 1) hi q" using b Cons p by auto
  show ?thesis
  proof (cases "a + l = c")
    case True
    then have ce: "unat c = unat a + unat l" using s by simp
    have lk: "unat (l + k) = unat l + unat k" using ce c(3) hi by (intro unat_add_small) simp
    then have "region a (l + k) = region a l \<union> region c k" by (auto simp: region_def ce)
    then show ?thesis using True Cons p assms c lk ce by (auto simp: total_def ac_simps)
  next
    case False
    then have "unat a + unat l \<noteq> unat c" using s by (metis word_unat_eq_iff)
    then show ?thesis using False Cons p assms c by (auto simp: total_def)
  qed
qed (use assms in \<open>auto simp: total_def\<close>)

lemma total_append [simp]: "total (xs @ ys) = total xs + total ys"
  by (simp add: total_def)

lemma total_simps [simp]: "total [] = 0" "total ((a, l) # bs) = unat l + total bs"
  by (simp_all add: total_def)

lemma after_snoc [simp]: "after lo (xs @ [(a, l)]) = unat a + unat l + 1"
  by (induction xs arbitrary: lo) auto

lemma attach_ok:
  assumes b: "blocks_ok lo hi xs" and a: "after lo xs \<le> unat b + 1" and m: "may_free lo hi b n bs"
    and hi: "hi < 2 ^ 32" and e: "attach b n xs = (zs, c, k)"
  shows "blocks_ok lo hi zs" "after lo zs \<le> unat c" "8 dvd unat c" "8 dvd unat k" "0 < unat k"
    "unat c + unat k = unat b + unat n"
    "free_bytes zs \<union> region c k = free_bytes xs \<union> region b n" "total zs + unat k = total xs + unat n"
proof -
  have m: "8 dvd unat b" "8 dvd unat n" "0 < unat n" "lo \<le> unat b" "unat b + unat n \<le> hi"
    using m by (auto simp: may_free_def)
  have "blocks_ok lo hi zs \<and> after lo zs \<le> unat c \<and> 8 dvd unat c \<and> 8 dvd unat k \<and> 0 < unat k
    \<and> unat c + unat k = unat b + unat n
    \<and> free_bytes zs \<union> region c k = free_bytes xs \<union> region b n \<and> total zs + unat k = total xs + unat n"
  proof (cases xs rule: rev_cases)
    case Nil
    then show ?thesis using e m by (auto simp: attach_def)
  next
    case (snoc ys p)
    obtain d j where p: "p = (d, j)" by fastforce
    have d: "blocks_ok lo hi ys" "after lo ys \<le> unat d" "8 dvd unat d" "8 dvd unat j" "0 < unat j"
        "unat d + unat j \<le> hi" using b snoc p by (auto simp: blocks_ok_append)
    have s: "unat (d + j) = unat d + unat j" using d(6) hi by (intro unat_add_small) simp
    show ?thesis
    proof (cases "d + j = b")
      case True
      then have be: "unat b = unat d + unat j" using s by simp
      have "unat (j + n) = unat j + unat n" using be m(5) hi by (intro unat_add_small) simp
      then have "region d (j + n) = region d j \<union> region b n" "unat (j + n) = unat j + unat n"
        by (auto simp: region_def be)
      moreover have "zs = ys" "c = d" "k = j + n" using e True snoc p by (auto simp: attach_def)
      ultimately show ?thesis using snoc p d m be by (auto simp: ac_simps)
    next
      case False
      then have "unat d + unat j \<noteq> unat b" using s by (metis word_unat_eq_iff)
      moreover have "zs = xs" "c = b" "k = n" using e False snoc p by (auto simp: attach_def)
      ultimately show ?thesis using snoc p m b a by auto
    qed
  qed
  then show "blocks_ok lo hi zs" "after lo zs \<le> unat c" "8 dvd unat c" "8 dvd unat k" "0 < unat k"
    "unat c + unat k = unat b + unat n"
    "free_bytes zs \<union> region c k = free_bytes xs \<union> region b n" "total zs + unat k = total xs + unat n"
    by blast+
qed

lemma give_back_ok:
  assumes b: "blocks_ok lo hi bs" and m: "may_free lo hi b n bs" and hi: "hi < 2 ^ 32"
  shows "blocks_ok lo hi (give_back b n bs)" and "free_bytes (give_back b n bs) = free_bytes bs \<union> region b n"
    and "total (give_back b n bs) = total bs + unat n"
proof -
  note sp = may_free_split [OF b m]
  obtain zs c k where e: "attach b n (lower b bs) = (zs, c, k)" by (metis prod_cases3)
  note at = attach_ok [OF sp(1,2) m hi e]
  have "unat c + unat k \<le> hi" using at(6) m by (simp add: may_free_def)
  note jn = join_next_ok [OF at(2-5) sp(3) [folded at(6)] this hi]
  show "blocks_ok lo hi (give_back b n bs)" using jn at(1) e by (simp add: give_back_def blocks_ok_append)
  have "free_bytes bs = free_bytes (lower b bs) \<union> free_bytes (upper b bs)" 
      "total bs = total (lower b bs) + total (upper b bs)" using lower_upper [of b bs] free_bytes_append total_append by metis+
  then show "free_bytes (give_back b n bs) = free_bytes bs \<union> region b n"
    "total (give_back b n bs) = total bs + unat n" using jn at(7,8) e by (auto simp: give_back_def)
qed

lemma mseg_upd:
  assumes "8 dvd unat a" and "\<forall>(c, k)\<in>set bs. 8 dvd unat c \<and> c \<noteq> a"
  shows "mseg (m(a := v)) p bs q = mseg m p bs q" and "mseg (m(a + 4 := v)) p bs q = mseg m p bs q"
  using assms al8_ne by (intro mseg_frame; fastforce)+

lemma memfree_scan_spec:
  "mseg (mem s) p xs q \<Longrightarrow> \<forall>(a, l)\<in>set xs. a < b \<Longrightarrow> blocks_ok lo hi xs \<Longrightarrow> 0 < lo \<Longrightarrow> q = 0 \<or> b \<le> q \<Longrightarrow>
   memfree_scan b pr p s = Some (prev_after pr xs, q)"
proof (induction xs arbitrary: pr p lo)
  case Nil
  then show ?case by (subst memfree_scan.simps) (auto simp: prev_after_def)
next
  case (Cons x xs)
  obtain a l where x: "x = (a, l)" by fastforce
  have a: "blk_ok a" and "a \<noteq> 0" using Cons.prems x by (auto intro: al8_blk_ok)
  then have "memfree_scan b pr p s = memfree_scan b (MBlk a) (mem s a) s"
    using Cons.prems x by (subst memfree_scan.simps) (auto simp: blk_next_def)
  also have "\<dots> = Some (prev_after (MBlk a) xs, q)"
    by (rule Cons.IH [of _ "unat a + unat l + 1"]) (use Cons.prems x in auto)
  finally show ?case by (simp add: x prev_after_Cons)
qed

lemma memfree_join_spec:
  assumes c: "mseg (mem s) h (xs @ (a, l) # ys) 0" and h: "h = mb_next (memlist s)"
    and x: "\<forall>(c, k)\<in>set xs. 8 dvd unat c \<and> c \<noteq> a" and a: "8 dvd unat a" "0 < unat a"
    and y: "blocks_ok (unat a + unat l) hi ys" "0 < unat l" and hi: "unat a + unat l \<le> hi" "hi < 2 ^ 32"
  shows "\<exists>s'. memfree_join a (if ys = [] then 0 else fst (hd ys)) s = Some s'
     \<and> mseg (mem s') (mb_next (memlist s')) (xs @ join_next a l ys) 0 \<and> mem_only s s'
     \<and> memlist s' = memlist s \<and> (\<forall>z. z \<noteq> a \<and> z \<noteq> a + 4 \<longrightarrow> mem s' z = mem s z)"
proof -
  have s: "unat (a + l) = unat a + unat l" using hi by (intro unat_add_small) simp
  have bk: "blk_ok a" using a by (rule al8_blk_ok)
  have m: "mseg (mem s) h xs a" "mem s (a + 4) = l" "mseg (mem s) (mem s a) ys 0"
    using c by (auto simp: mseg_append)
  have a4: "a + 4 \<noteq> a" using al8_ne [OF a(1) a(1)] .
  show ?thesis
  proof (cases ys)
    case Nil
    have "a + l \<noteq> 0" using s a by (metis unat_0 add_is_0 less_numeral_extra(3))
    then have "memfree_join a 0 s = Some s" using bk m by (simp add: memfree_join_def blk_len_def)
    then show ?thesis using Nil c h by (intro exI [of _ s]) auto
  next
    case (Cons p r)
    obtain d k where p: "p = (d, k)" by fastforce
    have d: "unat a + unat l \<le> unat d" "8 dvd unat d" "blocks_ok (unat d + unat k + 1) hi r"
      using y Cons p by auto
    have bd: "blk_ok d" using d a by (intro al8_blk_ok) auto
    have md: "mem s a = d" "mem s (d + 4) = k" "mseg (mem s) (mem s d) r 0" using m(3) Cons p by auto
    show ?thesis
    proof (cases "a + l = d")
      case False
      then have "memfree_join a d s = Some s" using bk m by (simp add: memfree_join_def blk_len_def)
      then show ?thesis using Cons p c h False by (intro exI [of _ s]) auto
    next
      case True
      define s' where "s' = s\<lparr>mem := (mem s)(a + 4 := l + k, a := mem s d)\<rparr>"
      have "d \<noteq> a + 4" "d \<noteq> a" using al8_ne [OF a(1) d(2)] d(1) y(2) by auto
      then have "memfree_join a d s = Some s'" using bk bd True md m a4
        by (simp add: memfree_join_def blk_len_def blk_next_def set_len_def set_next_def s'_def)
      moreover have "mseg (mem s') h xs a" using m(1) x a by (simp add: s'_def mseg_upd)
      moreover have "\<forall>(c, k)\<in>set r. 8 dvd unat c \<and> c \<noteq> a" using blocks_okD [OF d(3)] d(1) by fastforce
      then have "mseg (mem s') (mem s d) r 0" using md(3) a by (simp add: s'_def mseg_upd)
      moreover have "mem s' a = mem s d" "mem s' (a + 4) = l + k" using a4 by (simp_all add: s'_def)
      ultimately show ?thesis using Cons p True h
        by (intro exI [of _ s']) (auto simp: mseg_append s'_def)
    qed
  qed
qed


definition end_of :: "blocks \<Rightarrow> u32" where
  "end_of xs = (if xs = [] then 0 else fst (last xs) + snd (last xs))"

lemma memfree_link_spec:
  assumes c: "mseg (mem s) (mb_next (memlist s)) xs q" "mseg (mem s) q ys 0"
    and b: "blocks_ok lo hi xs" "0 < lo" and e: "attach b n xs = (zs, d, k)" and al: "8 dvd unat b" "0 < unat b"
    and ne: "\<forall>(c, k)\<in>set (xs @ ys). 8 dvd unat c \<and> c \<noteq> b" and y: "\<forall>(c, k)\<in>set ys. \<forall>(a, l)\<in>set xs. c \<noteq> a"
  shows "\<exists>s'. memfree_link (prev_after MHead xs) (end_of xs) b n q s = Some (d, s')
     \<and> mseg (mem s') (mb_next (memlist s')) (zs @ (d, k) # ys) 0 \<and> mem_only s s'
     \<and> mb_length (memlist s') = mb_length (memlist s)
     \<and> (\<forall>z. z \<noteq> b \<and> z \<noteq> b + 4 \<and> (\<forall>(a, l)\<in>set xs. z \<noteq> a \<and> z \<noteq> a + 4) \<longrightarrow> mem s' z = mem s z)"
proof (cases "xs \<noteq> [] \<and> end_of xs = b")
  case True
  then obtain ws p where ws: "xs = ws @ [p]" by (metis append_butlast_last_id)
  obtain a l where p: "p = (a, l)" by fastforce
  have z: "zs = ws" "d = a" "k = l + n" using e True ws p by (auto simp: attach_def end_of_def)
  have a: "8 dvd unat a" "0 < unat a" and bw: "blocks_ok lo hi (ws @ (a, l) # [])"
    using blocks_okD [OF b(1), of a l] b ws p by auto
  have m: "mseg (mem s) (mb_next (memlist s)) ws a" "mem s (a + 4) = l" "mem s a = q"
    using c(1) ws p by (auto simp: mseg_append)
  define s' where "s' = s\<lparr>mem := (mem s)(a + 4 := l + n)\<rparr>"
  have "memfree_link (prev_after MHead xs) (end_of xs) b n q s = Some (a, s')"
    using al8_blk_ok [OF a] True m ws p by (simp add: memfree_link_def prev_after_def blk_len_def set_len_def s'_def)
  moreover have "\<forall>(c, k)\<in>set ws. 8 dvd unat c \<and> c \<noteq> a"
    using blocks_addr_ne(1) [OF bw] ne ws by fastforce
  then have "mseg (mem s') (mb_next (memlist s)) ws a" using m(1) a by (simp add: s'_def mseg_upd)
  moreover have "\<forall>(c, k)\<in>set ys. 8 dvd unat c \<and> c \<noteq> a" using ne y ws p by fastforce
  then have "mseg (mem s') q ys 0" using c(2) a by (simp add: s'_def mseg_upd)
  moreover have "a \<noteq> a + 4" using al8_ne [OF a(1) a(1)] by metis
  ultimately show ?thesis using z m ws p by (intro exI [of _ s']) (auto simp: mseg_append s'_def)
next
  case False
  then have z: "zs = xs" "d = b" "k = n" using e by (auto simp: attach_def end_of_def split: if_splits)
  have "end_of xs \<noteq> b" using False al by (auto simp: end_of_def)
  define u where "u = s\<lparr>mem := (mem s)(b := q, b + 4 := n)\<rparr>"
  define s' where "s' = redirect xs b u"
  have bx: "\<forall>(c, k)\<in>set xs. 8 dvd unat c \<and> c \<noteq> b" "\<forall>(c, k)\<in>set ys. 8 dvd unat c \<and> c \<noteq> b" using ne by auto
  have l: "\<exists>l. (fst (last xs), l) \<in> set xs" if "xs \<noteq> []" using that by (metis last_in_set prod.collapse)
  have f: "xs \<noteq> [] \<Longrightarrow> fst (last xs) \<noteq> b \<and> fst (last xs) \<noteq> b + 4 \<and> 8 dvd unat (fst (last xs))
      \<and> (\<forall>(c, k)\<in>set ys. 8 dvd unat c \<and> c \<noteq> fst (last xs))"
    using bx y l al8_ne [OF al(1), of "fst (last xs)"] by fastforce
  have "memfree_link (prev_after MHead xs) (end_of xs) b n q s = Some (b, s')"
    using al8_blk_ok [OF al] \<open>end_of xs \<noteq> b\<close> set_next_prev [OF b, of b u]
    by (simp add: memfree_link_def set_len_def set_next_def [of "MBlk _"] s'_def u_def)
  moreover have "mseg (mem u) (mb_next (memlist u)) xs q" using c(1) bx al by (simp add: u_def mseg_upd)
  from mseg_redirect [OF this b(1), of b] have "mseg (mem s') (mb_next (memlist s')) xs b"
    by (simp add: s'_def)
  moreover have "mseg (mem u) q ys 0" using c(2) bx al by (simp add: u_def mseg_upd)
  then have "mseg (mem s') q ys 0" using f by (simp add: s'_def mseg_upd)
  moreover have "mem s' b = q" "mem s' (b + 4) = n" using f al8_ne [OF al(1) al(1)] by (auto simp: s'_def u_def)
  moreover have "mem_only s s'" "mb_length (memlist s') = mb_length (memlist s)" by (auto simp: s'_def u_def)
  moreover have "mem s' z = mem s z" if "z \<noteq> b" "z \<noteq> b + 4" "\<forall>(a, l)\<in>set xs. z \<noteq> a \<and> z \<noteq> a + 4" for z
    using that l by (fastforce simp: s'_def u_def)
  ultimately show ?thesis using z by (intro exI [of _ s']) (auto simp: mseg_append)
qed

lemma blocks_next_addr:
  assumes "blocks_ok lo hi (xs @ ys)" and "mseg m p (xs @ ys) 0" and "0 < lo"
  shows "mseg m p xs (if ys = [] then 0 else fst (hd ys)) \<and> mseg m (if ys = [] then 0 else fst (hd ys)) ys 0"
  using assms(2) by (cases ys) (auto simp: mseg_append)

lemma end_of_unat:
  assumes "blocks_ok lo hi xs" and "hi < 2 ^ 32" and "lo \<le> unat b"
  shows "unat (end_of xs) \<le> unat b \<longleftrightarrow> after lo xs \<le> unat b + 1"
proof (cases xs rule: rev_cases)
  case (snoc ys p)
  obtain a l where p: "p = (a, l)" by fastforce
  have "unat (a + l) = unat a + unat l"
    using blocks_okD [OF assms(1), of a l] snoc p assms(2) by (intro unat_add_small) auto
  then show ?thesis using snoc p by (simp add: end_of_def)
qed (use assms(3) in \<open>simp add: end_of_def\<close>)

lemma memfree_top:
  assumes "mseg (mem s) h xs q" and "blocks_ok lo hi xs" and "0 < lo"
  shows "(case prev_after MHead xs of MHead \<Rightarrow> Some 0 | MBlk p \<Rightarrow> do { len \<leftarrow> blk_len p s; Some (p + len) })
     = Some (end_of xs)"
proof (cases xs rule: rev_cases)
  case (snoc ys p)
  obtain a l where p: "p = (a, l)" by fastforce
  have "blk_ok a" using blocks_okD [OF assms(2), of a l] snoc p assms(3) by (intro al8_blk_ok) auto
  then show ?thesis using snoc p assms(1) by (simp add: prev_after_def end_of_def blk_len_def mseg_append)
qed (simp add: prev_after_def end_of_def)

text \<open>The state in which \<^verbatim>\<open>memfree\<close> decides, and its decision.\<close>

lemma memfree_found:
  assumes i: "mem_inv s bs" and b: "unat (memheap s) \<le> unat b"
  shows "memfree_scan b MHead (mb_next (memlist s)) s
      = Some (prev_after MHead (lower b bs), if upper b bs = [] then 0 else fst (hd (upper b bs)))"
    and "(case prev_after MHead (lower b bs) of MHead \<Rightarrow> Some 0
        | MBlk p \<Rightarrow> do { len \<leftarrow> blk_len p s; Some (p + len) }) = Some (end_of (lower b bs))"
    and "mseg (mem s) (mb_next (memlist s)) (lower b bs) (if upper b bs = [] then 0 else fst (hd (upper b bs)))"
    and "mseg (mem s) (if upper b bs = [] then 0 else fst (hd (upper b bs))) (upper b bs) 0"
    and "blocks_ok (unat (memheap s)) (unat (maxaddr s)) (lower b bs)"
proof -
  have ok: "blocks_ok (unat (memheap s)) (unat (maxaddr s)) bs" "0 < unat (memheap s)" using i by (auto simp: mem_inv_def)
  have ch: "mseg (mem s) (mb_next (memlist s)) (lower b bs @ upper b bs) 0"
    and okl: "blocks_ok (unat (memheap s)) (unat (maxaddr s)) (lower b bs @ upper b bs)"
    using i lower_upper by (simp_all add: mem_inv_def)
  note sp = blocks_next_addr [OF okl ch ok(2)]
  show okl: "blocks_ok (unat (memheap s)) (unat (maxaddr s)) (lower b bs)" using okl by (simp add: blocks_ok_append)
  show c: "mseg (mem s) (mb_next (memlist s)) (lower b bs) (if upper b bs = [] then 0 else fst (hd (upper b bs)))"
    "mseg (mem s) (if upper b bs = [] then 0 else fst (hd (upper b bs))) (upper b bs) 0" using sp by blast+
  have "b \<le> fst (hd (upper b bs))" if "upper b bs \<noteq> []"
    using upper_ge [OF ok(1), of "fst (hd (upper b bs))" "snd (hd (upper b bs))" b] that by simp
  then show "memfree_scan b MHead (mb_next (memlist s)) s
      = Some (prev_after MHead (lower b bs), if upper b bs = [] then 0 else fst (hd (upper b bs)))"
    by (intro memfree_scan_spec [OF c(1) _ okl ok(2)]) (auto dest: lower_less)
  show "(case prev_after MHead (lower b bs) of MHead \<Rightarrow> Some 0
      | MBlk p \<Rightarrow> do { len \<leftarrow> blk_len p s; Some (p + len) }) = Some (end_of (lower b bs))"
    by (rule memfree_top [OF c(1) okl ok(2)])
qed

lemma memfree_decides:
  assumes i: "mem_inv s bs" and b: "unat (memheap s) \<le> unat b" and n: "0 < unat n"
    and e: "unat b + unat n \<le> unat (maxaddr s)"
  shows "end_of (lower b bs) > b \<or> upper b bs \<noteq> [] \<and> b + n > fst (hd (upper b bs))
    \<longleftrightarrow> region b n \<inter> free_bytes bs \<noteq> {}"
proof -
  have h: "unat (maxaddr s) < 2 ^ 32" using unsigned_less [of "maxaddr s"] by simp
  have ok: "blocks_ok (unat (memheap s)) (unat (maxaddr s)) bs" using i by (simp add: mem_inv_def)
  have okl: "blocks_ok (unat (memheap s)) (unat (maxaddr s)) (lower b bs)"
    and oku: "blocks_ok (after (unat (memheap s)) (lower b bs)) (unat (maxaddr s)) (upper b bs)"
    using ok lower_upper [of b bs] blocks_ok_append by metis+
  have fb: "free_bytes bs = free_bytes (lower b bs) \<union> free_bytes (upper b bs)"
    using lower_upper free_bytes_append by metis
  have s: "unat (b + n) = unat b + unat n" using e h by (intro unat_add_small) simp
  have 1: "end_of (lower b bs) > b \<longleftrightarrow> region b n \<inter> free_bytes (lower b bs) \<noteq> {}"
  proof
    assume "region b n \<inter> free_bytes (lower b bs) \<noteq> {}"
    then obtain a l where "(a, l) \<in> set (lower b bs)" "unat b < unat a + unat l"
      by (force simp: region_def free_bytes_def)
    then have "unat b + 1 < after (unat (memheap s)) (lower b bs)" using blocks_before [OF okl, of a l] by simp
    then show "end_of (lower b bs) > b" using end_of_unat [OF okl h b] by (auto simp: word_less_nat_alt)
  next
    assume g: "end_of (lower b bs) > b"
    then have "lower b bs \<noteq> []" by (auto simp: end_of_def)
    then obtain ys a l where ys: "lower b bs = ys @ [(a, l)]" by (metis append_butlast_last_id surj_pair)
    have "unat (end_of (lower b bs)) = unat a + unat l"
      using blocks_okD [OF okl, of a l] ys h by (auto simp: end_of_def intro: unat_add_small)
    then have "unat b \<in> region a l" using g lower_less [of a l b bs] ys by (auto simp: region_def word_less_nat_alt)
    moreover have "unat b \<in> region b n" using n by (simp add: region_def)
    ultimately show "region b n \<inter> free_bytes (lower b bs) \<noteq> {}" unfolding ys free_bytes_append free_bytes_Cons by blast
  qed
  have 2: "upper b bs \<noteq> [] \<and> b + n > fst (hd (upper b bs)) \<longleftrightarrow> region b n \<inter> free_bytes (upper b bs) \<noteq> {}"
  proof (cases "upper b bs")
    case (Cons p r)
    obtain a l where p: "p = (a, l)" by fastforce
    have ab: "unat b \<le> unat a" using upper_ge [OF ok, of a l b] Cons p by (simp add: word_le_nat_alt)
    have "0 < unat l" "blocks_ok (unat a + unat l + 1) (unat (maxaddr s)) r" using oku Cons p by auto
    then have "region b n \<inter> free_bytes (upper b bs) \<noteq> {} \<longleftrightarrow> unat a < unat b + unat n"
      using Cons p ab free_bytes_bounds(1) [of "unat a + unat l + 1" "unat (maxaddr s)" r] by (fastforce simp: region_def)
    then show ?thesis using Cons p s by (simp add: word_less_nat_alt)
  qed simp
  show ?thesis using 1 2 fb by blast
qed


lemma hd_upper_ne:
  "blocks_ok lo hi bs \<Longrightarrow> 8 dvd unat b \<Longrightarrow> 0 < unat n \<Longrightarrow> region b n \<inter> free_bytes bs = {} \<Longrightarrow>
   \<forall>(c, k)\<in>set bs. 8 dvd unat c \<and> c \<noteq> b"
proof clarify
  fix c k assume a: "blocks_ok lo hi bs" "0 < unat n" "region b n \<inter> free_bytes bs = {}" "(c, k) \<in> set bs"
  then have "8 dvd unat c" "0 < unat k" using blocks_okD by blast+
  moreover have "unat c \<in> free_bytes bs" using a(4) \<open>0 < unat k\<close> by (force simp: free_bytes_def region_def)
  moreover have "unat b \<in> region b n" using a(2) by (simp add: region_def)
  ultimately show "8 dvd unat c \<and> c \<noteq> b" using a(3) by blast
qed

lemma header_in:
  assumes "8 dvd unat a" "8 dvd unat l" "0 < unat l"
  shows "unat a \<in> region a l" and "unat (a + 4) \<in> region a l"
proof -
  have "8 \<le> unat l" using assms(2,3) by (simp add: dvd_imp_le)
  then show "unat a \<in> region a l" "unat (a + 4) \<in> region a l" using al8_plus4 [OF assms(1)] by (simp_all add: region_def)
qed

lemma header_free:
  assumes "blocks_ok lo hi bs" and "(a, l) \<in> set bs"
  shows "unat a \<in> free_bytes bs" and "unat (a + 4) \<in> free_bytes bs"
  using header_in [of a l] blocks_okD [OF assms] assms(2) by (auto simp: free_bytes_def)

lemma total_bound: "blocks_ok lo hi bs \<Longrightarrow> total bs \<le> hi - lo"
proof (induction lo hi bs rule: blocks_ok.induct)
  case (2 lo hi a l bs)
  then have "total bs \<le> hi - (unat a + unat l + 1)" by simp
  then show ?case using 2(2) by (cases bs) auto
qed simp

lemma mem_only_trans: "mem_only s t \<Longrightarrow> mem_only t u \<Longrightarrow> mem_only s u"
  unfolding mem_only_def by (cases s; cases t; cases u) simp

lemma memfree_spec:
  assumes i: "mem_inv s bs" and n: "unat n \<le> 2 ^ 32 - 8"
    and m: "may_free (unat (memheap s)) (unat (maxaddr s)) b (roundmb n) bs"
  shows "\<exists>s'. memfree b n s = Some (OK, s'\<lparr>imask := norm_mask (imask s)\<rparr>)
     \<and> mem_inv s' (give_back b (roundmb n) bs) \<and> mem_only s s'
     \<and> (\<forall>x. unat x \<notin> free_bytes bs \<union> region b (roundmb n) \<longrightarrow> mem s' x = mem s x)"
proof -
  define z where "z = s\<lparr>imask := (imask s)\<lparr>irqen := 0x80\<rparr>\<rparr>"
  define nb where "nb = roundmb n"
  define q where "q = (if upper b bs = [] then 0 else fst (hd (upper b bs)))"
  have h: "unat (maxaddr s) < 2 ^ 32" using unsigned_less [of "maxaddr s"] by simp
  have mf: "8 dvd unat b" "8 dvd unat nb" "0 < unat nb" "unat (memheap s) \<le> unat b"
    "unat b + unat nb \<le> unat (maxaddr s)" "region b nb \<inter> free_bytes bs = {}"
    using m by (auto simp: may_free_def nb_def)
  have iz: "mem_inv z bs" using i by (simp add: z_def)
  have z: "mem z = mem s" "memlist z = memlist s" "memheap z = memheap s" "maxaddr z = maxaddr s" by (simp_all add: z_def)
  note fd = memfree_found [OF iz, of b, folded q_def, unfolded z, OF mf(4)]
  have dec: "\<not> (end_of (lower b bs) > b \<or> q \<noteq> 0 \<and> b + nb > q)"
    using memfree_decides [OF i mf(4,3,5)] mf(6) by (auto simp: q_def)
  have ok: "blocks_ok (unat (memheap s)) (unat (maxaddr s)) bs" "0 < unat (memheap s)" "unat (mb_length (memlist s)) = total bs"
    using i by (auto simp: mem_inv_def)
  define u where "u = add_free nb z"
  have u: "mem u = mem s" "mb_next (memlist u) = mb_next (memlist s)" "mb_length (memlist u) = mb_length (memlist s) + nb"
    by (simp_all add: u_def z)
  obtain zs d k where at: "attach b nb (lower b bs) = (zs, d, k)" by (metis prod_cases3)
  note sp = may_free_split [OF ok(1) m [folded nb_def]]
  note ao = attach_ok [OF sp(1,2) m [folded nb_def] h at]
  have ne: "\<forall>(c, k)\<in>set (lower b bs @ upper b bs). 8 dvd unat c \<and> c \<noteq> b"
    using hd_upper_ne [OF ok(1) mf(1,3,6)] by (simp add: lower_upper)
  have sep: "\<forall>(c, k)\<in>set (upper b bs). \<forall>(a, l)\<in>set (lower b bs). c \<noteq> a"
    using lower_less upper_ge [OF ok(1)] by fastforce
  have b0: "0 < unat b" using mf(4) ok(2) by simp
  from memfree_link_spec [of u "lower b bs" q "upper b bs", unfolded u, OF fd(3,4,5) ok(2) at mf(1) b0 ne sep]
  obtain v where v: "memfree_link (prev_after MHead (lower b bs)) (end_of (lower b bs)) b nb q u = Some (d, v)"
    "mseg (mem v) (mb_next (memlist v)) (zs @ (d, k) # upper b bs) 0" "mem_only u v"
    "mb_length (memlist v) = mb_length (memlist s) + nb"
    "\<forall>z. z \<noteq> b \<and> z \<noteq> b + 4 \<and> (\<forall>(a, l)\<in>set (lower b bs). z \<noteq> a \<and> z \<noteq> a + 4) \<longrightarrow> mem v z = mem s z"
    by blast
  have dk: "unat d + unat k \<le> unat (maxaddr s)" "0 < unat d" using ao(6,2) mf(5) after_ge [OF ao(1)] ok(2) by linarith+
  have "\<forall>(c, k)\<in>set zs. 8 dvd unat c \<and> c \<noteq> d"
    using blocks_okD [OF ao(1)] blocks_before [OF ao(1)] ao(2) by fastforce
  from memfree_join_spec [OF v(2) refl this ao(3) dk(2) sp(3) [folded ao(6)] ao(5) dk(1) h, folded q_def]
  obtain w where w: "memfree_join d q v = Some w" "mseg (mem w) (mb_next (memlist w)) (zs @ join_next d k (upper b bs)) 0"
    "mem_only v w" "memlist w = memlist v" "\<forall>z. z \<noteq> d \<and> z \<noteq> d + 4 \<longrightarrow> mem w z = mem v z" by blast
  have run: "memfree b n s = Some (OK, restore (imask s) w)"
  proof -
    have c: "\<not> (n = 0 \<or> b < memheap s \<or> b > maxaddr s)"
      using mf n by (auto simp: nb_def roundmb_def word_less_nat_alt word_le_nat_alt)
    show ?thesis using c fd(1,2) dec v(1) w(1)
      by (simp add: memfree_def disable_eq z_def [symmetric] nb_def [symmetric] u_def [symmetric] z(2) Let_def)
  qed
  have g: "zs @ join_next d k (upper b bs) = give_back b nb bs" using at by (simp add: give_back_def)
  note gb = give_back_ok [OF ok(1) m [folded nb_def] h]
  have "total bs + unat nb < 2 ^ 32" using gb(3) total_bound [OF gb(1)] h by linarith
  then have "unat (mb_length (memlist w)) = total bs + unat nb" using w(4) v(4) ok(3) by (simp add: unat_add_small)
  moreover have zw: "mem_only z w"
    using mem_only_trans [OF mem_only_trans [OF _ v(3)] w(3), of z] by (auto simp: u_def)
  ultimately have "mem_inv w (give_back b nb bs)"
    using w(2) gb mem_only_globals [OF zw] iz g z by (simp add: mem_inv_def)
  moreover have "mem w x = mem s x" if "unat x \<notin> free_bytes bs \<union> region b nb" for x
  proof -
    have "x \<noteq> b" "x \<noteq> b + 4" using header_in [OF mf(1-3)] that by auto
    moreover have "unat d \<in> free_bytes bs \<union> region b nb" "unat (d + 4) \<in> free_bytes bs \<union> region b nb"
      using header_in [OF ao(3-5)] ao(7) lower_upper [of b bs] free_bytes_append [of "lower b bs" "upper b bs"] by auto
    moreover have "\<forall>(a, l)\<in>set (lower b bs). x \<noteq> a \<and> x \<noteq> a + 4"
    proof clarify
      fix a l assume "(a, l) \<in> set (lower b bs)"
      then have "(a, l) \<in> set bs" by (auto simp: lower_def dest: set_takeWhileD)
      from header_free [OF ok(1) this] show "x \<noteq> a \<and> x \<noteq> a + 4" using that by blast
    qed
    moreover have "x \<noteq> d" "x \<noteq> d + 4" using calculation(3,4) that by auto
    ultimately show ?thesis using v(5) [rule_format, of x] w(5) [rule_format, of x] by simp
  qed
  ultimately show ?thesis using run mem_only_imask [OF zw [unfolded z_def]]
    by (intro exI [of _ "w\<lparr>imask := imask s\<rparr>"]) (simp add: restore_eq nb_def)
qed

text \<open>A block that overlaps free memory is refused and nothing changes.\<close>

lemma memfree_overlap:
  assumes i: "mem_inv s bs" and b: "unat (memheap s) \<le> unat b" and n: "unat n \<le> 2 ^ 32 - 8"
    and e: "unat b + unat (roundmb n) \<le> unat (maxaddr s)" and o: "region b (roundmb n) \<inter> free_bytes bs \<noteq> {}"
  shows "memfree b n s = Some (SYSERR, s\<lparr>imask := norm_mask (imask s)\<rparr>)"
proof -
  define z where "z = s\<lparr>imask := (imask s)\<lparr>irqen := 0x80\<rparr>\<rparr>"
  have z: "mem_inv z bs" "memheap z = memheap s" "memlist z = memlist s" using i by (simp_all add: z_def)
  note fd = memfree_found [OF z(1), unfolded z, OF b]
  have n0: "0 < unat (roundmb n)" using o by (auto simp: region_def)
  define q where "q = (if upper b bs = [] then 0 else fst (hd (upper b bs)))"
  have "q \<noteq> 0" if "upper b bs \<noteq> []"
    using that upper_ge [of "unat (memheap s)" "unat (maxaddr s)" bs "fst (hd (upper b bs))" "snd (hd (upper b bs))" b] i b
    by (auto simp: q_def mem_inv_def)
  then have dec: "end_of (lower b bs) > b \<or> q \<noteq> 0 \<and> b + roundmb n > q"
    using memfree_decides [OF i b n0 e] o by (auto simp: q_def)
  have c: "\<not> (n = 0 \<or> b < memheap s \<or> b > maxaddr s)"
    using b e n0 by (auto simp: roundmb_def word_less_nat_alt word_le_nat_alt)
  show ?thesis using c fd(1,2) [folded q_def] dec
    by (simp add: memfree_def disable_eq z_def [symmetric] z(3) Let_def) (simp add: z_def restore_eq)
qed

lemma memfree_outside: "n = 0 \<or> b < memheap s \<or> maxaddr s < b \<Longrightarrow> memfree b n s = Some (SYSERR, s)"
  by (simp add: memfree_def)

section \<open>Frames\<close>

lemma kinv_misc [simp]: "kinv (s\<lparr>imask := im\<rparr>) = kinv s" "kinv (s\<lparr>thrcount := n\<rparr>) = kinv s"
  by (simp_all add: kinv_def)

text \<open>The facts about a state that differs from another in memory and free list only.\<close>

lemma mem_only_fields:
  assumes "mem_only s s'"
  shows "thrtab s' = thrtab s" "thrcount s' = thrcount s" "thrcurrent s' = thrcurrent s" "nexttid s' = nexttid s" "imask s' = imask s"
  using arg_cong [OF assms [unfolded mem_only_def], of thrtab] arg_cong [OF assms [unfolded mem_only_def], of thrcount]
    arg_cong [OF assms [unfolded mem_only_def], of thrcurrent] arg_cong [OF assms [unfolded mem_only_def], of nexttid]
    arg_cong [OF assms [unfolded mem_only_def], of imask] by simp_all

text \<open>The free list is read from the free memory only.\<close>

lemma mem_inv_frame:
  assumes i: "mem_inv s bs" and m: "\<And>x. unat x \<in> free_bytes bs \<Longrightarrow> m x = mem s x"
  shows "mem_inv (s\<lparr>mem := m\<rparr>) bs"
proof -
  have b: "blocks_ok (unat (memheap s)) (unat (maxaddr s)) bs" using i by (simp add: mem_inv_def)
  have "mseg m (mb_next (memlist s)) bs 0 = mseg (mem s) (mb_next (memlist s)) bs 0"
    using header_free [OF b] m by (intro mseg_frame) blast
  then show ?thesis using i by (simp add: mem_inv_def)
qed

lemma dispatched_mem_inv:
  assumes "dispatched s s'"
  shows "mem_inv s' bs = mem_inv s bs"
proof -
  have *: "s' = s\<lparr>quetab := quetab s', thrcurrent := thrcurrent s', thrtab := thrtab s', imask := imask s'\<rparr>"
    using assms unfolding dispatched_def by blast
  show ?thesis using arg_cong [OF *, of memheap] arg_cong [OF *, of maxaddr] dispatched_globals [OF assms] by (simp add: mem_inv_def)
qed

end
