(* ===== verification/Xinu_Heap.thy ===== *)
theory Xinu_Heap
  imports Xinu_Memory
begin

text \<open>
  The other end of the heap: \<^verbatim>\<open>system/stkget.c\<close> takes stacks from the high end of the
  last block that is large enough. The second half states what the clients of the heap rely
  on as an interface, proves once that every sequence of requests and returns keeps the
  regions apart, and shows that \<^verbatim>\<open>memget\<close>/\<^verbatim>\<open>memfree\<close>,
  \<^verbatim>\<open>stkget\<close>/\<^verbatim>\<open>stkfree\<close> and their mixture implement it.
\<close>

section \<open>Last fit: stacks\<close>

fun last_fit :: "u32 \<Rightarrow> blocks \<Rightarrow> (u32 \<times> blocks) option" where
  "last_fit nb [] = None"
| "last_fit nb ((a, l) # bs) = (case last_fit nb bs of
       Some (p, bs') \<Rightarrow> Some (p, (a, l) # bs')
     | None \<Rightarrow> if nb \<le> l then Some (a + (l - nb), if l = nb then bs else (a, l - nb) # bs) else None)"

lemma last_fit_None: "last_fit nb bs = None \<longleftrightarrow> (\<forall>(a, l)\<in>set bs. l < nb)"
  by (induction bs) (auto simp: not_less split: option.splits if_splits)

lemma last_fit_Some:
  "last_fit nb bs = Some (p, bs') \<Longrightarrow> \<exists>xs a l ys. bs = xs @ (a, l) # ys \<and> (\<forall>(a, l)\<in>set ys. l < nb) \<and> nb \<le> l
     \<and> p = a + (l - nb) \<and> bs' = xs @ (if l = nb then [] else [(a, l - nb)]) @ ys"
proof (induction bs arbitrary: bs')
  case (Cons b bs)
  obtain a l where b: "b = (a, l)" by fastforce
  show ?case
  proof (cases "last_fit nb bs")
    case None
    then show ?thesis using Cons.prems b last_fit_None [of nb bs]
      by (intro exI [of _ "[]"]) (auto split: if_splits)
  next
    case (Some r)
    then obtain cs where cs: "last_fit nb bs = Some (p, cs)" "bs' = (a, l) # cs" using Cons.prems b by (cases r) auto
    from Cons.IH [OF cs(1)] obtain xs c k ys where "bs = xs @ (c, k) # ys" "\<forall>(a, l)\<in>set ys. l < nb" "nb \<le> k"
      "p = c + (k - nb)" "cs = xs @ (if k = nb then [] else [(c, k - nb)]) @ ys" by blast
    then show ?thesis using b cs(2) by (intro exI [of _ "(a, l) # xs"] exI [of _ c] exI [of _ k] exI [of _ ys]) simp
  qed
qed simp

lemma last_fit_blocks:
  assumes b: "blocks_ok lo hi bs" and f: "last_fit nb bs = Some (p, bs')" and n: "8 dvd unat nb" "0 < unat nb"
    and hi: "hi < 2 ^ 32"
  shows "blocks_ok lo hi bs'" and "free_bytes bs = free_bytes bs' \<union> region p nb"
    and "free_bytes bs' \<inter> region p nb = {}" and "total bs = total bs' + unat nb"
    and "8 dvd unat p"
proof -
  obtain xs a l ys where bs: "bs = xs @ (a, l) # ys" and l: "nb \<le> l" and p: "p = a + (l - nb)"
    and bs': "bs' = xs @ (if l = nb then [] else [(a, l - nb)]) @ ys"
    using last_fit_Some [OF f] by blast
  have bx: "blocks_ok lo hi xs" and bp: "blocks_ok (after lo xs) hi ((a, l) # ys)"
    using b bs by (simp_all add: blocks_ok_append)
  have fx: "x < unat a" if "x \<in> free_bytes xs" for x using free_bytes_before [OF bx that] bp by simp
  have by': "blocks_ok (unat a + unat l + 1) hi ys" using bp by simp
  have fy: "unat a + unat l < x" if "x \<in> free_bytes ys" for x using free_bytes_bounds(1) [OF by' that] by simp
  have nl: "unat nb \<le> unat l" "unat (l - nb) = unat l - unat nb" using l by (simp_all add: word_le_nat_alt unat_sub)
  have up: "unat p = unat a + (unat l - unat nb)"
    unfolding p nl(2) [symmetric] by (rule unat_add_small) (use bp hi nl in auto)
  show "8 dvd unat p" using up bp n by simp
  have ne: "l \<noteq> nb \<Longrightarrow> unat nb < unat l" using nl(1) by (metis le_neq_implies_less word_unat_eq_iff)
  show "blocks_ok lo hi bs'" 
    using bx bp ne nl n blocks_ok_weaken [of "unat a + unat l + 1" hi ys] by (auto simp: bs' blocks_ok_append)
  have r: "region a l = region p nb \<union> (if l = nb then {} else region a (l - nb))"
    "region p nb \<inter> (if l = nb then {} else region a (l - nb)) = {}"
    "unat l = unat nb + (if l = nb then 0 else unat (l - nb))"
    using nl ne up by (auto simp: region_def)
  show "free_bytes bs = free_bytes bs' \<union> region p nb" using r(1) by (auto simp: bs bs')
  have "free_bytes xs \<inter> region p nb = {}" "free_bytes ys \<inter> region p nb = {}"
    using fx fy nl up by (fastforce simp: region_def)+
  then show "free_bytes bs' \<inter> region p nb = {}" using r(2) by (auto simp: bs')
  show "total bs = total bs' + unat nb" using r(3) by (simp add: bs bs')
qed

lemma stkget_scan_skip:
  "mseg (mem s) p xs q \<Longrightarrow> blocks_ok lo hi xs \<Longrightarrow> 0 < lo \<Longrightarrow>
   \<exists>f. stkget_scan nb pr p fits s = stkget_scan nb (prev_after pr xs) q f s
     \<and> ((\<forall>(a, l)\<in>set xs. l < nb) \<longrightarrow> f = fits)"
proof (induction xs arbitrary: pr p lo fits)
  case Nil
  then show ?case by (auto simp: prev_after_def)
next
  case (Cons b bs)
  obtain a l where b: "b = (a, l)" by fastforce
  have "blk_ok a" "a \<noteq> 0" using Cons.prems b by (auto intro: al8_blk_ok)
  then have st: "stkget_scan nb pr p fits s
      = stkget_scan nb (MBlk a) (mem s a) (if nb \<le> l then Some (pr, a) else fits) s"
    using Cons.prems b by (subst stkget_scan.simps) (auto simp: blk_next_def blk_len_def)
  obtain f where "stkget_scan nb (MBlk a) (mem s a) (if nb \<le> l then Some (pr, a) else fits) s
      = stkget_scan nb (prev_after (MBlk a) bs) q f s"
    "(\<forall>(a, l)\<in>set bs. l < nb) \<longrightarrow> f = (if nb \<le> l then Some (pr, a) else fits)"
    using Cons.IH [of "mem s a" "unat a + unat l + 1"] Cons.prems b by fastforce
  then show ?case unfolding st using b by (intro exI [of _ f]) (auto simp: prev_after_Cons)
qed

lemma stkget_scan_none:
  assumes "mseg (mem s) p bs 0" "blocks_ok lo hi bs" "0 < lo" "\<forall>(a, l)\<in>set bs. l < nb"
  shows "stkget_scan nb pr p fits s = Some fits"
  using stkget_scan_skip [OF assms(1-3), of nb pr fits] assms(4) by (auto simp: stkget_scan.simps)

lemma stkget_scan_found:
  assumes c: "mseg (mem s) p (xs @ (a, l) # ys) 0" and b: "blocks_ok lo hi (xs @ (a, l) # ys)" "0 < lo"
    and l: "nb \<le> l" "\<forall>(a, l)\<in>set ys. l < nb"
  shows "stkget_scan nb pr p fits s = Some (Some (prev_after pr xs, a))"
proof -
  have bx: "blocks_ok lo hi xs" and bl: "blocks_ok (after lo xs) hi ((a, l) # ys)"
    using b by (simp_all add: blocks_ok_append)
  have m: "mseg (mem s) p xs a" "mem s (a + 4) = l" "mseg (mem s) (mem s a) ys 0" using c by (auto simp: mseg_append)
  have a: "blk_ok a" "a \<noteq> 0" using blocks_okD [OF b(1), of a l] b(2) by (auto intro: al8_blk_ok)
  obtain f where "stkget_scan nb pr p fits s = stkget_scan nb (prev_after pr xs) a f s"
    using stkget_scan_skip [OF m(1) bx b(2)] by metis
  also have "\<dots> = stkget_scan nb (MBlk a) (mem s a) (Some (prev_after pr xs, a)) s"
    using a m l by (subst stkget_scan.simps) (simp add: blk_next_def blk_len_def)
  also have "\<dots> = Some (Some (prev_after pr xs, a))"
    by (rule stkget_scan_none [OF m(3) _ _ l(2)]) (use bl in auto)
  finally show ?thesis .
qed

lemma mseg_shrink:
  assumes c: "mseg m h (xs @ (a, l) # ys) 0" and b: "blocks_ok lo hi (xs @ (a, l) # ys)"
  shows "mseg (m(a + 4 := k)) h (xs @ (a, k) # ys) 0"
proof -
  have "8 dvd unat a" "\<forall>(c, k)\<in>set xs. 8 dvd unat c \<and> c \<noteq> a" "\<forall>(c, k)\<in>set ys. 8 dvd unat c \<and> c \<noteq> a"
    using blocks_okD [OF b] blocks_addr_ne [OF b] by fastforce+
  moreover have "a \<noteq> a + 4" using al8_ne [of a a] calculation(1) by metis
  ultimately show ?thesis using c by (auto simp: mseg_append mseg_upd)
qed

lemma stkget_none:
  assumes i: "mem_inv s bs" and "last_fit (roundmb n) bs = None" and "n \<noteq> 0"
  shows "stkget n s = Some (-1, s\<lparr>imask := norm_mask (imask s)\<rparr>)"
  using stkget_scan_none [of "s\<lparr>imask := (imask s)\<lparr>irqen := 0x80\<rparr>\<rparr>" "mb_next (memlist s)" bs
      "unat (memheap s)" "unat (maxaddr s)" "roundmb n" MHead None] assms
  by (simp add: stkget_def irq_simps Let_def last_fit_None mem_inv_def)

lemma stkget_spec:
  assumes v: "mem_inv s bs" and n: "n \<noteq> 0" "unat n \<le> 2 ^ 32 - 8" and f: "last_fit (roundmb n) bs = Some (p, bs')"
  shows "\<exists>s'. stkget n s = Some (p + roundmb n - 4, s'\<lparr>imask := norm_mask (imask s)\<rparr>) \<and> mem_inv s' bs' \<and> mem_only s s'
     \<and> (\<forall>x. unat x \<notin> free_bytes bs \<longrightarrow> mem s' x = mem s x)"
proof -
  define nb where "nb = roundmb n"
  define z where "z = s\<lparr>imask := (imask s)\<lparr>irqen := 0x80\<rparr>\<rparr>"
  have z: "memlist z = memlist s" "mem z = mem s" "memheap z = memheap s" "maxaddr z = maxaddr s" by (simp_all add: z_def)
  obtain xs a l ys where bs: "bs = xs @ (a, l) # ys" and sm: "\<forall>(a, l)\<in>set ys. l < nb" and l: "nb \<le> l"
    and p: "p = a + (l - nb)" and bs': "bs' = xs @ (if l = nb then [] else [(a, l - nb)]) @ ys"
    using last_fit_Some [OF f] unfolding nb_def by blast
  let ?lo = "unat (memheap s)" and ?hi = "unat (maxaddr s)" and ?h = "mb_next (memlist s)"
  have b: "blocks_ok ?lo ?hi (xs @ (a, l) # ys)" and lo: "0 < ?lo" and hi: "?hi < 2 ^ 32"
    and ch: "mseg (mem s) ?h (xs @ (a, l) # ys) 0"
    using v bs unsigned_less [of "maxaddr s"] by (simp_all add: mem_inv_def)
  have bx: "blocks_ok ?lo ?hi xs" using b by (simp add: blocks_ok_append)
  have am: "mem s (a + 4) = l" and aa: "blk_ok a"
    using ch blocks_okD [OF b, of a l] lo by (auto simp: mseg_append intro: al8_blk_ok)
  have sc: "stkget_scan nb MHead ?h None z = Some (Some (prev_after MHead xs, a))"
    by (rule stkget_scan_found [OF _ b lo l sm]) (simp add: z ch)
  note fb = last_fit_blocks [OF b [folded bs] f round_ok [OF n] hi, folded nb_def]
  have len: "unat (mb_length (memlist s) - nb) = total bs'"
    using v fb(4) by (subst unat_sub) (simp_all add: mem_inv_def word_le_nat_alt)
  have "\<exists>u. (if nb = l then do { nx \<leftarrow> blk_next a z; s \<leftarrow> set_next (prev_after MHead xs) nx z; Some (a, s) }
       else do { s \<leftarrow> set_len (MBlk a) (l - nb) z; len \<leftarrow> blk_len a s; Some (a + len, s) }) = Some (p, u)
     \<and> mseg (mem u) (mb_next (memlist u)) bs' 0 \<and> mem_only z u \<and> mb_length (memlist u) = mb_length (memlist s)
     \<and> (\<forall>x. unat x \<notin> free_bytes bs \<longrightarrow> mem u x = mem s x)"
  proof (cases "l = nb")
    case True
    have "xs \<noteq> [] \<Longrightarrow> unat (fst (last xs)) \<in> free_bytes bs" using last_in_free [OF bx] bs by simp
    then show ?thesis using aa True set_next_prev [OF bx lo, of "mem s a" z] mseg_take [OF ch b] p
      by (intro exI [of _ "redirect xs (mem s a) z"]) (auto simp: blk_next_def z bs')
  next
    case False
    have "unat (a + 4) \<in> free_bytes bs" using header_free(2) [OF b, of a l] bs by simp
    then show ?thesis using aa False mseg_shrink [OF ch b, of "l - nb"] p
      by (intro exI [of _ "z\<lparr>mem := (mem z)(a + 4 := l - nb)\<rparr>"]) (auto simp: blk_len_def set_len_def z bs')
  qed
  then obtain u where u: "(if nb = l then do { nx \<leftarrow> blk_next a z; s \<leftarrow> set_next (prev_after MHead xs) nx z; Some (a, s) }
       else do { s \<leftarrow> set_len (MBlk a) (l - nb) z; len \<leftarrow> blk_len a s; Some (a + len, s) }) = Some (p, u)"
    "mseg (mem u) (mb_next (memlist u)) bs' 0" "mem_only z u" "mb_length (memlist u) = mb_length (memlist s)"
    "\<forall>x. unat x \<notin> free_bytes bs \<longrightarrow> mem u x = mem s x" by blast
  have "blk_len a z = Some l" using aa am z by (simp add: blk_len_def)
  then have "stkget n s = Some (p + nb - 4, restore (imask s) (sub_free nb u))"
    using n(1) sc u(1) by (simp add: stkget_def disable_eq z_def [symmetric] nb_def [symmetric] z(1) Let_def)
  moreover have zu: "mem_only z (sub_free nb u)" using u(3) by blast
  moreover have "mem_inv (sub_free nb u) bs'" using v u(2,4) len fb(1) mem_only_globals [OF u(3)] by (simp add: mem_inv_def z)
  ultimately show ?thesis using u(5) mem_only_imask [OF zu [unfolded z_def]]
    by (intro exI [of _ "(sub_free nb u)\<lparr>imask := imask s\<rparr>"]) (simp add: restore_eq nb_def)
qed


section \<open>The allocator as an interface\<close>

text \<open>
  What a client relies on, whatever the policy: a request \<open>r\<close> is answered by a region that
  was free and is not any more, or refused with nothing changed; returning a region makes
  exactly its bytes free; returning bytes that are free already is refused.
\<close>

locale region_alloc =
  fixes heap :: "kernel \<Rightarrow> nat set \<Rightarrow> bool" and sane :: "'r \<Rightarrow> bool" and valid :: "u32 \<Rightarrow> 'r \<Rightarrow> bool"
    and reg :: "u32 \<Rightarrow> 'r \<Rightarrow> nat set" and get :: "'r \<Rightarrow> kernel \<Rightarrow> (u32 \<times> kernel) option"
    and put :: "u32 \<Rightarrow> 'r \<Rightarrow> kernel \<Rightarrow> (int \<times> kernel) option"
  assumes get_law: "heap s F \<Longrightarrow> sane r \<Longrightarrow> \<exists>p s'. get r s = Some (p, s')
      \<and> (p = -1 \<and> heap s' F \<or> p \<noteq> -1 \<and> valid p r \<and> reg p r \<subseteq> F \<and> heap s' (F - reg p r))"
    and put_law: "heap s F \<Longrightarrow> sane r \<Longrightarrow> valid p r \<Longrightarrow> reg p r \<inter> F = {} \<Longrightarrow>
      \<exists>s'. put p r s = Some (OK, s') \<and> heap s' (F \<union> reg p r)"
    and put_refused: "heap s F \<Longrightarrow> sane r \<Longrightarrow> valid p r \<Longrightarrow> reg p r \<inter> F \<noteq> {} \<Longrightarrow>
      \<exists>s'. put p r s = Some (SYSERR, s') \<and> heap s' F"

text \<open>A client: a list of requests and returns, with the regions it holds.\<close>

datatype 'r heap_op = Take 'r | Give nat

fun heap_client :: "('r \<Rightarrow> kernel \<Rightarrow> (u32 \<times> kernel) option) \<Rightarrow> (u32 \<Rightarrow> 'r \<Rightarrow> kernel \<Rightarrow> (int \<times> kernel) option) \<Rightarrow>
    'r heap_op list \<Rightarrow> (u32 \<times> 'r) list \<Rightarrow> kernel \<Rightarrow> ((u32 \<times> 'r) list \<times> kernel) option" where
  "heap_client get put [] held s = Some (held, s)"
| "heap_client get put (Take r # ops) held s = do {
     (p, s) \<leftarrow> get r s;
     heap_client get put ops (if p = -1 then held else (p, r) # held) s
   }"
| "heap_client get put (Give i # ops) held s =
     (if i < length held then do {
        (rc, s) \<leftarrow> put (fst (held ! i)) (snd (held ! i)) s;
        if rc = OK then heap_client get put ops (take i held @ drop (Suc i) held) s else None
      } else heap_client get put ops held s)"

text \<open>The regions held are apart from each other and from the free memory, and nothing is lost.\<close>

definition accounts :: "(u32 \<Rightarrow> 'r \<Rightarrow> nat set) \<Rightarrow> nat set \<Rightarrow> (u32 \<times> 'r) list \<Rightarrow> nat set \<Rightarrow> bool" where
  "accounts reg all held F \<longleftrightarrow> F \<union> (\<Union>(p, r)\<in>set held. reg p r) = all
     \<and> (\<forall>(p, r)\<in>set held. reg p r \<inter> F = {})
     \<and> (\<forall>i<length held. \<forall>j<i. case_prod reg (held ! i) \<inter> case_prod reg (held ! j) = {})"

lemma accounts_take:
  assumes "accounts reg all held F" and "reg p r \<subseteq> F"
  shows "accounts reg all ((p, r) # held) (F - reg p r)"
proof -
  have "reg p r \<inter> case_prod reg (held ! i) = {}" if "i < length held" for i
    using assms that nth_mem [OF that] by (fastforce simp: accounts_def)
  then have "case_prod reg (((p, r) # held) ! i) \<inter> case_prod reg (((p, r) # held) ! j) = {}"
    if "i < Suc (length held)" "j < i" for i j
    using assms that by (cases i; cases j) (auto simp: accounts_def Int_commute)
  then show ?thesis using assms by (auto simp: accounts_def)
qed

lemma nth_drop_one: "i < length xs \<Longrightarrow> (take i xs @ drop (Suc i) xs) ! j = xs ! (if j < i then j else Suc j)"
  by (auto simp: nth_append min_def)

lemma accounts_give:
  assumes a: "accounts reg all held F" and i: "i < length held"
  shows "case_prod reg (held ! i) \<inter> F = {}"
    and "accounts reg all (take i held @ drop (Suc i) held) (F \<union> case_prod reg (held ! i))"
proof -
  let ?h = "take i held @ drop (Suc i) held"
  have U: "F \<union> (\<Union>x\<in>set held. case_prod reg x) = all"
    and P: "\<And>k j. k < length held \<Longrightarrow> j < k \<Longrightarrow> case_prod reg (held ! k) \<inter> case_prod reg (held ! j) = {}"
    using a unfolding accounts_def by simp_all
  have A: "case_prod reg x \<inter> F = {}" if "x \<in> set held" for x
    using a that unfolding accounts_def by (cases x) fast
  show "case_prod reg (held ! i) \<inter> F = {}" by (rule A [OF nth_mem [OF i]])
  have d: "case_prod reg (held ! k) \<inter> case_prod reg (held ! j) = {}" if "k < length held" "j < length held" "k \<noteq> j" for k j
  proof (cases "j < k")
    case True then show ?thesis by (rule P [OF that(1)])
  next
    case False then show ?thesis using P [OF that(2), of k] that(3) by (subst Int_commute) simp
  qed
  have D: "case_prod reg (?h ! k) \<inter> case_prod reg (?h ! j) = {}" if "k < length ?h" "j < k" for k j
    unfolding nth_drop_one [OF i] using that i by (intro d) auto
  have S: "set held = insert (held ! i) (set ?h)"
    by (subst id_take_nth_drop [OF i]) simp
  have N: "case_prod reg x \<inter> (F \<union> case_prod reg (held ! i)) = {}" if x: "x \<in> set ?h" for x
  proof -
    obtain k where k: "k < length ?h" "x = ?h ! k" using x unfolding in_set_conv_nth by fast
    then have "case_prod reg x \<inter> case_prod reg (held ! i) = {}"
      unfolding k(2) nth_drop_one [OF i] using i by (intro d) auto
    moreover have "case_prod reg x \<inter> F = {}" by (rule A) (simp only: S x insert_iff simp_thms)
    ultimately show ?thesis by (simp only: Int_Un_distrib Un_empty)
  qed
  show "accounts reg all ?h (F \<union> case_prod reg (held ! i))"
    unfolding accounts_def
  proof (intro conjI allI impI)
    show "F \<union> case_prod reg (held ! i) \<union> (\<Union>(p, r)\<in>set ?h. reg p r) = all" using U S by auto
    show "\<forall>(p, r)\<in>set ?h. reg p r \<inter> (F \<union> case_prod reg (held ! i)) = {}" using N by fastforce
  qed (rule D)
qed

context region_alloc
begin

text \<open>Every run of a client succeeds and keeps its accounts.\<close>

lemma client_sound:
  "heap s F \<Longrightarrow> accounts reg all held F \<Longrightarrow> \<forall>(p, r)\<in>set held. sane r \<and> valid p r \<Longrightarrow>
   \<forall>r. Take r \<in> set ops \<longrightarrow> sane r \<Longrightarrow>
   \<exists>held' s' F'. heap_client get put ops held s = Some (held', s') \<and> heap s' F' \<and> accounts reg all held' F'
     \<and> (\<forall>(p, r)\<in>set held'. sane r \<and> valid p r)"
proof (induction ops arbitrary: held s F)
  case (Cons op ops)
  show ?case
  proof (cases op)
    case (Take r)
    have r: "sane r" and ops: "\<forall>r. Take r \<in> set ops \<longrightarrow> sane r" using Cons.prems(4) Take by auto
    obtain p s' where g: "get r s = Some (p, s')"
      and c: "p = -1 \<and> heap s' F \<or> p \<noteq> -1 \<and> valid p r \<and> reg p r \<subseteq> F \<and> heap s' (F - reg p r)"
      using get_law [OF Cons.prems(1) r] by blast
    from c show ?thesis
    proof
      assume "p = -1 \<and> heap s' F"
      then show ?thesis using Cons.IH [of s' F held] Cons.prems ops g Take by simp
    next
      assume p: "p \<noteq> -1 \<and> valid p r \<and> reg p r \<subseteq> F \<and> heap s' (F - reg p r)"
      then have "accounts reg all ((p, r) # held) (F - reg p r)" using accounts_take [OF Cons.prems(2)] by blast
      then show ?thesis using Cons.IH [of s' "F - reg p r" "(p, r) # held"] Cons.prems(3) p r ops g Take by simp
    qed
  next
    case (Give i)
    have ops: "\<forall>r. Take r \<in> set ops \<longrightarrow> sane r" using Cons.prems(4) by simp
    show ?thesis
    proof (cases "i < length held")
      case True
      obtain p r where pr: "held ! i = (p, r)" by fastforce
      then have v: "sane r" "valid p r" using Cons.prems(3) nth_mem [OF True] by auto
      note ag = accounts_give [OF Cons.prems(2) True, unfolded pr, simplified]
      obtain s' where "put p r s = Some (OK, s')" "heap s' (F \<union> reg p r)"
        using put_law [OF Cons.prems(1) v ag(1)] by blast
      moreover have "\<forall>(p, r)\<in>set (take i held @ drop (Suc i) held). sane r \<and> valid p r"
        using Cons.prems(3) by (auto dest: in_set_takeD in_set_dropD)
      ultimately show ?thesis using Cons.IH [OF _ ag(2)] ops True Give pr by simp
    next
      case False
      then show ?thesis using Cons.IH [OF Cons.prems(1-3) ops] Give by simp
    qed
  qed
qed auto

end


text \<open>The heap between two bounds, with its set of free bytes.\<close>

definition heap_in :: "nat \<Rightarrow> nat \<Rightarrow> kernel \<Rightarrow> nat set \<Rightarrow> bool" where
  "heap_in lo hi s F \<longleftrightarrow> unat (memheap s) = lo \<and> unat (maxaddr s) = hi \<and> (\<exists>bs. mem_inv s bs \<and> F = free_bytes bs)"

definition sane_size :: "u32 \<Rightarrow> bool" where
  "sane_size n \<longleftrightarrow> n \<noteq> 0 \<and> unat n \<le> 2 ^ 32 - 8"

definition in_heap :: "nat \<Rightarrow> nat \<Rightarrow> u32 \<Rightarrow> u32 \<Rightarrow> bool" where
  "in_heap lo hi p n \<longleftrightarrow> 8 dvd unat p \<and> lo \<le> unat p \<and> unat p + unat (roundmb n) \<le> hi"

definition stack_base :: "u32 \<Rightarrow> u32 \<Rightarrow> u32" where
  "stack_base p n = p - roundmb n + 4"

lemma heap_inI:
  "heap_in lo hi s F \<Longrightarrow> mem_only s s' \<Longrightarrow> mem_inv s' bs \<Longrightarrow> F' = free_bytes bs \<Longrightarrow>
   heap_in lo hi (s'\<lparr>imask := m\<rparr>) F'"
  using mem_only_globals by (auto simp: heap_in_def)

lemma heap_inE:
  assumes "heap_in lo hi s F"
  obtains bs where "mem_inv s bs" "F = free_bytes bs" "blocks_ok lo hi bs" "hi < 2 ^ 32"
    "unat (memheap s) = lo" "unat (maxaddr s) = hi"
  using assms unsigned_less [of "maxaddr s"] by (auto simp: heap_in_def mem_inv_def)

lemma al8_ne_minus1: "8 dvd unat (p :: u32) \<Longrightarrow> p \<noteq> -1" "8 dvd unat (p + 4 :: u32) \<Longrightarrow> p \<noteq> -1"
  using al8_bound [of p] by (auto simp: unsigned_minus_1_eq_mask mask_eq_exp_minus_1)

lemma heap_give:
  assumes h: "heap_in lo hi s F" and "sane_size n" and v: "in_heap lo hi p n"
  shows "region p (roundmb n) \<inter> F = {} \<Longrightarrow>
      \<exists>s'. memfree p n s = Some (OK, s') \<and> heap_in lo hi s' (F \<union> region p (roundmb n))"
    and "region p (roundmb n) \<inter> F \<noteq> {} \<Longrightarrow> \<exists>s'. memfree p n s = Some (SYSERR, s') \<and> heap_in lo hi s' F"
proof -
  from h obtain bs where bs: "mem_inv s bs" "F = free_bytes bs" "blocks_ok lo hi bs" "hi < 2 ^ 32"
    "unat (memheap s) = lo" "unat (maxaddr s) = hi" by (rule heap_inE)
  have n: "n \<noteq> 0" "unat n \<le> 2 ^ 32 - 8" using assms(2) by (auto simp: sane_size_def)
  show "\<exists>s'. memfree p n s = Some (OK, s') \<and> heap_in lo hi s' (F \<union> region p (roundmb n))"
    if "region p (roundmb n) \<inter> F = {}"
  proof -
    have m: "may_free (unat (memheap s)) (unat (maxaddr s)) p (roundmb n) bs"
      using v that round_ok [OF n] bs by (simp add: may_free_def in_heap_def)
    obtain s' where s': "memfree p n s = Some (OK, s'\<lparr>imask := norm_mask (imask s)\<rparr>)"
      "mem_inv s' (give_back p (roundmb n) bs)" "mem_only s s'" using memfree_spec [OF bs(1) n(2) m] by blast
    then show ?thesis using heap_inI [OF h s'(3,2)] give_back_ok(2) [OF bs(3) _ bs(4)] m bs by auto
  qed
  show "\<exists>s'. memfree p n s = Some (SYSERR, s') \<and> heap_in lo hi s' F" if "region p (roundmb n) \<inter> F \<noteq> {}"
    using memfree_overlap [OF bs(1) _ n(2), of p] heap_inI [OF h mem_only_intros(1) bs(1)] v that bs by (auto simp: in_heap_def)
qed

text \<open>The region \<^verbatim>\<open>memget\<close> takes.\<close>

lemma block_taken:
  assumes b: "blocks_ok lo hi bs" and f: "first_fit (roundmb n) bs = Some (p, bs')" and n: "n \<noteq> 0" "unat n \<le> 2 ^ 32 - 8"
    and hi: "hi < 2 ^ 32"
  shows "in_heap lo hi p n" and "region p (roundmb n) \<subseteq> free_bytes bs"
    and "free_bytes bs' = free_bytes bs - region p (roundmb n)" and "p \<noteq> -1"
proof -
  note fb = first_fit_blocks [OF b f round_ok [OF n] hi]
  obtain l where "(p, l) \<in> set bs" "roundmb n \<le> l"
    using first_fit_Some [OF f] by (metis in_set_conv_decomp)
  then show i: "in_heap lo hi p n" using blocks_okD [OF b, of p l] by (simp add: in_heap_def word_le_nat_alt)
  show "region p (roundmb n) \<subseteq> free_bytes bs" "free_bytes bs' = free_bytes bs - region p (roundmb n)" using fb(2,3) by blast+
  show "p \<noteq> -1" using i al8_ne_minus1(1) [of p] by (simp add: in_heap_def)
qed

interpretation heap_blocks: region_alloc "heap_in lo hi" sane_size "in_heap lo hi" "\<lambda>p n. region p (roundmb n)"
  memget memfree for lo hi
proof unfold_locales
  fix s F n assume h: "heap_in lo hi s F" and "sane_size n"
  then have n: "n \<noteq> 0" "unat n \<le> 2 ^ 32 - 8" by (auto simp: sane_size_def)
  from h obtain bs where bs: "mem_inv s bs" "F = free_bytes bs" "blocks_ok lo hi bs" "hi < 2 ^ 32"
    "unat (memheap s) = lo" "unat (maxaddr s) = hi" by (rule heap_inE)
  show "\<exists>p s'. memget n s = Some (p, s') \<and> (p = -1 \<and> heap_in lo hi s' F \<or> p \<noteq> -1 \<and> in_heap lo hi p n
      \<and> region p (roundmb n) \<subseteq> F \<and> heap_in lo hi s' (F - region p (roundmb n)))"
  proof (cases "first_fit (roundmb n) bs")
    case None
    then show ?thesis using memget_none [OF bs(1) None n(1)] heap_inI [OF h mem_only_intros(1) bs(1)] bs(2) by auto
  next
    case (Some r)
    then obtain p bs' where f: "first_fit (roundmb n) bs = Some (p, bs')" by (cases r) auto
    obtain s' where s': "memget n s = Some (p, s'\<lparr>imask := norm_mask (imask s)\<rparr>)" "mem_inv s' bs'" "mem_only s s'"
      using memget_spec [OF bs(1) n f] by blast
    show ?thesis using s'(1) heap_inI [OF h s'(3,2)] block_taken [OF bs(3) f n bs(4)] bs(2) by (auto simp: in_heap_def)
  qed
qed (use heap_give in blast)+

text \<open>The region \<^verbatim>\<open>stkget\<close> takes, from its last byte downwards.\<close>

lemma stack_taken:
  assumes b: "blocks_ok lo hi bs" and f: "last_fit (roundmb n) bs = Some (p, bs')" and n: "n \<noteq> 0" "unat n \<le> 2 ^ 32 - 8"
    and hi: "hi < 2 ^ 32"
  shows "in_heap lo hi p n" and "region p (roundmb n) \<subseteq> free_bytes bs"
    and "free_bytes bs' = free_bytes bs - region p (roundmb n)" and "p + roundmb n - 4 \<noteq> -1"
proof -
  note fb = last_fit_blocks [OF b f round_ok [OF n] hi]
  show s: "region p (roundmb n) \<subseteq> free_bytes bs" "free_bytes bs' = free_bytes bs - region p (roundmb n)" using fb(2,3) by blast+
  have "unat p \<in> region p (roundmb n)" "unat p + unat (roundmb n) - 1 \<in> region p (roundmb n)"
    using round_ok [OF n] by (auto simp: region_def)
  then have "unat p \<in> free_bytes bs" "unat p + unat (roundmb n) - 1 \<in> free_bytes bs" using s(1) by auto
  then show ih: "in_heap lo hi p n" using free_bytes_bounds [OF b] round_ok [OF n] fb(5) by (force simp: in_heap_def)
  have "8 dvd unat (p + roundmb n)"
    using ih hi round_ok(1) [OF n] by (subst unat_add_small) (auto simp: in_heap_def)
  then show "p + roundmb n - 4 \<noteq> -1" using al8_ne_minus1(2) [of "p + roundmb n - 4"] by simp
qed

interpretation heap_stacks: region_alloc "heap_in lo hi" sane_size "\<lambda>p n. in_heap lo hi (stack_base p n) n"
  "\<lambda>p n. region (stack_base p n) (roundmb n)" stkget stkfree for lo hi
proof unfold_locales
  fix s F n assume h: "heap_in lo hi s F" and "sane_size n"
  then have n: "n \<noteq> 0" "unat n \<le> 2 ^ 32 - 8" by (auto simp: sane_size_def)
  from h obtain bs where bs: "mem_inv s bs" "F = free_bytes bs" "blocks_ok lo hi bs" "hi < 2 ^ 32"
    "unat (memheap s) = lo" "unat (maxaddr s) = hi" by (rule heap_inE)
  show "\<exists>p s'. stkget n s = Some (p, s') \<and> (p = -1 \<and> heap_in lo hi s' F \<or> p \<noteq> -1
      \<and> in_heap lo hi (stack_base p n) n
      \<and> region (stack_base p n) (roundmb n) \<subseteq> F \<and> heap_in lo hi s' (F - region (stack_base p n) (roundmb n)))"
  proof (cases "last_fit (roundmb n) bs")
    case None
    then show ?thesis using stkget_none [OF bs(1) None n(1)] heap_inI [OF h mem_only_intros(1) bs(1)] bs(2) by auto
  next
    case (Some r)
    then obtain p bs' where f: "last_fit (roundmb n) bs = Some (p, bs')" by (cases r) auto
    obtain s' where s': "stkget n s = Some (p + roundmb n - 4, s'\<lparr>imask := norm_mask (imask s)\<rparr>)" "mem_inv s' bs'" "mem_only s s'"
      using stkget_spec [OF bs(1) n f] by blast
    have sb: "stack_base (p + roundmb n - 4) n = p" by (simp add: stack_base_def)
    show ?thesis using s'(1) heap_inI [OF h s'(3,2)] stack_taken [OF bs(3) f n bs(4)] bs(2) sb by auto
  qed
next
  fix s F n p assume a: "heap_in lo hi s F" "sane_size n" "in_heap lo hi (stack_base p n) n"
  have rr: "roundmb (roundmb n) = roundmb n" 
    using a(2) by (intro roundmb_id roundmb_spec(1)) (simp add: sane_size_def)
  have "8 dvd unat (roundmb n)" "0 < unat (roundmb n)" using a(2) round_ok [of n] by (auto simp: sane_size_def)
  then have s: "sane_size (roundmb n)" using al8_bound [of "roundmb n"] by (auto simp: sane_size_def)
  have i: "in_heap lo hi (stack_base p n) (roundmb n)" using a(3) rr by (simp add: in_heap_def)
  note g = heap_give [OF a(1) s i, unfolded rr]
  show "region (stack_base p n) (roundmb n) \<inter> F = {} \<Longrightarrow>
      \<exists>s'. stkfree p n s = Some (OK, s') \<and> heap_in lo hi s' (F \<union> region (stack_base p n) (roundmb n))"
    "region (stack_base p n) (roundmb n) \<inter> F \<noteq> {} \<Longrightarrow> \<exists>s'. stkfree p n s = Some (SYSERR, s') \<and> heap_in lo hi s' F"
    using g by (simp_all add: stkfree_def stack_base_def)
qed


text \<open>Heap blocks and stacks come from one list: a client may ask for both.\<close>

datatype heap_req = Block u32 | Stack u32

fun req_size :: "heap_req \<Rightarrow> u32" where
  "req_size (Block n) = n"
| "req_size (Stack n) = n"

fun req_base :: "u32 \<Rightarrow> heap_req \<Rightarrow> u32" where
  "req_base p (Block n) = p"
| "req_base p (Stack n) = stack_base p n"

fun heap_get :: "heap_req \<Rightarrow> kernel \<Rightarrow> (u32 \<times> kernel) option" where
  "heap_get (Block n) s = memget n s"
| "heap_get (Stack n) s = stkget n s"

fun heap_put :: "u32 \<Rightarrow> heap_req \<Rightarrow> kernel \<Rightarrow> (int \<times> kernel) option" where
  "heap_put p (Block n) s = memfree p n s"
| "heap_put p (Stack n) s = stkfree p n s"

definition req_region :: "u32 \<Rightarrow> heap_req \<Rightarrow> nat set" where
  "req_region p r = region (req_base p r) (roundmb (req_size r))"

interpretation heap_mixed: region_alloc "heap_in lo hi" "\<lambda>r. sane_size (req_size r)"
  "\<lambda>p r. in_heap lo hi (req_base p r) (req_size r)" req_region heap_get heap_put for lo hi
proof unfold_locales
  fix s F r assume "heap_in lo hi s F" "sane_size (req_size r)"
  then show "\<exists>p s'. heap_get r s = Some (p, s') \<and> (p = -1 \<and> heap_in lo hi s' F \<or> p \<noteq> -1
      \<and> in_heap lo hi (req_base p r) (req_size r) \<and> req_region p r \<subseteq> F \<and> heap_in lo hi s' (F - req_region p r))"
    using heap_blocks.get_law heap_stacks.get_law by (cases r) (simp_all add: req_region_def)
next
  fix s F r p assume a: "heap_in lo hi s F" "sane_size (req_size r)" "in_heap lo hi (req_base p r) (req_size r)"
  show "req_region p r \<inter> F = {} \<Longrightarrow> \<exists>s'. heap_put p r s = Some (OK, s') \<and> heap_in lo hi s' (F \<union> req_region p r)"
    using heap_blocks.put_law [OF a(1)] heap_stacks.put_law [OF a(1)] a(2,3) by (cases r) (simp_all add: req_region_def)
  show "req_region p r \<inter> F \<noteq> {} \<Longrightarrow> \<exists>s'. heap_put p r s = Some (SYSERR, s') \<and> heap_in lo hi s' F"
    using heap_blocks.put_refused [OF a(1)] heap_stacks.put_refused [OF a(1)] a(2,3) by (cases r) (simp_all add: req_region_def)
qed

end
