(* ===== verification/Xinu_Ring.thy ===== *)
theory Xinu_Ring
  imports Xinu_Prelude
begin

text \<open>
  Circular buffers: the contents of a ring with a start index and a count as a list, and the
  interface of a bounded first-in first-out buffer. Mailboxes, the loopback device and the
  terminal driver keep their data this way.
\<close>

section \<open>The contents of a ring\<close>

definition ring_list :: "(nat \<Rightarrow> 'a) \<Rightarrow> nat \<Rightarrow> nat \<Rightarrow> nat \<Rightarrow> 'a list" where
  "ring_list f start n mx = map (\<lambda>k. f ((start + k) mod mx)) [0..<n]"

lemma ring_list_length [simp]: "length (ring_list f start n mx) = n"
  by (simp add: ring_list_def)

lemma ring_list_0 [simp]: "ring_list f start 0 mx = []"
  by (simp add: ring_list_def)

lemma mod_shift_ne:
  fixes k n mx :: nat
  assumes "k < n" and "n < mx"
  shows "(start + k) mod mx \<noteq> (start + n) mod mx"
proof
  assume "(start + k) mod mx = (start + n) mod mx"
  then have "mx dvd (start + n) - (start + k)" using assms by (intro mod_eq_dvd_iff_nat [THEN iffD1]) auto
  then have "mx dvd n - k" by simp
  then show False using assms by (auto dest: dvd_imp_le)
qed

lemma ring_put:
  assumes "n < mx"
  shows "ring_list (f((start + n) mod mx := v)) start (Suc n) mx = ring_list f start n mx @ [v]"
  using mod_shift_ne [OF _ assms] by (auto simp: ring_list_def)

lemma ring_get:
  assumes "0 < n"
  shows "ring_list f start n mx = f (start mod mx) # ring_list f ((start + 1) mod mx) (n - 1) mx"
proof -
  obtain m where n: "n = Suc m" using assms by (cases n) auto
  have "[0..<Suc m] = 0 # map Suc [0..<m]" by (simp add: map_Suc_upt upt_conv_Cons del: upt_Suc)
  then have "ring_list f start n mx = f (start mod mx) # map (\<lambda>k. f ((start + Suc k) mod mx)) [0..<m]"
    by (simp add: ring_list_def n o_def del: upt_Suc)
  moreover have "(start + Suc k) mod mx = ((start + 1) mod mx + k) mod mx" for k
    by (simp add: mod_add_left_eq)
  ultimately show ?thesis by (simp add: ring_list_def n)
qed

lemma ring_list_cong:
  "(\<And>i. i < mx \<Longrightarrow> f i = g i) \<Longrightarrow> 0 < mx \<Longrightarrow> ring_list f start n mx = ring_list g start n mx"
  by (simp add: ring_list_def)

section \<open>Bounded buffers\<close>

text \<open>A sequence of uses of a buffer, on the list of its contents and on an implementation.\<close>

datatype 'a buf_op = Put 'a | Get

fun list_run :: "nat \<Rightarrow> 'a buf_op list \<Rightarrow> 'a list \<Rightarrow> ('a list \<times> 'a list) option" where
  "list_run cap [] q = Some ([], q)"
| "list_run cap (Put x # ops) q = (if length q < cap then list_run cap ops (q @ [x]) else None)"
| "list_run cap (Get # ops) q = (case q of [] \<Rightarrow> None
     | x # q \<Rightarrow> map_option (\<lambda>(xs, q). (x # xs, q)) (list_run cap ops q))"

fun buf_run :: "('a \<Rightarrow> 's \<Rightarrow> 's option) \<Rightarrow> ('s \<Rightarrow> ('a \<times> 's) option) \<Rightarrow> 'a buf_op list \<Rightarrow> 's \<Rightarrow>
    ('a list \<times> 's) option" where
  "buf_run put get [] s = Some ([], s)"
| "buf_run put get (Put x # ops) s = do { s \<leftarrow> put x s; buf_run put get ops s }"
| "buf_run put get (Get # ops) s = do { (x, s) \<leftarrow> get s; (xs, s) \<leftarrow> buf_run put get ops s; Some (x # xs, s) }"

locale bounded_fifo =
  fixes inv :: "'s \<Rightarrow> bool" and items :: "'s \<Rightarrow> 'a list" and cap :: "'s \<Rightarrow> nat" and ok :: "'a \<Rightarrow> bool"
    and put :: "'a \<Rightarrow> 's \<Rightarrow> 's option" and get :: "'s \<Rightarrow> ('a \<times> 's) option"
  assumes put_law: "inv s \<Longrightarrow> ok x \<Longrightarrow> length (items s) < cap s \<Longrightarrow>
      \<exists>s'. put x s = Some s' \<and> inv s' \<and> items s' = items s @ [x] \<and> cap s' = cap s"
    and get_law: "inv s \<Longrightarrow> items s = x # xs \<Longrightarrow>
      \<exists>s'. get s = Some (x, s') \<and> inv s' \<and> items s' = xs \<and> cap s' = cap s"
    and bound: "inv s \<Longrightarrow> length (items s) \<le> cap s"
begin

text \<open>An implementation gives what the list gives, whatever the order of the uses.\<close>

lemma run_refines:
  "inv s \<Longrightarrow> \<forall>x. Put x \<in> set ops \<longrightarrow> ok x \<Longrightarrow> list_run (cap s) ops (items s) = Some (xs, q) \<Longrightarrow>
   \<exists>s'. buf_run put get ops s = Some (xs, s') \<and> inv s' \<and> items s' = q"
proof (induction ops arbitrary: s xs)
  case Nil
  then show ?case by simp
next
  case (Cons op ops)
  show ?case
  proof (cases op)
    case (Put x)
    then have l: "length (items s) < cap s" "list_run (cap s) ops (items s @ [x]) = Some (xs, q)"
      using Cons.prems(3) by (auto split: if_splits)
    obtain s1 where "put x s = Some s1" "inv s1" "items s1 = items s @ [x]" "cap s1 = cap s"
      using put_law [OF Cons.prems(1) _ l(1), of x] Cons.prems(2) Put by auto
    then show ?thesis using Cons.IH [of s1 xs] Cons.prems(2) l(2) Put by simp
  next
    case Get
    then obtain x r ys where r: "items s = x # r" "list_run (cap s) ops r = Some (ys, q)" "xs = x # ys"
      using Cons.prems(3) by (auto split: list.splits)
    obtain s1 where "get s = Some (x, s1)" "inv s1" "items s1 = r" "cap s1 = cap s"
      using get_law [OF Cons.prems(1) r(1)] by blast
    then show ?thesis using Cons.IH [of s1 ys] Cons.prems(2) r(2,3) Get by auto
  qed
qed

lemma fill_then_drain:
  assumes "inv s" and "items s = []" and "length xs \<le> cap s" and "\<forall>x\<in>set xs. ok x"
  shows "\<exists>s'. buf_run put get (map Put xs @ replicate (length xs) Get) s = Some (xs, s') \<and> inv s' \<and> items s' = []"
proof -
  have d: "list_run c (replicate (length ys) Get) ys = Some (ys, [])" for c and ys :: "'a list" by (induction ys) auto
  have f: "length ys + length zs \<le> c \<Longrightarrow> list_run c (map Put zs @ ops) ys = list_run c ops (ys @ zs)"
    for c and ys zs :: "'a list" and ops by (induction zs arbitrary: ys) auto
  have "list_run (cap s) (map Put xs @ replicate (length xs) Get) (items s) = Some (xs, [])"
    using f [of "[]" xs "cap s" "replicate (length xs) Get"] d [of "cap s" xs] assms(2,3) by simp
  moreover have "\<forall>x. Put x \<in> set (map Put xs @ replicate (length xs) Get) \<longrightarrow> ok x" using assms(4) by auto
  ultimately show ?thesis using run_refines [OF assms(1)] by blast
qed

end

end
