(* ===== verification/Xinu_Mailbox.thy ===== *)
theory Xinu_Mailbox
  imports Xinu_Sem Xinu_Heap Xinu_Ring
begin

text \<open>
  Mailboxes (\<^verbatim>\<open>mailbox/\<close>): bounded queues of one-word messages. A mailbox is a ring
  buffer on the heap with a semaphore for its free places and one for its messages. A call
  that waits on a semaphore ends in \<open>Switched\<close> when its thread loses the processor, and the
  \<open>_rest\<close> function is what the thread does when it has it again.
\<close>

section \<open>The operations\<close>

definition mwr :: "u32 \<Rightarrow> (mbox \<Rightarrow> mbox) \<Rightarrow> kernel \<Rightarrow> kernel" where
  "mwr i f s = s\<lparr>mboxtab := (mboxtab s)(i := f (mboxtab s i))\<rparr>"

definition mailboxInit :: "kernel \<Rightarrow> int \<times> kernel" where
  "mailboxInit s =
     (let (sem, s) = semcreate 1 s;
          s = s\<lparr>mboxtabsem := sem\<rparr>;
          s = fold (\<lambda>i. mwr (word_of_int i) (mstate_update (\<lambda>_. MAILBOX_FREE))) [0..14] s
      in (OK, s))"

text \<open>
  Setting up the free slot \<open>nextmbx\<close>. On success the call returns \<^verbatim>\<open>nextmbx\<close> as it is
  \<^emph>\<open>after\<close> \<^verbatim>\<open>signal\<close>, when other threads may have run: \<open>mailboxAlloc_rest\<close>.
\<close>

definition mailboxAlloc_rest :: "kernel \<Rightarrow> int \<times> kernel" where
  "mailboxAlloc_rest s = (nextmbx s, s)"

definition mailboxAlloc_found :: "u32 \<Rightarrow> kernel \<Rightarrow> (int call \<times> kernel) option" where
  "mailboxAlloc_found n s = do {
     let me = thrcurrent s;
     let i = word_of_int (nextmbx s);
     (p, s) \<leftarrow> memget (4 * n) s;
     let s = mwr i (msgs_update (\<lambda>_. p)) s;
     if p = -1 then do { (_, s) \<leftarrow> signal (mboxtabsem s) s; Some (Returned SYSERR, s) }
     else do {
       let s = mwr i (mmax_update (\<lambda>_. n)) s;
       let (snd, s) = semcreate (sint n) s;
       let s = mwr i (sender_update (\<lambda>_. snd)) s;
       let (rcv, s) = semcreate 0 s;
       let s = mwr i (receiver_update (\<lambda>_. rcv)) s;
       if snd = -1 \<or> rcv = -1
       then do {
         (_, s) \<leftarrow> memfree (msgs (mboxtab s i)) (4 * mmax (mboxtab s i)) s;
         (_, s) \<leftarrow> semfree snd s;
         (_, s) \<leftarrow> semfree rcv s;
         Some (Returned SYSERR, s)
       }
       else do {
         let s = mwr i (\<lambda>m. m\<lparr>mcount := 0, mstart := 0, mstate := MAILBOX_ALLOC\<rparr>) s;
         (_, s) \<leftarrow> signal (mboxtabsem s) s;
         if thrcurrent s = me
         then (let (r, s) = mailboxAlloc_rest s in Some (Returned r, s))
         else Some (Switched, s)
       }
     }
   }"

fun mailboxAlloc_loop :: "nat \<Rightarrow> u32 \<Rightarrow> kernel \<Rightarrow> (int call \<times> kernel) option" where
  "mailboxAlloc_loop 0 n s = do { (_, s) \<leftarrow> signal (mboxtabsem s) s; Some (Returned SYSERR, s) }"
| "mailboxAlloc_loop (Suc k) n s =
     (let s = s\<lparr>nextmbx := (nextmbx s + 1) mod 15\<rparr> in
      if mstate (mboxtab s (word_of_int (nextmbx s))) = MAILBOX_FREE then mailboxAlloc_found n s
      else mailboxAlloc_loop k n s)"

text \<open>What a thread does once it holds the semaphore of the table.\<close>

definition mailboxAlloc_locked :: "u32 \<Rightarrow> kernel \<Rightarrow> (int call \<times> kernel) option" where
  "mailboxAlloc_locked n s = mailboxAlloc_loop 15 n s"

definition mailboxAlloc :: "u32 \<Rightarrow> kernel \<Rightarrow> (int call \<times> kernel) option" where
  "mailboxAlloc n s = do {
     let me = thrcurrent s;
     (_, s) \<leftarrow> wait (mboxtabsem s) s;
     if thrcurrent s = me then mailboxAlloc_locked n s else Some (Switched, s)
   }"

definition mailboxCount :: "u32 \<Rightarrow> kernel \<Rightarrow> int \<times> kernel" where
  "mailboxCount box s =
     (if box \<ge> NMAILBOX then (SYSERR, s)
      else if mstate (mboxtab s box) \<noteq> MAILBOX_ALLOC then (SYSERR, s)
      else (let (im, s) = disable s; n = mcount (mboxtab s box) in (sint n, restore im s)))"

definition mailboxFree_locked :: "u32 \<Rightarrow> kernel \<Rightarrow> (int \<times> kernel) option" where
  "mailboxFree_locked box s = do {
     (r, s) \<leftarrow> semfree (sender (mboxtab s box)) s;
     if r = SYSERR then do { (_, s) \<leftarrow> signal (mboxtabsem s) s; Some (SYSERR, s) }
     else do {
       (r, s) \<leftarrow> semfree (receiver (mboxtab s box)) s;
       if r = SYSERR then do { (_, s) \<leftarrow> signal (mboxtabsem s) s; Some (SYSERR, s) }
       else do {
         (r, s) \<leftarrow> memfree (msgs (mboxtab s box)) (4 * mmax (mboxtab s box)) s;
         if r = SYSERR then do { (_, s) \<leftarrow> signal (mboxtabsem s) s; Some (SYSERR, s) }
         else do {
           let s = mwr box (mstate_update (\<lambda>_. MAILBOX_FREE)) s;
           (_, s) \<leftarrow> signal (mboxtabsem s) s;
           Some (OK, s)
         }
       }
     }
   }"

definition mailboxFree :: "u32 \<Rightarrow> kernel \<Rightarrow> (int call \<times> kernel) option" where
  "mailboxFree box s =
     (if box \<ge> NMAILBOX then Some (Returned SYSERR, s)
      else if mstate (mboxtab s box) \<noteq> MAILBOX_ALLOC then Some (Returned SYSERR, s)
      else do {
        let me = thrcurrent s;
        (_, s) \<leftarrow> wait (mboxtabsem s) s;
        if thrcurrent s = me then do { (r, s) \<leftarrow> mailboxFree_locked box s; Some (Returned r, s) }
        else Some (Switched, s)
      })"

text \<open>The remainder by \<^verbatim>\<open>max\<close> is undefined for an empty ring.\<close>

definition mailboxReceive_take :: "u32 \<Rightarrow> kernel \<Rightarrow> (int \<times> kernel) option" where
  "mailboxReceive_take box s =
     (let (im, s) = disable s; b = mboxtab s box in
      if mmax b = 0 then None
      else (let mailmsg = sint (mem s (msgs b + 4 * mstart b));
                s = mwr box (\<lambda>m. m\<lparr>mstart := (mstart m + 1) mod mmax m, mcount := mcount m - 1\<rparr>) s
            in Some (mailmsg, restore im s)))"

definition mailboxReceive_rest :: "u32 \<Rightarrow> kernel \<Rightarrow> (int \<times> kernel) option" where
  "mailboxReceive_rest box s = do {
     (mailmsg, s) \<leftarrow> mailboxReceive_take box s;
     (_, s) \<leftarrow> signal (sender (mboxtab s box)) s;
     Some (mailmsg, s)
   }"

definition mailboxReceive :: "u32 \<Rightarrow> kernel \<Rightarrow> (int call \<times> kernel) option" where
  "mailboxReceive box s =
     (if box \<ge> NMAILBOX then Some (Returned SYSERR, s)
      else if mstate (mboxtab s box) \<noteq> MAILBOX_ALLOC then Some (Returned SYSERR, s)
      else do {
        let me = thrcurrent s;
        (_, s) \<leftarrow> wait (receiver (mboxtab s box)) s;
        if thrcurrent s = me then do { (m, s) \<leftarrow> mailboxReceive_rest box s; Some (Returned m, s) }
        else Some (Switched, s)
      })"

definition mailboxSend_put :: "u32 \<Rightarrow> int \<Rightarrow> kernel \<Rightarrow> kernel option" where
  "mailboxSend_put box mailmsg s =
     (let (im, s) = disable s; b = mboxtab s box in
      if mmax b = 0 then None
      else (let s = s\<lparr>mem := (mem s)(msgs b + 4 * ((mstart b + mcount b) mod mmax b) := word_of_int mailmsg)\<rparr>;
                s = mwr box (mcount_update (\<lambda>n. n + 1)) s
            in Some (restore im s)))"

definition mailboxSend_rest :: "u32 \<Rightarrow> int \<Rightarrow> kernel \<Rightarrow> (int \<times> kernel) option" where
  "mailboxSend_rest box mailmsg s = do {
     s \<leftarrow> mailboxSend_put box mailmsg s;
     (_, s) \<leftarrow> signal (receiver (mboxtab s box)) s;
     Some (OK, s)
   }"

definition mailboxSend :: "u32 \<Rightarrow> int \<Rightarrow> kernel \<Rightarrow> (int call \<times> kernel) option" where
  "mailboxSend box mailmsg s =
     (if box \<ge> NMAILBOX then Some (Returned SYSERR, s)
      else if mstate (mboxtab s box) \<noteq> MAILBOX_ALLOC then Some (Returned SYSERR, s)
      else do {
        let me = thrcurrent s;
        (_, s) \<leftarrow> wait (sender (mboxtab s box)) s;
        if thrcurrent s = me then do { (r, s) \<leftarrow> mailboxSend_rest box mailmsg s; Some (Returned r, s) }
        else Some (Switched, s)
      })"

section \<open>The ring of a mailbox\<close>

text \<open>
  \<open>ring_ok\<close>: the indices are in range and the buffer does not run past the end of the address
  space; \<open>box_msgs\<close>: the messages in the order in which they were sent.
\<close>

definition ring_ok :: "u32 \<Rightarrow> kernel \<Rightarrow> bool" where
  "ring_ok box s \<longleftrightarrow> (let b = mboxtab s box in
     0 < mmax b \<and> mstart b < mmax b \<and> mcount b \<le> mmax b \<and> unat (msgs b) + 4 * unat (mmax b) \<le> 2 ^ 32)"

definition box_word :: "u32 \<Rightarrow> kernel \<Rightarrow> nat \<Rightarrow> int" where
  "box_word box s i = sint (mem s (msgs (mboxtab s box) + 4 * of_nat i))"

definition box_msgs :: "u32 \<Rightarrow> kernel \<Rightarrow> int list" where
  "box_msgs box s = (let b = mboxtab s box in
     ring_list (box_word box s) (unat (mstart b)) (unat (mcount b)) (unat (mmax b)))"

lemma ring_okD:
  assumes "ring_ok box s"
  defines "b \<equiv> mboxtab s box"
  shows "0 < unat (mmax b)" "unat (mstart b) < unat (mmax b)" "unat (mcount b) \<le> unat (mmax b)"
    "unat (msgs b) + 4 * unat (mmax b) \<le> 2 ^ 32" "unat (mmax b) \<le> 2 ^ 30"
  using assms by (auto simp: ring_ok_def Let_def word_less_nat_alt word_le_nat_alt)

lemma slot_addr:
  fixes p m i :: u32
  assumes "unat p + 4 * unat m \<le> 2 ^ 32" and "i < m"
  shows "unat (p + 4 * i) = unat p + 4 * unat i"
proof -
  have i: "unat i < unat m" using assms(2) by (simp add: word_less_nat_alt)
  have "unat (4 * i) = 4 * unat i"
    using i assms(1) by (subst unat_mult_lem [THEN iffD1]) auto
  then show ?thesis using i assms(1) by (subst unat_add_small) auto
qed

lemma slot_inj:
  fixes p m :: u32
  assumes "unat p + 4 * unat m \<le> 2 ^ 32" and "i < m" and "j < m" and "p + 4 * i = p + 4 * j"
  shows "i = j"
  using slot_addr [OF assms(1,2)] slot_addr [OF assms(1,3)] assms(4) by (simp add: word_unat_eq_iff)

text \<open>The index arithmetic does not wrap, so it is arithmetic of natural numbers.\<close>

lemma unat_index:
  fixes a b m :: u32
  assumes "unat m \<le> 2 ^ 30" and "unat a \<le> unat m" and "unat b \<le> unat m"
  shows "unat ((a + b) mod m) = (unat a + unat b) mod unat m"
  using assms by (subst unat_mod, subst unat_add_small) auto

lemma mailboxSend_put_spec:
  assumes r: "ring_ok box s" and f: "unat (mcount (mboxtab s box)) < unat (mmax (mboxtab s box))" and m: "cint m"
  shows "\<exists>s'. mailboxSend_put box m s = Some (s'\<lparr>imask := norm_mask (imask s)\<rparr>) \<and> ring_ok box s'
     \<and> box_msgs box s' = box_msgs box s @ [m] \<and> s' = s\<lparr>mem := mem s', mboxtab := mboxtab s'\<rparr>
     \<and> (\<forall>x. \<not> (unat (msgs (mboxtab s box)) \<le> unat x \<and> unat x < unat (msgs (mboxtab s box)) + 4 * unat (mmax (mboxtab s box)))
          \<longrightarrow> mem s' x = mem s x)"
proof -
  define b where "b = mboxtab s box"
  define i where "i = (mstart b + mcount b) mod mmax b"
  define s' where "s' = s\<lparr>mem := (mem s)(msgs b + 4 * i := word_of_int m),
     mboxtab := (mboxtab s)(box := b\<lparr>mcount := mcount b + 1\<rparr>)\<rparr>"
  note r' = ring_okD [OF r, folded b_def]
  have c1: "unat (mcount b + 1) = Suc (unat (mcount b))"
    using f r'(5) by (subst unat_add_small) (auto simp: b_def)
  have ui: "unat i = (unat (mstart b) + unat (mcount b)) mod unat (mmax b)"
    unfolding i_def using r' by (intro unat_index) auto
  have im: "i < mmax b" using ui r'(1) by (simp add: word_less_nat_alt)
  have "mailboxSend_put box m s = Some (s'\<lparr>imask := norm_mask (imask s)\<rparr>)"
    using r'(1) by (simp add: mailboxSend_put_def irq_simps mwr_def Let_def s'_def i_def b_def [symmetric])
      (auto simp: b_def fun_eq_iff)
  moreover have "ring_ok box s'"
    using r' f c1 by (simp add: ring_ok_def s'_def b_def [symmetric] word_less_nat_alt word_le_nat_alt)
  moreover have "box_msgs box s' = box_msgs box s @ [m]"
  proof -
    have "box_word box s' k = ((box_word box s)((unat (mstart b) + unat (mcount b)) mod unat (mmax b) := m)) k"
      if k: "k < unat (mmax b)" for k
    proof -
      have wk: "unat (of_nat k :: u32) = k" using k r'(5) by (simp add: unsigned_of_nat take_bit_nat_eq_self)
      then have "(of_nat k :: u32) < mmax b" using k by (simp add: word_less_nat_alt)
      then have "msgs b + 4 * of_nat k = msgs b + 4 * i \<longleftrightarrow> k = unat i"
        using slot_inj [OF r'(4) _ im, of "of_nat k"] wk by auto
      moreover have "sint (word_of_int m :: u32) = m"
        using m by (simp add: cint_def signed_of_int signed_take_bit_int_eq_self)
      ultimately show ?thesis using ui by (auto simp: box_word_def s'_def b_def [symmetric])
    qed
    then have "ring_list (box_word box s') (unat (mstart b)) (Suc (unat (mcount b))) (unat (mmax b))
      = ring_list ((box_word box s)((unat (mstart b) + unat (mcount b)) mod unat (mmax b) := m))
          (unat (mstart b)) (Suc (unat (mcount b))) (unat (mmax b))" using r'(1) by (rule ring_list_cong)
    then show ?thesis using ring_put [of "unat (mcount b)" "unat (mmax b)"] f c1
      by (simp add: box_msgs_def s'_def Let_def b_def [symmetric])
  qed
  moreover have "mem s' x = mem s x"
    if "\<not> (unat (msgs b) \<le> unat x \<and> unat x < unat (msgs b) + 4 * unat (mmax b))" for x
    using that slot_addr [OF r'(4) im] im by (auto simp: s'_def word_less_nat_alt)
  ultimately show ?thesis unfolding b_def [symmetric] by (intro exI [of _ s']) (auto simp: s'_def)
qed

lemma mailboxReceive_take_spec:
  assumes r: "ring_ok box s" and c: "box_msgs box s = m # ms"
  shows "\<exists>s'. mailboxReceive_take box s = Some (m, s'\<lparr>imask := norm_mask (imask s)\<rparr>) \<and> ring_ok box s'
     \<and> box_msgs box s' = ms \<and> s' = s\<lparr>mboxtab := mboxtab s'\<rparr>
     \<and> mmax (mboxtab s' box) = mmax (mboxtab s box)"
proof -
  define b where "b = mboxtab s box"
  define s' where "s' = s\<lparr>mboxtab := (mboxtab s)(box := b\<lparr>mstart := (mstart b + 1) mod mmax b, mcount := mcount b - 1\<rparr>)\<rparr>"
  note r' = ring_okD [OF r, folded b_def]
  have n: "0 < unat (mcount b)" using c by (cases "unat (mcount b)") (auto simp: box_msgs_def b_def [symmetric])
  have c1: "unat (mcount b - 1) = unat (mcount b) - 1" using n by (subst unat_sub) (auto simp: word_le_nat_alt)
  have st: "unat ((mstart b + 1) mod mmax b) = (unat (mstart b) + 1) mod unat (mmax b)"
    using unat_index [of "mmax b" "mstart b" 1] r' by simp
  have w: "box_word box s' = box_word box s" by (simp add: box_word_def fun_eq_iff s'_def b_def)
  have "box_msgs box s = box_word box s (unat (mstart b)) # ring_list (box_word box s)
      ((unat (mstart b) + 1) mod unat (mmax b)) (unat (mcount b) - 1) (unat (mmax b))"
    using ring_get [OF n, of "box_word box s" "unat (mstart b)" "unat (mmax b)"] r'(2)
    by (simp add: box_msgs_def b_def [symmetric])
  then have m: "m = box_word box s (unat (mstart b))" and ms: "ms = box_msgs box s'"
    using c w st c1 by (simp_all add: box_msgs_def s'_def)
  have "mailboxReceive_take box s = Some (m, s'\<lparr>imask := norm_mask (imask s)\<rparr>)"
    using r'(1) m by (simp add: mailboxReceive_take_def irq_simps mwr_def Let_def s'_def b_def [symmetric] box_word_def)
      (auto simp: b_def fun_eq_iff)
  moreover have "ring_ok box s'"
    using r' c1 st by (simp add: ring_ok_def s'_def b_def [symmetric] word_less_nat_alt word_le_nat_alt)
  ultimately show ?thesis using ms by (intro exI [of _ s']) (auto simp: s'_def b_def)
qed

lemma ring_imask [simp]:
  "ring_ok box (s\<lparr>imask := m\<rparr>) = ring_ok box s" "box_msgs box (s\<lparr>imask := m\<rparr>) = box_msgs box s"
  by (simp_all add: ring_ok_def box_msgs_def box_word_def [abs_def])

interpretation mailbox_ring: bounded_fifo "ring_ok box" "box_msgs box" "\<lambda>s. unat (mmax (mboxtab s box))" cint
  "mailboxSend_put box" "mailboxReceive_take box" for box
proof unfold_locales
  fix s :: kernel assume r: "ring_ok box s"
  have l: "length (box_msgs box s) = unat (mcount (mboxtab s box))" by (simp add: box_msgs_def Let_def)
  show "length (box_msgs box s) \<le> unat (mmax (mboxtab s box))" unfolding l by (rule ring_okD(3) [OF r])
  show "\<exists>s'. mailboxSend_put box m s = Some s' \<and> ring_ok box s' \<and> box_msgs box s' = box_msgs box s @ [m]
      \<and> unat (mmax (mboxtab s' box)) = unat (mmax (mboxtab s box))"
    if "cint m" "length (box_msgs box s) < unat (mmax (mboxtab s box))" for m
  proof -
    have "mailboxSend_put box m s = Some t \<Longrightarrow> mmax (mboxtab t box) = mmax (mboxtab s box)" for t
      by (auto simp: mailboxSend_put_def mwr_def irq_simps Let_def split: if_splits)
    then show ?thesis using mailboxSend_put_spec [OF r _ that(1)] that(2) l by fastforce
  qed
  show "\<exists>s'. mailboxReceive_take box s = Some (m, s') \<and> ring_ok box s' \<and> box_msgs box s' = ms
      \<and> unat (mmax (mboxtab s' box)) = unat (mmax (mboxtab s box))" if "box_msgs box s = m # ms" for m ms
    using mailboxReceive_take_spec [OF r that] by fastforce
qed

section \<open>Sending and receiving\<close>

text \<open>
  A mailbox between calls: the semaphore of the receivers counts the messages, the one of the senders the free places.
\<close>

definition mbox_open :: "u32 \<Rightarrow> kernel \<Rightarrow> bool" where
  "mbox_open box s \<longleftrightarrow> (let b = mboxtab s box in kinv s \<and> box < NMAILBOX \<and> mstate b = MAILBOX_ALLOC \<and> ring_ok box s
     \<and> \<not> isbadsem (sender b) s \<and> \<not> isbadsem (receiver b) s \<and> sender b \<noteq> receiver b
     \<and> scount (semtab s (receiver b)) = int (length (box_msgs box s))
     \<and> scount (semtab s (sender b)) = uint (mmax b) - int (length (box_msgs box s)))"

lemma mailboxSend_put_frame:
  "mailboxSend_put box m s = Some t \<Longrightarrow> mboxtab t = (mboxtab s)(box := (mboxtab s box)\<lparr>mcount := mcount (mboxtab s box) + 1\<rparr>)
     \<and> semtab t = semtab s"
  by (auto simp: mailboxSend_put_def mwr_def irq_simps Let_def split: if_splits)

lemma mailboxReceive_take_frame:
  "mailboxReceive_take box s = Some (m, t) \<Longrightarrow> semtab t = semtab s \<and> mboxtab t = (mboxtab s)(box := (mboxtab s box)\<lparr>
     mstart := (mstart (mboxtab s box) + 1) mod mmax (mboxtab s box), mcount := mcount (mboxtab s box) - 1\<rparr>)"
  by (auto simp: mailboxReceive_take_def mwr_def irq_simps Let_def split: if_splits)

lemma ring_sem [simp]:
  "ring_ok box (s\<lparr>semtab := st\<rparr>) = ring_ok box s" "box_msgs box (s\<lparr>semtab := st\<rparr>) = box_msgs box s"
  "ring_ok box (set_count i c s) = ring_ok box s" "box_msgs box (set_count i c s) = box_msgs box s"
  "mboxtab (set_count i c s) = mboxtab s" "thrcurrent (set_count i c s) = thrcurrent s"
  by (simp_all add: ring_ok_def box_msgs_def box_word_def [abs_def] set_count_def)

lemma box_msgs_length: "ring_ok box s \<Longrightarrow> length (box_msgs box s) \<le> unat (mmax (mboxtab s box)) \<and> unat (mmax (mboxtab s box)) \<le> 2 ^ 30"
  using mailbox_ring.bound ring_okD(5) by blast

lemma mailboxSend_now:
  assumes o: "mbox_open box s" and m: "cint m" and l: "length (box_msgs box s) < unat (mmax (mboxtab s box))"
  shows "\<exists>s'. mailboxSend box m s = Some (Returned OK, s') \<and> mbox_open box s' \<and> box_msgs box s' = box_msgs box s @ [m]
     \<and> mmax (mboxtab s' box) = mmax (mboxtab s box) \<and> thrcurrent s' = thrcurrent s"
proof -
  let ?b = "mboxtab s box"
  note d = o [unfolded mbox_open_def Let_def]
  have l': "int (length (box_msgs box s)) < uint (mmax ?b)" using l [folded of_nat_less_iff [where 'a = int]] by simp
  define a where "a = (set_count (sender ?b) (scount (semtab s (sender ?b)) - 1) s)\<lparr>imask := norm_mask (imask s)\<rparr>"
  have w: "wait (sender ?b) s = Some (OK, a)" "kinv a" using wait_pass [of s "sender ?b"] d l' by (simp_all add: a_def)
  have c: "unat (mcount ?b) < unat (mmax ?b)" using l by (simp add: box_msgs_def Let_def)
  obtain u where u: "mailboxSend_put box m a = Some (u\<lparr>imask := norm_mask (imask a)\<rparr>)" "ring_ok box u"
      "box_msgs box u = box_msgs box s @ [m]" "u = a\<lparr>mem := mem u, mboxtab := mboxtab u\<rparr>"
    using mailboxSend_put_spec [of box a m] d c m by (auto simp: a_def)
  define v where "v = u\<lparr>imask := norm_mask (imask a)\<rparr>"
  have uf: "mboxtab v = (mboxtab s)(box := ?b\<lparr>mcount := mcount ?b + 1\<rparr>)" "semtab v = semtab a"
    using mailboxSend_put_frame [OF u(1)] by (simp_all add: v_def a_def)
  have kv: "kinv v" "thrcurrent v = thrcurrent s"
    using w(2) arg_cong [OF u(4), of kinv] arg_cong [OF u(4), of thrcurrent] by (simp_all add: v_def a_def)
  have n: "int (length (box_msgs box s)) < MAXKEY" using box_msgs_length [of box s] d l by simp
  have r: "\<not> isbadsem (receiver ?b) v" "0 \<le> scount (semtab v (receiver ?b))" "scount (semtab v (receiver ?b)) < MAXKEY"
    using d n by (auto simp: uf(2) a_def isbadsem_def set_count_def)
  note g = signal_free [OF kv(1) r]
  have nb: "\<not> NMAILBOX \<le> box" "thrcurrent a = thrcurrent s" using d by (simp_all add: a_def not_le)
  define t where "t = (set_count (receiver ?b) (scount (semtab v (receiver ?b)) + 1) v)\<lparr>imask := norm_mask (imask v)\<rparr>"
  have "mailboxSend box m s = Some (Returned OK, t)"
    using d w(1) u(1) g(1) uf(1) nb by (simp add: mailboxSend_def mailboxSend_rest_def v_def [symmetric] t_def)
  moreover have "mbox_open box t"
    using d g(2) u(2,3) uf l by (auto simp: mbox_open_def t_def v_def Let_def isbadsem_def set_count_def a_def)
  ultimately show ?thesis using u(3) uf kv(2) by (auto simp: t_def v_def)
qed


lemma mailboxReceive_now:
  assumes o: "mbox_open box s" and q: "box_msgs box s = m # ms"
  shows "\<exists>s'. mailboxReceive box s = Some (Returned m, s') \<and> mbox_open box s' \<and> box_msgs box s' = ms
     \<and> mmax (mboxtab s' box) = mmax (mboxtab s box) \<and> thrcurrent s' = thrcurrent s"
proof -
  let ?b = "mboxtab s box"
  note d = o [unfolded mbox_open_def Let_def]
  define a where "a = (set_count (receiver ?b) (scount (semtab s (receiver ?b)) - 1) s)\<lparr>imask := norm_mask (imask s)\<rparr>"
  have w: "wait (receiver ?b) s = Some (OK, a)" "kinv a" using wait_pass [of s "receiver ?b"] d q by (simp_all add: a_def)
  obtain u where u: "mailboxReceive_take box a = Some (m, u\<lparr>imask := norm_mask (imask a)\<rparr>)" "ring_ok box u"
      "box_msgs box u = ms" "u = a\<lparr>mboxtab := mboxtab u\<rparr>"
    using mailboxReceive_take_spec [of box a m ms] d q by (auto simp: a_def)
  define v where "v = u\<lparr>imask := norm_mask (imask a)\<rparr>"
  have uf: "mboxtab v = (mboxtab s)(box := ?b\<lparr>mstart := (mstart ?b + 1) mod mmax ?b, mcount := mcount ?b - 1\<rparr>)" "semtab v = semtab a"
    using mailboxReceive_take_frame [OF u(1)] by (simp_all add: v_def a_def)
  have kv: "kinv v" "thrcurrent v = thrcurrent s"
    using w(2) arg_cong [OF u(4), of kinv] arg_cong [OF u(4), of thrcurrent] by (simp_all add: v_def a_def)
  have n: "Suc (length ms) \<le> unat (mmax ?b)" "unat (mmax ?b) \<le> 2 ^ 30" using box_msgs_length [of box s] d q by simp_all
  have n': "int (length ms) < uint (mmax ?b)" "uint (mmax ?b) \<le> 2 ^ 30"
    using n [folded of_nat_le_iff [where 'a = int]] by simp_all
  have r: "\<not> isbadsem (sender ?b) v" "0 \<le> scount (semtab v (sender ?b))" "scount (semtab v (sender ?b)) < MAXKEY"
    using d n' q by (auto simp: uf(2) a_def isbadsem_def set_count_def)
  note g = signal_free [OF kv(1) r]
  have nb: "\<not> NMAILBOX \<le> box" "thrcurrent a = thrcurrent s" using d by (simp_all add: a_def not_le)
  define t where "t = (set_count (sender ?b) (scount (semtab v (sender ?b)) + 1) v)\<lparr>imask := norm_mask (imask v)\<rparr>"
  have "mailboxReceive box s = Some (Returned m, t)"
    using d w(1) u(1) g(1) uf(1) nb by (simp add: mailboxReceive_def mailboxReceive_rest_def v_def [symmetric] t_def)
  moreover have "mbox_open box t"
    using d g(2) u(2,3) uf q by (auto simp: mbox_open_def t_def v_def Let_def isbadsem_def set_count_def a_def)
  ultimately show ?thesis using u(3) uf kv(2) by (auto simp: t_def v_def)
qed

text \<open>A sender at a full mailbox, and a receiver at an empty one, wait in the order of their calls.\<close>

lemma mailboxSend_waits:
  assumes o: "mbox_open box s" and l: "length (box_msgs box s) = unat (mmax (mboxtab s box))" and n: "thrcurrent s \<noteq> NULLTHREAD"
  shows "\<exists>s'. mailboxSend box m s = Some (Switched, s') \<and> kinv s' \<and> tstate (thrtab s' (thrcurrent s)) = THRWAIT
     \<and> contents s' (squeue (semtab s (sender (mboxtab s box)))) = contents s (squeue (semtab s (sender (mboxtab s box)))) @ [thrcurrent s]"
proof -
  note d = o [unfolded mbox_open_def Let_def]
  have "int (length (box_msgs box s)) = uint (mmax (mboxtab s box))" using l by simp
  then have c: "scount (semtab s (sender (mboxtab s box))) \<le> 0" using d by simp
  show ?thesis using wait_block [of s "sender (mboxtab s box)"] d c n by (auto simp: mailboxSend_def not_le [symmetric])
qed

lemma mailboxReceive_waits:
  assumes o: "mbox_open box s" and l: "box_msgs box s = []" and n: "thrcurrent s \<noteq> NULLTHREAD"
  shows "\<exists>s'. mailboxReceive box s = Some (Switched, s') \<and> kinv s' \<and> tstate (thrtab s' (thrcurrent s)) = THRWAIT
     \<and> contents s' (squeue (semtab s (receiver (mboxtab s box)))) = contents s (squeue (semtab s (receiver (mboxtab s box)))) @ [thrcurrent s]"
proof -
  note d = o [unfolded mbox_open_def Let_def]
  have c: "scount (semtab s (receiver (mboxtab s box))) \<le> 0" using d l by simp
  show ?thesis using wait_block [of s "receiver (mboxtab s box)"] d c n by (auto simp: mailboxReceive_def not_le [symmetric])
qed

definition send_now :: "u32 \<Rightarrow> int \<Rightarrow> kernel \<Rightarrow> kernel option" where
  "send_now box m s = (case mailboxSend box m s of Some (Returned _, s') \<Rightarrow> Some s' | _ \<Rightarrow> None)"

definition receive_now_box :: "u32 \<Rightarrow> kernel \<Rightarrow> (int \<times> kernel) option" where
  "receive_now_box box s = (case mailboxReceive box s of Some (Returned m, s') \<Rightarrow> Some (m, s') | _ \<Rightarrow> None)"

interpretation mailbox_calls: bounded_fifo "mbox_open box" "box_msgs box" "\<lambda>s. unat (mmax (mboxtab s box))" cint
  "send_now box" "receive_now_box box" for box
proof unfold_locales
  fix s :: kernel assume o: "mbox_open box s"
  then show "length (box_msgs box s) \<le> unat (mmax (mboxtab s box))" using mailbox_ring.bound by (simp add: mbox_open_def Let_def)
  show "\<exists>s'. send_now box m s = Some s' \<and> mbox_open box s' \<and> box_msgs box s' = box_msgs box s @ [m]
      \<and> unat (mmax (mboxtab s' box)) = unat (mmax (mboxtab s box))"
    if "cint m" "length (box_msgs box s) < unat (mmax (mboxtab s box))" for m
    using mailboxSend_now [OF o that] by (auto simp: send_now_def)
  show "\<exists>s'. receive_now_box box s = Some (m, s') \<and> mbox_open box s' \<and> box_msgs box s' = ms
      \<and> unat (mmax (mboxtab s' box)) = unat (mmax (mboxtab s box))" if "box_msgs box s = m # ms" for m ms
    using mailboxReceive_now [OF o that] by (auto simp: receive_now_box_def)
qed

end
