(* ===== verification/Xinu_Vic.thy ===== *)
theory Xinu_Vic
  imports Xinu_State
begin

text \<open>
  The interrupt controller of the raspberry-pi: \<^verbatim>\<open>system/platforms/raspberry-pi/vic.c\<close>,
  \<^verbatim>\<open>interrupt.c\<close> and \<^verbatim>\<open>clkupdate.c\<close>. A write to an enable register sets the bits
  that are 1, a write to a disable register clears them, so the state keeps the two words of
  enabled lines. Handlers are addresses in the vector table; the code at an address is the
  parameter \<open>code\<close>, and the two pending words are the parameters \<open>pend1\<close> and \<open>pend2\<close>.
\<close>

section \<open>The operations\<close>

abbreviation (input) NUM_VECT :: int where "NUM_VECT \<equiv> 64"
abbreviation (input) NULL_VECT :: u32 where "NULL_VECT \<equiv> 0"
abbreviation (input) IRQ_TIMER :: int where "IRQ_TIMER \<equiv> 1"

definition write_enable1 :: "u32 \<Rightarrow> kernel \<Rightarrow> kernel" where
  "write_enable1 v s = s\<lparr>imask := (imask s)\<lparr>lower_en := or (lower_en (imask s)) v\<rparr>\<rparr>"

definition write_enable2 :: "u32 \<Rightarrow> kernel \<Rightarrow> kernel" where
  "write_enable2 v s = s\<lparr>imask := (imask s)\<lparr>upper_en := or (upper_en (imask s)) v\<rparr>\<rparr>"

definition write_disable1 :: "u32 \<Rightarrow> kernel \<Rightarrow> kernel" where
  "write_disable1 v s = s\<lparr>imask := (imask s)\<lparr>lower_en := and (lower_en (imask s)) (not v)\<rparr>\<rparr>"

definition write_disable2 :: "u32 \<Rightarrow> kernel \<Rightarrow> kernel" where
  "write_disable2 v s = s\<lparr>imask := (imask s)\<lparr>upper_en := and (upper_en (imask s)) (not v)\<rparr>\<rparr>"

text \<open>\<^verbatim>\<open>1 << n\<close> is undefined for a negative or too large \<open>n\<close>.\<close>

definition shift1 :: "int \<Rightarrow> u32 option" where
  "shift1 n = (if 0 \<le> n \<and> n < 32 then Some (push_bit (nat n) 1) else None)"

definition vic_init :: "kernel \<Rightarrow> kernel" where
  "vic_init s =
     (let s = write_disable2 0xFFFFFFFF (write_disable1 0xFFFFFFFF s)
      in s\<lparr>vectors := (\<lambda>i. if 0 \<le> i \<and> i < NUM_VECT then NULL_VECT else vectors s i)\<rparr>)"

definition vic_enable_irq :: "int \<Rightarrow> kernel \<Rightarrow> kernel option" where
  "vic_enable_irq vect_num s =
     (if vect_num < 32
      then do { v \<leftarrow> shift1 vect_num; Some (write_enable1 v s) }
      else do { v \<leftarrow> shift1 (vect_num - 32); Some (write_enable2 v s) })"

definition vic_disable_irq :: "int \<Rightarrow> kernel \<Rightarrow> kernel option" where
  "vic_disable_irq vect_num s =
     (if vect_num < 32
      then do { v \<leftarrow> shift1 vect_num; Some (write_disable1 v s) }
      else do { v \<leftarrow> shift1 (vect_num - 32); Some (write_disable2 v s) })"

definition vic_register_irq :: "int \<Rightarrow> u32 \<Rightarrow> kernel \<Rightarrow> kernel" where
  "vic_register_irq vect_num handler s =
     (if 0 \<le> vect_num \<and> vect_num < NUM_VECT then s\<lparr>vectors := (vectors s)(vect_num := handler)\<rparr> else s)"

definition vic_deregister_irq :: "int \<Rightarrow> kernel \<Rightarrow> kernel" where
  "vic_deregister_irq vect_num s =
     (if 0 \<le> vect_num \<and> vect_num < NUM_VECT then s\<lparr>vectors := (vectors s)(vect_num := NULL_VECT)\<rparr> else s)"

text \<open>The two loops of \<^verbatim>\<open>vic_irq_handler\<close>: \<open>n\<close> lines from \<open>i\<close> on, the lowest bit first.\<close>

fun vic_dispatch :: "(u32 \<Rightarrow> kernel \<Rightarrow> kernel option) \<Rightarrow> nat \<Rightarrow> int \<Rightarrow> u32 \<Rightarrow> kernel \<Rightarrow> kernel option" where
  "vic_dispatch code 0 i irqs s = Some s"
| "vic_dispatch code (Suc n) i irqs s = do {
     s \<leftarrow> (if and irqs 1 \<noteq> 0 \<and> vectors s i \<noteq> NULL_VECT then code (vectors s i) s else Some s);
     vic_dispatch code n (i + 1) (drop_bit 1 irqs) s
   }"

definition vic_irq_handler :: "(u32 \<Rightarrow> kernel \<Rightarrow> kernel option) \<Rightarrow> u32 \<Rightarrow> u32 \<Rightarrow> kernel \<Rightarrow> kernel option" where
  "vic_irq_handler code pend1 pend2 s = do {
     s \<leftarrow> vic_dispatch code 32 0 pend1 s;
     vic_dispatch code 32 32 pend2 s
   }"

definition enable :: "kernel \<Rightarrow> irqmask \<times> kernel" where
  "enable s = (let s = vic_enable_interrupts s in (vic_get_irqmask s, s))"

definition enable_irq :: "int \<Rightarrow> kernel \<Rightarrow> (irqmask \<times> kernel) option" where
  "enable_irq irq s = do { let im_pre = vic_get_irqmask s; s \<leftarrow> vic_enable_irq irq s; Some (im_pre, s) }"

definition disable_irq :: "int \<Rightarrow> kernel \<Rightarrow> (irqmask \<times> kernel) option" where
  "disable_irq irq s = do { let im_pre = vic_get_irqmask s; s \<leftarrow> vic_disable_irq irq s; Some (im_pre, s) }"

definition register_irq :: "int \<Rightarrow> u32 \<Rightarrow> kernel \<Rightarrow> kernel" where
  "register_irq irq handler s = vic_register_irq irq handler s"

text \<open>
  \<^verbatim>\<open>clkupdate\<close> moves the compare register on; acknowledging the interrupt in
  \<^verbatim>\<open>TIMER_CS\<close> clears a bit of the device and no variable.
\<close>

definition clkupdate :: "u32 \<Rightarrow> kernel \<Rightarrow> kernel option" where
  "clkupdate cycles s = do {
     (_, s) \<leftarrow> disable_irq IRQ_TIMER s;
     let s = (if \<not> clkstarted s then s\<lparr>timer_c1 := timer_clo s + cycles, clkstarted := True\<rparr>
              else s\<lparr>timer_c1 := timer_c1 s + cycles\<rparr>);
     (_, s) \<leftarrow> enable_irq IRQ_TIMER s;
     Some s
   }"

section \<open>Enabling and disabling lines\<close>

definition line_enabled :: "int \<Rightarrow> kernel \<Rightarrow> bool" where
  "line_enabled i s \<longleftrightarrow> (if i < 32 then bit (lower_en (imask s)) (nat i) else bit (upper_en (imask s)) (nat (i - 32)))"

lemma line_after_enable:
  assumes "0 \<le> i" and "i < 64" and "0 \<le> j" and "j < 64"
  shows "\<exists>s'. vic_enable_irq i s = Some s' \<and> (line_enabled j s' \<longleftrightarrow> j = i \<or> line_enabled j s)"
    and "\<exists>s'. vic_disable_irq i s = Some s' \<and> (line_enabled j s' \<longleftrightarrow> j \<noteq> i \<and> line_enabled j s)"
  using assms by (auto simp: vic_enable_irq_def vic_disable_irq_def shift1_def write_enable1_def write_enable2_def
      write_disable1_def write_disable2_def line_enabled_def bit_simps nat_eq_iff)

lemma vic_init_none: "0 \<le> i \<Longrightarrow> i < 64 \<Longrightarrow> \<not> line_enabled i (vic_init s) \<and> vectors (vic_init s) i = NULL_VECT"
proof -
  have m: "(0xFFFFFFFF :: u32) = -1" by simp
  have "bit (0xFFFFFFFF :: u32) n" if "n < 32" for n unfolding m using that by simp
  then show "0 \<le> i \<Longrightarrow> i < 64 \<Longrightarrow> \<not> line_enabled i (vic_init s) \<and> vectors (vic_init s) i = NULL_VECT"
    by (auto simp: vic_init_def line_enabled_def write_disable1_def write_disable2_def bit_simps Let_def)
qed

lemma mask_line1: "or (and x (not 2)) 2 = or x (2 :: u32)"
  by (rule bit_eqI) (auto simp: bit_simps)

text \<open>The clock keeps its own line enabled and leaves the others as they are.\<close>

lemma clkupdate_eq:
  "clkupdate c s = Some (s\<lparr>imask := (imask s)\<lparr>lower_en := or (lower_en (imask s)) 2\<rparr>,
     timer_c1 := (if clkstarted s then timer_c1 s else timer_clo s) + c, clkstarted := True\<rparr>)"
  by (cases s) (simp add: clkupdate_def disable_irq_def enable_irq_def vic_disable_irq_def vic_enable_irq_def shift1_def
      write_enable1_def write_disable1_def Let_def mask_line1 [simplified])

section \<open>Dispatching\<close>

text \<open>The lines of a pending word, in ascending order.\<close>

definition pending :: "nat \<Rightarrow> int \<Rightarrow> u32 \<Rightarrow> int list" where
  "pending n i irqs = map (\<lambda>k. i + int k) (filter (bit irqs) [0..<n])"

fun run_lines :: "(u32 \<Rightarrow> kernel \<Rightarrow> kernel option) \<Rightarrow> int list \<Rightarrow> kernel \<Rightarrow> kernel option" where
  "run_lines code [] s = Some s"
| "run_lines code (i # is) s = do {
     s \<leftarrow> (if vectors s i \<noteq> NULL_VECT then code (vectors s i) s else Some s);
     run_lines code is s
   }"

lemma run_lines_append: "run_lines code (xs @ ys) s = do { s \<leftarrow> run_lines code xs s; run_lines code ys s }"
  by (induction xs arbitrary: s) (auto split: Option.bind_splits)

lemma pending_Suc:
  "pending (Suc n) i irqs = (if bit irqs 0 then [i] else []) @ pending n (i + 1) (drop_bit 1 irqs)"
proof -
  have "filter (bit irqs) [0..<Suc n] = (if bit irqs 0 then [0] else []) @ filter (bit irqs) (map Suc [0..<n])"
    by (simp add: map_Suc_upt upt_conv_Cons del: upt_Suc)
  also have "filter (bit irqs) (map Suc [0..<n]) = map Suc (filter (bit (drop_bit 1 irqs)) [0..<n])"
    by (simp add: filter_map o_def bit_drop_bit_eq)
  finally show ?thesis by (simp add: pending_def)
qed

lemma vic_dispatch_lines: "vic_dispatch code n i irqs s = run_lines code (pending n i irqs) s"
proof (induction n arbitrary: i irqs s)
  case 0
  then show ?case by (simp add: pending_def)
next
  case (Suc n)
  have b: "and irqs 1 \<noteq> 0 \<longleftrightarrow> bit irqs 0" by (simp add: and_one_eq odd_iff_mod_2_eq_one bit_0)
  show ?case using Suc by (auto simp: pending_Suc b split: Option.bind_splits)
qed

lemma vic_irq_handler_lines:
  "vic_irq_handler code pend1 pend2 s = run_lines code (pending 32 0 pend1 @ pending 32 32 pend2) s"
  by (simp add: vic_irq_handler_def vic_dispatch_lines run_lines_append)

end
