(* ===== verification/Xinu_Clock.thy ===== *)
theory Xinu_Clock
  imports Xinu_Sched Xinu_Vic
begin

text \<open>
  The real-time clock: \<^verbatim>\<open>system/sleep.c\<close>, \<^verbatim>\<open>unsleep.c\<close>, \<^verbatim>\<open>wakeup.c\<close> and
  \<^verbatim>\<open>clkhandler.c\<close>. Sleeping threads are in a delta list: the key of a thread is the
  number of ticks after its predecessor. The lemmas relate the keys to the ticks that
  remain for every sleeping thread.
\<close>

section \<open>The operations\<close>

text \<open>\<^verbatim>\<open>ms * CLKTICKS_PER_SEC\<close> is computed in 32 bits; the quotient fits an \<^verbatim>\<open>int\<close>.\<close>

definition sleep_ticks :: "u32 \<Rightarrow> int" where
  "sleep_ticks ms = uint ((ms * CLKTICKS_PER_SEC) div 1000)"

definition sleep :: "u32 \<Rightarrow> kernel \<Rightarrow> (int \<times> kernel) option" where
  "sleep ms s = do {
     let ticks = sleep_ticks ms;
     let me = thrcurrent s;
     let (im, s) = disable s;
     if ticks > 0
     then do {
       (r, s) \<leftarrow> insertd (thrcurrent s) (sleepq s) ticks s;
       if r = SYSERR then Some (SYSERR, restore im s)
       else do {
         s \<leftarrow> twr (thrcurrent s) (tstate_update (\<lambda>_. THRSLEEP)) s;
         (_, s) \<leftarrow> resched s;
         Some (OK, ret_restore me im s)
       }
     }
     else do {
       (_, s) \<leftarrow> resched s;
       Some (OK, ret_restore me im s)
     }
   }"

text \<open>The thread behind inherits the key, so that its time does not change.\<close>

definition unsleep_pass :: "tid_typ \<Rightarrow> kernel \<Rightarrow> kernel option" where
  "unsleep_pass tid s = do {
     e \<leftarrow> qrd tid s;
     let nxt = qnext e;
     if nxt < NTHREAD
     then do {
       n \<leftarrow> qrd nxt s;
       k \<leftarrow> ck (qkey n + qkey e);
       qwr nxt (qkey_update (\<lambda>_. k)) s
     }
     else Some s
   }"

definition unsleep :: "tid_typ \<Rightarrow> kernel \<Rightarrow> (int \<times> kernel) option" where
  "unsleep tid s = do {
     let (im, s) = disable s;
     if isbadtid tid s then Some (SYSERR, restore im s)
     else if tstate (thrtab s tid) \<noteq> THRSLEEP \<and> tstate (thrtab s tid) \<noteq> THRTMOUT
     then Some (SYSERR, restore im s)
     else do {
       s \<leftarrow> unsleep_pass tid s;
       (_, s) \<leftarrow> getitem tid s;
       Some (OK, restore im s)
     }
   }"

partial_function (option) wakeup :: "kernel \<Rightarrow> kernel option" where
  "wakeup s = do {
     b \<leftarrow> nonempty (sleepq s) s;
     if b then do {
       k \<leftarrow> firstkey (sleepq s) s;
       if k \<le> 0 then do {
         (tid, s) \<leftarrow> dequeue (sleepq s) s;
         (_, s) \<leftarrow> ready tid False s;
         wakeup s
       }
       else Some s
     }
     else Some s
   }"

text \<open>Counting down the first key and waking the threads that are due.\<close>

definition tick_queue :: "kernel \<Rightarrow> kernel option" where
  "tick_queue s = do {
     b \<leftarrow> nonempty (sleepq s) s;
     if b then do {
       h \<leftarrow> firstid (sleepq s) s;
       e \<leftarrow> qrd h s;
       k \<leftarrow> ck (qkey e - 1);
       s \<leftarrow> qwr h (qkey_update (\<lambda>_. k)) s;
       if k \<le> 0 then wakeup s else Some s
     }
     else Some s
   }"

definition clkhandler :: "kernel \<Rightarrow> kernel option" where
  "clkhandler s = do {
     s \<leftarrow> clkupdate (clkfreq s div CLKTICKS_PER_SEC) s;
     let s = s\<lparr>clkticks := clkticks s + 1\<rparr>;
     let s = (if clkticks s \<ge> CLKTICKS_PER_SEC then s\<lparr>clktime := clktime s + 1, clkticks := 0\<rparr> else s);
     s \<leftarrow> tick_queue s;
     (_, s) \<leftarrow> resched s;
     Some s
   }"

section \<open>Ticks that remain\<close>

text \<open>
  The sleeping threads with their keys, and with the ticks until they are to wake. One
  tick takes one from the first key and releases the threads at the front whose keys
  are then not positive.
\<close>

definition sleepers :: "kernel \<Rightarrow> (tid_typ \<times> int) list" where
  "sleepers s = deltas (quetab s) (contents s (sleepq s))"

definition wake_times :: "kernel \<Rightarrow> (tid_typ \<times> int) list" where
  "wake_times s = dtimes 0 (sleepers s)"

fun count_down :: "(tid_typ \<times> int) list \<Rightarrow> (tid_typ \<times> int) list" where
  "count_down [] = []"
| "count_down ((t, d) # r) = (t, d - 1) # r"

definition woken :: "(tid_typ \<times> int) list \<Rightarrow> tid_typ list" where
  "woken ds = map fst (takeWhile (\<lambda>(t, d). d \<le> 0) (count_down ds))"

definition after_tick :: "(tid_typ \<times> int) list \<Rightarrow> (tid_typ \<times> int) list" where
  "after_tick ds = dropWhile (\<lambda>(t, d). d \<le> 0) (count_down ds)"

lemma dtimes_later:
  "\<forall>(u, d)\<in>set ds. 0 \<le> d \<Longrightarrow> filter (\<lambda>(u, w). c < w) (dtimes c ds) = dtimes c (dropWhile (\<lambda>(u, d). d \<le> 0) ds)"
proof (induction ds)
  case (Cons p ds)
  obtain u d where p: "p = (u, d)" by fastforce
  show ?case
  proof (cases "d \<le> 0")
    case True
    then show ?thesis using Cons p by auto
  next
    case False
    then have "\<forall>(v, w)\<in>set (dtimes (c + d) ds). c < w"
      using dtimes_ge [of ds] Cons.prems p by fastforce
    then show ?thesis using False p by (auto intro!: filter_True)
  qed
qed simp

lemma dtimes_now:
  "\<forall>(u, d)\<in>set ds. 0 \<le> d \<Longrightarrow>
   map fst (filter (\<lambda>(u, w). w \<le> c) (dtimes c ds)) = map fst (takeWhile (\<lambda>(u, d). d \<le> 0) ds)"
proof (induction ds)
  case (Cons p ds)
  obtain u d where p: "p = (u, d)" by fastforce
  show ?case
  proof (cases "d \<le> 0")
    case True
    then show ?thesis using Cons p by auto
  next
    case False
    then have "\<forall>(v, w)\<in>set (dtimes (c + d) ds). c < w"
      using dtimes_ge [of ds] Cons.prems p by fastforce
    then show ?thesis using False p by (auto simp: filter_empty_conv)
  qed
qed simp

text \<open>If no thread is due already, one tick is one tick for everyone.\<close>

lemma after_tick_times:
  assumes "\<forall>(u, d)\<in>set ds. 0 \<le> d" and "\<forall>(u, w)\<in>set (dtimes 0 ds). 0 < w"
  shows "dtimes 0 (after_tick ds) = map (\<lambda>(u, w). (u, w - 1)) (filter (\<lambda>(u, w). 1 < w) (dtimes 0 ds))"
    and "woken ds = map fst (filter (\<lambda>(u, w). w \<le> 1) (dtimes 0 ds))"
proof (atomize (full), cases ds)
  case (Cons p r)
  obtain t d where p: "p = (t, d)" by fastforce
  have d: "1 \<le> d" and r: "\<forall>(u, d)\<in>set r. 0 \<le> d" using assms Cons p by auto
  have sh: "map (\<lambda>(u, w). (u, w - 1)) (dtimes c r) = dtimes (c - 1) r" for c
    using dtimes_shift [of c "-1" r] by simp
  show "dtimes 0 (after_tick ds) = map (\<lambda>(u, w). (u, w - 1)) (filter (\<lambda>(u, w). 1 < w) (dtimes 0 ds))
      \<and> woken ds = map fst (filter (\<lambda>(u, w). w \<le> 1) (dtimes 0 ds))"
  proof (cases "d = 1")
    case True
    have "map (\<lambda>(u, w). (u, w - 1)) (filter (\<lambda>(u, w). 1 < w) (dtimes 1 r)) = dtimes 0 (dropWhile (\<lambda>(u, d). d \<le> 0) r)"
      unfolding dtimes_later [OF r] using dtimes_shift [of 1 "-1" "dropWhile (\<lambda>(u, d). d \<le> 0) r"] by simp
    then show ?thesis using True Cons p dtimes_now [OF r, of 1] by (simp add: after_tick_def woken_def)
  next
    case False
    then have "\<forall>(u, w)\<in>set (dtimes d r). 1 < w" using dtimes_ge [OF r] d by fastforce
    then have "filter (\<lambda>(u, w). 1 < w) (dtimes d r) = dtimes d r" "filter (\<lambda>(u, w). w \<le> 1) (dtimes d r) = []"
      by (auto intro!: filter_True filter_False)
    then show ?thesis using False d Cons p sh by (simp add: after_tick_def woken_def)
  qed
qed (simp add: after_tick_def woken_def)

text \<open>
  A thread that is due already, as \<^verbatim>\<open>recvtime(0)\<close> makes one, stands first in the list with the key 0. The next
  tick is then spent on it: it wakes those that are due and counts for nobody else.
\<close>

lemma after_tick_due:
  assumes n: "\<forall>(u, d)\<in>set ds. 0 \<le> d" and z: "0 \<in> snd ` set (dtimes 0 ds)"
  shows "dtimes 0 (after_tick ds) = filter (\<lambda>(u, w). 0 < w) (dtimes 0 ds)"
    and "woken ds = map fst (filter (\<lambda>(u, w). w \<le> 0) (dtimes 0 ds))"
proof (atomize (full), cases ds)
  case (Cons p r)
  obtain t d where p: "p = (t, d)" by fastforce
  have d: "0 \<le> d" and r: "\<forall>(u, d)\<in>set r. 0 \<le> d" using n Cons p by auto
  have "d = 0" using z dtimes_ge [OF r, where c = d] d unfolding Cons p by force
  then show "dtimes 0 (after_tick ds) = filter (\<lambda>(u, w). 0 < w) (dtimes 0 ds) \<and> woken ds = map fst (filter (\<lambda>(u, w). w \<le> 0) (dtimes 0 ds))"
    using Cons p dtimes_later [OF r, of 0] dtimes_now [OF r, of 0] by (simp add: after_tick_def woken_def)
qed (use z in simp)

text \<open>What a tick counts for the threads that go on sleeping, and the ticks that remain after it.\<close>

definition tick_len :: "kernel \<Rightarrow> int" where
  "tick_len s = (if 0 \<in> snd ` set (wake_times s) then 0 else 1)"

lemma tick_times:
  assumes n: "\<forall>(u, d)\<in>set (sleepers s). 0 \<le> d"
  shows "dtimes 0 (after_tick (sleepers s)) = map (\<lambda>(u, w). (u, w - tick_len s)) (filter (\<lambda>(u, w). tick_len s < w) (wake_times s))"
    and "woken (sleepers s) = map fst (filter (\<lambda>(u, w). w \<le> tick_len s) (wake_times s))"
proof (atomize (full), cases "0 \<in> snd ` set (wake_times s)")
  case True
  then show "dtimes 0 (after_tick (sleepers s)) = map (\<lambda>(u, w). (u, w - tick_len s)) (filter (\<lambda>(u, w). tick_len s < w) (wake_times s))
      \<and> woken (sleepers s) = map fst (filter (\<lambda>(u, w). w \<le> tick_len s) (wake_times s))"
    using after_tick_due [OF n True [unfolded wake_times_def]] by (simp add: wake_times_def tick_len_def split_def)
next
  case False
  have "0 < w" if "(u, w) \<in> set (wake_times s)" for u w
    using dtimes_ge [OF n, of u w 0] that False by (cases "w = 0") (auto simp: wake_times_def image_iff)
  then have "\<forall>(u, w)\<in>set (dtimes 0 (sleepers s)). 0 < w" by (auto simp: wake_times_def)
  from after_tick_times [OF n this] False
  show "dtimes 0 (after_tick (sleepers s)) = map (\<lambda>(u, w). (u, w - tick_len s)) (filter (\<lambda>(u, w). tick_len s < w) (wake_times s))
      \<and> woken (sleepers s) = map fst (filter (\<lambda>(u, w). w \<le> tick_len s) (wake_times s))"
    by (simp add: wake_times_def tick_len_def)
qed

text \<open>Taking a thread out leaves the remaining ticks of the others as they are.\<close>

fun ddelete :: "tid_typ \<Rightarrow> (tid_typ \<times> int) list \<Rightarrow> (tid_typ \<times> int) list" where
  "ddelete t [] = []"
| "ddelete t ((u, d) # r) = (if u = t then (case r of [] \<Rightarrow> [] | (v, e) # q \<Rightarrow> (v, e + d) # q)
     else (u, d) # ddelete t r)"

lemma ddelete_times:
  "distinct (map fst ds) \<Longrightarrow> dtimes c (ddelete t ds) = filter (\<lambda>(u, w). u \<noteq> t) (dtimes c ds)"
proof (induction t ds arbitrary: c rule: ddelete.induct)
  case (2 t u d r)
  show ?case
  proof (cases "u = t")
    case True
    have "t \<notin> fst ` set (dtimes (c + d) r)"
      using 2(2) True map_fst_dtimes [of "c + d" r] by (metis distinct.simps(2) fst_conv list.set_map list.simps(9))
    then have "filter (\<lambda>(u, w). u \<noteq> t) (dtimes (c + d) r) = dtimes (c + d) r"
      by (intro filter_True) (force)
    then show ?thesis using True by (auto simp: ac_simps split: list.split)
  next
    case False
    then show ?thesis using 2 by simp
  qed
qed simp

lemma ddelete_nonneg:
  "\<forall>(u, d)\<in>set ds. 0 \<le> d \<Longrightarrow> \<forall>(u, d)\<in>set (ddelete t ds). 0 \<le> (d :: int)"
  by (induction t ds rule: ddelete.induct) (auto split: list.splits)

lemma ddelete_sum:
  "\<forall>(u, d)\<in>set ds. 0 \<le> d \<Longrightarrow> sum_list (map snd (ddelete t ds)) \<le> sum_list (map snd (ds :: (tid_typ \<times> int) list))"
  by (induction t ds rule: ddelete.induct) (auto split: list.splits)

lemma ddelete_split:
  "t \<notin> set (map fst xs) \<Longrightarrow> ddelete t (xs @ (t, d) # ys)
     = xs @ (case ys of [] \<Rightarrow> [] | (v, e) # q \<Rightarrow> (v, e + d) # q)"
  by (induction xs) auto

lemma sleep_invD:
  assumes "rest_inv s"
  shows "\<forall>(t, d)\<in>set (sleepers s). 0 \<le> d" and "sum_list (map snd (sleepers s)) \<le> MAXKEY"
  using assms by (auto simp: rest_inv_def sleep_inv_def sleepers_def Let_def)

lemma sleep_keys:
  assumes "rest_inv s" and "t \<in> set (contents s (sleepq s))"
  shows "0 \<le> qkey (quetab s t)" and "qkey (quetab s t) \<le> MAXKEY"
proof -
  have m: "(t, qkey (quetab s t)) \<in> set (sleepers s)" using assms(2) by (simp add: sleepers_def deltas_def)
  then show "0 \<le> qkey (quetab s t)" using sleep_invD(1) [OF assms(1)] by auto
  have "qkey (quetab s t) \<in> set (map snd (sleepers s))" using m by force
  then have "qkey (quetab s t) \<le> sum_list (map snd (sleepers s))"
    using sleep_invD(1) [OF assms(1)] by (intro member_le_sum_list) auto
  then show "qkey (quetab s t) \<le> MAXKEY" using sleep_invD(2) [OF assms(1)] by simp
qed

lemma sleep_member_state:
  assumes "kmid X s" and "t \<in> set (contents s (sleepq s))"
  shows "tstate (thrtab s t) \<in> {THRSLEEP, THRTMOUT}" and "is_tid t"
proof -
  have h: "is_tid t" "qhome s t = Some (sleepq s)"
    using queue_inv_mem [OF kpreD(1) [OF assms(1)], of "sleepq s" t] assms(2) by simp_all
  then show "is_tid t" by simp
  have "tstate (thrtab s t) = THRWAIT \<longrightarrow> tsem (thrtab s t) < NSEM"
    using kpreD(2) [OF assms(1)] h(1) by (simp add: thread_inv_def)
  then show "tstate (thrtab s t) \<in> {THRSLEEP, THRTMOUT}"
    using h(2) rest_invD(1) [OF kpreD(4) [OF assms(1)]]
    by (auto simp: qhome_def layout_inv_def split: thrstate.splits)
qed

text \<open>Rebuilding the last part of the invariant after a change of the sleep queue.\<close>

lemma rest_inv_tick:
  assumes r: "rest_inv s" and g: "readylist s' = readylist s" "sleepq s' = sleepq s" "semtab s' = semtab s"
      "resdefer s' = resdefer s"
    and c: "\<And>q. q \<in> qheads s \<Longrightarrow> q \<noteq> sleepq s \<Longrightarrow> q \<noteq> readylist s \<Longrightarrow> contents s' q = contents s q"
    and d: "\<forall>(t, d)\<in>set (sleepers s'). 0 \<le> d" "sum_list (map snd (sleepers s')) \<le> MAXKEY"
  shows "rest_inv s'"
proof -
  have "contents s' (squeue (semtab s i)) = contents s (squeue (semtab s i))" if "i < NSEM" for i
    using rest_invD(1) [OF r] that by (intro c) (auto simp: layout_inv_def qheads_def)
  then show ?thesis
    using r g d by (simp add: rest_inv_def layout_inv_def sem_inv_def sem_ok_def sleep_inv_def sleepers_def)
qed

text \<open>Rescheduling does not touch the sleep queue.\<close>

lemma dispatched_sleepers:
  assumes "kpre s" and "dispatched s s'"
  shows "sleepers s' = sleepers s"
proof -
  have l: "sleepq s \<noteq> readylist s" using rest_invD(1) [OF kpreD(4) [OF assms(1)]] by (auto simp: layout_inv_def)
  have c: "contents s' (sleepq s) = contents s (sleepq s)" using assms(2) l by (simp add: dispatched_def)
  have "qkey (quetab s' t) = qkey (quetab s t)" if "t \<in> set (contents s (sleepq s))" for t
    by (rule dispatched_key [OF assms(2)]) (use sleep_member_state(1) [OF assms(1) that] in auto)
  then show ?thesis using c by (simp add: sleepers_def dispatched_globals(3) [OF assms(2)] deltas_def)
qed

lemma made_ready_sleepers:
  assumes "kmid X s" and "t \<in> X" and "made_ready t s s'"
  shows "sleepers s' = sleepers s"
proof -
  have l: "sleepq s \<noteq> readylist s" using rest_invD(1) [OF kpreD(4) [OF assms(1)]] by (auto simp: layout_inv_def)
  have "t \<notin> set (contents s (sleepq s))" by (rule queue_inv_fresh [OF kpreD(1) [OF assms(1)] assms(2)]) simp
  then show ?thesis
    using assms(3) l made_ready_globals(6) [OF assms(3)] by (auto simp: sleepers_def made_ready_def deltas_def)
qed

section \<open>Going to sleep\<close>

lemma sleep_block:
  assumes k: "kinv s" and n: "thrcurrent s \<noteq> NULLTHREAD" and w: "0 \<le> w" "w \<le> MAXKEY"
    and st: "st \<in> {THRSLEEP, THRTMOUT}" and c: "c = thrcurrent s"
    and e: "e = (thrtab s c)\<lparr>tstate := st\<rparr>"
  shows "\<exists>qt d. insertd c (sleepq s) w s = Some (OK, s\<lparr>quetab := qt\<rparr>)
     \<and> d = s\<lparr>quetab := qt, thrtab := (thrtab s)(c := e)\<rparr> \<and> kpre d
     \<and> sleepers d = dinsert c w (sleepers s)
     \<and> (\<forall>q\<in>qheads s. q \<noteq> sleepq s \<longrightarrow> contents d q = contents s q)"
proof -
  note k0 = kinvD(1) [OF k]
  note q = kpreD(1) [OF k0] and rst = kpreD(4) [OF k0]
  have ct: "is_tid c" and cs: "tstate (thrtab s c) = THRCURR"
    using kpreD(2) [OF k0] kinvD(2) [OF k] by (auto simp: thread_inv_def c)
  have qc: "queue_inv {c} s" using q cs by (simp add: queue_inv_park qhome_state)
  have "\<forall>x\<in>set (contents s (sleepq s)). 0 \<le> qkey (quetab s x) \<and> qkey (quetab s x) \<le> MAXKEY"
    using sleep_keys [OF rst] by blast
  moreover have "\<not> isbadtid c s" using ct cs by (simp add: isbadtid_def)
  ultimately obtain qt B where i: "insertd c (sleepq s) w s = Some (OK, s\<lparr>quetab := qt\<rparr>)"
    and qs: "qsys (qheads s) qt ((queue_of (quetab s))(sleepq s := B))"
    and dl: "deltas qt B = dinsert c w (sleepers s)"
    and ky: "\<forall>i. i \<notin> set B \<longrightarrow> qkey (qt i) = qkey (quetab s i)"
    using insertd_spec [OF queue_invD(1) [OF q], of "sleepq s" c w] queue_inv_fresh [OF qc] w
    by (auto simp: sleepers_def)
  define d where "d = s\<lparr>quetab := qt, thrtab := (thrtab s)(c := e)\<rparr>"
  have B: "set B = insert c (set (contents s (sleepq s)))"
    using arg_cong [OF dl, of "\<lambda>ds. set_mset (mset (map fst ds))"]
    by (simp only: dinsert_fst) (simp add: sleepers_def deltas_def comp_def)
  have "queue_inv ({c} - {c}) ((s\<lparr>thrtab := (thrtab s)(c := e)\<rparr>)\<lparr>quetab := qt\<rparr>)"
    by (rule queue_inv_put [OF queue_inv_entry [OF qc] _ ct, where q = "sleepq s" and B = B])
      (use st qs B in \<open>auto simp: e qhome_def\<close>)
  then have qd: "queue_inv {} d" by (simp add: d_def)
  have dc: "contents d r = ((queue_of (quetab s))(sleepq s := B)) r" if "r \<in> qheads s" for r
    using qsysD(5) [OF qs that] by (simp add: d_def)
  have sd: "sleepers d = dinsert c w (sleepers s)" using dc [of "sleepq s"] dl by (simp add: sleepers_def d_def)
  have "thread_inv (s\<lparr>thrtab := (thrtab s)(c := e)\<rparr>)"
    by (rule thread_inv_block) (use kpreD(2) [OF k0] n c ct st in \<open>auto simp: thread_inv_def e\<close>)
  then have "thread_inv d" by (rule thread_inv_cong) (simp_all add: d_def)
  moreover have l: "readylist s \<noteq> sleepq s" using rest_invD(1) [OF rst] by (simp add: layout_inv_def)
  have "t \<notin> set B" if "t \<in> set (contents s (readylist s))" for t
    using that B queue_inv_fresh [OF qc] queue_inv_disjoint [OF q _ _ l that] by auto
  then have "ready_inv d"
    by (intro ready_inv_cong [OF kpreD(3) [OF k0]]) (use dc [of "readylist s"] l ky in \<open>simp_all add: d_def\<close>)
  moreover have "rest_inv d"
  proof (rule rest_inv_tick [OF rst])
    show "\<forall>(t, d)\<in>set (sleepers d). 0 \<le> d"
      unfolding sd by (rule dinsert_nonneg [OF w(1) sleep_invD(1) [OF rst]])
    show "sum_list (map snd (sleepers d)) \<le> MAXKEY"
      unfolding sd using dinsert_sum [OF w(1) sleep_invD(1) [OF rst]] sleep_invD(2) [OF rst] w(2) by simp
    show "contents d q = contents s q" if "q \<in> qheads s" "q \<noteq> sleepq s" for q
      using dc [OF that(1)] that(2) by simp
  qed (simp_all add: d_def)
  ultimately have "kpre d" using qd by (simp add: kmid_def)
  then show ?thesis using i dc sd d_def by (intro exI [of _ qt] exI [of _ d]) simp
qed

lemma sleep_zero:
  assumes "kinv s" and "sleep_ticks ms \<le> 0"
  shows "\<exists>s'. sleep ms s = Some (OK, s') \<and> kinv s' \<and> dispatched s s'"
proof -
  have "kpre (s\<lparr>imask := (imask s)\<lparr>irqen := 0x80\<rparr>\<rparr>)" using kinvD(1) [OF assms(1)] by simp
  from resched_spec [OF this] assms(2) show ?thesis by (auto simp: sleep_def irq_simps Let_def)
qed

lemma sleep_ticks_bound: "0 \<le> sleep_ticks ms \<and> sleep_ticks ms \<le> 4294967"
proof -
  have "0 \<le> x div 1000 \<and> x div 1000 \<le> 4294967" if "0 \<le> x" "x < 4294967296" for x :: int
    using that zdiv_mono1 [of x 4294967295 1000] by (simp add: pos_imp_zdiv_nonneg_iff)
  then show ?thesis using uint_lt2p [of "ms * 10"] by (simp add: sleep_ticks_def uint_div)
qed

text \<open>The calling thread loses the processor and is due after the given ticks.\<close>

lemma sleep_spec:
  assumes k: "kinv s" and n: "thrcurrent s \<noteq> NULLTHREAD" and t: "0 < sleep_ticks ms"
  shows "\<exists>s'. sleep ms s = Some (OK, s') \<and> kinv s' \<and> thrcurrent s' \<noteq> thrcurrent s
     \<and> tstate (thrtab s' (thrcurrent s)) = THRSLEEP
     \<and> sleepers s' = dinsert (thrcurrent s) (sleep_ticks ms) (sleepers s)"
proof -
  define z where "z = s\<lparr>imask := (imask s)\<lparr>irqen := 0x80\<rparr>\<rparr>"
  define c where "c = thrcurrent s"
  have kz: "kinv z" using k by (simp add: z_def)
  have z: "thrcurrent z = c" "thrtab z = thrtab s" "sleepq z = sleepq s" "sleepers z = sleepers s"
    by (simp_all add: z_def sleepers_def c_def)
  obtain qt d where i: "insertd c (sleepq s) (sleep_ticks ms) z = Some (OK, z\<lparr>quetab := qt\<rparr>)"
    and d: "d = z\<lparr>quetab := qt, thrtab := (thrtab s)(c := (thrtab s c)\<lparr>tstate := THRSLEEP\<rparr>)\<rparr>"
    and kd: "kpre d" and sd: "sleepers d = dinsert c (sleep_ticks ms) (sleepers s)"
    using sleep_block [OF kz _ _ _ _ refl refl, of "sleep_ticks ms" THRSLEEP] n t sleep_ticks_bound [of ms]
    unfolding z c_def by auto
  obtain s' where r: "resched d = Some (OK, s')" and v: "kinv s'" "dispatched d s'"
    using resched_spec [OF kd] by blast
  have ne: "thrcurrent s' \<noteq> c" using dispatched_other [OF kd v(2)] z by (simp add: d)
  have "is_tid c" using kpreD(2) [OF kinvD(1) [OF k]] by (simp add: thread_inv_def c_def)
  then have "sleep ms s = Some (OK, s')"
    using i r t ne z by (simp add: sleep_def irq_simps Let_def twr_def d c_def z_def)
  moreover have "tstate (thrtab s' c) = THRSLEEP" using v(2) ne z by (simp add: dispatched_def d)
  moreover have "sleepers s' = sleepers d" by (rule dispatched_sleepers [OF kd v(2)])
  ultimately show ?thesis using v(1) ne sd by (auto simp: c_def)
qed

section \<open>Leaving the sleep queue\<close>

lemma queue_inv_keys:
  assumes "queue_inv X s" and "\<And>i. qnext (qt i) = qnext (quetab s i) \<and> qprev (qt i) = qprev (quetab s i)"
    and "\<And>i. NTHREAD \<le> i \<Longrightarrow> qkey (qt i) = qkey (quetab s i)"
  shows "queue_inv X (s\<lparr>quetab := qt\<rparr>)" and "q \<in> qheads s \<Longrightarrow> queue_of qt q = contents s q"
proof -
  have qs: "qsys (qheads s) qt (queue_of (quetab s))"
    by (rule qsys_keys [OF queue_invD(1) [OF assms(1)] assms(2,3)])
  then show c: "queue_of qt q = contents s q" if "q \<in> qheads s" for q by (rule qsysD(5)) (rule that)
  show "queue_inv X (s\<lparr>quetab := qt\<rparr>)"
    using assms(1) qsys_queue_of [OF qs] c by (simp add: queue_inv_def)
qed

text \<open>The key that \<^verbatim>\<open>unsleep\<close> passes on to the next thread.\<close>

definition pass_key :: "tid_typ \<Rightarrow> tid_typ list \<Rightarrow> (int \<Rightarrow> queent) \<Rightarrow> int \<Rightarrow> queent" where
  "pass_key t ys qt = (case ys of [] \<Rightarrow> qt
     | y # _ \<Rightarrow> qt(y := (qt y)\<lparr>qkey := qkey (qt y) + qkey (qt t)\<rparr>))"

lemma pass_key_links:
  "qnext (pass_key t ys qt i) = qnext (qt i) \<and> qprev (pass_key t ys qt i) = qprev (qt i)"
  by (simp add: pass_key_def split: list.split)

lemma pass_key_deltas:
  assumes "distinct (xs @ t # ys)" and "\<forall>i. qkey (qt' i) = qkey (pass_key t ys qt i)"
  shows "deltas qt' (xs @ ys) = ddelete t (deltas qt (xs @ t # ys))"
  using assms by (cases ys) (auto simp: deltas_def pass_key_def ddelete_split comp_def intro!: map_cong)

lemma unsleep_pass_spec:
  assumes k: "kmid X s" and A: "contents s (sleepq s) = xs @ t # ys" and z: "quetab z = quetab s"
  shows "unsleep_pass t z = Some (z\<lparr>quetab := pass_key t ys (quetab s)\<rparr>)"
proof -
  note qs = queue_invD(1) [OF kpreD(1) [OF k]] and rst = kpreD(4) [OF k]
  have t: "t \<in> set (contents s (sleepq s))" using A by simp
  have n: "qnext (quetab s t) = hd (ys @ [sleepq s + 1])"
    using qsys_split(1) [OF qs, of "sleepq s" "xs @ [t]" ys] A by simp
  have tr: "is_tid t" by (rule qsys_thread_range [OF qs _ t]) simp
  show ?thesis
  proof (cases ys)
    case Nil
    then show ?thesis using n tr qsysD(2) [OF qs, of "sleepq s"]
      by (simp add: unsleep_pass_def qrd_def z pass_key_def)
  next
    case (Cons y r)
    then have y: "y \<in> set (contents s (sleepq s))" using A by simp
    have yr: "is_tid y" by (rule qsys_thread_range [OF qs _ y]) simp
    have "distinct (xs @ t # ys)" using qsysD(1) [OF qs, of "sleepq s"] A by (simp add: isq_def)
    then have "(y, qkey (quetab s y) + qkey (quetab s t)) \<in> set (ddelete t (sleepers s))"
      using A Cons by (simp add: sleepers_def deltas_def ddelete_split comp_def)
    moreover note nn = ddelete_nonneg [OF sleep_invD(1) [OF rst], of t]
    ultimately have "qkey (quetab s y) + qkey (quetab s t) \<le> sum_list (map snd (ddelete t (sleepers s)))"
      by (intro member_le_sum_list) (force, fastforce)
    then have "qkey (quetab s y) + qkey (quetab s t) \<le> MAXKEY"
      using ddelete_sum [OF sleep_invD(1) [OF rst], of t] sleep_invD(2) [OF rst] by linarith
    then show ?thesis using n Cons yr tr sleep_keys(1) [OF rst t] sleep_keys(1) [OF rst y]
      by (simp add: unsleep_pass_def qrd_def z pass_key_def qwr_def)
  qed
qed

lemma k_unsleep:
  assumes k: "kmid X s" and t: "is_tid t" "t \<notin> X" and st: "tstate (thrtab s t) \<in> {THRSLEEP, THRTMOUT}"
  shows "\<exists>qt. unsleep t s = Some (OK, s\<lparr>quetab := qt, imask := norm_mask (imask s)\<rparr>)
     \<and> queue_inv (insert t X) (s\<lparr>quetab := qt\<rparr>)
     \<and> sleepers (s\<lparr>quetab := qt\<rparr>) = ddelete t (sleepers s)
     \<and> (\<forall>q\<in>qheads s. q \<noteq> sleepq s \<longrightarrow> queue_of qt q = contents s q)
     \<and> (\<forall>i. i \<notin> set (contents s (sleepq s)) \<longrightarrow> qkey (qt i) = qkey (quetab s i))"
proof -
  define z where "z = s\<lparr>imask := (imask s)\<lparr>irqen := 0x80\<rparr>\<rparr>"
  note q = kpreD(1) [OF k] and rst = kpreD(4) [OF k]
  have z: "quetab z = quetab s" "thrtab z = thrtab s" "qheads z = qheads s" "sleepq z = sleepq s"
    and qz: "queue_inv X z" using q by (simp_all add: z_def)
  have h: "qhome z t = Some (sleepq s)" using qhome_state(2) [OF st] by (simp add: z_def)
  then have "t \<in> set (contents s (sleepq s))"
    using queue_inv_mem [OF qz, of "sleepq s" t] t z by simp
  then obtain xs ys where A: "contents s (sleepq s) = xs @ t # ys" by (meson split_list)
  define qt1 where "qt1 = pass_key t ys (quetab s)"
  have dis: "distinct (xs @ t # ys)" and rng: "set (xs @ t # ys) \<subseteq> {0..<NTHREAD}"
    using qsysD(1) [OF queue_invD(1) [OF q], of "sleepq s"] A by (simp_all add: isq_def)
  have dl: "deltas qt' (xs @ ys) = ddelete t (sleepers s)" if "\<forall>i. qkey (qt' i) = qkey (qt1 i)" for qt'
    using pass_key_deltas [OF dis, of qt' "quetab s"] that by (simp add: sleepers_def A qt1_def)
  have hi: "qkey (qt1 i) = qkey (quetab s i)" if "NTHREAD \<le> i" for i
    using that rng by (auto simp: qt1_def pass_key_def split: list.split)
  have q1: "queue_inv X (z\<lparr>quetab := qt1\<rparr>)" "\<And>q. q \<in> qheads s \<Longrightarrow> queue_of qt1 q = contents s q"
    using queue_inv_keys [OF qz, of qt1] pass_key_links [of t ys "quetab s"] hi z by (simp_all add: qt1_def)
  define w where "w = z\<lparr>quetab := qt1\<rparr>"
  have w: "quetab w = qt1" "qheads w = qheads s" "contents w (sleepq s) = xs @ t # ys"
    using q1(2) [of "sleepq s"] A by (simp_all add: w_def z)
  obtain qt where g: "getitem t w = Some (t, w\<lparr>quetab := qt\<rparr>)"
    and qs: "qsys (qheads w) qt ((queue_of (quetab w))(sleepq s := xs @ ys))" and ky: "\<forall>i. qkey (qt i) = qkey (qt1 i)"
    using getitem_spec [OF queue_invD(1) [OF q1(1) [folded w_def]], of "sleepq s" xs t ys] w by auto
  have "queue_inv (insert t X) (w\<lparr>quetab := qt\<rparr>)"
    by (rule queue_inv_take [OF q1(1) [folded w_def] _ _ qs]) (use w dis in auto)
  then have qi: "queue_inv (insert t X) (s\<lparr>quetab := qt\<rparr>)" by (simp add: w_def z_def)
  have c: "queue_of qt r = (if r = sleepq s then xs @ ys else contents s r)" if "r \<in> qheads s" for r
    using qsysD(5) [OF qs, of r] that q1(2) [OF that] by (simp add: w)
  have "sleepers (s\<lparr>quetab := qt\<rparr>) = ddelete t (sleepers s)"
    using c [of "sleepq s"] dl [OF ky] by (simp add: sleepers_def)
  moreover have "qkey (qt i) = qkey (quetab s i)" if "i \<notin> set (contents s (sleepq s))" for i
    using that ky A by (auto simp: qt1_def pass_key_def split: list.split)
  moreover have wz: "w\<lparr>quetab := qt, imask := norm_mask (imask s)\<rparr> = s\<lparr>quetab := qt, imask := norm_mask (imask s)\<rparr>"
    by (simp add: w_def z_def)
  have "unsleep t s = Some (OK, s\<lparr>quetab := qt, imask := norm_mask (imask s)\<rparr>)"
    using unsleep_pass_spec [OF k A z(1), folded qt1_def] g st t wz
    by (auto simp: unsleep_def disable_eq restore_eq isbadtid_def z_def [symmetric] w_def [symmetric] z)
  ultimately show ?thesis using qi c by (intro exI [of _ qt]) simp
qed

lemma kmid_unsleep:
  assumes k: "kmid X s" and q: "queue_inv (insert t X) (s\<lparr>quetab := qt\<rparr>)"
    and sl: "sleepers (s\<lparr>quetab := qt\<rparr>) = ddelete t (sleepers s)"
    and c: "\<forall>q\<in>qheads s. q \<noteq> sleepq s \<longrightarrow> queue_of qt q = contents s q"
    and ky: "\<forall>i. i \<notin> set (contents s (sleepq s)) \<longrightarrow> qkey (qt i) = qkey (quetab s i)"
  shows "kmid (insert t X) (s\<lparr>quetab := qt\<rparr>)"
proof -
  note rst = kpreD(4) [OF k]
  have l: "readylist s \<noteq> sleepq s" using rest_invD(1) [OF rst] by (simp add: layout_inv_def)
  have "thread_inv (s\<lparr>quetab := qt\<rparr>)" by (rule thread_inv_cong [OF kpreD(2) [OF k]]) simp_all
  moreover have "qkey (qt i) = qkey (quetab s i)" if "i \<in> set (contents s (readylist s))" for i
    using ky queue_inv_disjoint [OF kpreD(1) [OF k] _ _ l that] by simp
  then have "ready_inv (s\<lparr>quetab := qt\<rparr>)"
    by (intro ready_inv_cong [OF kpreD(3) [OF k]]) (use c l in simp_all)
  moreover have "rest_inv (s\<lparr>quetab := qt\<rparr>)"
  proof (rule rest_inv_tick [OF rst])
    show "\<forall>(t, d)\<in>set (sleepers (s\<lparr>quetab := qt\<rparr>)). 0 \<le> d"
      unfolding sl by (rule ddelete_nonneg [OF sleep_invD(1) [OF rst]])
    show "sum_list (map snd (sleepers (s\<lparr>quetab := qt\<rparr>))) \<le> MAXKEY"
      unfolding sl using ddelete_sum [OF sleep_invD(1) [OF rst], of t] sleep_invD(2) [OF rst] by linarith
  qed (use c in simp_all)
  ultimately show ?thesis using q by (simp add: kmid_def)
qed

section \<open>The clock tick\<close>

lemma firstid_qsys:
  "qsys H (quetab s) A \<Longrightarrow> q \<in> H \<Longrightarrow> A q \<noteq> [] \<Longrightarrow> firstid q s = Some (hd (A q))"
  using qsysD [of H "quetab s" A q] qsys_first [of H "quetab s" A q] by (simp add: firstid_def qrd_def)

text \<open>\<^verbatim>\<open>wakeup\<close> makes ready the threads at the front whose keys are not positive.\<close>

lemma wakeup_spec:
  assumes "queue_inv {} s" and "thread_inv s" and "ready_inv s" and "readylist s \<noteq> sleepq s"
    and "contents s (sleepq s) = W" and "\<forall>t\<in>set W. tstate (thrtab s t) \<in> {THRSLEEP, THRTMOUT}"
    and "tstate (thrtab s (thrcurrent s)) = THRCURR"
  shows "\<exists>s'. wakeup s = Some s' \<and> queue_inv {} s' \<and> thread_inv s' \<and> ready_inv s'
     \<and> contents s' (sleepq s) = dropWhile (\<lambda>t. qkey (quetab s t) \<le> 0) W
     \<and> (\<forall>r\<in>qheads s. r \<noteq> sleepq s \<longrightarrow> r \<noteq> readylist s \<longrightarrow> contents s' r = contents s r)
     \<and> (\<forall>t. t \<notin> set (takeWhile (\<lambda>t. qkey (quetab s t) \<le> 0) W) \<longrightarrow> qkey (quetab s' t) = qkey (quetab s t))
     \<and> (\<forall>t. tstate (thrtab s' t) = (if t \<in> set (takeWhile (\<lambda>t. qkey (quetab s t) \<le> 0) W) then THRREADY
                                    else tstate (thrtab s t)))
     \<and> s' = s\<lparr>quetab := quetab s', thrtab := thrtab s'\<rparr>"
  using assms
proof (induction W arbitrary: s)
  case Nil
  have "nonempty (sleepq s) s = Some False"
    using nonempty_qsys [OF queue_invD(1) [OF Nil(1)], of "sleepq s"] Nil(5) by simp
  then have "wakeup s = Some s" by (subst wakeup.simps) simp
  then show ?case using Nil by simp
next
  case (Cons t W)
  note qs = queue_invD(1) [OF Cons(2)]
  have ne: "nonempty (sleepq s) s = Some True" "firstkey (sleepq s) s = Some (qkey (quetab s t))"
    using nonempty_qsys [OF qs, of "sleepq s"] firstkey_qsys [OF qs, of "sleepq s"] Cons(6) by simp_all
  show ?case
  proof (cases "qkey (quetab s t) \<le> 0")
    case False
    then have "wakeup s = Some s" using ne by (subst wakeup.simps) simp
    then show ?thesis using Cons(2-6) False by simp
  next
    case True
    have w: "tstate (thrtab s t) \<noteq> THRFREE" and tc: "t \<noteq> thrcurrent s" using Cons(7,8) by auto
    obtain s0 s1 where de: "dequeue (sleepq s) s = Some (t, s0)" "ready t False s0 = Some (OK, s1)"
      and i1: "queue_inv {} s1" "thread_inv s1" "ready_inv s1"
      and c2: "\<forall>r\<in>qheads s. r \<noteq> readylist s \<longrightarrow> contents s1 r = (if r = sleepq s then W else contents s r)"
      and k2: "\<forall>i. i \<noteq> t \<longrightarrow> qkey (quetab s1 i) = qkey (quetab s i)"
      and t2: "thrtab s1 = (thrtab s)(t := (thrtab s t)\<lparr>tstate := THRREADY\<rparr>)"
      and e2: "s1 = s\<lparr>quetab := quetab s1, thrtab := thrtab s1\<rparr>" and tW: "t \<notin> set W"
      using release_first [OF Cons(2-4) heads_in(2) Cons(5) [symmetric] Cons(6) w tc] by blast
    note g = upd_qt_globals [OF e2]
    have W: "\<forall>u\<in>set W. tstate (thrtab s1 u) \<in> {THRSLEEP, THRTMOUT}" using Cons(7) tW by (auto simp: t2)
    have kW: "qkey (quetab s1 u) = qkey (quetab s u)" if "u \<in> set W" for u using k2 tW that by auto
    have tw: "takeWhile (\<lambda>t. qkey (quetab s1 t) \<le> 0) W = takeWhile (\<lambda>t. qkey (quetab s t) \<le> 0) W"
      "dropWhile (\<lambda>t. qkey (quetab s1 t) \<le> 0) W = dropWhile (\<lambda>t. qkey (quetab s t) \<le> 0) W"
      using kW by (auto cong: takeWhile_cong dropWhile_cong)
    have c1: "contents s1 (sleepq s1) = W" using c2 Cons(5) g by simp
    from Cons.IH [OF i1 _ c1, unfolded tw] obtain s' where s': "wakeup s1 = Some s'" "queue_inv {} s'" "thread_inv s'"
        "ready_inv s'" "contents s' (sleepq s) = dropWhile (\<lambda>t. qkey (quetab s t) \<le> 0) W"
      and c3: "\<forall>r\<in>qheads s. r \<noteq> sleepq s \<longrightarrow> r \<noteq> readylist s \<longrightarrow> contents s' r = contents s1 r"
      and k3: "\<forall>t. t \<notin> set (takeWhile (\<lambda>t. qkey (quetab s t) \<le> 0) W) \<longrightarrow> qkey (quetab s' t) = qkey (quetab s1 t)"
      and t3: "\<forall>u. tstate (thrtab s' u) = (if u \<in> set (takeWhile (\<lambda>t. qkey (quetab s t) \<le> 0) W) then THRREADY
                else tstate (thrtab s1 u))"
      and e3: "s' = s1\<lparr>quetab := quetab s', thrtab := thrtab s'\<rparr>"
      using g Cons(5) W tc Cons(8) t2 by auto
    have "wakeup s = Some s'" using ne True de s'(1) by (subst wakeup.simps) simp
    moreover have "s' = s\<lparr>quetab := quetab s', thrtab := thrtab s'\<rparr>" using e2 e3 by (rule upd_qt_trans)
    ultimately show ?thesis using s' c2 c3 k2 k3 t3 t2 True by auto
  qed
qed

lemma after_tick_nonneg:
  assumes "\<forall>(u, d)\<in>set ds. 0 \<le> d"
  shows "\<forall>(u, d)\<in>set (after_tick ds). 0 \<le> d" and "sum_list (map snd (after_tick ds)) \<le> sum_list (map snd ds)"
proof -
  have s: "sum_list (map snd (dropWhile (\<lambda>(t, d). d \<le> 0) r)) \<le> sum_list (map snd r)"
    if "\<forall>(u, d)\<in>set r. 0 \<le> d" for r :: "(tid_typ \<times> int) list"
    using that by (induction r) auto
  show "\<forall>(u, d)\<in>set (after_tick ds). 0 \<le> d"
  proof (cases ds)
    case (Cons p r)
    then have r: "\<forall>x\<in>set r. 0 \<le> snd x" using assms by auto
    then have "\<forall>x\<in>set (dropWhile (\<lambda>(t, d). d \<le> 0) r). 0 \<le> snd x" by (meson set_dropWhileD)
    with r show ?thesis using Cons by (cases p) (auto simp: after_tick_def)
  qed (simp add: after_tick_def)
  show "sum_list (map snd (after_tick ds)) \<le> sum_list (map snd ds)"
  proof (cases ds)
    case (Cons p r)
    then show ?thesis using assms s [of r] by (cases p) (auto simp: after_tick_def)
  qed (simp add: after_tick_def)
qed

lemma takeWhile_deltas:
  "takeWhile (\<lambda>(t, d). d \<le> 0) (deltas qt xs) = deltas qt (takeWhile (\<lambda>t. qkey (qt t) \<le> 0) xs)"
  "dropWhile (\<lambda>(t, d). d \<le> 0) (deltas qt xs) = deltas qt (dropWhile (\<lambda>t. qkey (qt t) \<le> 0) xs)"
  by (simp_all add: deltas_def takeWhile_map dropWhile_map comp_def)

lemma tick_queue_wakeup:
  assumes k: "kinv s" and W: "contents s (sleepq s) = t # W"
    and s1: "s1 = s\<lparr>quetab := (quetab s)(t := (quetab s t)\<lparr>qkey := qkey (quetab s t) - 1\<rparr>)\<rparr>"
  shows "tick_queue s = wakeup s1" and "queue_inv {} s1" and "thread_inv s1" and "ready_inv s1"
    and "q \<in> qheads s \<Longrightarrow> contents s1 q = contents s q"
    and "deltas (quetab s1) (t # W) = count_down (sleepers s)"
proof -
  note k0 = kinvD(1) [OF k] and qs = queue_invD(1) [OF kpreD(1) [OF kinvD(1) [OF k]]]
  have t: "t \<in> set (contents s (sleepq s))" using W by simp
  have tr: "is_tid t" by (rule qsys_thread_range [OF qs _ t]) simp
  have q1: "queue_inv {} s1" and c1: "\<And>q. q \<in> qheads s \<Longrightarrow> contents s1 q = contents s q"
    using queue_inv_keys [OF kpreD(1) [OF k0], of "quetab s1"] tr by (simp_all add: s1)
  show "queue_inv {} s1" and "q \<in> qheads s \<Longrightarrow> contents s1 q = contents s q" using q1 c1 by simp_all
  show "thread_inv s1" by (rule thread_inv_cong [OF kpreD(2) [OF k0]]) (simp_all add: s1)
  have l: "sleepq s \<noteq> readylist s" using rest_invD(1) [OF kpreD(4) [OF k0]] by (auto simp: layout_inv_def)
  have "t \<notin> set (contents s (readylist s))"
    using queue_inv_disjoint [OF kpreD(1) [OF k0] _ _ l t] by simp
  then show "ready_inv s1"
    by (intro ready_inv_cong [OF kpreD(3) [OF k0]]) (use c1 [of "readylist s"] in \<open>auto simp: s1\<close>)
  have "t \<notin> set W" using qsysD(1) [OF qs, of "sleepq s"] W by (simp add: isq_def)
  then show "deltas (quetab s1) (t # W) = count_down (sleepers s)"
    by (auto simp: sleepers_def W deltas_def s1)
  have "wakeup s1 = Some s1" if "0 < qkey (quetab s1 t)"
    using that nonempty_qsys [OF queue_invD(1) [OF q1], of "sleepq s1"]
      firstkey_qsys [OF queue_invD(1) [OF q1], of "sleepq s1"] c1 [of "sleepq s"] W
    by (subst wakeup.simps) (simp add: s1)
  moreover have "0 \<le> qkey (quetab s t)" "qkey (quetab s t) \<le> MAXKEY"
    using sleep_keys [OF kpreD(4) [OF k0] t] by simp_all
  ultimately show "tick_queue s = wakeup s1"
    using nonempty_qsys [OF qs, of "sleepq s"] firstid_qsys [OF qs, of "sleepq s"] W tr
    by (auto simp: tick_queue_def qrd_def qwr_def s1)
qed

lemma tick_queue_spec:
  assumes k: "kinv s"
  shows "\<exists>s1. tick_queue s = Some s1 \<and> kinv s1 \<and> sleepers s1 = after_tick (sleepers s)
     \<and> (\<forall>t. tstate (thrtab s1 t) = (if t \<in> set (woken (sleepers s)) then THRREADY else tstate (thrtab s t)))
     \<and> s1 = s\<lparr>quetab := quetab s1, thrtab := thrtab s1\<rparr>"
proof (cases "contents s (sleepq s)")
  case Nil
  note qs = queue_invD(1) [OF kpreD(1) [OF kinvD(1) [OF k]]]
  have "tick_queue s = Some s"
    using nonempty_qsys [OF qs, of "sleepq s"] Nil by (simp add: tick_queue_def)
  then show ?thesis using k Nil by (simp add: sleepers_def deltas_def after_tick_def woken_def)
next
  case (Cons t W)
  note k0 = kinvD(1) [OF k]
  note rst = kpreD(4) [OF k0]
  define u where "u = s\<lparr>quetab := (quetab s)(t := (quetab s t)\<lparr>qkey := qkey (quetab s t) - 1\<rparr>)\<rparr>"
  note w = tick_queue_wakeup [OF k Cons u_def]
  have cu: "contents u (sleepq u) = t # W" using w(5) [of "sleepq s"] Cons by (simp add: u_def)
  have l: "readylist u \<noteq> sleepq u" using rest_invD(1) [OF rst] by (simp add: layout_inv_def u_def)
  have st: "\<forall>x\<in>set (t # W). tstate (thrtab u x) \<in> {THRSLEEP, THRTMOUT}"
    using sleep_member_state(1) [OF k0] Cons by (simp add: u_def)
  have cc: "tstate (thrtab u (thrcurrent u)) = THRCURR" using kinvD(2) [OF k] by (simp add: u_def)
  let ?P = "\<lambda>t. qkey (quetab u t) \<le> 0"
  obtain s1 where s1: "wakeup u = Some s1" "queue_inv {} s1" "thread_inv s1" "ready_inv s1"
      "contents s1 (sleepq u) = dropWhile ?P (t # W)"
    and c1: "\<forall>r\<in>qheads u. r \<noteq> sleepq u \<longrightarrow> r \<noteq> readylist u \<longrightarrow> contents s1 r = contents u r"
    and k1: "\<forall>x. x \<notin> set (takeWhile ?P (t # W)) \<longrightarrow> qkey (quetab s1 x) = qkey (quetab u x)"
    and t1: "\<forall>x. tstate (thrtab s1 x) = (if x \<in> set (takeWhile ?P (t # W)) then THRREADY else tstate (thrtab u x))"
    and e1: "s1 = u\<lparr>quetab := quetab s1, thrtab := thrtab s1\<rparr>"
    using wakeup_spec [OF w(2-4) l cu st cc] by blast
  note g = upd_qt_globals [OF e1]
  have "distinct (t # W)" using qsysD(1) [OF queue_invD(1) [OF kpreD(1) [OF k0]], of "sleepq s"] Cons by (simp add: isq_def)
  then have "set (takeWhile ?P (t # W)) \<inter> set (dropWhile ?P (t # W)) = {}"
    by (metis distinct_append takeWhile_dropWhile_id)
  then have "deltas (quetab s1) (dropWhile ?P (t # W)) = deltas (quetab u) (dropWhile ?P (t # W))"
    using k1 unfolding deltas_def by (intro map_cong) auto
  then have sl: "sleepers s1 = after_tick (sleepers s)"
    unfolding after_tick_def w(6) [symmetric] takeWhile_deltas using s1(5) g by (simp add: sleepers_def)
  have wk: "woken (sleepers s) = takeWhile ?P (t # W)"
    unfolding woken_def w(6) [symmetric] takeWhile_deltas by (simp add: deltas_def comp_def)
  have "rest_inv s1"
  proof (rule rest_inv_tick [OF rst])
    show "contents s1 q = contents s q" if "q \<in> qheads s" "q \<noteq> sleepq s" "q \<noteq> readylist s" for q
      using c1 that w(5) [OF that(1)] by (simp add: u_def)
    show "\<forall>(t, d)\<in>set (sleepers s1). 0 \<le> d"
      unfolding sl by (rule after_tick_nonneg(1) [OF sleep_invD(1) [OF rst]])
    show "sum_list (map snd (sleepers s1)) \<le> MAXKEY"
      unfolding sl using after_tick_nonneg(2) [OF sleep_invD(1) [OF rst]] sleep_invD(2) [OF rst] by linarith
  qed (use g in \<open>simp_all add: u_def\<close>)
  then have "kinv s1" using s1 t1 cc st g by (auto simp: kinv_def kmid_def dest!: set_takeWhileD)
  moreover have "s1 = s\<lparr>quetab := quetab s1, thrtab := thrtab s1\<rparr>" using e1 by (simp add: u_def)
  moreover have "thrtab u = thrtab s" by (simp add: u_def)
  ultimately show ?thesis using w(1) s1(1) sl t1 [folded wk] by (intro exI [of _ s1]) simp
qed

text \<open>The tick, the clock and the reschedule.\<close>

definition clock_after :: "kernel \<Rightarrow> u32 \<times> u32" where
  "clock_after s = (if clkticks s + 1 \<ge> CLKTICKS_PER_SEC then (0, clktime s + 1) else (clkticks s + 1, clktime s))"

lemma clkhandler_spec:
  assumes k: "kinv s"
  shows "\<exists>s1 s'. clkhandler s = Some s' \<and> kinv s' \<and> kinv s1 \<and> dispatched s1 s'
     \<and> thrcurrent s1 = thrcurrent s \<and> sleepers s' = after_tick (sleepers s)
     \<and> (\<forall>t. tstate (thrtab s1 t) = (if t \<in> set (woken (sleepers s)) then THRREADY else tstate (thrtab s t)))
     \<and> (clkticks s', clktime s') = clock_after s"
proof -
  obtain c where c: "clkupdate (clkfreq s div CLKTICKS_PER_SEC) s = Some c" "kinv c" and
    cs: "sleepers c = sleepers s" "thrtab c = thrtab s" "thrcurrent c = thrcurrent s" "clkticks c = clkticks s" "clktime c = clktime s"
    using k unfolding clkupdate_eq by (auto simp: sleepers_def)
  define z where "z = (let s = c\<lparr>clkticks := clkticks c + 1\<rparr>
    in if clkticks s \<ge> CLKTICKS_PER_SEC then s\<lparr>clktime := clktime s + 1, clkticks := 0\<rparr> else s)"
  have kz: "kinv z" using c(2) by (simp add: z_def Let_def)
  have z: "sleepers z = sleepers s" "thrtab z = thrtab s" "thrcurrent z = thrcurrent s"
      "(clkticks z, clktime z) = clock_after s"
    using cs by (simp_all add: z_def sleepers_def clock_after_def Let_def)
  obtain s1 where s1: "tick_queue z = Some s1" "kinv s1" "sleepers s1 = after_tick (sleepers s)"
      "\<forall>t. tstate (thrtab s1 t) = (if t \<in> set (woken (sleepers s)) then THRREADY else tstate (thrtab s t))"
    and e: "s1 = z\<lparr>quetab := quetab s1, thrtab := thrtab s1\<rparr>"
    using tick_queue_spec [OF kz] unfolding z by blast
  obtain s' where r: "resched s1 = Some (OK, s')" "kinv s'" and d: "dispatched s1 s'"
    using resched_spec [OF kinvD(1) [OF s1(2)]] by blast
  have "clkhandler s = Some s'" using c(1) s1(1) r(1) by (simp add: clkhandler_def z_def Let_def)
  moreover have "(clkticks s', clktime s') = clock_after s"
    using dispatched_globals [OF d] upd_qt_globals [OF e] z(4) by simp
  moreover have "sleepers s' = after_tick (sleepers s)"
    using dispatched_sleepers [OF kinvD(1) [OF s1(2)] d] s1(3) by simp
  ultimately show ?thesis using r(2) s1 d upd_qt_globals(1) [OF e] z(3) by auto
qed

end
