(* ===== verification/Xinu_Msg.thy ===== *)
theory Xinu_Msg
  imports Xinu_Clock
begin

text \<open>
  One-word messages between threads: \<^verbatim>\<open>system/send.c\<close>, \<^verbatim>\<open>receive.c\<close>,
  \<^verbatim>\<open>recvclr.c\<close> and \<^verbatim>\<open>recvtime.c\<close>. A thread holds at most one message; a
  receiver that has to wait reads it after it has been dispatched again, in
  \<open>receive_rest\<close> and \<open>recvtime_rest\<close>.
\<close>

section \<open>The operations\<close>

definition send :: "tid_typ \<Rightarrow> message \<Rightarrow> kernel \<Rightarrow> (int \<times> kernel) option" where
  "send tid m s = do {
     let me = thrcurrent s;
     let (im, s) = disable s;
     if isbadtid tid s then Some (SYSERR, restore im s)
     else if tstate (thrtab s tid) = THRFREE \<or> hasmsg (thrtab s tid)
     then Some (SYSERR, restore im s)
     else do {
       s \<leftarrow> twr tid (msg_update (\<lambda>_. m)) s;
       s \<leftarrow> twr tid (hasmsg_update (\<lambda>_. True)) s;
       if tstate (thrtab s tid) = THRRECV
       then do {
         (_, s) \<leftarrow> ready tid True s;
         Some (OK, ret_restore me im s)
       }
       else if tstate (thrtab s tid) = THRTMOUT
       then do {
         (_, s) \<leftarrow> unsleep tid s;
         (_, s) \<leftarrow> ready tid True s;
         Some (OK, ret_restore me im s)
       }
       else Some (OK, restore im s)
     }
   }"

definition receive_rest :: "tid_typ \<Rightarrow> irqmask \<Rightarrow> kernel \<Rightarrow> message \<times> kernel" where
  "receive_rest me im s =
     (msg (thrtab s me), restore im (s\<lparr>thrtab := (thrtab s)(me := (thrtab s me)\<lparr>hasmsg := False\<rparr>)\<rparr>))"

definition receive :: "kernel \<Rightarrow> (message call \<times> kernel) option" where
  "receive s = do {
     let me = thrcurrent s;
     let (im, s) = disable s;
     thrptr \<leftarrow> trd me s;
     if hasmsg thrptr
     then (let (m, s) = receive_rest me im s in Some (Returned m, s))
     else do {
       s \<leftarrow> twr me (tstate_update (\<lambda>_. THRRECV)) s;
       (_, s) \<leftarrow> resched s;
       if thrcurrent s = me
       then (let (m, s) = receive_rest me im s in Some (Returned m, s))
       else Some (Switched, s)
     }
   }"

definition recvclr :: "kernel \<Rightarrow> (message \<times> kernel) option" where
  "recvclr s = do {
     let me = thrcurrent s;
     let (im, s) = disable s;
     thrptr \<leftarrow> trd me s;
     let m = (if hasmsg thrptr then msg thrptr else NOMSG);
     s \<leftarrow> twr me (hasmsg_update (\<lambda>_. False)) s;
     Some (m, restore im s)
   }"

definition recvtime_rest :: "tid_typ \<Rightarrow> irqmask \<Rightarrow> kernel \<Rightarrow> message \<times> kernel" where
  "recvtime_rest me im s =
     (if hasmsg (thrtab s me) then receive_rest me im s else (TIMEOUT, restore im s))"

definition recvtime :: "int \<Rightarrow> kernel \<Rightarrow> (message call \<times> kernel) option" where
  "recvtime maxwait s =
     (if maxwait < 0 then Some (Returned SYSERR, s)
      else do {
        let me = thrcurrent s;
        let (im, s) = disable s;
        thrptr \<leftarrow> trd me s;
        if hasmsg thrptr
        then (let (m, s) = recvtime_rest me im s in Some (Returned m, s))
        else do {
          (r, s) \<leftarrow> insertd me (sleepq s) maxwait s;
          if r = SYSERR then Some (Returned SYSERR, restore im s)
          else do {
            s \<leftarrow> twr me (tstate_update (\<lambda>_. THRTMOUT)) s;
            (_, s) \<leftarrow> resched s;
            if thrcurrent s = me
            then (let (m, s) = recvtime_rest me im s in Some (Returned m, s))
            else Some (Switched, s)
          }
        }
      })"

section \<open>Sending\<close>

lemma kinv_entry:
  assumes "kinv s" and "tstate e = tstate (thrtab s t)" and "prio e = prio (thrtab s t)"
    and "tsem e = tsem (thrtab s t)"
  shows "kinv (s\<lparr>thrtab := (thrtab s)(t := e)\<rparr>)"
proof -
  have "kpre (s\<lparr>thrtab := (thrtab s)(t := e)\<rparr>)"
    by (rule kpre_cong [OF kinvD(1) [OF assms(1)]]) (use assms in simp_all)
  then show ?thesis using kinvD(2) [OF assms(1)] assms(2) by (auto simp: kinv_def)
qed

lemma send_error:
  assumes "isbadtid t s \<or> hasmsg (thrtab s t)"
  shows "send t m s = Some (SYSERR, s\<lparr>imask := norm_mask (imask s)\<rparr>)"
  using assms by (auto simp: send_def irq_simps isbadtid_def Let_def)

text \<open>The state with the message in the entry of the receiver.\<close>

definition deposited :: "tid_typ \<Rightarrow> message \<Rightarrow> kernel \<Rightarrow> kernel" where
  "deposited t m s = s\<lparr>thrtab := (thrtab s)(t := (thrtab s t)\<lparr>msg := m, hasmsg := True\<rparr>)\<rparr>"

lemma kinv_deposited: "kinv s \<Longrightarrow> kinv (deposited t m s)"
  unfolding deposited_def by (rule kinv_entry) simp_all

lemma deposited_sel [simp]:
  "quetab (deposited t m s) = quetab s" "thrcurrent (deposited t m s) = thrcurrent s"
  "tstate (thrtab (deposited t m s) u) = tstate (thrtab s u)" "imask (deposited t m s) = imask s"
  "sleepq (deposited t m s) = sleepq s" "semtab (deposited t m s) = semtab s"
  "readylist (deposited t m s) = readylist s"
  by (simp_all add: deposited_def)

lemma send_running:
  assumes "\<not> isbadtid t s" and "\<not> hasmsg (thrtab s t)" and "tstate (thrtab s t) \<notin> {THRRECV, THRTMOUT}"
  shows "send t m s = Some (OK, (deposited t m s)\<lparr>imask := norm_mask (imask s)\<rparr>)"
  using assms by (simp add: send_def irq_simps isbadtid_def twr_def deposited_def Let_def)

lemma send_wakes:
  assumes k: "kinv s" and t: "\<not> isbadtid t s" "\<not> hasmsg (thrtab s t)" and st: "tstate (thrtab s t) = THRRECV"
  shows "\<exists>s1 s'. send t m s = Some (OK, s') \<and> kinv s' \<and> made_ready t (deposited t m s) (s1\<lparr>imask := imask s\<rparr>)
     \<and> dispatched s1 s'"
proof -
  define z where "z = deposited t m (s\<lparr>imask := (imask s)\<lparr>irqen := 0x80\<rparr>\<rparr>)"
  have tt: "is_tid t" and tc: "t \<noteq> thrcurrent s" using t(1) kinvD(2) [OF k] st by (auto simp: isbadtid_def)
  have "kinv z" unfolding z_def by (rule kinv_deposited) (use k in simp)
  then have "kmid {t} z" using kinvD(1) [of z] st by (simp add: kmid_park qhome_state z_def)
  then obtain s1 s' where r: "ready t True z = Some (OK, s')" and mr: "made_ready t z s1"
    and d: "dispatched s1 s'" "kinv s'"
    using k_ready_resched [of t z] tt tc st by (auto simp: z_def)
  have "send t m s = Some (OK, ret_restore (thrcurrent s) (imask s) s')"
    using r t st by (simp add: send_def disable_eq isbadtid_def twr_def deposited_def z_def Let_def)
  moreover have "z = (deposited t m s)\<lparr>imask := (imask s)\<lparr>irqen := 0x80\<rparr>\<rparr>" by (simp add: z_def deposited_def)
  then have "made_ready t (deposited t m s) (s1\<lparr>imask := imask s\<rparr>)"
    using made_ready_imask [where s = "deposited t m s"] mr by fastforce
  ultimately show ?thesis
    using d by (intro exI [of _ s1] exI [of _ "ret_restore (thrcurrent s) (imask s) s'"]) (simp add: irq_simps)
qed

lemma sleepers_deposited [simp]: "sleepers (deposited t m s) = sleepers s"
  by (simp add: sleepers_def)

lemma send_times_out:
  assumes k: "kinv s" and t: "\<not> isbadtid t s" "\<not> hasmsg (thrtab s t)" and st: "tstate (thrtab s t) = THRTMOUT"
  shows "\<exists>qt s1 s'. send t m s = Some (OK, s') \<and> kinv s' \<and> made_ready t ((deposited t m s)\<lparr>quetab := qt\<rparr>) (s1\<lparr>imask := imask s\<rparr>)
     \<and> dispatched s1 s' \<and> kpre s1 \<and> sleepers s' = ddelete t (sleepers s)"
proof -
  define z where "z = deposited t m (s\<lparr>imask := (imask s)\<lparr>irqen := 0x80\<rparr>\<rparr>)"
  have tt: "is_tid t" and tc: "t \<noteq> thrcurrent s" using t(1) kinvD(2) [OF k] st by (auto simp: isbadtid_def)
  have kz: "kinv z" unfolding z_def by (rule kinv_deposited) (use k in simp)
  have zs: "tstate (thrtab z t) \<in> {THRSLEEP, THRTMOUT}" "thrcurrent z = thrcurrent s" "sleepers z = sleepers s"
    using st by (simp_all add: z_def sleepers_def)
  obtain qt where u: "unsleep t z = Some (OK, z\<lparr>quetab := qt, imask := norm_mask (imask z)\<rparr>)"
    and i: "queue_inv {t} (z\<lparr>quetab := qt\<rparr>)" "sleepers (z\<lparr>quetab := qt\<rparr>) = ddelete t (sleepers z)"
      "\<forall>q\<in>qheads z. q \<noteq> sleepq z \<longrightarrow> queue_of qt q = contents z q"
      "\<forall>i. i \<notin> set (contents z (sleepq z)) \<longrightarrow> qkey (qt i) = qkey (quetab z i)"
    using k_unsleep [OF kinvD(1) [OF kz] tt _ zs(1)] by auto
  define w where "w = z\<lparr>quetab := qt, imask := norm_mask (imask z)\<rparr>"
  have kw: "kmid {t} w" unfolding w_def using kmid_unsleep [OF kinvD(1) [OF kz] i] by simp
  have ws: "tstate (thrtab w t) = THRTMOUT" "thrcurrent w = thrcurrent s" using st by (simp_all add: w_def z_def)
  obtain s1 s' where r: "ready t True w = Some (OK, s')" and mr: "made_ready t w s1"
    and d: "kpre s1" "dispatched s1 s'" "kinv s'"
    using k_ready_resched [OF kw tt] tc ws by auto
  have "send t m s = Some (OK, ret_restore (thrcurrent s) (imask s) s')"
    using r u t st w_def by (simp add: send_def disable_eq isbadtid_def twr_def deposited_def z_def Let_def)
  moreover have "w = (deposited t m s)\<lparr>quetab := qt\<rparr>\<lparr>imask := norm_mask (imask z)\<rparr>"
    by (simp add: w_def z_def deposited_def)
  then have "made_ready t ((deposited t m s)\<lparr>quetab := qt\<rparr>) (s1\<lparr>imask := imask s\<rparr>)"
    using made_ready_imask [where s = "(deposited t m s)\<lparr>quetab := qt\<rparr>"] mr by fastforce
  moreover have "sleepers s' = sleepers s1" by (rule dispatched_sleepers [OF d(1,2)])
  moreover have "sleepers s1 = sleepers w"
    by (rule made_ready_sleepers [OF kw _ mr]) simp
  moreover have "sleepers w = ddelete t (sleepers s)" using i(2) zs(3) by (simp add: w_def sleepers_def)
  ultimately show ?thesis using d
    by (intro exI [of _ qt] exI [of _ s1] exI [of _ "ret_restore (thrcurrent s) (imask s) s'"])
      (simp add: irq_simps sleepers_def)
qed

section \<open>Receiving\<close>

lemma receive_rest_spec:
  assumes "kinv s"
  shows "receive_rest t im s = (m, s') \<Longrightarrow> m = msg (thrtab s t) \<and> kinv s' \<and> \<not> hasmsg (thrtab s' t)
      \<and> imask s' = norm_mask im \<and> thrcurrent s' = thrcurrent s"
proof -
  have "kinv (s\<lparr>thrtab := (thrtab s)(t := (thrtab s t)\<lparr>hasmsg := False\<rparr>)\<rparr>)"
    by (rule kinv_entry [OF assms]) simp_all
  then show "receive_rest t im s = (m, s') \<Longrightarrow> m = msg (thrtab s t) \<and> kinv s' \<and> \<not> hasmsg (thrtab s' t)
      \<and> imask s' = norm_mask im \<and> thrcurrent s' = thrcurrent s"
    by (auto simp: receive_rest_def restore_eq)
qed

lemma current_tid: "kinv s \<Longrightarrow> is_tid (thrcurrent s)"
  using kpreD(2) [OF kinvD(1)] by (simp add: thread_inv_def)

lemma receive_now:
  assumes k: "kinv s" and h: "hasmsg (thrtab s (thrcurrent s))"
  shows "\<exists>s'. receive s = Some (Returned (msg (thrtab s (thrcurrent s))), s') \<and> kinv s'
     \<and> \<not> hasmsg (thrtab s' (thrcurrent s)) \<and> thrcurrent s' = thrcurrent s \<and> imask s' = norm_mask (imask s)"
proof -
  define z where "z = s\<lparr>imask := (imask s)\<lparr>irqen := 0x80\<rparr>\<rparr>"
  have kz: "kinv z" using k by (simp add: z_def)
  obtain m s' where r: "receive_rest (thrcurrent s) (imask s) z = (m, s')" by fastforce
  have "receive s = Some (Returned m, s')"
    using r h current_tid [OF k] by (simp add: receive_def disable_eq trd_def z_def)
  then show ?thesis using receive_rest_spec [OF kz r] by (auto simp: z_def)
qed

lemma receive_block:
  assumes k: "kinv s" and h: "\<not> hasmsg (thrtab s (thrcurrent s))" and n: "thrcurrent s \<noteq> NULLTHREAD"
  shows "\<exists>s'. receive s = Some (Switched, s') \<and> kinv s' \<and> thrcurrent s' \<noteq> thrcurrent s
     \<and> tstate (thrtab s' (thrcurrent s)) = THRRECV"
proof -
  define z where "z = s\<lparr>imask := (imask s)\<lparr>irqen := 0x80\<rparr>\<rparr>"
  define d where "d = z\<lparr>thrtab := (thrtab z)(thrcurrent z := (thrtab z (thrcurrent z))\<lparr>tstate := THRRECV\<rparr>)\<rparr>"
  have kd: "kpre d" unfolding d_def by (rule kpre_block) (use k n in \<open>simp_all add: z_def\<close>)
  obtain s' where r: "resched d = Some (OK, s')" and v: "kinv s'" "dispatched d s'"
    using resched_spec [OF kd] by blast
  have ne: "thrcurrent s' \<noteq> thrcurrent s" using dispatched_other [OF kd v(2)] by (simp add: d_def z_def)
  have "receive s = Some (Switched, s')"
    using r h ne current_tid [OF k] by (simp add: receive_def disable_eq trd_def twr_def d_def z_def)
  moreover have "tstate (thrtab s' (thrcurrent s)) = THRRECV"
    using v(2) ne by (simp add: dispatched_def d_def z_def)
  ultimately show ?thesis using v(1) ne by blast
qed

lemma recvclr_spec:
  assumes k: "kinv s"
  shows "\<exists>s'. recvclr s = Some (if hasmsg (thrtab s (thrcurrent s)) then msg (thrtab s (thrcurrent s)) else NOMSG, s')
     \<and> kinv s' \<and> \<not> hasmsg (thrtab s' (thrcurrent s)) \<and> imask s' = norm_mask (imask s) \<and> thrcurrent s' = thrcurrent s"
proof -
  let ?c = "thrcurrent s"
  have "kinv (s\<lparr>thrtab := (thrtab s)(?c := (thrtab s ?c)\<lparr>hasmsg := False\<rparr>)\<rparr>)"
    by (rule kinv_entry [OF k]) simp_all
  then show ?thesis using current_tid [OF k] by (simp add: recvclr_def irq_simps trd_def twr_def Let_def)
qed

lemma recvtime_rest_spec:
  assumes "kinv s" and "recvtime_rest t im s = (m, s')"
  shows "m = (if hasmsg (thrtab s t) then msg (thrtab s t) else TIMEOUT)" and "kinv s'"
    and "\<not> hasmsg (thrtab s' t)" and "imask s' = norm_mask im" and "thrcurrent s' = thrcurrent s"
  using assms receive_rest_spec [OF assms(1), of t im m s']
  by (auto simp: recvtime_rest_def restore_eq split: if_splits)

lemma recvtime_now:
  assumes k: "kinv s" and h: "hasmsg (thrtab s (thrcurrent s))" and w: "0 \<le> w"
  shows "\<exists>s'. recvtime w s = Some (Returned (msg (thrtab s (thrcurrent s))), s') \<and> kinv s'
     \<and> \<not> hasmsg (thrtab s' (thrcurrent s)) \<and> thrcurrent s' = thrcurrent s \<and> imask s' = norm_mask (imask s)"
proof -
  define z where "z = s\<lparr>imask := (imask s)\<lparr>irqen := 0x80\<rparr>\<rparr>"
  have kz: "kinv z" using k by (simp add: z_def)
  obtain m s' where r: "recvtime_rest (thrcurrent s) (imask s) z = (m, s')" by fastforce
  have "recvtime w s = Some (Returned m, s')"
    using r h w current_tid [OF k] by (simp add: recvtime_def disable_eq trd_def z_def)
  then show ?thesis using recvtime_rest_spec [OF kz r] h by (simp add: z_def)
qed

lemma recvtime_block:
  assumes k: "kinv s" and h: "\<not> hasmsg (thrtab s (thrcurrent s))" and n: "thrcurrent s \<noteq> NULLTHREAD"
    and w: "0 \<le> w" "w \<le> MAXKEY"
  shows "\<exists>s'. recvtime w s = Some (Switched, s') \<and> kinv s' \<and> thrcurrent s' \<noteq> thrcurrent s
     \<and> tstate (thrtab s' (thrcurrent s)) = THRTMOUT \<and> sleepers s' = dinsert (thrcurrent s) w (sleepers s)
     \<and> \<not> hasmsg (thrtab s' (thrcurrent s))"
proof -
  define z where "z = s\<lparr>imask := (imask s)\<lparr>irqen := 0x80\<rparr>\<rparr>"
  define c where "c = thrcurrent s"
  have kz: "kinv z" using k by (simp add: z_def)
  have z: "thrcurrent z = c" "thrtab z = thrtab s" "sleepq z = sleepq s" "sleepers z = sleepers s"
    by (simp_all add: z_def sleepers_def c_def)
  obtain qt d where i: "insertd c (sleepq s) w z = Some (OK, z\<lparr>quetab := qt\<rparr>)"
    and d: "d = z\<lparr>quetab := qt, thrtab := (thrtab s)(c := (thrtab s c)\<lparr>tstate := THRTMOUT\<rparr>)\<rparr>"
    and kd: "kpre d" and sd: "sleepers d = dinsert c w (sleepers s)"
    using sleep_block [OF kz _ _ _ _ refl refl, of w THRTMOUT] n w unfolding z c_def by auto
  obtain s' where r: "resched d = Some (OK, s')" and v: "kinv s'" "dispatched d s'"
    using resched_spec [OF kd] by blast
  have ne: "thrcurrent s' \<noteq> c" using dispatched_other [OF kd v(2)] z by (simp add: d)
  have "recvtime w s = Some (Switched, s')"
    using i r w h ne z current_tid [OF k]
    by (simp add: recvtime_def disable_eq trd_def twr_def d c_def z_def)
  moreover have "tstate (thrtab s' c) = THRTMOUT" using v(2) ne z by (simp add: dispatched_def d)
  moreover have "sleepers s' = sleepers d" by (rule dispatched_sleepers [OF kd v(2)])
  moreover have "same_entry (thrtab d c) (thrtab s' c)" using v(2) by (simp add: dispatched_def)
  then have "\<not> hasmsg (thrtab s' c)" using h unfolding same_entry_def c_def d by (cases "thrtab s' (thrcurrent s)") simp
  ultimately show ?thesis using v(1) ne sd by (auto simp: c_def)
qed

end
