(* ===== verification/Xinu_Thread.thy ===== *)
theory Xinu_Thread
  imports Xinu_Msg Xinu_Heap
begin

text \<open>
  The start of a thread: \<^verbatim>\<open>system/platforms/raspberry-pi/create.c\<close>. A new thread gets an entry and a
  stack with an accounting block, its arguments and a context record that \<^verbatim>\<open>ctxsw\<close> will load; the lemmas show
  the words of that stack, that no other memory changes, and what is left when memory or entries run out.
\<close>

section \<open>Creating a thread\<close>

abbreviation (input) MINSTK :: u32 where "MINSTK \<equiv> 128"
abbreviation (input) STACKMAGIC :: u32 where "STACKMAGIC \<equiv> 0x0A0AAAA9"
abbreviation (input) CONTEXT_WORDS :: nat where "CONTEXT_WORDS \<equiv> 15"

text \<open>The static \<^verbatim>\<open>nexttid\<close> is never negative, so \<open>mod\<close> is the C remainder.\<close>

fun thrnew_loop :: "nat \<Rightarrow> kernel \<Rightarrow> int \<times> kernel" where
  "thrnew_loop 0 s = (SYSERR, s)"
| "thrnew_loop (Suc n) s =
     (let s = s\<lparr>nexttid := (nexttid s + 1) mod NTHREAD\<rparr> in
      if tstate (thrtab s (nexttid s)) = THRFREE then (nexttid s, s) else thrnew_loop n s)"

definition thrnew :: "kernel \<Rightarrow> int \<times> kernel" where
  "thrnew s = thrnew_loop 100 s"

text \<open>\<^verbatim>\<open>*--saddr = v\<close>, and a loop of such stores.\<close>

type_synonym stack = "u32 \<times> (u32 \<Rightarrow> u32)"

definition push :: "u32 \<Rightarrow> stack \<Rightarrow> stack" where
  "push v = (\<lambda>(saddr, m). (saddr - 4, m(saddr - 4 := v)))"

fun push_zeros :: "nat \<Rightarrow> stack \<Rightarrow> stack" where
  "push_zeros 0 st = st"
| "push_zeros (Suc n) st = push_zeros n (push 0 st)"

text \<open>Storing consecutive words from an address upwards.\<close>

fun store_words :: "u32 \<Rightarrow> u32 list \<Rightarrow> (u32 \<Rightarrow> u32) \<Rightarrow> u32 \<Rightarrow> u32" where
  "store_words a [] m = m"
| "store_words a (v # vs) m = store_words (a + 4) vs (m(a := v))"

definition pads :: "nat \<Rightarrow> nat" where
  "pads nargs = (if nargs = 0 then 4 else if nargs mod 4 = 0 then 0 else 4 - nargs mod 4)"

text \<open>
  The stack of a new thread: from its top word downwards the accounting block, the padding,
  the room for the arguments after the fourth, and the context with the entry point, the
  return address and the first four arguments in the places of the registers.
\<close>

definition build_stack :: "u32 \<Rightarrow> u32 \<Rightarrow> u32 \<Rightarrow> u32 \<Rightarrow> u32 \<Rightarrow> u32 list \<Rightarrow> (u32 \<Rightarrow> u32) \<Rightarrow> stack" where
  "build_stack tid base len procaddr initret args m =
     (let st = (base, m(base := STACKMAGIC));
          st = push tid st;
          st = push len st;
          st = push (base - len + 4) st;
          st = push_zeros (pads (length args)) st;
          st = push_zeros (length args - 4) st;
          savargs = fst st;
          (saddr, m) = push_zeros CONTEXT_WORDS st;
          m = m(saddr + 4 * 14 := procaddr);
          m = m(saddr + 4 * 13 := initret);
          m = store_words saddr (take 4 args) m;
          m = store_words savargs (drop 4 args) m
      in (saddr, m))"

text \<open>
  The arguments are the variable arguments of the call, so \<^verbatim>\<open>nargs\<close> is their number;
  \<open>initret\<close> is the address of \<^verbatim>\<open>userret\<close>. The three words of the mask enable the timer
  line and the processor's interrupts.
\<close>

definition create :: "u32 \<Rightarrow> u32 \<Rightarrow> u32 \<Rightarrow> int \<Rightarrow> string \<Rightarrow> u32 list \<Rightarrow> kernel \<Rightarrow> (int \<times> kernel) option" where
  "create initret procaddr ssize priority name args s = do {
     let (im, s) = disable s;
     let ssize = (if ssize < MINSTK then MINSTK else ssize);
     (saddr, s) \<leftarrow> stkget ssize s;
     let (tid, s) = thrnew s;
     if saddr = -1 \<or> tid = SYSERR then Some (SYSERR, restore im s)
     else do {
       n \<leftarrow> ck (thrcount s + 1);
       let s = s\<lparr>thrcount := n\<rparr>;
       let parent_tid = gettid s;
       s \<leftarrow> twr tid (\<lambda>t. t\<lparr>tstate := THRSUSP, prio := priority, stkbase := saddr, stklen := ssize,
              stkptr := saddr, tname := take 16 name, parent := parent_tid, hasmsg := False,
              tmemlist := \<lparr>mb_next = 0, mb_length = 0\<rparr>,
              intmask := \<lparr>lower_en = 2, upper_en = 0, irqen = 0\<rparr>\<rparr>) s;
       let (sp, m) = build_stack (word_of_int tid) saddr ssize procaddr initret args (mem s);
       let s = s\<lparr>mem := m\<rparr>;
       s \<leftarrow> twr tid (stkptr_update (\<lambda>_. sp)) s;
       Some (tid, restore im s)
     }
   }"

section \<open>The stack of a new thread\<close>

text \<open>\<open>words_at a xs m\<close>: the words from address \<open>a\<close> upwards are \<open>xs\<close>.\<close>

definition words_at :: "u32 \<Rightarrow> u32 list \<Rightarrow> (u32 \<Rightarrow> u32) \<Rightarrow> bool" where
  "words_at a xs m \<longleftrightarrow> (\<forall>k<length xs. m (a + 4 * of_nat k) = xs ! k)"

definition same_outside :: "u32 \<Rightarrow> nat \<Rightarrow> (u32 \<Rightarrow> u32) \<Rightarrow> (u32 \<Rightarrow> u32) \<Rightarrow> bool" where
  "same_outside a n m m' \<longleftrightarrow> (\<forall>x. (\<forall>k<n. x \<noteq> a + 4 * of_nat k) \<longrightarrow> m' x = m x)"

lemma word_offset_inj:
  assumes "4 * j < 2 ^ 32" and "4 * k < 2 ^ 32" and "(a :: u32) + 4 * of_nat j = a + 4 * of_nat k"
  shows "j = k"
proof -
  have w: "unat (4 * of_nat i :: u32) = 4 * i" if "4 * i < 2 ^ 32" for i
    using that by (simp add: unat_word_ariths unsigned_of_nat take_bit_nat_eq_self)
  have "(4 :: u32) * of_nat j = 4 * of_nat k" using assms(3) by simp
  then have "4 * j = 4 * k" using w [OF assms(1)] w [OF assms(2)] by metis
  then show ?thesis by simp
qed

lemma words_at_push:
  assumes "words_at a xs m" and "4 * (length xs + 1) \<le> 2 ^ 32"
  shows "words_at (a - 4) (v # xs) (m(a - 4 := v))"
  unfolding words_at_def
proof (intro allI impI)
  fix k assume k: "k < length (v # xs)"
  show "(m(a - 4 := v)) (a - 4 + 4 * of_nat k) = (v # xs) ! k"
  proof (cases k)
    case (Suc j)
    have "a - 4 + 4 * of_nat k \<noteq> a - 4 + 4 * of_nat 0"
      using word_offset_inj [of k 0 "a - 4"] assms(2) k Suc by auto
    then show ?thesis using assms(1) Suc k by (simp add: words_at_def algebra_simps)
  qed simp
qed

lemma same_outside_push:
  assumes "same_outside a n m0 m"
  shows "same_outside (a - 4) (Suc n) m0 (m(a - 4 := v))"
  unfolding same_outside_def
proof (intro allI impI)
  fix x assume x: "\<forall>k<Suc n. x \<noteq> a - 4 + 4 * of_nat k"
  have "x \<noteq> a - 4" using x [rule_format, of 0] by simp
  moreover have "x \<noteq> a + 4 * of_nat k" if "k < n" for k
    using x [rule_format, of "Suc k"] that by (simp add: algebra_simps)
  ultimately show "(m(a - 4 := v)) x = m0 x" using assms by (simp add: same_outside_def)
qed

definition stack_built :: "(u32 \<Rightarrow> u32) \<Rightarrow> u32 list \<Rightarrow> stack \<Rightarrow> bool" where
  "stack_built m0 xs st \<longleftrightarrow> words_at (fst st) xs (snd st) \<and> same_outside (fst st) (length xs) m0 (snd st)"

lemma stack_push:
  "stack_built m0 xs st \<Longrightarrow> 4 * Suc (length xs) \<le> 2 ^ 32 \<Longrightarrow> stack_built m0 (v # xs) (push v st)"
  by (cases st) (simp add: stack_built_def push_def words_at_push same_outside_push)

lemma push_fst [simp]: "fst (push v st) = fst st - 4"
  by (cases st) (simp add: push_def)

lemma stack_push_zeros:
  "stack_built m0 xs st \<Longrightarrow> 4 * (n + length xs) \<le> 2 ^ 32 \<Longrightarrow>
   stack_built m0 (replicate n 0 @ xs) (push_zeros n st) \<and> fst (push_zeros n st) = fst st - 4 * of_nat n"
proof (induction n arbitrary: xs st)
  case (Suc n)
  have "stack_built m0 (0 # xs) (push 0 st)" using stack_push [OF Suc.prems(1)] Suc.prems(2) by simp
  from Suc.IH [OF this] Suc.prems(2) show ?case by (simp add: replicate_app_Cons_same algebra_simps)
qed simp

lemma store_words_spec:
  "words_at a (us @ xs) m \<Longrightarrow> length vs \<le> length xs \<Longrightarrow> 4 * length (us @ xs) \<le> 2 ^ 32 \<Longrightarrow>
   same_outside a (length (us @ xs)) m0 m \<Longrightarrow>
   words_at a (us @ vs @ drop (length vs) xs) (store_words (a + 4 * of_nat (length us)) vs m)
   \<and> same_outside a (length (us @ xs)) m0 (store_words (a + 4 * of_nat (length us)) vs m)"
proof (induction vs arbitrary: us xs m)
  case (Cons v vs)
  obtain y ys where xs: "xs = y # ys" using Cons.prems(2) by (cases xs) auto
  let ?m = "m(a + 4 * of_nat (length us) := v)"
  have w: "words_at a ((us @ [v]) @ ys) ?m"
    unfolding words_at_def
  proof (intro allI impI)
    fix k assume k: "k < length ((us @ [v]) @ ys)"
    show "?m (a + 4 * of_nat k) = ((us @ [v]) @ ys) ! k"
    proof (cases "k = length us")
      case False
      then have "a + 4 * of_nat k \<noteq> a + 4 * of_nat (length us)"
        using word_offset_inj [of k "length us" a] k Cons.prems(3) xs by auto
      moreover have "((us @ [v]) @ ys) ! k = (us @ xs) ! k"
        using False xs by (cases "k < length us") (auto simp: nth_append nth_Cons')
      ultimately show ?thesis using Cons.prems(1) k xs by (simp add: words_at_def)
    qed simp
  qed
  have so: "same_outside a (length ((us @ [v]) @ ys)) m0 ?m"
    using Cons.prems(4) xs by (auto simp: same_outside_def)
  have e: "a + 4 * of_nat (length (us @ [v])) = a + 4 * of_nat (length us) + 4" by (simp add: algebra_simps)
  have "length vs \<le> length ys" "4 * length ((us @ [v]) @ ys) \<le> 2 ^ 32" using Cons.prems(2,3) xs by simp_all
  from Cons.IH [OF w this so, unfolded e] show ?case using xs by (simp only: append_assoc append_Cons append_Nil
      store_words.simps length_Cons drop_Suc_Cons length_append list.size)
qed simp

lemma stack_store:
  assumes "stack_built m0 (us @ xs) (a, m)" and "length vs \<le> length xs" and "4 * length (us @ xs) \<le> 2 ^ 32"
    and "b = a + 4 * of_nat (length us)"
  shows "stack_built m0 (us @ vs @ drop (length vs) xs) (a, store_words b vs m)"
  using store_words_spec [of a us xs m vs m0] assms by (simp add: stack_built_def)

definition initial_stack :: "u32 \<Rightarrow> u32 \<Rightarrow> u32 \<Rightarrow> u32 \<Rightarrow> u32 \<Rightarrow> u32 list \<Rightarrow> u32 list" where
  "initial_stack tid base len procaddr initret args =
     take 4 args @ replicate (13 - min 4 (length args)) 0 @ [initret, procaddr]
     @ drop 4 args @ replicate (pads (length args)) 0 @ [base - len + 4, len, tid, STACKMAGIC]"

text \<open>\<^verbatim>\<open>create\<close> lays the stack out as \<^verbatim>\<open>ctxsw\<close> and the calling convention expect it.\<close>

lemma build_stack_spec:
  assumes "4 * length (initial_stack tid base len procaddr initret args) \<le> 2 ^ 32"
  shows "stack_built m (initial_stack tid base len procaddr initret args) (build_stack tid base len procaddr initret args m)"
    and "fst (build_stack tid base len procaddr initret args m)
       = base + 4 - 4 * of_nat (length (initial_stack tid base len procaddr initret args))"
proof -
  let ?r = "length args - 4" and ?p = "pads (length args)"
  let ?acc = "[base - len + 4, len, tid, STACKMAGIC]"
  let ?zr = "replicate ?r (0 :: u32)" and ?zp = "replicate ?p (0 :: u32)"
  have N: "length (initial_stack tid base len procaddr initret args) = 15 + (?r + (?p + 4))"
    by (auto simp: initial_stack_def min_def)
  have L: "4 * (15 + (?r + (?p + 4))) \<le> 2 ^ 32" using assms N by simp
  define s1 where "s1 = push (base - len + 4) (push len (push tid (base, m(base := STACKMAGIC))))"
  have "stack_built m [STACKMAGIC] (base, m(base := STACKMAGIC))"
    by (simp add: stack_built_def words_at_def same_outside_def)
  then have 1: "stack_built m ?acc s1" unfolding s1_def by (intro stack_push) simp_all
  define s2 where "s2 = push_zeros ?p s1"
  have 2: "stack_built m (?zp @ ?acc) s2" "fst s2 = fst s1 - 4 * of_nat ?p"
    using stack_push_zeros [OF 1, of ?p] L by (simp_all add: s2_def)
  define s3 where "s3 = push_zeros ?r s2"
  have 3: "stack_built m (?zr @ ?zp @ ?acc) s3" "fst s3 = fst s2 - 4 * of_nat ?r"
    using stack_push_zeros [OF 2(1), of ?r] L by (simp_all add: s3_def)
  define s4 where "s4 = push_zeros 15 s3"
  have 4: "stack_built m (replicate 15 0 @ ?zr @ ?zp @ ?acc) s4" "fst s4 = fst s3 - 4 * of_nat 15"
    using stack_push_zeros [OF 3(1), of 15] L by (simp_all add: s4_def)
  obtain sp m4 where s4: "s4 = (sp, m4)" by fastforce
  define T where "T = ?zr @ ?zp @ ?acc"
  define m5 where "m5 = m4(sp + 4 * 14 := procaddr)"
  define m6 where "m6 = m5(sp + 4 * 13 := initret)"
  have LT: "4 * (15 + length T) \<le> 2 ^ 32" using L by (simp add: T_def)
  have z: "replicate 15 0 = replicate 14 (0 :: u32) @ [0]" "replicate 14 0 = replicate 13 (0 :: u32) @ [0]"
    by (simp_all add: eval_nat_numeral)
  have "stack_built m (replicate 14 0 @ [procaddr] @ drop (length [procaddr]) (0 # T)) (sp, store_words (sp + 4 * 14) [procaddr] m4)"
    by (rule stack_store) (use 4(1) s4 LT z T_def in simp_all)
  then have "stack_built m (replicate 14 0 @ procaddr # T) (sp, m5)" by (simp add: m5_def)
  then have "stack_built m (replicate 13 0 @ [initret] @ drop (length [initret]) (0 # procaddr # T)) (sp, store_words (sp + 4 * 13) [initret] m5)"
    by (intro stack_store) (use LT z in simp_all)
  then have 5: "stack_built m ([] @ replicate 13 0 @ initret # procaddr # T) (sp, m6)" by (simp add: m6_def)
  let ?n = "min 4 (length args)"
  have "stack_built m ([] @ take 4 args @ drop (length (take 4 args)) (replicate 13 0 @ initret # procaddr # T))
      (sp, store_words sp (take 4 args) m6)"
    by (rule stack_store [OF 5]) (use LT in simp_all)
  then have "stack_built m ((take 4 args @ replicate (13 - ?n) 0 @ [initret, procaddr]) @ T) (sp, store_words sp (take 4 args) m6)"
    by (simp add: min.commute)
  moreover have "length (take 4 args @ replicate (13 - ?n) 0 @ [initret, procaddr]) = 15" by (simp add: min_def)
  ultimately have "stack_built m ((take 4 args @ replicate (13 - ?n) 0 @ [initret, procaddr]) @ drop 4 args @ drop (length (drop 4 args)) T)
      (sp, store_words (fst s3) (drop 4 args) (store_words sp (take 4 args) m6))"
    by (intro stack_store) (use LT 4(2) s4 T_def in simp_all)
  moreover have b: "build_stack tid base len procaddr initret args m
      = (sp, store_words (fst s3) (drop 4 args) (store_words sp (take 4 args) m6))"
    using s4 by (simp add: build_stack_def s1_def [symmetric] s2_def [symmetric] s3_def [symmetric] s4_def [symmetric] m5_def m6_def)
  ultimately show "stack_built m (initial_stack tid base len procaddr initret args) (build_stack tid base len procaddr initret args m)"
    by (simp add: initial_stack_def T_def)
  have "sp = base - 12 - 4 * of_nat ?p - 4 * of_nat ?r - 60" using 2(2) 3(2) 4(2) s4 by (simp add: s1_def)
  then show "fst (build_stack tid base len procaddr initret args m)
       = base + 4 - 4 * of_nat (length (initial_stack tid base len procaddr initret args))"
    unfolding N b by (simp add: algebra_simps)
qed


section \<open>Creating a thread\<close>

lemma thrnew_loop_spec:
  "thrnew_loop n s = (t, s') \<Longrightarrow>
   (is_tid t \<and> tstate (thrtab s t) = THRFREE \<and> s' = s\<lparr>nexttid := t\<rparr>)
   \<or> (t = SYSERR \<and> s' = s\<lparr>nexttid := nexttid s'\<rparr>
       \<and> (\<forall>k<n. tstate (thrtab s ((nexttid s + 1 + int k) mod 100)) \<noteq> THRFREE))"
proof (induction n arbitrary: s)
  case (Suc n)
  define z where "z = s\<lparr>nexttid := (nexttid s + 1) mod 100\<rparr>"
  have z: "thrtab z = thrtab s" "nexttid z = (nexttid s + 1) mod 100" "\<And>a. z\<lparr>nexttid := a\<rparr> = s\<lparr>nexttid := a\<rparr>"
    by (simp_all add: z_def)
  show ?case
  proof (cases "tstate (thrtab s ((nexttid s + 1) mod 100)) = THRFREE")
    case True
    then show ?thesis using Suc.prems by (auto simp: Let_def)
  next
    case False
    then have "thrnew_loop n z = (t, s')" using Suc.prems by (simp add: Let_def z_def)
    from Suc.IH [OF this, unfolded z] have "(is_tid t \<and> tstate (thrtab s t) = THRFREE \<and> s' = s\<lparr>nexttid := t\<rparr>) \<or>
      (t = SYSERR \<and> s' = s\<lparr>nexttid := nexttid s'\<rparr> \<and>
       (\<forall>k<n. tstate (thrtab s (((nexttid s + 1) mod 100 + 1 + int k) mod 100)) \<noteq> THRFREE))" .
    moreover have "tstate (thrtab s ((nexttid s + 1 + int k) mod 100)) \<noteq> THRFREE"
      if "\<forall>k<n. tstate (thrtab s (((nexttid s + 1) mod 100 + 1 + int k) mod 100)) \<noteq> THRFREE" "k < Suc n" for k
    proof (cases k)
      case (Suc j)
      have "((nexttid s + 1) mod 100 + 1 + int j) mod 100 = (nexttid s + 1 + int k) mod 100"
        using Suc by (simp add: mod_add_left_eq add.assoc)
      then show ?thesis using that Suc by (metis Suc_less_eq)
    qed (use False in simp)
    ultimately show ?thesis by blast
  qed
qed auto

lemma thrnew_spec:
  assumes "thrnew s = (t, s')"
  shows "\<exists>u. is_tid u \<and> tstate (thrtab s u) = THRFREE \<Longrightarrow>
      is_tid t \<and> tstate (thrtab s t) = THRFREE \<and> s' = s\<lparr>nexttid := t\<rparr>"
    and "\<forall>u. is_tid u \<longrightarrow> tstate (thrtab s u) \<noteq> THRFREE \<Longrightarrow> t = SYSERR \<and> s' = s\<lparr>nexttid := nexttid s'\<rparr>"
proof -
  note l = thrnew_loop_spec [OF assms [unfolded thrnew_def]]
  show "t = SYSERR \<and> s' = s\<lparr>nexttid := nexttid s'\<rparr>" if "\<forall>u. is_tid u \<longrightarrow> tstate (thrtab s u) \<noteq> THRFREE"
    using l that by metis
  show "is_tid t \<and> tstate (thrtab s t) = THRFREE \<and> s' = s\<lparr>nexttid := t\<rparr>"
    if "\<exists>u. is_tid u \<and> tstate (thrtab s u) = THRFREE"
  proof -
    from that obtain u where u: "is_tid u" "tstate (thrtab s u) = THRFREE" by blast
    define k where "k = nat ((u - nexttid s - 1) mod 100)"
    have "(nexttid s + 1 + int k) mod 100 = (nexttid s + 1 + (u - nexttid s - 1)) mod 100"
      unfolding k_def by (simp add: mod_add_right_eq)
    then have "(nexttid s + 1 + int k) mod 100 = u" using u(1) by simp
    moreover have "k < 100" by (simp add: k_def nat_less_iff)
    ultimately have "\<not> (\<forall>k<100. tstate (thrtab s ((nexttid s + 1 + int k) mod 100)) \<noteq> THRFREE)"
      using u(2) by auto
    then show ?thesis using l by blast
  qed
qed

text \<open>An entry that no queue holds may get a new state and a new priority.\<close>

lemma kinv_new_thread:
  assumes k: "kinv s" and t: "is_tid t" "tstate (thrtab s t) = THRFREE" and e: "tstate e = THRSUSP" "MINKEY < prio e" "prio e \<le> MAXKEY"
  shows "kinv (s\<lparr>thrtab := (thrtab s)(t := e)\<rparr>)"
proof -
  let ?s = "s\<lparr>thrtab := (thrtab s)(t := e)\<rparr>"
  note k0 = kinvD(1) [OF k]
  have "tstate (thrtab s NULLTHREAD) \<in> {THRCURR, THRREADY}" using kpreD(2) [OF k0] unfolding thread_inv_def by blast
  then have n0: "t \<noteq> NULLTHREAD" "t \<noteq> thrcurrent s" using t(2) kinvD(2) [OF k] by force+
  have h: "qhome s t = None" "qhome ?s t = None" using t(2) e(1) by (simp_all add: qhome_state)
  have "queue_inv {t} s" using kpreD(1) [OF k0] queue_inv_park [OF h(1)] by simp
  then have "queue_inv {} ?s" using queue_inv_entry [of "{t}" s t e] queue_inv_park [OF h(2)] by simp
  moreover have "thread_inv ?s" using kpreD(2) [OF k0] e n0 by (intro thread_inv_block) simp_all
  ultimately have "kpre ?s" using kpreD(3,4) [OF k0] by (simp add: kmid_def ready_inv_def)
  then show ?thesis using kinvD(2) [OF k] n0 by (simp add: kinv_def)
qed

text \<open>The entry \<^verbatim>\<open>create\<close> fills in for thread \<open>t\<close>.\<close>

definition new_thread :: "kernel \<Rightarrow> tid_typ \<Rightarrow> int \<Rightarrow> string \<Rightarrow> u32 \<Rightarrow> u32 \<Rightarrow> u32 \<Rightarrow> thrent" where
  "new_thread s t priority name base len sp = (thrtab s t)\<lparr>tstate := THRSUSP, prio := priority, stkbase := base,
     stklen := len, tname := take 16 name, parent := thrcurrent s, hasmsg := False, tmemlist := \<lparr>mb_next = 0, mb_length = 0\<rparr>,
     intmask := \<lparr>lower_en = 2, upper_en = 0, irqen = 0\<rparr>, stkptr := sp\<rparr>"

abbreviation stack_size :: "u32 \<Rightarrow> u32" where
  "stack_size ssize \<equiv> (if ssize < MINSTK then MINSTK else ssize)"

lemma create_steps:
  assumes "stkget (stack_size ssize) (s\<lparr>imask := (imask s)\<lparr>irqen := 0x80\<rparr>\<rparr>) = Some (a, v)"
    and "thrnew v = (t, w)" and "is_tid t" and "a \<noteq> -1" and "0 \<le> thrcount w" and "thrcount w < MAXKEY"
    and "build_stack (word_of_int t) a (stack_size ssize) procaddr initret args (mem w) = (sp, m)"
  shows "create initret procaddr ssize priority name args s = Some (t, w\<lparr>thrcount := thrcount w + 1, mem := m,
     thrtab := (thrtab w)(t := new_thread w t priority name a (stack_size ssize) sp), imask := norm_mask (imask s)\<rparr>)"
  using assms by (simp add: create_def irq_simps Let_def twr_def new_thread_def gettid_def)

lemma stack_in_region:
  assumes "k < n" and "4 * n \<le> unat nb" and "unat p + unat nb < 2 ^ 32"
  shows "unat ((p :: u32) + nb - 4 * of_nat n + 4 * of_nat k) \<in> region p nb"
proof -
  define d where "d = unat nb - 4 * n + 4 * k"
  have "p + nb - 4 * of_nat n + 4 * of_nat k = p + of_nat d"
    using assms(2) by (simp add: d_def of_nat_diff)
  moreover have "d < unat nb" using assms(1,2) unfolding d_def by linarith
  then have "unat (p + of_nat d) = unat p + d" using assms(3)
    by (subst unat_add_small) (simp_all add: unsigned_of_nat take_bit_nat_eq_self)
  ultimately show ?thesis using \<open>d < unat nb\<close> unfolding region_def by (metis atLeastLessThan_iff le_add1 nat_add_left_cancel_less)
qed


lemma stack_size_ok: "stack_size ssize \<noteq> 0" by auto

lemma stack_frame:
  assumes b: "stack_built m xs (p + nb - 4 * of_nat (length xs), m')" and f: "4 * length xs \<le> unat nb"
    and p: "unat p + unat nb < 2 ^ 32" and x: "unat x \<notin> region p nb"
  shows "m' x = m x"
proof -
  have "\<forall>k<length xs. x \<noteq> p + nb - 4 * of_nat (length xs) + 4 * of_nat k"
    using stack_in_region [OF _ f p] x by blast
  then show ?thesis using b unfolding stack_built_def same_outside_def fst_conv snd_conv by blast
qed

text \<open>The stack as \<^verbatim>\<open>create\<close> finds it: taken from the heap, with the rest of the state unchanged.\<close>

lemma stkget_disabled:
  assumes k: "kinv s" and i: "mem_inv s bs" and n: "n \<noteq> 0" "unat n \<le> 2 ^ 32 - 8"
    and f: "last_fit (roundmb n) bs = Some (p, bs')"
  shows "\<exists>v. stkget n (s\<lparr>imask := (imask s)\<lparr>irqen := 0x80\<rparr>\<rparr>) = Some (p + roundmb n - 4, v) \<and> kinv v \<and> mem_inv v bs'
     \<and> thrtab v = thrtab s \<and> thrcount v = thrcount s \<and> thrcurrent v = thrcurrent s
     \<and> (\<forall>x. unat x \<notin> free_bytes bs \<longrightarrow> mem v x = mem s x)"
proof -
  define z where "z = s\<lparr>imask := (imask s)\<lparr>irqen := 0x80\<rparr>\<rparr>"
  have iz: "mem_inv z bs" and kz: "kinv z" using i k by (simp_all add: z_def)
  obtain u where u: "stkget n z = Some (p + roundmb n - 4, u\<lparr>imask := norm_mask (imask z)\<rparr>)" "mem_inv u bs'" "mem_only z u"
    "\<forall>x. unat x \<notin> free_bytes bs \<longrightarrow> mem u x = mem z x"
    using stkget_spec [OF iz n f] by blast
  show ?thesis
    using u(1,2,4) mem_only_fields [OF u(3)] kinv_mem_only [OF u(3)] kz by (fold z_def) (simp add: z_def)
qed

lemma first_frame:
  assumes h: "in_heap lo hi p n" "hi < 2 ^ 32" and xs: "xs = initial_stack tid (p + roundmb n - 4) n procaddr initret args"
    and fit: "4 * length xs \<le> unat (roundmb n)"
    and bs: "build_stack tid (p + roundmb n - 4) n procaddr initret args m = (sp, m')"
  shows "sp = p + roundmb n - 4 * of_nat (length xs)" and "words_at sp xs m'"
    and "unat x \<notin> region p (roundmb n) \<Longrightarrow> m' x = m x"
proof -
  have "unat (roundmb n) < 2 ^ 32" using unsigned_less [of "roundmb n"] by simp
  then have l: "4 * length xs \<le> 2 ^ 32" using fit by linarith
  show sp: "sp = p + roundmb n - 4 * of_nat (length xs)" and "words_at sp xs m'"
    using build_stack_spec [OF l [unfolded xs], of m] bs by (simp_all add: xs stack_built_def)
  have sb: "stack_built m xs (sp, m')" using build_stack_spec(1) [OF l [unfolded xs], of m] bs by (simp add: xs)
  have "unat p + unat (roundmb n) < 2 ^ 32" using h by (simp add: in_heap_def)
  then show "unat x \<notin> region p (roundmb n) \<Longrightarrow> m' x = m x" using stack_frame [OF sb [unfolded sp] fit] by blast
qed

text \<open>
  A stack and a free entry: the thread is created suspended, its stack, taken from the heap, holds its first frame, and nothing
  else that was not free memory changes.
\<close>

lemma create_ok:
  assumes k: "kinv s" and i: "mem_inv s bs" and sz: "unat ssize \<le> 2 ^ 32 - 8"
    and f: "last_fit (roundmb (stack_size ssize)) bs = Some (p, bs')"
    and fr: "\<exists>u. is_tid u \<and> tstate (thrtab s u) = THRFREE" and c: "0 \<le> thrcount s" "thrcount s < MAXKEY"
    and pr: "MINKEY < priority" "priority \<le> MAXKEY"
    and fits: "\<And>tid. 4 * length (initial_stack tid (p + roundmb (stack_size ssize) - 4) (stack_size ssize) procaddr initret args)
       \<le> unat (roundmb (stack_size ssize))"
  shows "\<exists>t s' sp. create initret procaddr ssize priority name args s = Some (t, s')
     \<and> is_tid t \<and> tstate (thrtab s t) = THRFREE \<and> kinv s' \<and> mem_inv s' bs' \<and> thrcurrent s' = thrcurrent s
     \<and> thrcount s' = thrcount s + 1 \<and> imask s' = norm_mask (imask s)
     \<and> thrtab s' = (thrtab s)(t := new_thread s t priority name (p + roundmb (stack_size ssize) - 4) (stack_size ssize) sp)
     \<and> words_at sp (initial_stack (word_of_int t) (p + roundmb (stack_size ssize) - 4) (stack_size ssize) procaddr initret args) (mem s')
     \<and> sp = p + roundmb (stack_size ssize)
         - 4 * of_nat (length (initial_stack (word_of_int t) (p + roundmb (stack_size ssize) - 4) (stack_size ssize) procaddr initret args))
     \<and> (\<forall>x. unat x \<notin> free_bytes bs \<longrightarrow> mem s' x = mem s x)"
proof -
  define n where "n = stack_size ssize"
  define a where "a = p + roundmb n - 4"
  have n: "n \<noteq> 0" "unat n \<le> 2 ^ 32 - 8" using sz by (auto simp: n_def)
  note f' = f [folded n_def]
  have b: "blocks_ok (unat (memheap s)) (unat (maxaddr s)) bs" "unat (maxaddr s) < 2 ^ 32"
    using i unsigned_less [of "maxaddr s"] by (simp_all add: mem_inv_def)
  note st = stack_taken [OF b(1) f' n b(2)]
  obtain v where u: "stkget n (s\<lparr>imask := (imask s)\<lparr>irqen := 0x80\<rparr>\<rparr>) = Some (a, v)"
    and v: "thrtab v = thrtab s" "thrcount v = thrcount s" "thrcurrent v = thrcurrent s" "kinv v" "mem_inv v bs'"
      "\<forall>x. unat x \<notin> free_bytes bs \<longrightarrow> mem v x = mem s x"
    using stkget_disabled [OF k i n f'] unfolding a_def by blast
  obtain t v' where n0: "thrnew v = (t, v')" by fastforce
  have t: "thrnew v = (t, v\<lparr>nexttid := t\<rparr>)" "is_tid t" "tstate (thrtab s t) = THRFREE"
    using thrnew_spec(1) [OF n0] fr n0 unfolding v(1) by simp_all
  let ?xs = "initial_stack (word_of_int t) a n procaddr initret args"
  obtain sp m where bs: "build_stack (word_of_int t) a n procaddr initret args (mem v) = (sp, m)" by fastforce
  note ff = first_frame [OF st(1) b(2) refl fits [folded n_def] bs [unfolded a_def]]
  define e where "e = new_thread s t priority name a n sp"
  define w where "w = v\<lparr>nexttid := t, thrcount := thrcount s + 1, mem := m, thrtab := (thrtab s)(t := e), imask := norm_mask (imask s)\<rparr>"
  have cr: "create initret procaddr ssize priority name args s = Some (t, w)"
    using create_steps [OF u [unfolded n_def] t(1,2)] bs st(4) c v(1-3)
    by (simp add: a_def [symmetric] n_def [symmetric] w_def e_def new_thread_def)
  have "w = v\<lparr>thrtab := (thrtab s)(t := e)\<rparr>\<lparr>nexttid := t, thrcount := thrcount s + 1, mem := m, imask := norm_mask (imask s)\<rparr>"
    by (cases v) (simp add: w_def)
  then have "kinv w"
    using kinv_new_thread [OF v(4) t(2), of e] t(3) pr unfolding v(1) by (simp add: e_def new_thread_def)
  moreover have "mem_inv w bs'" using mem_inv_frame [OF v(5), of m] ff(3) st(3) by (simp add: w_def mem_inv_def)
  moreover have "\<forall>x. unat x \<notin> free_bytes bs \<longrightarrow> mem w x = mem s x"
    using ff(3) subsetD [OF st(2)] v(6) unfolding w_def by simp metis
  ultimately show ?thesis using cr t(2,3) ff(1,2) v(3) unfolding n_def [symmetric] a_def [symmetric]
    by (intro exI [of _ t] exI [of _ w] exI [of _ sp]) (simp add: w_def e_def a_def)
qed

text \<open>Without memory, or without a free entry, \<^verbatim>\<open>create\<close> reports an error. In the second case the stack is lost.\<close>

lemma create_no_memory:
  assumes i: "mem_inv s bs" and f: "last_fit (roundmb (stack_size ssize)) bs = None"
  shows "\<exists>n. create initret procaddr ssize priority name args s = Some (SYSERR, s\<lparr>nexttid := n, imask := norm_mask (imask s)\<rparr>)"
proof -
  define z where "z = s\<lparr>imask := (imask s)\<lparr>irqen := 0x80\<rparr>\<rparr>"
  have "mem_inv z bs" using i by (simp add: z_def)
  then have g: "stkget (stack_size ssize) z = Some (-1, z\<lparr>imask := norm_mask (imask z)\<rparr>)" (is "_ = Some (_, ?v)")
    using f stack_size_ok by (rule stkget_none)
  obtain t w where n: "thrnew ?v = (t, w)" by fastforce
  then have "w = ?v\<lparr>nexttid := nexttid w\<rparr>" using thrnew_loop_spec [of 100 ?v t w] unfolding thrnew_def by auto
  then have "w\<lparr>imask := norm_mask (imask s)\<rparr> = s\<lparr>nexttid := nexttid w, imask := norm_mask (imask s)\<rparr>"
    unfolding z_def by (cases s; cases w) simp
  then show ?thesis using g n by (simp add: create_def irq_simps z_def [symmetric] Let_def) metis
qed

lemma create_no_slot:
  assumes k: "kinv s" and i: "mem_inv s bs" and sz: "unat ssize \<le> 2 ^ 32 - 8"
    and f: "last_fit (roundmb (stack_size ssize)) bs = Some (p, bs')"
    and fr: "\<forall>u. is_tid u \<longrightarrow> tstate (thrtab s u) \<noteq> THRFREE"
  shows "\<exists>s'. create initret procaddr ssize priority name args s = Some (SYSERR, s') \<and> kinv s' \<and> mem_inv s' bs' \<and> thrtab s' = thrtab s"
proof -
  have n: "unat (stack_size ssize) \<le> 2 ^ 32 - 8" using sz by auto
  obtain v where v: "stkget (stack_size ssize) (s\<lparr>imask := (imask s)\<lparr>irqen := 0x80\<rparr>\<rparr>) = Some (p + roundmb (stack_size ssize) - 4, v)"
    "kinv v" "mem_inv v bs'" "thrtab v = thrtab s" using stkget_disabled [OF k i stack_size_ok n f] by blast
  obtain t w where t: "thrnew v = (t, w)" by fastforce
  then have w: "t = SYSERR" "w = v\<lparr>nexttid := nexttid w\<rparr>" using thrnew_spec(2) [OF t] fr v(4) by simp_all
  define x where "x = nexttid w"
  have "w = v\<lparr>nexttid := x\<rparr>" using w(2) by (simp add: x_def)
  then show ?thesis using v t w(1) by (simp add: create_def irq_simps Let_def mem_inv_def)
qed

end
