(* ===== verification/Xinu_Kill.thy ===== *)
theory Xinu_Kill
  imports Xinu_Sem Xinu_Thread
begin

text \<open>
  The end of a thread: \<^verbatim>\<open>system/kill.c\<close>, \<^verbatim>\<open>system/xdone.c\<close> and
  \<^verbatim>\<open>system/userret.c\<close>. Killing a thread that is not asleep removes it from its queue, frees its
  entry and its stack and tells its parent; killing the last one stops the system. A sleeping thread stays in the sleep queue.
\<close>

section \<open>Ending a thread\<close>

text \<open>\<^verbatim>\<open>halt\<close> does not return; the message and the LED are not part of the state.\<close>

definition xdone :: "kernel \<Rightarrow> kernel" where
  "xdone s = (let (_, s) = disable s in s\<lparr>halted := True\<rparr>)"

text \<open>
  The cases of the \<^verbatim>\<open>switch\<close>, which fall through: after \<open>THRCURR\<close> and \<open>THRWAIT\<close> comes
  \<open>THRREADY\<close>, and then the default.
\<close>

definition kill_default :: "tid_typ \<Rightarrow> irqmask \<Rightarrow> kernel \<Rightarrow> (int call \<times> kernel) option" where
  "kill_default tid im s = do {
     s \<leftarrow> twr tid (tstate_update (\<lambda>_. THRFREE)) s;
     Some (Returned OK, restore im s)
   }"

definition kill_ready :: "tid_typ \<Rightarrow> irqmask \<Rightarrow> kernel \<Rightarrow> (int call \<times> kernel) option" where
  "kill_ready tid im s = do {
     (_, s) \<leftarrow> getitem tid s;
     kill_default tid im s
   }"

definition kill_wait :: "tid_typ \<Rightarrow> irqmask \<Rightarrow> kernel \<Rightarrow> (int call \<times> kernel) option" where
  "kill_wait tid im s = do {
     thrptr \<leftarrow> trd tid s;
     if tsem thrptr \<ge> NSEM then None
     else do {
       c \<leftarrow> ck (scount (semtab s (tsem thrptr)) + 1);
       kill_ready tid im (swr (tsem thrptr) (scount_update (\<lambda>_. c)) s)
     }
   }"

text \<open>After \<^verbatim>\<open>send\<close>, when the killing thread has the processor (again).\<close>

definition kill_rest :: "tid_typ \<Rightarrow> irqmask \<Rightarrow> kernel \<Rightarrow> (int call \<times> kernel) option" where
  "kill_rest tid im s = do {
     let me = thrcurrent s;
     thrptr \<leftarrow> trd tid s;
     (_, s) \<leftarrow> stkfree (stkbase thrptr) (stklen thrptr) s;
     thrptr \<leftarrow> trd tid s;
     (case tstate thrptr of
        THRSLEEP \<Rightarrow> do {
          s \<leftarrow> twr tid (tstate_update (\<lambda>_. THRFREE)) s;
          (_, s) \<leftarrow> unsleep tid s;
          Some (Returned OK, restore im s)
        }
      | THRCURR \<Rightarrow> do {
          s \<leftarrow> twr tid (tstate_update (\<lambda>_. THRFREE)) s;
          (_, s) \<leftarrow> resched s;
          if thrcurrent s = me then kill_wait tid im s else Some (Switched, s)
        }
      | THRWAIT \<Rightarrow> kill_wait tid im s
      | THRREADY \<Rightarrow> kill_ready tid im s
      | _ \<Rightarrow> kill_default tid im s)
   }"

definition kill :: "tid_typ \<Rightarrow> kernel \<Rightarrow> (int call \<times> kernel) option" where
  "kill tid s = do {
     let me = thrcurrent s;
     let (im, s) = disable s;
     if isbadtid tid s \<or> tid = NULLTHREAD then Some (Returned SYSERR, restore im s)
     else do {
       n \<leftarrow> ck (thrcount s - 1);
       let s = s\<lparr>thrcount := n\<rparr>;
       if n \<le> 1 then Some (Switched, xdone s)
       else do {
         thrptr \<leftarrow> trd tid s;
         (_, s) \<leftarrow> send (parent thrptr) tid s;
         if thrcurrent s = me then kill_rest tid im s else Some (Switched, s)
       }
     }
   }"

definition userret :: "kernel \<Rightarrow> (int call \<times> kernel) option" where
  "userret s = kill (gettid s) s"

section \<open>A thread leaves its queue\<close>

text \<open>A waiting thread leaves the queue of its semaphore, wherever in it, as the count goes up.\<close>

lemma sem_drop:
  assumes k: "kinv s" and t: "is_tid t" "tstate (thrtab s t) = THRWAIT" and i: "i = tsem (thrtab s t)"
    and d: "d = set_count i (scount (semtab s i) + 1) s"
  shows "\<exists>qt. getitem t d = Some (t, d\<lparr>quetab := qt\<rparr>) \<and> kmid {t} (d\<lparr>quetab := qt\<rparr>)
     \<and> (\<forall>q\<in>qheads s. queue_of qt q = remove1 t (contents s q))"
proof -
  note k0 = kinvD(1) [OF k]
  have iN: "i < NSEM" using kpreD(2) [OF k0] t unfolding thread_inv_def i by blast
  note l = sem_layout [OF k0 iN] and o = sem_okD [OF k0 iN]
  have q: "queue_inv {} d" by (rule queue_inv_cong [OF kpreD(1) [OF k0]]) (simp_all add: d)
  have h: "qheads d = qheads s" "quetab d = quetab s" "qhome d t = Some (squeue (semtab s i))"
    using t i by (simp_all add: d qhome_def)
  obtain qt xs ys where g: "getitem t d = Some (t, d\<lparr>quetab := qt\<rparr>)" "contents s (squeue (semtab s i)) = xs @ t # ys"
    and q2: "queue_inv {t} (d\<lparr>quetab := qt\<rparr>)"
    and c2: "\<forall>r\<in>qheads s. queue_of qt r = (if r = squeue (semtab s i) then xs @ ys else contents s r)"
    and k2: "\<forall>j. qkey (qt j) = qkey (quetab s j)"
    using k_getitem [OF q t(1) _ h(3)] sem_head_in [OF iN, of s] unfolding h(1,2) by auto
  have "thread_inv (d\<lparr>quetab := qt\<rparr>)" by (rule thread_inv_cong [OF kpreD(2) [OF k0]]) (simp_all add: d)
  moreover have "ready_inv (d\<lparr>quetab := qt\<rparr>)"
    by (rule ready_inv_cong [OF kpreD(3) [OF k0]]) (use c2 k2 l(1) in \<open>simp_all add: d\<close>)
  moreover have "sem_ok (d\<lparr>quetab := qt\<rparr>) j" if "j < NSEM" "sem_ok s j" for j
    using that c2 sem_head_in [OF that(1), of s] o l(3) [OF that(1)] g(2) iN by (auto simp: sem_ok_def d)
  then have "rest_inv (d\<lparr>quetab := qt\<rparr>)"
    by (intro rest_invI [OF kpreD(4) [OF k0]]) (use c2 k2 l(2) in \<open>auto simp: d\<close>)
  ultimately have "kmid {t} (d\<lparr>quetab := qt\<rparr>)" using q2 by (auto simp: kmid_def)
  moreover have "queue_of qt r = remove1 t (contents s r)" if "r \<in> qheads s" for r
  proof -
    have "distinct (contents s r)" using qsysD(1) [OF queue_invD(1) [OF kpreD(1) [OF k0]] that] by (simp add: isq_def)
    moreover have "t \<notin> set (contents s r)" if "r \<noteq> squeue (semtab s i)"
      using queue_inv_mem [OF kpreD(1) [OF k0] \<open>r \<in> qheads s\<close>, of t] that t i by (simp add: qhome_state)
    ultimately show ?thesis using c2 that g(2) by (auto simp: remove1_append remove1_idem)
  qed
  ultimately show ?thesis using g(1) by blast
qed

text \<open>The last step: the entry of a thread that is in no queue becomes free.\<close>

definition freed :: "tid_typ \<Rightarrow> kernel \<Rightarrow> kernel" where
  "freed t s = s\<lparr>thrtab := (thrtab s)(t := (thrtab s t)\<lparr>tstate := THRFREE\<rparr>)\<rparr>"

lemma kill_default_spec:
  assumes k: "kmid {t} s" and t: "is_tid t" "t \<noteq> NULLTHREAD" "t \<noteq> thrcurrent s" and c: "tstate (thrtab s (thrcurrent s)) = THRCURR"
  shows "kill_default t im s = Some (Returned OK, (freed t s)\<lparr>imask := norm_mask im\<rparr>)" and "kinv (freed t s)"
proof -
  show "kill_default t im s = Some (Returned OK, (freed t s)\<lparr>imask := norm_mask im\<rparr>)"
    using t by (simp add: kill_default_def twr_def irq_simps freed_def)
  have "kmid {t} (freed t s)" unfolding freed_def using t by (intro kmid_entry [OF k]) simp_all
  then have "kpre (freed t s)" by (subst (asm) kmid_park) (simp_all add: qhome_state freed_def)
  then show "kinv (freed t s)" using t(3) c by (simp add: kinv_def freed_def)
qed

text \<open>
  \<open>gone t s s'\<close>: thread \<open>t\<close>, and nothing else of the thread table and the queues, has left.
\<close>

definition gone :: "tid_typ \<Rightarrow> kernel \<Rightarrow> kernel \<Rightarrow> bool" where
  "gone t s s' \<longleftrightarrow> kinv s' \<and> thrtab s' = (thrtab s)(t := (thrtab s t)\<lparr>tstate := THRFREE\<rparr>) \<and> thrcurrent s' = thrcurrent s
     \<and> (\<forall>q\<in>qheads s. contents s' q = remove1 t (contents s q))
     \<and> (\<forall>i<NSEM. scount (semtab s' i) = scount (semtab s i)
          + (if tstate (thrtab s t) = THRWAIT \<and> tsem (thrtab s t) = i then 1 else 0))
     \<and> mem s' = mem s \<and> memlist s' = memlist s \<and> memheap s' = memheap s \<and> maxaddr s' = maxaddr s \<and> thrcount s' = thrcount s"

lemma not_queued:
  assumes "kinv s" and "qhome s t = None" and "q \<in> qheads s"
  shows "remove1 t (contents s q) = contents s q"
  using queue_inv_mem [OF kpreD(1) [OF kinvD(1) [OF assms(1)]] assms(3), of t] assms(2) by (simp add: remove1_idem)

lemma kill_default_gone:
  assumes k: "kinv s" and t: "is_tid t" "t \<noteq> NULLTHREAD" and st: "tstate (thrtab s t) \<in> {THRSUSP, THRRECV, THRFREE}"
  shows "\<exists>s'. kill_default t im s = Some (Returned OK, s'\<lparr>imask := norm_mask im\<rparr>) \<and> gone t s s'"
proof -
  have h: "qhome s t = None" and tc: "t \<noteq> thrcurrent s" using st kinvD(2) [OF k] by (auto simp: qhome_state)
  have "kmid {t} s" using kinvD(1) [OF k] h by (simp add: kmid_park)
  note d = kill_default_spec [OF this t tc kinvD(2) [OF k]]
  show ?thesis using d not_queued [OF k h] st by (auto simp: gone_def freed_def)
qed

lemma kill_ready_gone:
  assumes k: "kinv s" and t: "is_tid t" "t \<noteq> NULLTHREAD" and st: "tstate (thrtab s t) = THRREADY"
  shows "\<exists>s'. kill_ready t im s = Some (Returned OK, s'\<lparr>imask := norm_mask im\<rparr>) \<and> gone t s s'"
proof -
  have tc: "t \<noteq> thrcurrent s" using st kinvD(2) [OF k] by auto
  obtain qt where g: "getitem t s = Some (t, s\<lparr>quetab := qt\<rparr>)" and k1: "kmid {t} (s\<lparr>quetab := qt\<rparr>)"
    and c: "queue_of qt (readylist s) = remove1 t (contents s (readylist s))"
      "\<forall>q\<in>qheads s. q \<noteq> readylist s \<longrightarrow> queue_of qt q = contents s q"
    using k_unready [OF kinvD(1) [OF k] t(1) _ st] by auto
  note d = kill_default_spec [OF k1 t]
  have "queue_of qt q = remove1 t (contents s q)" if "q \<in> qheads s" for q
    using c that queue_inv_mem [OF kpreD(1) [OF kinvD(1) [OF k]] that, of t] st
    by (cases "q = readylist s") (auto simp: qhome_state remove1_idem)
  then show ?thesis using d g tc kinvD(2) [OF k] st by (auto simp: gone_def freed_def kill_ready_def)
qed

lemma kill_wait_gone:
  assumes k: "kinv s" and t: "is_tid t" "t \<noteq> NULLTHREAD" and st: "tstate (thrtab s t) = THRWAIT"
  shows "\<exists>s'. kill_wait t im s = Some (Returned OK, s'\<lparr>imask := norm_mask im\<rparr>) \<and> gone t s s'"
proof -
  define i where "i = tsem (thrtab s t)"
  have tc: "t \<noteq> thrcurrent s" using st kinvD(2) [OF k] by auto
  have iN: "i < NSEM" using kpreD(2) [OF kinvD(1) [OF k]] t st unfolding thread_inv_def i_def by blast
  define d where "d = set_count i (scount (semtab s i) + 1) s"
  obtain qt where g: "getitem t d = Some (t, d\<lparr>quetab := qt\<rparr>)" and k1: "kmid {t} (d\<lparr>quetab := qt\<rparr>)"
    and c: "\<forall>q\<in>qheads s. queue_of qt q = remove1 t (contents s q)"
    using sem_drop [OF k t(1) st i_def d_def] by blast
  note r = kill_default_spec [OF k1 t]
  have "scount (semtab s i) < 0"
    using sem_waiters [OF kinvD(1) [OF k] iN] queue_inv_mem [OF kpreD(1) [OF kinvD(1) [OF k]] sem_head_in [OF iN], of t]
      t st by (auto simp: qhome_state i_def)
  then have "kill_wait t im s = kill_ready t im d"
    using scount_bound [OF kinvD(1) [OF k] iN] iN [unfolded not_le [symmetric]] t by (simp add: kill_wait_def trd_def i_def [symmetric] swr_count d_def)
  then show ?thesis using r g c tc kinvD(2) [OF k] st by (auto simp: gone_def freed_def kill_ready_def d_def i_def set_count_def)
qed


text \<open>What follows the message to the parent: the stack goes back to the heap, and the thread leaves.\<close>

lemma kill_rest_gone:
  assumes k: "kinv s" and t: "is_tid t" "t \<noteq> NULLTHREAD" and st: "tstate (thrtab s t) \<in> {THRREADY, THRSUSP, THRRECV, THRWAIT}"
    and f: "stkfree (stkbase (thrtab s t)) (stklen (thrtab s t)) s = Some (r, v\<lparr>imask := m\<rparr>)" and v: "mem_only s v"
  shows "\<exists>s'. kill_rest t im s = Some (Returned OK, s'\<lparr>imask := norm_mask im\<rparr>) \<and> gone t (v\<lparr>imask := m\<rparr>) s'"
proof -
  define w where "w = v\<lparr>imask := m\<rparr>"
  have kw: "kinv w" using kinv_mem_only [OF v] k by (simp add: w_def)
  have s: "thrtab w = thrtab s" using mem_only_fields [OF v] by (simp add: w_def)
  have "kill_rest t im s = (case tstate (thrtab s t) of THRWAIT \<Rightarrow> kill_wait t im w | THRREADY \<Rightarrow> kill_ready t im w
      | _ \<Rightarrow> kill_default t im w)"
    using st t f s by (auto simp: kill_rest_def trd_def w_def [symmetric])
  then show ?thesis using st kill_wait_gone [OF kw t, of im] kill_ready_gone [OF kw t, of im] kill_default_gone [OF kw t, of im]
    by (fold w_def) (auto simp: s)
qed

lemma kill_rest_self:
  assumes k: "kinv s" and t: "t = thrcurrent s" "t \<noteq> NULLTHREAD"
    and f: "stkfree (stkbase (thrtab s t)) (stklen (thrtab s t)) s = Some (r, v\<lparr>imask := m\<rparr>)" and v: "mem_only s v"
  shows "\<exists>s'. kill_rest t im s = Some (Switched, s') \<and> kinv s' \<and> dispatched (freed t (v\<lparr>imask := m\<rparr>)) s' \<and> thrcurrent s' \<noteq> t"
proof -
  define w where "w = v\<lparr>imask := m\<rparr>"
  have kw: "kinv w" using kinv_mem_only [OF v] k by (simp add: w_def)
  have s: "thrtab w = thrtab s" "thrcurrent w = thrcurrent s" using mem_only_fields [OF v] by (simp_all add: w_def)
  have tt: "is_tid t" using kpreD(2) [OF kinvD(1) [OF k]] t(1) by (simp add: thread_inv_def)
  have "kpre (freed t w)" using kpre_block [OF kw, of "(thrtab w t)\<lparr>tstate := THRFREE\<rparr>"] t s by (simp add: freed_def)
  then obtain s' where r: "resched (freed t w) = Some (OK, s')" "kinv s'" "dispatched (freed t w) s'"
    using resched_spec by blast
  have n: "thrcurrent s' \<noteq> t" using dispatched_other [OF \<open>kpre (freed t w)\<close> r(3)] t s by (simp add: freed_def)
  have "kill_rest t im s = Some (Switched, s')"
    using kinvD(2) [OF k] t tt f s r n by (simp add: kill_rest_def trd_def w_def [symmetric] twr_def freed_def Let_def)
  then show ?thesis using r(2,3) n by (simp add: w_def)
qed


text \<open>
  A sleeping thread is marked free before \<^verbatim>\<open>unsleep\<close> runs, which then refuses it: the entry is
  free and still in the sleep queue.
\<close>

lemma kill_rest_sleeping:
  assumes k: "kinv s" and t: "is_tid t" and st: "tstate (thrtab s t) = THRSLEEP"
    and f: "stkfree (stkbase (thrtab s t)) (stklen (thrtab s t)) s = Some (r, v\<lparr>imask := m\<rparr>)" and v: "mem_only s v"
  shows "kill_rest t im s = Some (Returned OK, (freed t v)\<lparr>imask := norm_mask im\<rparr>)"
    and "t \<in> set (contents (freed t v) (sleepq s))" and "\<not> kinv (freed t v)"
proof -
  have s: "thrtab v = thrtab s" using mem_only_fields [OF v] by simp
  have q: "quetab v = quetab s" "sleepq v = sleepq s"
    using arg_cong [OF v [unfolded mem_only_def], of quetab] arg_cong [OF v [unfolded mem_only_def], of sleepq] by simp_all
  show "kill_rest t im s = Some (Returned OK, (freed t v)\<lparr>imask := norm_mask im\<rparr>)"
    using st t f s by (simp add: kill_rest_def trd_def twr_def unsleep_def isbadtid_def irq_simps freed_def Let_def)
  show i: "t \<in> set (contents (freed t v) (sleepq s))"
    using queue_inv_mem [OF kpreD(1) [OF kinvD(1) [OF k]], of "sleepq s" t] t st by (simp add: freed_def q qhome_state)
  show "\<not> kinv (freed t v)"
  proof
    assume "kinv (freed t v)"
    then have "qhome (freed t v) t = Some (sleepq s)"
      using queue_inv_mem [OF kpreD(1) [OF kinvD(1)], of "freed t v" "sleepq s" t] i q by (simp add: freed_def qheads_def)
    then show False by (simp add: freed_def qhome_state)
  qed
qed

section \<open>The whole call\<close>

lemma kill_error:
  assumes "isbadtid t s \<or> t = NULLTHREAD"
  shows "kill t s = Some (Returned SYSERR, s\<lparr>imask := norm_mask (imask s)\<rparr>)"
  using assms by (auto simp: kill_def irq_simps isbadtid_def)

text \<open>When only the null thread would be left, the system stops.\<close>

lemma kill_last:
  assumes "\<not> isbadtid t s" and "t \<noteq> NULLTHREAD" and "MINKEY < thrcount s" and "thrcount s \<le> 2"
  shows "\<exists>s'. kill t s = Some (Switched, s') \<and> halted s' \<and> thrtab s' = thrtab s"
  using assms by (simp add: kill_def irq_simps isbadtid_def xdone_def Let_def)

text \<open>A parent that is not waiting for a message gets it in its entry, unless one is there already.\<close>

definition receptive :: "tid_typ \<Rightarrow> kernel \<Rightarrow> bool" where
  "receptive p s \<longleftrightarrow> \<not> isbadtid p s \<and> \<not> hasmsg (thrtab s p) \<and> tstate (thrtab s p) \<in> {THRRECV, THRTMOUT}"

definition posted :: "tid_typ \<Rightarrow> message \<Rightarrow> kernel \<Rightarrow> kernel" where
  "posted p m s = (if isbadtid p s \<or> hasmsg (thrtab s p) then s else deposited p m s)"

lemma send_posted:
  assumes "\<not> receptive p s"
  shows "\<exists>r. send p m s = Some (r, (posted p m s)\<lparr>imask := norm_mask (imask s)\<rparr>)"
  using assms send_error [of p s m] send_running [of p s m] by (auto simp: receptive_def posted_def)

lemma posted_kinv: "kinv s \<Longrightarrow> kinv (posted p m s)"
  by (simp add: posted_def kinv_deposited)

lemma posted_entry:
  "tstate (thrtab (posted p m s) t) = tstate (thrtab s t)" "stkbase (thrtab (posted p m s) t) = stkbase (thrtab s t)"
  "stklen (thrtab (posted p m s) t) = stklen (thrtab s t)" "tsem (thrtab (posted p m s) t) = tsem (thrtab s t)"
  "thrcurrent (posted p m s) = thrcurrent s"
  by (simp_all add: posted_def deposited_def)


lemma stack_returned:
  assumes i: "mem_inv s bs" and n: "unat n \<le> 2 ^ 32 - 8"
    and m: "may_free (unat (memheap s)) (unat (maxaddr s)) (stack_base p n) (roundmb n) bs"
  shows "\<exists>v m. stkfree p n s = Some (OK, v\<lparr>imask := m\<rparr>) \<and> mem_only s v \<and> mem_inv v (give_back (stack_base p n) (roundmb n) bs)"
proof -
  have r: "roundmb (roundmb n) = roundmb n" "unat (roundmb n) \<le> 2 ^ 32 - 8"
    using roundmb_id roundmb_spec(1) [OF n] al8_bound by simp_all
  show ?thesis using memfree_spec [OF i r(2), unfolded r(1), OF m] unfolding stkfree_def stack_base_def by blast
qed

text \<open>
  The state in which \<^verbatim>\<open>kill\<close> has counted the thread out and told the parent.
\<close>

definition counted_out :: "tid_typ \<Rightarrow> kernel \<Rightarrow> kernel" where
  "counted_out t s = (posted (parent (thrtab s t)) t (s\<lparr>thrcount := thrcount s - 1\<rparr>))"

lemma posted_frame:
  "posted p m (s\<lparr>thrcount := n\<rparr>) = (posted p m s)\<lparr>thrcount := n\<rparr>" "posted p m (s\<lparr>imask := im\<rparr>) = (posted p m s)\<lparr>imask := im\<rparr>"
  "receptive p (s\<lparr>thrcount := n\<rparr>) = receptive p s" "receptive p (s\<lparr>imask := im\<rparr>) = receptive p s"
  by (simp_all add: posted_def deposited_def receptive_def isbadtid_def)

lemma kill_told:
  assumes t: "\<not> isbadtid t s" "t \<noteq> NULLTHREAD" and n: "2 < thrcount s" "thrcount s \<le> MAXKEY"
    and p: "\<not> receptive (parent (thrtab s t)) s"
  shows "\<exists>m. kill t s = kill_rest t (imask s) ((counted_out t s)\<lparr>imask := m\<rparr>)"
proof -
  define z where "z = s\<lparr>thrcount := thrcount s - 1, imask := (imask s)\<lparr>irqen := 0x80\<rparr>\<rparr>"
  have z: "thrtab z = thrtab s" "thrcurrent z = thrcurrent s" by (simp_all add: z_def)
  have "\<not> receptive (parent (thrtab s t)) z" using p by (simp add: z_def posted_frame)
  then obtain r where r: "send (parent (thrtab s t)) t z = Some (r, (posted (parent (thrtab s t)) t z)\<lparr>imask := norm_mask (imask z)\<rparr>)"
    using send_posted by blast
  have c: "(posted (parent (thrtab s t)) t z)\<lparr>imask := m\<rparr> = (counted_out t s)\<lparr>imask := m\<rparr>" for m
    by (simp add: z_def counted_out_def posted_frame)
  show ?thesis using t n r unfolding c
    by (auto simp: kill_def irq_simps isbadtid_def trd_def z_def [symmetric] z Let_def counted_out_def posted_entry)
qed


lemma counted_out_sel:
  "tstate (thrtab (counted_out t s) u) = tstate (thrtab s u)" "stkbase (thrtab (counted_out t s) u) = stkbase (thrtab s u)"
  "stklen (thrtab (counted_out t s) u) = stklen (thrtab s u)" "tsem (thrtab (counted_out t s) u) = tsem (thrtab s u)"
  "thrcurrent (counted_out t s) = thrcurrent s" "quetab (counted_out t s) = quetab s" "semtab (counted_out t s) = semtab s"
  "mem (counted_out t s) = mem s" "memlist (counted_out t s) = memlist s" "memheap (counted_out t s) = memheap s"
  "maxaddr (counted_out t s) = maxaddr s" "thrcount (counted_out t s) = thrcount s - 1" "qheads (counted_out t s) = qheads s"
  "readylist (counted_out t s) = readylist s" "sleepq (counted_out t s) = sleepq s"
  by (simp_all add: counted_out_def posted_def deposited_def)

lemma counted_out_kinv: "kinv s \<Longrightarrow> kinv (counted_out t s)"
  by (simp add: counted_out_def posted_kinv)

text \<open>
  Killing another thread that is ready, suspended or waits for a message or a semaphore: it leaves its queue, its entry is free,
  its stack is free memory again, the semaphore it waited for counts one waiting thread less, and the parent has the message.
\<close>

lemma kill_spec:
  assumes k: "kinv s" and t: "\<not> isbadtid t s" "t \<noteq> NULLTHREAD" and st: "tstate (thrtab s t) \<in> {THRREADY, THRSUSP, THRRECV, THRWAIT}"
    and n: "2 < thrcount s" "thrcount s \<le> MAXKEY" and p: "\<not> receptive (parent (thrtab s t)) s"
    and i: "mem_inv s bs" and l: "unat (stklen (thrtab s t)) \<le> 2 ^ 32 - 8" and b: "b = stack_base (stkbase (thrtab s t)) (stklen (thrtab s t))"
    and m: "may_free (unat (memheap s)) (unat (maxaddr s)) b (roundmb (stklen (thrtab s t))) bs"
  shows "\<exists>s'. kill t s = Some (Returned OK, s') \<and> kinv s' \<and> imask s' = norm_mask (imask s) \<and> thrcurrent s' = thrcurrent s
     \<and> thrtab s' = (thrtab (counted_out t s))(t := (thrtab (counted_out t s) t)\<lparr>tstate := THRFREE\<rparr>)
     \<and> thrcount s' = thrcount s - 1 \<and> mem_inv s' (give_back b (roundmb (stklen (thrtab s t))) bs)
     \<and> (\<forall>q\<in>qheads s. contents s' q = remove1 t (contents s q))
     \<and> (\<forall>i<NSEM. scount (semtab s' i) = scount (semtab s i)
          + (if tstate (thrtab s t) = THRWAIT \<and> tsem (thrtab s t) = i then 1 else 0))"
proof -
  obtain x where kl: "kill t s = kill_rest t (imask s) ((counted_out t s)\<lparr>imask := x\<rparr>)" using kill_told [OF t n p] by blast
  define c where "c = (counted_out t s)\<lparr>imask := x\<rparr>"
  have kc: "kinv c" using counted_out_kinv [OF k] by (simp add: c_def)
  have tt: "is_tid t" using t by (auto simp: isbadtid_def)
  have "mem_inv c bs" using i by (simp add: c_def mem_inv_def counted_out_sel)
  then obtain v y where f: "stkfree (stkbase (thrtab c t)) (stklen (thrtab c t)) c = Some (OK, v\<lparr>imask := y\<rparr>)" "mem_only c v"
    "mem_inv v (give_back b (roundmb (stklen (thrtab s t))) bs)"
    using stack_returned [of c bs "stklen (thrtab c t)" "stkbase (thrtab c t)"] l m b by (auto simp: c_def counted_out_sel)
  obtain s' where s': "kill_rest t (imask s) c = Some (Returned OK, s'\<lparr>imask := norm_mask (imask s)\<rparr>)" "gone t (v\<lparr>imask := y\<rparr>) s'"
    using kill_rest_gone [OF kc tt t(2) _ f(1,2), of "imask s"] st by (auto simp: c_def counted_out_sel)
  note e = f(2) [unfolded mem_only_def]
  have "quetab v = quetab s" "semtab v = semtab s" "qheads v = qheads s" "thrtab v = thrtab (counted_out t s)"
    using arg_cong [OF e, of quetab] arg_cong [OF e, of semtab] arg_cong [OF e, of qheads] mem_only_fields [OF f(2)]
    by (simp_all add: c_def counted_out_sel qheads_def)
  moreover have "thrcurrent v = thrcurrent s" "thrcount v = thrcount s - 1"
    using mem_only_fields [OF f(2)] by (simp_all add: c_def counted_out_sel)
  ultimately show ?thesis using kl s' f(3) unfolding gone_def
    by (fold c_def) (auto simp: mem_inv_def counted_out_sel)
qed

end
