(* ===== verification/Xinu_Boot.thy ===== *)
theory Xinu_Boot
  imports Xinu_Mailbox Xinu_Kill
begin

text \<open>
  Start-up: \<^verbatim>\<open>sysinit\<close> and the end of \<^verbatim>\<open>nulluser\<close> of \<^verbatim>\<open>system/initialize.c\<close>, and
  \<^verbatim>\<open>clkinit\<close>. The lemmas show that start-up establishes the invariant of the kernel and
  of the heap. The device table is generated by the build: \<open>ndevs\<close> is its length and
  \<open>devinit i\<close> the initialisation of device \<open>i\<close>.
\<close>

section \<open>The operations\<close>

text \<open>The loops over the tables; the fields of a semaphore are all set.\<close>

definition thr_free :: "int \<Rightarrow> kernel \<Rightarrow> kernel" where
  "thr_free i s = s\<lparr>thrtab := (thrtab s)(i := (thrtab s i)\<lparr>tstate := THRFREE\<rparr>)\<rparr>"

definition bfp_free :: "int \<Rightarrow> kernel \<Rightarrow> kernel" where
  "bfp_free i s = s\<lparr>bfptab := (bfptab s)(i := (bfptab s i)\<lparr>bstate := BFPFREE\<rparr>)\<rparr>"

fun sem_init_loop :: "semaphore list \<Rightarrow> kernel \<Rightarrow> kernel option" where
  "sem_init_loop [] s = Some s"
| "sem_init_loop (i # is) s = do {
     let s = swr i (\<lambda>e. e\<lparr>sstate := SFREE, scount := 0\<rparr>) s;
     (q, s) \<leftarrow> queinit s;
     sem_init_loop is (swr i (squeue_update (\<lambda>_. q)) s)
   }"

fun dev_init_loop :: "(int \<Rightarrow> kernel \<Rightarrow> kernel option) \<Rightarrow> int \<Rightarrow> int list \<Rightarrow> kernel \<Rightarrow> kernel option" where
  "dev_init_loop devinit ndevs [] s = Some s"
| "dev_init_loop devinit ndevs (i # is) s = do {
     s \<leftarrow> (if 0 \<le> i \<and> i < ndevs then devinit i s else Some s);
     dev_init_loop devinit ndevs is s
   }"

definition clkinit :: "u32 \<Rightarrow> kernel \<Rightarrow> kernel option" where
  "clkinit handler s = do {
     (q, s) \<leftarrow> queinit s;
     let s = s\<lparr>sleepq := q\<rparr>;
     let s = s\<lparr>clkticks := 0\<rparr>;
     let s = register_irq IRQ_TIMER handler s;
     (_, s) \<leftarrow> enable_irq IRQ_TIMER s;
     clkupdate (clkfreq s div CLKTICKS_PER_SEC) s
   }"

text \<open>The first part of \<^verbatim>\<open>sysinit\<close>: the free list and the thread table. \<open>end_addr\<close> is \<^verbatim>\<open>&_end\<close>.\<close>

definition init_memory :: "kernel \<Rightarrow> kernel option" where
  "init_memory s = do {
     let s = s\<lparr>memheap := roundmb (memheap s)\<rparr>;
     let s = s\<lparr>maxaddr := truncmb (maxaddr s)\<rparr>;
     let pmblock = memheap s;
     let s = s\<lparr>memlist := \<lparr>mb_next = pmblock, mb_length = maxaddr s - memheap s\<rparr>\<rparr>;
     s \<leftarrow> set_next (MBlk pmblock) 0 s;
     set_len (MBlk pmblock) (maxaddr s - memheap s) s
   }"

definition init_threads :: "u32 \<Rightarrow> kernel \<Rightarrow> kernel" where
  "init_threads end_addr s =
     (let s = fold thr_free [0..99] s;
          s = s\<lparr>thrtab := (thrtab s)(NULLTHREAD := (thrtab s NULLTHREAD)\<lparr>tstate := THRCURR, prio := 0,
                tname := ''prnull'', stkbase := end_addr, stklen := memheap s - end_addr, stkptr := 0,
                tmemlist := \<lparr>mb_next = 0, mb_length = 0\<rparr>\<rparr>)\<rparr>
      in s\<lparr>thrcurrent := NULLTHREAD\<rparr>)"

definition init_tables :: "u32 \<Rightarrow> kernel \<Rightarrow> kernel option" where
  "init_tables end_addr s = do {
     let s = s\<lparr>thrcount := 1\<rparr>;
     s \<leftarrow> init_memory s;
     let s = init_threads end_addr s;
     sem_init_loop (map word_of_int [0..99]) s
   }"

definition sysinit :: "u32 \<Rightarrow> u32 \<Rightarrow> (int \<Rightarrow> kernel \<Rightarrow> kernel option) \<Rightarrow> int \<Rightarrow> kernel \<Rightarrow> (int \<times> kernel) option" where
  "sysinit end_addr clkhandler_addr devinit ndevs s = do {
     s \<leftarrow> init_tables end_addr s;
     let s = fold bfp_free [0..7] s;
     (q, s) \<leftarrow> queinit s;
     let s = s\<lparr>readylist := q\<rparr>;
     s \<leftarrow> clkinit clkhandler_addr s;
     let (_, s) = mailboxInit s;
     s \<leftarrow> dev_init_loop devinit ndevs [0..ndevs - 1] s;
     Some (OK, s)
   }"

text \<open>
  The end of \<^verbatim>\<open>nulluser\<close>: enable interrupts, create the main thread and make it ready
  without rescheduling; the null thread then waits for interrupts.
\<close>

definition nulluser_start :: "u32 \<Rightarrow> u32 \<Rightarrow> u32 \<Rightarrow> u32 \<Rightarrow> kernel \<Rightarrow> kernel option" where
  "nulluser_start initret main_addr initstk nul s = do {
     let (_, s) = enable s;
     (tid, s) \<leftarrow> create initret main_addr initstk 20 ''MAIN'' [0, nul] s;
     (_, s) \<leftarrow> ready tid False s;
     Some s
   }"

section \<open>Start-up establishes the invariants\<close>

text \<open>The variables with an initial value other than the value at reset are the static counters.\<close>

definition reset_state :: "kernel \<Rightarrow> bool" where
  "reset_state s \<longleftrightarrow> nextqid s = NTHREAD \<and> nextsem s = 0 \<and> nexttid s = 0 \<and> nextmbx s = 0 \<and> resdefer s = 0
     \<and> (\<forall>t. prio (thrtab s t) = 0)
     \<and> 0 < unat (memheap s) \<and> unat (memheap s) + 16 \<le> unat (maxaddr s)"

lemma queinit_ok:
  assumes "qsys H (quetab s) (\<lambda>_. [])" and "even (nextqid s)" and "NTHREAD \<le> nextqid s"
    and "nextqid s + 1 < NQENT" and "nextqid s \<notin> H"
  shows "\<exists>qt. queinit s = Some (nextqid s, s\<lparr>nextqid := nextqid s + 2, quetab := qt\<rparr>)
     \<and> qsys (insert (nextqid s) H) qt (\<lambda>_. [])"
proof -
  have "(\<lambda>_. [])(nextqid s := []) = (\<lambda>_. [] :: tid_typ list)" by (simp add: fun_eq_iff)
  then show ?thesis using queinit_spec [OF assms] by simp
qed

text \<open>Semaphore \<open>i\<close> gets the queue \<open>NTHREAD + 2 * i\<close>.\<close>

definition sem_heads :: "nat \<Rightarrow> qid_typ set" where
  "sem_heads n = (\<lambda>i. 100 + 2 * int i) ` {..<n}"

lemma sement_all: "e\<lparr>sstate := a, scount := b, squeue := c\<rparr> = \<lparr>sstate = a, scount = b, squeue = c\<rparr>" for e :: sement
  by (cases e) simp

lemma sement_two: "e\<lparr>sstate := a, scount := b\<rparr> = \<lparr>sstate = a, scount = b, squeue = squeue e\<rparr>" for e :: sement
  by (cases e) simp

lemma sem_init_loop_spec:
  assumes "n + k \<le> 102" and "qsys (sem_heads n) (quetab s) (\<lambda>_. [])" and "nextqid s = 100 + 2 * int n"
  shows "\<exists>s'. sem_init_loop (map of_nat [n..<n + k]) s = Some s' \<and> qsys (sem_heads (n + k)) (quetab s') (\<lambda>_. [])
     \<and> s' = s\<lparr>quetab := quetab s', nextqid := 100 + 2 * int (n + k), semtab := semtab s'\<rparr>
     \<and> (\<forall>i. n \<le> i \<and> i < n + k \<longrightarrow> semtab s' (of_nat i) = \<lparr>sstate = SFREE, scount = 0, squeue = 100 + 2 * int i\<rparr>)
     \<and> (\<forall>i<n. semtab s' (of_nat i) = semtab s (of_nat i))"
  using assms
proof (induction k arbitrary: n s)
  case 0
  then show ?case by (intro exI [of _ s]) auto
next
  case (Suc k)
  let ?s0 = "swr (of_nat n) (\<lambda>e. e\<lparr>sstate := SFREE, scount := 0\<rparr>) s"
  have s0: "quetab ?s0 = quetab s" "nextqid ?s0 = 100 + 2 * int n" using Suc.prems(3) by (simp_all add: swr_def)
  have "100 + 2 * int n \<notin> sem_heads n" by (auto simp: sem_heads_def)
  moreover have "sem_heads (Suc n) = insert (100 + 2 * int n) (sem_heads n)" by (simp add: sem_heads_def lessThan_Suc)
  ultimately obtain qt where q: "queinit ?s0 = Some (100 + 2 * int n, ?s0\<lparr>nextqid := 100 + 2 * int (Suc n), quetab := qt\<rparr>)"
    "qsys (sem_heads (Suc n)) qt (\<lambda>_. [])"
    using queinit_ok [of "sem_heads n" ?s0] Suc.prems s0 by auto
  define s1 where "s1 = swr (of_nat n) (squeue_update (\<lambda>_. 100 + 2 * int n)) (?s0\<lparr>nextqid := 100 + 2 * int (Suc n), quetab := qt\<rparr>)"
  have s1: "quetab s1 = qt" "nextqid s1 = 100 + 2 * int (Suc n)"
    "semtab s1 = (semtab s)(of_nat n := \<lparr>sstate = SFREE, scount = 0, squeue = 100 + 2 * int n\<rparr>)"
    "s1 = s\<lparr>quetab := qt, nextqid := 100 + 2 * int (Suc n), semtab := semtab s1\<rparr>"
    by (simp_all add: s1_def swr_def sement_all)
  have st: "sem_init_loop (map of_nat [n..<n + Suc k]) s = sem_init_loop (map of_nat [Suc n..<Suc n + k]) s1"
    using q(1) by (simp add: s1_def upt_conv_Cons del: upt_Suc)
  obtain s' where s': "sem_init_loop (map of_nat [Suc n..<Suc n + k]) s1 = Some s'"
    "qsys (sem_heads (Suc n + k)) (quetab s') (\<lambda>_. [])"
    "s' = s1\<lparr>quetab := quetab s', nextqid := 100 + 2 * int (Suc n + k), semtab := semtab s'\<rparr>"
    "\<forall>i. Suc n \<le> i \<and> i < Suc n + k \<longrightarrow> semtab s' (of_nat i) = \<lparr>sstate = SFREE, scount = 0, squeue = 100 + 2 * int i\<rparr>"
    "\<forall>i<Suc n. semtab s' (of_nat i) = semtab s1 (of_nat i)"
    using Suc.IH [of "Suc n" s1] Suc.prems q(2) s1(1,2) by auto
  have inj: "(of_nat i :: u32) = of_nat n \<longleftrightarrow> i = n" if "i \<le> n" for i
    using that Suc.prems(1) by (simp add: word_of_nat_eq_iff take_bit_nat_eq_self)
  have "semtab s' (of_nat i) = \<lparr>sstate = SFREE, scount = 0, squeue = 100 + 2 * int i\<rparr>" if "n \<le> i" "i < n + Suc k" for i
    using s'(4,5) s1(3) that by (cases "i = n") auto
  moreover have "semtab s' (of_nat i) = semtab s (of_nat i)" if "i < n" for i
    using s'(5) s1(3) inj [of i] that by auto
  moreover have "s' = s\<lparr>quetab := quetab s', nextqid := 100 + 2 * int (n + Suc k), semtab := semtab s'\<rparr>"
  proof -
    have "s1\<lparr>quetab := a, nextqid := b, semtab := c\<rparr> = s\<lparr>quetab := a, nextqid := b, semtab := c\<rparr>" for a b c
      by (simp add: s1_def swr_def)
    from s'(3) [unfolded this] show ?thesis by simp
  qed
  ultimately show ?case using st s'(1,2) by (intro exI [of _ s']) auto
qed

lemma fold_thr_free:
  "distinct is \<Longrightarrow> fold thr_free is s
     = s\<lparr>thrtab := (\<lambda>t. if t \<in> set is then (thrtab s t)\<lparr>tstate := THRFREE\<rparr> else thrtab s t)\<rparr>"
proof (induction "is" arbitrary: s)
  case (Cons i "is")
  then show ?case by (auto simp: thr_free_def fun_eq_iff)
qed simp

lemma fold_bfp_free: "\<exists>bt. fold bfp_free is s = s\<lparr>bfptab := bt\<rparr>"
proof (induction "is" arbitrary: s)
  case Nil
  show ?case by (intro exI [of _ "bfptab s"]) simp
next
  case (Cons i "is")
  obtain bt where "fold bfp_free is (bfp_free i s) = (bfp_free i s)\<lparr>bfptab := bt\<rparr>" using Cons.IH by blast
  moreover have "(bfp_free i s)\<lparr>bfptab := bt\<rparr> = s\<lparr>bfptab := bt\<rparr>" by (simp add: bfp_free_def)
  ultimately show ?case by (intro exI [of _ bt]) simp
qed

lemma fold_mwr: "\<exists>mt. fold (\<lambda>i. mwr (g i) f) is s = s\<lparr>mboxtab := mt\<rparr>"
proof (induction "is" arbitrary: s)
  case Nil
  show ?case by (intro exI [of _ "mboxtab s"]) simp
next
  case (Cons i "is")
  obtain mt where "fold (\<lambda>i. mwr (g i) f) is (mwr (g i) f s) = (mwr (g i) f s)\<lparr>mboxtab := mt\<rparr>" using Cons.IH by blast
  moreover have "(mwr (g i) f s)\<lparr>mboxtab := mt\<rparr> = s\<lparr>mboxtab := mt\<rparr>" by (simp add: mwr_def)
  ultimately show ?case by (intro exI [of _ mt]) simp
qed

text \<open>A kernel with empty queues, free semaphores and only the null thread.\<close>

lemma kinv_idle:
  assumes q: "qsys (sem_heads 102) (quetab s) (\<lambda>_. [])" and r: "readylist s = 300" "sleepq s = 302"
    and sm: "\<And>i. i < NSEM \<Longrightarrow> semtab s i = \<lparr>sstate = SFREE, scount = 0, squeue = 100 + 2 * uint i\<rparr>"
    and th: "\<And>t. is_tid t \<Longrightarrow> tstate (thrtab s t) = (if t = 0 then THRCURR else THRFREE) \<and> prio (thrtab s t) = 0"
    and c: "thrcurrent s = 0" "resdefer s = 0"
  shows "kinv s"
proof -
  have h: "x \<in> qheads s \<Longrightarrow> x \<in> sem_heads 102" for x
  proof -
    have "100 + 2 * uint i \<in> sem_heads 102" if "i < NSEM" for i :: u32
      using that by (auto simp: sem_heads_def word_less_nat_alt intro!: image_eqI [of _ _ "unat i"])
    then show "x \<in> qheads s \<Longrightarrow> x \<in> sem_heads 102"
      using sm r by (auto simp: qheads_def sem_heads_def)
  qed
  have qe: "queue_of (quetab s) x = []" if "x \<in> qheads s" for x using qsysD(5) [OF q h [OF that]] .
  have hs: "readylist s \<in> qheads s" "sleepq s \<in> qheads s" "i < NSEM \<Longrightarrow> squeue (semtab s i) \<in> qheads s" for i
    by (auto simp: qheads_def)
  have "qsys (qheads s) (quetab s) (\<lambda>_. [])" using q h by (auto simp: qsys_def heads_ok_def)
  then have "qsys (qheads s) (quetab s) (queue_of (quetab s))" by (rule qsys_cong) (simp add: qe)
  moreover have "qhome s t = None" if "is_tid t" for t using th [OF that] by (simp add: qhome_def)
  ultimately have "queue_inv {} s" using qe by (auto simp: queue_inv_def)
  moreover have "thread_inv s" using th c by (auto simp: thread_inv_def)
  moreover have "ready_inv s" using qe [OF hs(1)] by (simp add: ready_inv_def sorted_desc_def)
  moreover have "sleep_inv s" using qe [OF hs(2)] by (simp add: sleep_inv_def deltas_def)
  moreover have "sem_inv s" using qe [OF hs(3)] sm by (auto simp: sem_inv_def sem_ok_def)
  moreover have "layout_inv s"
  proof -
    have u: "squeue (semtab s i) = 100 + 2 * uint i \<and> uint i < 100" if "i < NSEM" for i
      using sm [OF that] that by (simp add: word_less_def)
    have "squeue (semtab s i) \<noteq> 300 \<and> squeue (semtab s i) \<noteq> 302" if "i < NSEM" for i using u [OF that] by linarith
    moreover have "inj_on (\<lambda>i. squeue (semtab s i)) {i. i < NSEM}"
    proof (rule inj_onI, simp)
      fix i j :: u32 assume "i < 100" "j < 100" "squeue (semtab s i) = squeue (semtab s j)"
      then have "uint i = uint j" using u by simp
      then show "i = j" by (simp add: word_uint_eq_iff)
    qed
    ultimately show ?thesis using r by (simp add: layout_inv_def)
  qed
  ultimately show ?thesis using th [of 0] c by (simp add: kinv_def kmid_def rest_inv_def)
qed

lemma init_memory_spec:
  assumes "0 < unat (memheap s)" and "unat (memheap s) + 16 \<le> unat (maxaddr s)"
  shows "\<exists>s'. init_memory s = Some s' \<and> mem_inv s' [(roundmb (memheap s), truncmb (maxaddr s) - roundmb (memheap s))]
     \<and> s' = s\<lparr>memheap := roundmb (memheap s), maxaddr := truncmb (maxaddr s), memlist := memlist s', mem := mem s'\<rparr>"
proof -
  define h where "h = roundmb (memheap s)"
  define t where "t = truncmb (maxaddr s)"
  have mx: "unat (maxaddr s) < 2 ^ 32" using unsigned_less [of "maxaddr s"] by simp
  have h: "8 dvd unat h" "unat (memheap s) \<le> unat h" "unat h < unat (memheap s) + 8"
    unfolding h_def by (rule roundmb_spec; use assms mx in linarith)+
  have t: "unat t = unat (maxaddr s) - unat (maxaddr s) mod 8" unfolding t_def truncmb_def by (rule unat_and_not7)
  then have t8: "8 dvd unat t" "unat (maxaddr s) < unat t + 8" by (metis dvd_minus_mod) (use t in linarith)
  have l: "unat (t - h) = unat t - unat h" using h t8 assms by (intro unat_sub) (simp add: word_le_nat_alt)
  have ht: "unat h < unat t" using h t8 assms by linarith
  have ok: "blk_ok h" using h assms by (intro al8_blk_ok) auto
  define s' where "s' = s\<lparr>memheap := h, maxaddr := t, memlist := \<lparr>mb_next = h, mb_length = t - h\<rparr>,
     mem := (mem s)(h := 0, h + 4 := t - h)\<rparr>"
  have "init_memory s = Some s'"
    using ok by (simp add: init_memory_def set_next_def set_len_def Let_def s'_def h_def t_def)
  moreover have "h \<noteq> h + 4" using al8_ne [OF h(1) h(1)] by metis
  then have "mem_inv s' [(h, t - h)]"
    using h t8 l ht assms by (auto simp: mem_inv_def s'_def)
  ultimately show ?thesis by (intro exI [of _ s']) (simp add: s'_def h_def t_def)
qed

lemma mailboxInit_spec:
  assumes k: "kinv s" and f: "\<exists>j<NSEM. sstate (semtab s j) = SFREE"
  shows "\<exists>s'. mailboxInit s = (OK, s') \<and> kinv s' \<and> mem s' = mem s \<and> memlist s' = memlist s
     \<and> memheap s' = memheap s \<and> maxaddr s' = maxaddr s \<and> thrtab s' = thrtab s \<and> thrcurrent s' = thrcurrent s
     \<and> mboxtabsem s' < NSEM \<and> semtab s' (mboxtabsem s') = \<lparr>sstate = SUSED, scount = 1, squeue = squeue (semtab s (mboxtabsem s'))\<rparr>
     \<and> thrcount s' = thrcount s \<and> nexttid s' = nexttid s"
proof -
  obtain i u where u: "semcreate 1 s = (i, u)" "i < NSEM" "kinv u"
      "semtab u = (semtab s)(i := (semtab s i)\<lparr>sstate := SUSED, scount := 1\<rparr>)"
    using semcreate_ok [OF k _ _ f, of 1] by auto
  obtain mt where m: "fold (\<lambda>i. mwr (word_of_int i) (mstate_update (\<lambda>_. MAILBOX_FREE))) [0..14] (u\<lparr>mboxtabsem := i\<rparr>)
      = u\<lparr>mboxtabsem := i\<rparr>\<lparr>mboxtab := mt\<rparr>" using fold_mwr by blast
  have "mailboxInit s = (OK, u\<lparr>mboxtabsem := i\<rparr>\<lparr>mboxtab := mt\<rparr>)" using u(1) m by (simp add: mailboxInit_def)
  then show ?thesis using u semcreate_frame [OF u(1)] by (intro exI [of _ "u\<lparr>mboxtabsem := i\<rparr>\<lparr>mboxtab := mt\<rparr>"])
     (simp add: sement_two)
qed

lemma init_threads_eq:
  "init_threads e s = s\<lparr>thrtab := thrtab (init_threads e s), thrcurrent := 0\<rparr>"
  "is_tid t \<Longrightarrow> tstate (thrtab (init_threads e s) t) = (if t = 0 then THRCURR else THRFREE)"
  "\<forall>t. prio (thrtab s t) = 0 \<Longrightarrow> prio (thrtab (init_threads e s) t) = 0"
  by (simp_all add: init_threads_def fold_thr_free Let_def)

text \<open>Up to the mailboxes: what \<^verbatim>\<open>sysinit\<close> has set up before the devices.\<close>

definition booted :: "kernel \<Rightarrow> kernel \<Rightarrow> bool" where
  "booted s s' \<longleftrightarrow> kinv s' \<and> mem_inv s' [(roundmb (memheap s), truncmb (maxaddr s) - roundmb (memheap s))]
     \<and> thrcurrent s' = NULLTHREAD \<and> thrcount s' = 1 \<and> nexttid s' = 0
     \<and> (\<forall>t. is_tid t \<longrightarrow> t \<noteq> NULLTHREAD \<longrightarrow> tstate (thrtab s' t) = THRFREE)
     \<and> mboxtabsem s' < NSEM \<and> sstate (semtab s' (mboxtabsem s')) = SUSED \<and> scount (semtab s' (mboxtabsem s')) = 1"

lemma qsys_none: "qsys (sem_heads 0) qt A"
  by (simp add: qsys_def sem_heads_def heads_ok_def)

lemma clkinit_spec:
  assumes "qsys (sem_heads 101) (quetab s) (\<lambda>_. [])" and "nextqid s = 302"
  shows "\<exists>s'. clkinit h s = Some s' \<and> qsys (sem_heads 102) (quetab s') (\<lambda>_. []) \<and> sleepq s' = 302
     \<and> readylist s' = readylist s \<and> semtab s' = semtab s \<and> thrtab s' = thrtab s \<and> thrcurrent s' = thrcurrent s
     \<and> resdefer s' = resdefer s \<and> mem s' = mem s \<and> memlist s' = memlist s \<and> memheap s' = memheap s \<and> maxaddr s' = maxaddr s
     \<and> thrcount s' = thrcount s \<and> nexttid s' = nexttid s"
proof -
  have "302 \<notin> sem_heads 101" by (auto simp: sem_heads_def)
  then obtain qt where q: "queinit s = Some (302, s\<lparr>nextqid := 304, quetab := qt\<rparr>)"
      "qsys (insert 302 (sem_heads 101)) qt (\<lambda>_. [])" using queinit_ok [of "sem_heads 101" s] assms by auto
  moreover have "sem_heads 102 = insert 302 (sem_heads 101)"
    by (simp add: sem_heads_def lessThan_Suc [of 101, simplified])
  ultimately show ?thesis
    by (simp add: clkinit_def register_irq_def vic_register_irq_def enable_irq_def vic_enable_irq_def shift1_def
        write_enable1_def clkupdate_eq Let_def)
qed


lemma upto_upt: "[0..int n - 1] = map int [0..<n]"
  by (induction n) (auto simp: upto_rec2)

lemma boot_tables:
  assumes r: "reset_state s"
  shows "\<exists>s3. init_tables e s = Some s3 \<and> qsys (sem_heads 100) (quetab s3) (\<lambda>_. []) \<and> nextqid s3 = 300
     \<and> mem_inv s3 [(roundmb (memheap s), truncmb (maxaddr s) - roundmb (memheap s))]
     \<and> (\<forall>i<NSEM. semtab s3 i = \<lparr>sstate = SFREE, scount = 0, squeue = 100 + 2 * uint i\<rparr>)
     \<and> (\<forall>t. is_tid t \<longrightarrow> tstate (thrtab s3 t) = (if t = 0 then THRCURR else THRFREE) \<and> prio (thrtab s3 t) = 0)
     \<and> thrcurrent s3 = 0 \<and> resdefer s3 = 0 \<and> thrcount s3 = 1 \<and> nexttid s3 = 0"
proof -
  obtain s1 where s1: "init_memory (s\<lparr>thrcount := 1\<rparr>) = Some s1"
    "mem_inv s1 [(roundmb (memheap s), truncmb (maxaddr s) - roundmb (memheap s))]" and
    e1: "s1 = s\<lparr>thrcount := 1, memheap := roundmb (memheap s), maxaddr := truncmb (maxaddr s), memlist := memlist s1, mem := mem s1\<rparr>"
    using init_memory_spec [of "s\<lparr>thrcount := 1\<rparr>"] r by (auto simp: reset_state_def)
  have f1: "nextqid s1 = 100" "resdefer s1 = 0" "nexttid s1 = 0" "thrcount s1 = 1" "thrtab s1 = thrtab s"
    using e1 r by (cases s; cases s1; simp add: reset_state_def)+
  define s2 where "s2 = init_threads e s1"
  have e2: "s2 = s1\<lparr>thrtab := thrtab s2, thrcurrent := 0\<rparr>" unfolding s2_def by (rule init_threads_eq)
  have f2: "nextqid s2 = 100" "resdefer s2 = 0" "nexttid s2 = 0" "thrcount s2 = 1" "thrcurrent s2 = 0"
    "mem s2 = mem s1" "memlist s2 = memlist s1" "memheap s2 = memheap s1" "maxaddr s2 = maxaddr s1"
    using e2 f1 by (cases s1; cases s2; simp)+
  have t2: "tstate (thrtab s2 t) = (if t = 0 then THRCURR else THRFREE)" "prio (thrtab s2 t) = 0" if "is_tid t" for t
    using init_threads_eq(2) [OF that, of e s1] init_threads_eq(3) [of s1 e t] f1(5) r by (auto simp: s2_def reset_state_def)
  have w: "map word_of_int [0..99] = map of_nat [0..<0 + 100]"
    using upto_upt [of 100] by (simp add: o_def)
  obtain s3 where s3: "sem_init_loop (map word_of_int [0..99]) s2 = Some s3" "qsys (sem_heads 100) (quetab s3) (\<lambda>_. [])"
    and e3: "s3 = s2\<lparr>quetab := quetab s3, nextqid := 300, semtab := semtab s3\<rparr>"
    and sm: "\<forall>i<100. semtab s3 (of_nat i) = \<lparr>sstate = SFREE, scount = 0, squeue = 100 + 2 * int i\<rparr>"
    using sem_init_loop_spec [of 0 100 s2, OF _ qsys_none] f2(1) unfolding w by auto
  have f3: "nextqid s3 = 300" "resdefer s3 = 0" "nexttid s3 = 0" "thrcount s3 = 1" "thrcurrent s3 = 0"
    "mem s3 = mem s1" "memlist s3 = memlist s1" "memheap s3 = memheap s1" "maxaddr s3 = maxaddr s1" "thrtab s3 = thrtab s2"
    using e3 f2 by (cases s3; cases s2; simp)+
  have "semtab s3 i = \<lparr>sstate = SFREE, scount = 0, squeue = 100 + 2 * uint i\<rparr>" if "i < NSEM" for i
    using sm [rule_format, of "unat i"] that by (simp add: word_less_nat_alt)
  moreover have "mem_inv s3 [(roundmb (memheap s), truncmb (maxaddr s) - roundmb (memheap s))]"
    using s1(2) f3 by (simp add: mem_inv_def)
  ultimately show ?thesis using s1(1) s3 f3 t2 by (simp add: init_tables_def s2_def [symmetric])
qed


lemma dev_init_loop_spec:
  assumes "P s" and "\<And>i s. 0 \<le> i \<Longrightarrow> i < ndevs \<Longrightarrow> P s \<Longrightarrow> \<exists>s'. devinit i s = Some s' \<and> P s'"
  shows "\<exists>s'. dev_init_loop devinit ndevs is s = Some s' \<and> P s'"
  using assms(1)
proof (induction "is" arbitrary: s)
  case (Cons i "is")
  show ?case
  proof (cases "0 \<le> i \<and> i < ndevs")
    case True
    then obtain s1 where "devinit i s = Some s1" "P s1" using assms(2) [of i s] Cons.prems by auto
    then show ?thesis using Cons.IH [of s1] True by auto
  next
    case False
    then show ?thesis using Cons.IH [OF Cons.prems] by auto
  qed
qed simp

lemma sysinit_booted:
  assumes r: "reset_state s" and d: "\<And>i u. 0 \<le> i \<Longrightarrow> i < ndevs \<Longrightarrow> booted s u \<Longrightarrow> \<exists>u'. devinit i u = Some u' \<and> booted s u'"
  shows "\<exists>s'. sysinit e h devinit ndevs s = Some (OK, s') \<and> booted s s'"
proof -
  let ?b = "[(roundmb (memheap s), truncmb (maxaddr s) - roundmb (memheap s))]"
  obtain s3 where s3: "init_tables e s = Some s3" and q3: "qsys (sem_heads 100) (quetab s3) (\<lambda>_. [])" "nextqid s3 = 300"
    and m3: "mem_inv s3 ?b" and f3: "\<forall>i<NSEM. semtab s3 i = \<lparr>sstate = SFREE, scount = 0, squeue = 100 + 2 * uint i\<rparr>"
      "\<forall>t. is_tid t \<longrightarrow> tstate (thrtab s3 t) = (if t = 0 then THRCURR else THRFREE) \<and> prio (thrtab s3 t) = 0"
      "thrcurrent s3 = 0" "resdefer s3 = 0" "thrcount s3 = 1" "nexttid s3 = 0" using boot_tables [OF r, of e] by blast
  obtain bt where b: "fold bfp_free [0..7] s3 = s3\<lparr>bfptab := bt\<rparr>" using fold_bfp_free by blast
  have "300 \<notin> sem_heads 100" "sem_heads 101 = insert 300 (sem_heads 100)"
    by (auto simp: sem_heads_def lessThan_Suc [of 100, simplified])
  then obtain qt where q: "queinit (s3\<lparr>bfptab := bt\<rparr>) = Some (300, s3\<lparr>bfptab := bt\<rparr>\<lparr>nextqid := 302, quetab := qt\<rparr>)"
      "qsys (sem_heads 101) qt (\<lambda>_. [])" using queinit_ok [of "sem_heads 100" "s3\<lparr>bfptab := bt\<rparr>"] q3 by auto
  define s4 where "s4 = s3\<lparr>bfptab := bt\<rparr>\<lparr>nextqid := 302, quetab := qt\<rparr>\<lparr>readylist := 300\<rparr>"
  obtain s5 where s5: "clkinit h s4 = Some s5" "qsys (sem_heads 102) (quetab s5) (\<lambda>_. [])" "sleepq s5 = 302"
      "readylist s5 = 300" "semtab s5 = semtab s3" "thrtab s5 = thrtab s3" "thrcurrent s5 = 0" "resdefer s5 = 0"
      "mem s5 = mem s3" "memlist s5 = memlist s3" "memheap s5 = memheap s3" "maxaddr s5 = maxaddr s3"
      "thrcount s5 = 1" "nexttid s5 = 0"
    using clkinit_spec [of s4 h] q(2) f3 by (auto simp: s4_def)
  have k5: "kinv s5" by (rule kinv_idle [OF s5(2,4,3)]) (use s5 f3 in auto)
  obtain s6 where s6: "mailboxInit s5 = (OK, s6)" and m6: "kinv s6" "mem s6 = mem s5" "memlist s6 = memlist s5"
      "memheap s6 = memheap s5" "maxaddr s6 = maxaddr s5" "thrtab s6 = thrtab s5" "thrcurrent s6 = thrcurrent s5"
      "mboxtabsem s6 < NSEM" "sstate (semtab s6 (mboxtabsem s6)) = SUSED" "scount (semtab s6 (mboxtabsem s6)) = 1"
      "thrcount s6 = thrcount s5" "nexttid s6 = nexttid s5"
  proof -
    have "\<exists>j<NSEM. sstate (semtab s5 j) = SFREE" using s5(5) f3(1) by (intro exI [of _ 0]) simp
    from mailboxInit_spec [OF k5 this] show thesis using that by auto
  qed
  have "booted s s6" using m6 s5 m3 f3 by (simp add: booted_def mem_inv_def)
  then have "\<exists>s'. dev_init_loop devinit ndevs [0..ndevs - 1] s6 = Some s' \<and> booted s s'"
    by (rule dev_init_loop_spec) (use d in blast)
  then obtain s7 where s7: "dev_init_loop devinit ndevs [0..ndevs - 1] s6 = Some s7" "booted s s7" by blast
  have "sysinit e h devinit ndevs s = Some (OK, s7)"
    using s3 b q(1) s5(1) s6 s7(1) by (simp add: sysinit_def s4_def [symmetric])
  then show ?thesis using s7(2) by blast
qed

end
