(* ===== verification/Xinu_Examples.thy ===== *)
theory Xinu_Examples
  imports Xinu_Boot
begin

text \<open>
  Concrete kernels that satisfy the invariant, on which the properties are instantiated: the
  kernel before start-up, one in which only the null thread runs, and one in which thread 1
  runs with semaphores, a message, a mailbox and other threads around it.
\<close>

section \<open>States with an empty sleep queue and no waiting threads\<close>

lemma kinv_ready:
  assumes q: "qsys (sem_heads 102) (quetab s) ((\<lambda>_. [])(300 := R))" and r: "readylist s = 300" "sleepq s = 302"
    and sq: "\<And>i. i < NSEM \<Longrightarrow> squeue (semtab s i) = 100 + 2 * uint i"
    and sm: "\<And>i. i < NSEM \<Longrightarrow> 0 \<le> scount (semtab s i) \<and> scount (semtab s i) \<le> MAXKEY
        \<and> (sstate (semtab s i) = SFREE \<longrightarrow> scount (semtab s i) = 0)"
    and th: "\<And>t. is_tid t \<Longrightarrow> tstate (thrtab s t) \<in> {THRFREE, THRSUSP, THRRECV, THRREADY, THRCURR}
        \<and> MINKEY < prio (thrtab s t) \<and> prio (thrtab s t) \<le> MAXKEY
        \<and> (tstate (thrtab s t) = THRREADY \<longleftrightarrow> t \<in> set R) \<and> (tstate (thrtab s t) = THRCURR \<longleftrightarrow> t = thrcurrent s)"
    and n: "tstate (thrtab s NULLTHREAD) \<in> {THRCURR, THRREADY}"
    and o: "sorted_desc (\<lambda>t. qkey (quetab s t)) R" and c: "is_tid (thrcurrent s)" "resdefer s = 0"
  shows "kinv s"
proof -
  have h: "x \<in> sem_heads 102" if "x \<in> qheads s" for x
  proof -
    have "100 + 2 * uint i \<in> sem_heads 102" if "i < NSEM" for i :: u32
      using that by (auto simp: sem_heads_def word_less_nat_alt intro!: image_eqI [of _ _ "unat i"])
    then show ?thesis using that sq r by (auto simp: qheads_def sem_heads_def)
  qed
  have qe: "queue_of (quetab s) x = ((\<lambda>_. [])(300 := R)) x" if "x \<in> qheads s" for x
    using qsysD(5) [OF q h [OF that]] .
  have hs: "readylist s \<in> qheads s" "sleepq s \<in> qheads s" "i < NSEM \<Longrightarrow> squeue (semtab s i) \<in> qheads s" for i
    by (auto simp: qheads_def)
  have u: "squeue (semtab s i) \<noteq> 300 \<and> squeue (semtab s i) \<noteq> 302" if "i < NSEM" for i
  proof -
    have "uint i < 100" using that by (simp add: word_less_def)
    then show ?thesis using sq [OF that] by simp
  qed
  have "qsys (qheads s) (quetab s) ((\<lambda>_. [])(300 := R))" using q h by (auto simp: qsys_def heads_ok_def)
  then have qs: "qsys (qheads s) (quetab s) (queue_of (quetab s))" by (rule qsys_cong) (simp add: qe)
  have R: "set R \<subseteq> {0..<NTHREAD}" using qsysD(1) [OF q, of 300] by (auto simp: isq_def sem_heads_def)
  have home: "qhome s t = (if t \<in> set R then Some 300 else None)" if "is_tid t" for t
    using th [OF that] r by (auto simp: qhome_def split: thrstate.splits)
  have "queue_inv {} s"
    unfolding queue_inv_def
  proof (intro conjI ballI)
    fix x assume x: "x \<in> qheads s"
    show "set (contents s x) = {t. is_tid t \<and> t \<notin> {} \<and> qhome s t = Some x}"
      unfolding qe [OF x] using R home by (auto split: if_splits)
  qed (rule qs)
  moreover have "thread_inv s" using th c n by (fastforce simp: thread_inv_def)
  moreover have "ready_inv s" using qe [OF hs(1)] o r by (simp add: ready_inv_def)
  moreover have "sleep_inv s" using qe [OF hs(2)] r by (simp add: sleep_inv_def deltas_def)
  moreover have "sem_inv s" using qe [OF hs(3)] sm u by (auto simp: sem_inv_def sem_ok_def)
  moreover have "layout_inv s"
  proof -
    have "inj_on (\<lambda>i. squeue (semtab s i)) {i. i < NSEM}"
      using sq by (intro inj_onI) (simp add: word_uint_eq_iff)
    then show ?thesis using r u by (simp add: layout_inv_def)
  qed
  ultimately show ?thesis using th [OF c(1)] c by (simp add: kinv_def kmid_def rest_inv_def)
qed

section \<open>The kernels\<close>

definition thr_at :: "thrstate \<Rightarrow> int \<Rightarrow> thrent" where
  "thr_at st p = \<lparr>tstate = st, prio = p, stkptr = 0, stkbase = 0, stklen = 0, tname = [],
     intmask = \<lparr>lower_en = 2, upper_en = 0, irqen = 0\<rparr>, tsem = 0, parent = 0, msg = 0, hasmsg = False,
     tmemlist = \<lparr>mb_next = 0, mb_length = 0\<rparr>, fdesc = []\<rparr>"

definition empty_queues :: "int \<Rightarrow> queent" where
  "empty_queues i = (if i < 100 then \<lparr>qkey = 0, qnext = 0, qprev = 0\<rparr>
     else if even i then \<lparr>qkey = MAXKEY, qnext = i + 1, qprev = EMPTY\<rparr>
     else \<lparr>qkey = MINKEY, qnext = EMPTY, qprev = i - 1\<rparr>)"

text \<open>The heap of the examples: one block of 64 KiB from \<open>0x10000\<close>.\<close>

definition reset_kernel :: kernel where
  "reset_kernel = \<lparr>quetab = (\<lambda>_. \<lparr>qkey = 0, qnext = 0, qprev = 0\<rparr>), nextqid = 100, thrtab = (\<lambda>_. thr_at THRFREE 0),
     thrcount = 0, thrcurrent = 0, nexttid = 0, readylist = 0, resdefer = 0,
     imask = \<lparr>lower_en = 0, upper_en = 0, irqen = 0x80\<rparr>, semtab = (\<lambda>_. \<lparr>sstate = SFREE, scount = 0, squeue = 0\<rparr>),
     nextsem = 0, sleepq = 0, clkticks = 0, clktime = 0, memlist = \<lparr>mb_next = 0, mb_length = 0\<rparr>, mem = (\<lambda>_. 0),
     memheap = 0x10000, maxaddr = 0x20000,
     bfptab = (\<lambda>_. \<lparr>bstate = BFPFREE, bufsize = 0, nbuf = 0, bhead = 0, bnext = 0, freebuf = 0\<rparr>),
     mboxtab = (\<lambda>_. \<lparr>sender = 0, receiver = 0, mmax = 0, mcount = 0, mstart = 0, mstate = MAILBOX_FREE, msgs = 0\<rparr>),
     mboxtabsem = 0, nextmbx = 0, halted = False, vectors = (\<lambda>_. 0), clkfreq = 1000000, timer_c1 = 0, timer_clo = 0,
     clkstarted = False\<rparr>"

definition idle_kernel :: kernel where
  "idle_kernel = reset_kernel\<lparr>quetab := empty_queues, nextqid := 304,
     thrtab := (\<lambda>t. thr_at (if t = 0 then THRCURR else THRFREE) 0), thrcount := 1,
     readylist := 300, sleepq := 302, semtab := (\<lambda>i. \<lparr>sstate = SFREE, scount = 0, squeue = 100 + 2 * uint i\<rparr>),
     memlist := \<lparr>mb_next = 0x10000, mb_length = 0x10000\<rparr>, mem := (\<lambda>_. 0)(0x10004 := 0x10000)\<rparr>"

text \<open>
  Thread 1 runs, the null thread is ready, thread 2 is suspended, thread 3 waits for a
  message and thread 1 has one. Semaphore 5 has the count 0, semaphore 6 the count 2.
\<close>

definition busy_kernel :: kernel where
  "busy_kernel = idle_kernel\<lparr>quetab := empty_queues(300 := \<lparr>qkey = MAXKEY, qnext = 0, qprev = EMPTY\<rparr>,
       0 := \<lparr>qkey = 0, qnext = 301, qprev = 300\<rparr>, 301 := \<lparr>qkey = MINKEY, qnext = EMPTY, qprev = 0\<rparr>),
     thrtab := (\<lambda>t. thr_at THRFREE 0)(0 := thr_at THRREADY 0,
       1 := (thr_at THRCURR 20)\<lparr>msg := 7, hasmsg := True\<rparr>, 2 := thr_at THRSUSP 30, 3 := thr_at THRRECV 10),
     thrcurrent := 1, thrcount := 4,
     semtab := (semtab idle_kernel)(5 := \<lparr>sstate = SUSED, scount = 0, squeue = 110\<rparr>,
       6 := \<lparr>sstate = SUSED, scount = 2, squeue = 112\<rparr>)\<rparr>"

lemma reset_kernel_ok: "reset_state reset_kernel"
  by (simp add: reset_state_def reset_kernel_def thr_at_def)

lemma empty_isq: "100 \<le> q \<Longrightarrow> even q \<Longrightarrow> isq empty_queues q []"
  by (simp add: isq_def empty_queues_def)

lemma sem_heads_iff: "q \<in> sem_heads 102 \<longleftrightarrow> 100 \<le> q \<and> q \<le> 302 \<and> even q"
proof
  assume "100 \<le> q \<and> q \<le> 302 \<and> even q"
  then show "q \<in> sem_heads 102"
    by (auto simp: sem_heads_def elim!: evenE intro!: image_eqI [of _ _ "nat (q div 2 - 50)"])
qed (auto simp: sem_heads_def)

lemma kinv_idle_kernel: "kinv idle_kernel"
proof (rule kinv_ready [of _ "[]"])
  show "qsys (sem_heads 102) (quetab idle_kernel) ((\<lambda>_. [])(300 := []))"
    using empty_isq by (auto simp: qsys_def heads_ok_def sem_heads_iff idle_kernel_def)
qed (auto simp: idle_kernel_def reset_kernel_def thr_at_def sorted_desc_def split: if_splits)

lemma kinv_busy_kernel: "kinv busy_kernel"
proof (rule kinv_ready [of _ "[0]"])
  have "isq (quetab busy_kernel) q []" if "100 \<le> q" "q \<noteq> 300" "even q" for q
    using that by (auto simp: isq_def busy_kernel_def empty_queues_def)
  moreover have "isq (quetab busy_kernel) 300 [0]" by (simp add: isq_def busy_kernel_def)
  ultimately show "qsys (sem_heads 102) (quetab busy_kernel) ((\<lambda>_. [])(300 := [0]))"
    by (auto simp: qsys_def heads_ok_def sem_heads_iff)
qed (auto simp: busy_kernel_def idle_kernel_def reset_kernel_def thr_at_def sorted_desc_def split: if_splits)

lemma heap_idle_kernel: "heap_in 0x10000 0x20000 idle_kernel {0x10000..<0x20000}"
  unfolding heap_in_def
  by (intro conjI exI [of _ "[(0x10000, 0x10000)]"])
    (simp_all add: idle_kernel_def reset_kernel_def mem_inv_def free_bytes_def region_def)

lemma heap_busy_kernel: "heap_in 0x10000 0x20000 busy_kernel {0x10000..<0x20000}"
  unfolding heap_in_def
  by (intro conjI exI [of _ "[(0x10000, 0x10000)]"])
    (simp_all add: busy_kernel_def idle_kernel_def reset_kernel_def mem_inv_def free_bytes_def region_def)

text \<open>What the properties read of the example.\<close>

lemma busy_sel [simp]:
  "thrcurrent busy_kernel = 1" "readylist busy_kernel = 300" "sleepq busy_kernel = 302"
  "semtab busy_kernel 5 = \<lparr>sstate = SUSED, scount = 0, squeue = 110\<rparr>"
  "semtab busy_kernel 6 = \<lparr>sstate = SUSED, scount = 2, squeue = 112\<rparr>"
  "thrtab busy_kernel 1 = (thr_at THRCURR 20)\<lparr>msg := 7, hasmsg := True\<rparr>"
  "thrtab busy_kernel 2 = thr_at THRSUSP 30" "thrtab busy_kernel 3 = thr_at THRRECV 10"
  "thrtab busy_kernel 0 = thr_at THRREADY 0" "4 \<le> t \<Longrightarrow> thrtab busy_kernel t = thr_at THRFREE 0"
  "imask busy_kernel = \<lparr>lower_en = 0, upper_en = 0, irqen = 0x80\<rparr>"
  "memheap busy_kernel = 0x10000" "maxaddr busy_kernel = 0x20000" "qkey (quetab busy_kernel 0) = 0"
  by (simp_all add: busy_kernel_def idle_kernel_def reset_kernel_def)

lemma thr_at_sel [simp]:
  "tstate (thr_at st p) = st" "prio (thr_at st p) = p" "hasmsg (thr_at st p) = False" "parent (thr_at st p) = 0"
  by (simp_all add: thr_at_def)

lemma busy_queues [simp]:
  "contents busy_kernel 300 = [0]" "contents busy_kernel 302 = []" "contents busy_kernel 110 = []"
  by (simp_all add: queue_of_def eval_nat_numeral busy_kernel_def empty_queues_def)

lemma busy_good [simp]:
  "\<not> isbadsem 5 busy_kernel" "\<not> isbadsem 6 busy_kernel" "isbadsem 7 busy_kernel"
  "\<not> isbadtid 1 busy_kernel" "\<not> isbadtid 2 busy_kernel" "\<not> isbadtid 3 busy_kernel" "isbadtid 9 busy_kernel"
  by (simp_all add: isbadsem_def isbadtid_def) (simp add: busy_kernel_def idle_kernel_def reset_kernel_def)

text \<open>Threads 1, 2 and 3 have the same priority: the first runs, the others are ready before the null thread.\<close>

definition equal_kernel :: kernel where
  "equal_kernel = idle_kernel\<lparr>quetab := empty_queues(300 := \<lparr>qkey = MAXKEY, qnext = 2, qprev = EMPTY\<rparr>,
       2 := \<lparr>qkey = 20, qnext = 3, qprev = 300\<rparr>, 3 := \<lparr>qkey = 20, qnext = 0, qprev = 2\<rparr>,
       0 := \<lparr>qkey = 0, qnext = 301, qprev = 3\<rparr>, 301 := \<lparr>qkey = MINKEY, qnext = EMPTY, qprev = 0\<rparr>),
     thrtab := (\<lambda>t. thr_at THRFREE 0)(0 := thr_at THRREADY 0, 1 := thr_at THRCURR 20, 2 := thr_at THRREADY 20, 3 := thr_at THRREADY 20),
     thrcurrent := 1, thrcount := 4\<rparr>"

lemma kinv_equal_kernel: "kinv equal_kernel"
proof (rule kinv_ready [of _ "[2, 3, 0]"])
  have "isq (quetab equal_kernel) q []" if "100 \<le> q" "q \<noteq> 300" "even q" for q
    using that by (auto simp: isq_def equal_kernel_def empty_queues_def)
  moreover have "isq (quetab equal_kernel) 300 [2, 3, 0]" by (simp add: isq_def equal_kernel_def)
  ultimately show "qsys (sem_heads 102) (quetab equal_kernel) ((\<lambda>_. [])(300 := [2, 3, 0]))"
    by (auto simp: qsys_def heads_ok_def sem_heads_iff)
qed (auto simp: equal_kernel_def idle_kernel_def reset_kernel_def thr_at_def sorted_desc_def split: if_splits)

lemma equal_sel [simp]:
  "thrcurrent equal_kernel = 1" "readylist equal_kernel = 300" "sleepq equal_kernel = 302"
  "thrtab equal_kernel 0 = thr_at THRREADY 0" "thrtab equal_kernel 1 = thr_at THRCURR 20"
  "thrtab equal_kernel 2 = thr_at THRREADY 20" "thrtab equal_kernel 3 = thr_at THRREADY 20"
  "qkey (quetab equal_kernel 0) = 0" "qkey (quetab equal_kernel 2) = 20" "qkey (quetab equal_kernel 3) = 20"
  by (simp_all add: equal_kernel_def idle_kernel_def reset_kernel_def)

lemma equal_queues [simp]: "contents equal_kernel 300 = [2, 3, 0]" "contents equal_kernel 302 = []"
  by (simp_all add: queue_of_def eval_nat_numeral equal_kernel_def empty_queues_def)

text \<open>The scan of \<^verbatim>\<open>insertd\<close> is evaluated by its recursion equation.\<close>

declare insertd_scan.simps [code]

section \<open>Mailboxes\<close>

text \<open>The busy kernel with an empty and with a full mailbox of two places.\<close>

definition box_kernel :: kernel where
  "box_kernel = busy_kernel\<lparr>mboxtab := (\<lambda>_. \<lparr>sender = 6, receiver = 5, mmax = 2, mcount = 0, mstart = 0,
     mstate = MAILBOX_ALLOC, msgs = 0x18000\<rparr>)\<rparr>"

lemma box_kernel_open: "mbox_open 0 box_kernel"
proof -
  have "kinv box_kernel" using kinv_busy_kernel by (simp add: box_kernel_def)
  moreover have "\<not> isbadsem 5 box_kernel" "\<not> isbadsem 6 box_kernel" by (simp_all add: box_kernel_def isbadsem_def)
  ultimately show ?thesis
    by (simp add: mbox_open_def Let_def ring_ok_def box_msgs_def) (simp add: box_kernel_def)
qed

definition full_kernel :: kernel where
  "full_kernel = box_kernel\<lparr>mboxtab := (\<lambda>_. \<lparr>sender = 5, receiver = 6, mmax = 2, mcount = 2, mstart = 0,
     mstate = MAILBOX_ALLOC, msgs = 0x18000\<rparr>)\<rparr>"

lemma full_kernel_open: "mbox_open 0 full_kernel"
proof -
  have "kinv full_kernel" using kinv_busy_kernel by (simp add: full_kernel_def box_kernel_def)
  moreover have "\<not> isbadsem 5 full_kernel" "\<not> isbadsem 6 full_kernel" by (simp_all add: full_kernel_def box_kernel_def isbadsem_def)
  ultimately show ?thesis
    by (simp add: mbox_open_def Let_def ring_ok_def box_msgs_def) (simp add: full_kernel_def box_kernel_def ring_list_def)
qed

end
