(* ===== verification/Xinu_Qsort.thy ===== *)
theory Xinu_Qsort
  imports Xinu_Prelude
begin

text \<open>
  Sorting: \<^verbatim>\<open>lib/libxc/qsort.c\<close>. The array is a list of elements and a pointer is an index; the
  element size \<^verbatim>\<open>es\<close> only scales the pointers. The comparison is the caller's function. The lemmas show that
  the partition ends, that it splits the array at the pivot, and that the result is sorted and a permutation.
\<close>

section \<open>The routines\<close>

text \<open>The exchanges go byte by byte through the elements; the order of the three stores matters when two pointers are equal.\<close>

definition qsexc :: "'a list \<Rightarrow> nat \<Rightarrow> nat \<Rightarrow> 'a list" where
  "qsexc xs i j = (let c = xs ! i; xs = xs[i := xs ! j] in xs[j := c])"

definition qstexc :: "'a list \<Rightarrow> nat \<Rightarrow> nat \<Rightarrow> nat \<Rightarrow> 'a list" where
  "qstexc xs i j k = (let c = xs ! i; xs = xs[i := xs ! k]; xs = xs[k := xs ! j] in xs[j := c])"

text \<open>
  One round of the endless \<^verbatim>\<open>for\<close> of \<^verbatim>\<open>qs1\<close>, from its head or, with \<open>at_loop\<close>,
  from the label \<^verbatim>\<open>loop\<close>, to the next \<^verbatim>\<open>continue\<close> or \<^verbatim>\<open>goto loop\<close>. \<open>Inr\<close> is
  the way to \<^verbatim>\<open>goto start\<close>.
\<close>

type_synonym 'a part = "bool \<times> 'a list \<times> nat \<times> nat \<times> nat \<times> nat"

fun qs_step :: "('a \<Rightarrow> 'a \<Rightarrow> int) \<Rightarrow> 'a part \<Rightarrow> 'a part + 'a list \<times> nat \<times> nat" where
  "qs_step qscmp (at_loop, xs, i, j, lp, hp) =
     (if \<not> at_loop \<and> i < lp \<and> qscmp (xs ! i) (xs ! lp) = 0
      then Inl (False, qsexc xs i (lp - 1), i, j, lp - 1, hp)
      else if \<not> at_loop \<and> i < lp \<and> qscmp (xs ! i) (xs ! lp) < 0
      then Inl (False, xs, i + 1, j, lp, hp)
      else if j > hp
      then (let c = qscmp (xs ! hp) (xs ! j) in
            if c = 0 then Inl (True, qsexc xs (hp + 1) j, i, j, lp, hp + 1)
            else if c > 0
            then (if i = lp
                  then Inl (True, qstexc xs i (hp + 1) j, lp + 1, j, lp + 1, hp + 1)
                  else Inl (False, qsexc xs i j, i + 1, j - 1, lp, hp))
            else Inl (True, xs, i, j - 1, lp, hp))
      else if i = lp then Inr (xs, lp, hp)
      else Inl (False, qstexc xs j (lp - 1) i, i, hp - 1, lp - 1, hp - 1))"

partial_function (option) qs_part :: "('a \<Rightarrow> 'a \<Rightarrow> int) \<Rightarrow> 'a part \<Rightarrow> ('a list \<times> nat \<times> nat) option" where
  "qs_part qscmp p = (case qs_step qscmp p of Inl p' \<Rightarrow> qs_part qscmp p' | Inr r \<Rightarrow> Some r)"

partial_function (option) qs1 :: "('a \<Rightarrow> 'a \<Rightarrow> int) \<Rightarrow> 'a list \<Rightarrow> nat \<Rightarrow> nat \<Rightarrow> 'a list option" where
  "qs1 qscmp xs a l =
     (if l - a \<le> 1 then Some xs
      else do {
        let n = (l - a) div 2;
        (xs, lp, hp) \<leftarrow> qs_part qscmp (False, xs, a, l - 1, a + n, a + n);
        if lp - a \<ge> l - hp
        then do { xs \<leftarrow> qs1 qscmp xs (hp + 1) l; qs1 qscmp xs a lp }
        else do { xs \<leftarrow> qs1 qscmp xs a lp; qs1 qscmp xs (hp + 1) l }
      })"

definition qsort :: "'a list \<Rightarrow> nat \<Rightarrow> ('a \<Rightarrow> 'a \<Rightarrow> int) \<Rightarrow> 'a list option" where
  "qsort a n fc = (if n \<le> length a then qs1 fc a 0 n else None)"

section \<open>Exchanges\<close>

lemma qsexc_nth:
  "i < length xs \<Longrightarrow> j < length xs \<Longrightarrow> qsexc xs i j ! k = (if k = j then xs ! i else if k = i then xs ! j else xs ! k)"
  by (auto simp: qsexc_def nth_list_update)

lemma qstexc_nth:
  "i < length xs \<Longrightarrow> j < length xs \<Longrightarrow> k < length xs \<Longrightarrow> i \<noteq> j \<Longrightarrow> i \<noteq> k \<Longrightarrow>
   qstexc xs i j k ! m = (if m = j then xs ! i else if m = k then xs ! j else if m = i then xs ! k else xs ! m)"
  by (auto simp: qstexc_def nth_list_update)

lemma exc_length [simp]: "length (qsexc xs i j) = length xs" "length (qstexc xs i j k) = length xs"
  by (simp_all add: qsexc_def qstexc_def Let_def)

lemma qsexc_mset: "i < length xs \<Longrightarrow> j < length xs \<Longrightarrow> mset (qsexc xs i j) = mset xs"
  by (simp add: qsexc_def mset_swap)

lemma qstexc_mset:
  assumes "i < length xs" "j < length xs" "k < length xs" "i \<noteq> j" "i \<noteq> k"
  shows "mset (qstexc xs i j k) = mset xs"
proof -
  have "qstexc xs i j k = qsexc (qsexc xs i k) k j"
    using assms by (intro nth_equalityI) (auto simp: qstexc_nth qsexc_nth)
  then show ?thesis using assms by (simp add: qsexc_mset)
qed


section \<open>Sorting with a comparison function\<close>

text \<open>What \<^verbatim>\<open>qsort\<close> relies on: the sign of the comparison is that of a total preorder.\<close>

locale comparison =
  fixes qscmp :: "'a \<Rightarrow> 'a \<Rightarrow> int"
  assumes flip: "sgn (qscmp y x) = - sgn (qscmp x y)"
    and trans: "qscmp x y \<le> 0 \<Longrightarrow> qscmp y z \<le> 0 \<Longrightarrow> qscmp x z \<le> 0"
begin

lemma flip_iff: "qscmp y x < 0 \<longleftrightarrow> qscmp x y > 0" "qscmp y x = 0 \<longleftrightarrow> qscmp x y = 0" "qscmp y x > 0 \<longleftrightarrow> qscmp x y < 0"
  using flip [of y x] by (auto simp: sgn_if split: if_splits)

lemma less_trans: "qscmp x y < 0 \<Longrightarrow> qscmp y z \<le> 0 \<Longrightarrow> qscmp x z < 0"
  using trans [of x y z] trans [of y z x] flip_iff [of x y] flip_iff [of x z] by fastforce

lemma trans_less: "qscmp x y \<le> 0 \<Longrightarrow> qscmp y z < 0 \<Longrightarrow> qscmp x z < 0"
  using trans [of x y z] trans [of z x y] flip_iff [of y z] flip_iff [of x z] by fastforce

text \<open>An element that compares equal to the pivot compares as the pivot does.\<close>

lemma as_pivot:
  assumes "qscmp p v = 0"
  shows "qscmp x p < 0 \<longleftrightarrow> qscmp x v < 0" "qscmp x p = 0 \<longleftrightarrow> qscmp x v = 0" "qscmp x p > 0 \<longleftrightarrow> qscmp x v > 0"
proof -
  have e: "qscmp v p = 0" using assms flip_iff by blast
  show l: "qscmp x p < 0 \<longleftrightarrow> qscmp x v < 0" using less_trans [of x p v] less_trans [of x v p] assms e by auto
  show g: "qscmp x p > 0 \<longleftrightarrow> qscmp x v > 0"
    using trans_less [of p v x] trans_less [of v p x] assms e flip_iff [of x p] flip_iff [of x v] by auto
  show "qscmp x p = 0 \<longleftrightarrow> qscmp x v = 0" using l g by linarith
qed

end

text \<open>
  The invariant of the partition of \<open>[a, l)\<close> with pivot \<open>v\<close>: smaller elements before \<open>i\<close>, equal ones from
  \<open>lp\<close> to \<open>hp\<close>, larger ones after \<open>j\<close>.
\<close>

fun part_inv :: "('a \<Rightarrow> 'a \<Rightarrow> int) \<Rightarrow> 'a \<Rightarrow> nat \<Rightarrow> nat \<Rightarrow> 'a list \<Rightarrow> 'a part \<Rightarrow> bool" where
  "part_inv qscmp v a l ys (at_loop, xs, i, j, lp, hp) \<longleftrightarrow>
     a \<le> i \<and> i \<le> lp \<and> lp \<le> hp \<and> hp \<le> j \<and> j < l \<and> l \<le> length xs \<and> mset xs = mset ys
     \<and> (\<forall>k<length xs. k < a \<or> l \<le> k \<longrightarrow> xs ! k = ys ! k)
     \<and> (\<forall>k. a \<le> k \<and> k < i \<longrightarrow> qscmp (xs ! k) v < 0)
     \<and> (\<forall>k. lp \<le> k \<and> k \<le> hp \<longrightarrow> qscmp (xs ! k) v = 0)
     \<and> (\<forall>k. j < k \<and> k < l \<longrightarrow> qscmp (xs ! k) v > 0)
     \<and> (at_loop \<longrightarrow> i = lp \<or> qscmp (xs ! i) v > 0)"

fun part_size :: "'a part \<Rightarrow> nat" where
  "part_size (at_loop, xs, i, j, lp, hp) = (lp - i) + (j - hp)"

context comparison
begin

lemma step_left:
  assumes "part_inv qscmp v a l ys (False, xs, i, j, lp, hp)" and "i < lp" and "qscmp (xs ! i) v = 0"
  shows "part_inv qscmp v a l ys (False, qsexc xs i (lp - 1), i, j, lp - 1, hp)"
  using assms by (auto simp: qsexc_nth qsexc_mset)

lemma step_equal:
  assumes "part_inv qscmp v a l ys (b, xs, i, j, lp, hp)" and "i = lp \<or> qscmp (xs ! i) v > 0" and "hp < j" and "qscmp (xs ! j) v = 0"
  shows "part_inv qscmp v a l ys (True, qsexc xs (hp + 1) j, i, j, lp, hp + 1)"
  using assms by (auto simp: qsexc_nth qsexc_mset)

lemma step_shift_right:
  assumes "part_inv qscmp v a l ys (b, xs, lp, j, lp, hp)" and "hp < j" and "qscmp (xs ! j) v < 0"
  shows "part_inv qscmp v a l ys (True, qstexc xs lp (hp + 1) j, lp + 1, j, lp + 1, hp + 1)"
  using assms by (auto simp: qstexc_nth qstexc_mset)

lemma step_swap:
  assumes "part_inv qscmp v a l ys (b, xs, i, j, lp, hp)" and "i < lp" and "qscmp (xs ! i) v > 0" and "hp < j" and "qscmp (xs ! j) v < 0"
  shows "part_inv qscmp v a l ys (False, qsexc xs i j, i + 1, j - 1, lp, hp)"
  using assms by (auto simp: qsexc_nth qsexc_mset)

lemma step_shift_left:
  assumes "part_inv qscmp v a l ys (b, xs, i, hp, lp, hp)" and "i < lp" and "qscmp (xs ! i) v > 0"
  shows "part_inv qscmp v a l ys (False, qstexc xs hp (lp - 1) i, i, hp - 1, lp - 1, hp - 1)"
  using assms by (cases lp; cases hp) (auto simp: qstexc_nth qstexc_mset)

text \<open>Every round keeps the invariant and comes closer to the end.\<close>

lemma qs_step_cases:
  assumes q: "part_inv qscmp v a l ys (b, xs, i, j, lp, hp)" and p: "p = (b, xs, i, j, lp, hp)"
  obtains "i < lp" "\<not> b" "qscmp (xs ! i) v = 0" "qs_step qscmp p = Inl (False, qsexc xs i (lp - 1), i, j, lp - 1, hp)"
  | "i < lp" "\<not> b" "qscmp (xs ! i) v < 0" "qs_step qscmp p = Inl (False, xs, i + 1, j, lp, hp)"
  | "i = lp \<or> qscmp (xs ! i) v > 0" "hp < j" "qscmp (xs ! j) v = 0" "qs_step qscmp p = Inl (True, qsexc xs (hp + 1) j, i, j, lp, hp + 1)"
  | "i = lp" "hp < j" "qscmp (xs ! j) v < 0" "qs_step qscmp p = Inl (True, qstexc xs lp (hp + 1) j, lp + 1, j, lp + 1, hp + 1)"
  | "i < lp" "qscmp (xs ! i) v > 0" "hp < j" "qscmp (xs ! j) v < 0" "qs_step qscmp p = Inl (False, qsexc xs i j, i + 1, j - 1, lp, hp)"
  | "i = lp \<or> qscmp (xs ! i) v > 0" "hp < j" "qscmp (xs ! j) v > 0" "qs_step qscmp p = Inl (True, xs, i, j - 1, lp, hp)"
  | "i = lp" "j = hp" "qs_step qscmp p = Inr (xs, lp, hp)"
  | "i < lp" "qscmp (xs ! i) v > 0" "j = hp" "qs_step qscmp p = Inl (False, qstexc xs hp (lp - 1) i, i, hp - 1, lp - 1, hp - 1)"
proof -
  have o: "i \<le> lp" "hp \<le> j" and pv: "qscmp (xs ! lp) v = 0" "qscmp (xs ! hp) v = 0" and bl: "b \<longrightarrow> i = lp \<or> qscmp (xs ! i) v > 0"
    using q by simp_all
  define ci cj where "ci = qscmp (xs ! i) v" and "cj = qscmp (xs ! j) v"
  have ci: "qscmp (xs ! i) (xs ! lp) < 0 \<longleftrightarrow> ci < 0" "qscmp (xs ! i) (xs ! lp) = 0 \<longleftrightarrow> ci = 0"
    using as_pivot [OF pv(1), of "xs ! i"] by (simp_all add: ci_def)
  have cj: "qscmp (xs ! hp) (xs ! j) = 0 \<longleftrightarrow> cj = 0" "qscmp (xs ! hp) (xs ! j) > 0 \<longleftrightarrow> cj < 0"
    using as_pivot [OF pv(2), of "xs ! j"] flip_iff [of "xs ! hp" "xs ! j"] by (simp_all add: cj_def)
  note t = that [folded ci_def cj_def, unfolded p qs_step.simps Let_def, unfolded ci cj]
  consider "i < lp" "\<not> b" "ci = 0" | "i < lp" "\<not> b" "ci < 0" | "i = lp \<or> ci > 0" "hp < j" "cj = 0" | "i = lp" "hp < j" "cj < 0"
    | "i < lp" "ci > 0" "hp < j" "cj < 0" | "i = lp \<or> ci > 0" "hp < j" "cj > 0" | "i = lp" "j = hp" | "i < lp" "ci > 0" "j = hp"
    using linorder_less_linear [of ci 0] linorder_less_linear [of cj 0] o [unfolded le_less] bl [folded ci_def] by blast
  then show thesis
  proof cases
    case 1 then show ?thesis by (intro t(1)) simp_all
  next
    case 2 then show ?thesis by (intro t(2)) simp_all
  next
    case 3 then show ?thesis by (intro t(3)) auto
  next
    case 4 then show ?thesis by (intro t(4)) simp_all
  next
    case 5 then show ?thesis by (intro t(5)) simp_all
  next
    case 6 then show ?thesis by (intro t(6)) auto
  next
    case 7 then show ?thesis by (intro t(7)) simp_all
  next
    case 8 then show ?thesis by (intro t(8)) simp_all
  qed
qed

lemma qs_next:
  assumes "qs_step qscmp p = Inl p'" and "part_inv qscmp v a l ys p'" and "part_size p' < part_size p"
  shows "case qs_step qscmp p of Inl p' \<Rightarrow> part_inv qscmp v a l ys p' \<and> part_size p' < part_size p
     | Inr (xs, lp, hp) \<Rightarrow> part_inv qscmp v a l ys (True, xs, lp, hp, lp, hp)"
  using assms by simp

lemma qs_step_inv:
  assumes q: "part_inv qscmp v a l ys p"
  shows "case qs_step qscmp p of Inl p' \<Rightarrow> part_inv qscmp v a l ys p' \<and> part_size p' < part_size p
     | Inr (xs, lp, hp) \<Rightarrow> part_inv qscmp v a l ys (True, xs, lp, hp, lp, hp)"
proof -
  obtain b xs i j lp hp where pe: "p = (b, xs, i, j, lp, hp)" by (cases p) auto
  note q = q [unfolded pe]
  have o: "a \<le> i" "i \<le> lp" "lp \<le> hp" "hp \<le> j" using q by simp_all
  show ?thesis using q pe
  proof (cases rule: qs_step_cases)
    case 1
    show ?thesis using step_left [of v a l ys xs i j lp hp] q 1 o by (intro qs_next [OF 1(4)]) (simp_all add: pe)
  next
    case 2
    show ?thesis using q 2 o by (intro qs_next [OF 2(4)]) (auto simp: pe less_Suc_eq)
  next
    case 3
    show ?thesis by (rule qs_next [OF 3(4) step_equal [OF q 3(1-3)]]) (use 3(2) in \<open>simp add: pe\<close>)
  next
    case 4
    show ?thesis by (rule qs_next [OF 4(4) step_shift_right [OF q [unfolded 4(1)] 4(2,3)]]) (use 4(1,2) in \<open>simp add: pe\<close>)
  next
    case 5
    show ?thesis by (rule qs_next [OF 5(5) step_swap [OF q 5(1-4)]]) (use 5(1,3) in \<open>simp add: pe\<close>)
  next
    case 6
    have g: "qscmp (xs ! k) v > 0" if "j - 1 < k" "k < l" for k using q 6(3) that by (cases "k = j") auto
    then have "part_inv qscmp v a l ys (True, xs, i, j - 1, lp, hp)" using q 6(1,2) by auto
    then show ?thesis by (rule qs_next [OF 6(4)]) (use 6(2) in \<open>simp add: pe\<close>)
  next
    case 7
    then show ?thesis using q unfolding 7(3) by simp
  next
    case 8
    show ?thesis by (rule qs_next [OF 8(4) step_shift_left [OF q [unfolded 8(3)] 8(1,2)]]) (use 8(1,3) o in \<open>simp add: pe\<close>)
  qed
qed

lemma qs_part_spec:
  "part_inv qscmp v a l ys p \<Longrightarrow> \<exists>xs lp hp. qs_part qscmp p = Some (xs, lp, hp) \<and> part_inv qscmp v a l ys (True, xs, lp, hp, lp, hp)"
proof (induction "part_size p" arbitrary: p rule: less_induct)
  case less
  note s = qs_step_inv [OF less.prems]
  show ?case
  proof (cases "qs_step qscmp p")
    case (Inl p')
    then show ?thesis using s less.hyps [of p'] by (subst qs_part.simps) simp
  next
    case (Inr r)
    then show ?thesis using s by (subst qs_part.simps) (auto split: prod.splits)
  qed
qed

end

text \<open>A part of an array that was only rearranged has the same elements.\<close>

definition rearranged :: "nat \<Rightarrow> nat \<Rightarrow> 'a list \<Rightarrow> 'a list \<Rightarrow> bool" where
  "rearranged a l xs ys \<longleftrightarrow> mset ys = mset xs \<and> (\<forall>k<length xs. k < a \<or> l \<le> k \<longrightarrow> ys ! k = xs ! k)"

lemma rearranged_length: "rearranged a l xs ys \<Longrightarrow> length ys = length xs"
  unfolding rearranged_def using mset_eq_length by blast

lemma rearranged_trans:
  assumes "rearranged b m xs ys" and "rearranged b' m' ys zs" and "a \<le> b" "m \<le> l" "a \<le> b'" "m' \<le> l"
  shows "rearranged a l xs zs"
  using assms rearranged_length [OF assms(1)] by (auto simp: rearranged_def)

lemma rearranged_seg:
  assumes r: "rearranged a l xs ys" and l: "a \<le> l" "l \<le> length xs"
  shows "(!) ys ` {a..<l} = (!) xs ` {a..<l}"
proof -
  have n: "length ys = length xs" by (rule rearranged_length [OF r])
  have split: "zs = take a zs @ map ((!) zs) [a..<l] @ drop l zs" if "l \<le> length zs" for zs :: "'a list"
    using that l(1) by (intro nth_equalityI) (auto simp: nth_append)
  have t: "take a ys = take a xs" "drop l ys = drop l xs"
    using r n l by (auto intro!: nth_equalityI simp: rearranged_def)
  have "mset (take a ys @ map ((!) ys) [a..<l] @ drop l ys) = mset (take a xs @ map ((!) xs) [a..<l] @ drop l xs)"
    using split [of ys] split [of xs] r n l(2) by (simp add: rearranged_def)
  then have "mset (map ((!) ys) [a..<l]) = mset (map ((!) xs) [a..<l])" using t by simp
  then have "set (map ((!) ys) [a..<l]) = set (map ((!) xs) [a..<l])" by (rule mset_eq_setD)
  then show ?thesis by (simp add: image_set [symmetric])
qed

lemma rearranged_in:
  assumes "rearranged a l xs ys" and "a \<le> l" "l \<le> length xs" and "\<forall>k. a \<le> k \<and> k < l \<longrightarrow> P (xs ! k)" and "a \<le> k" "k < l"
  shows "P (ys ! k)"
proof -
  have "ys ! k \<in> (!) xs ` {a..<l}" using rearranged_seg [OF assms(1-3)] assms(5,6) by auto
  then show ?thesis using assms(4) by auto
qed

lemma rearranged_all:
  assumes r: "rearranged b m xs ys" "b \<le> m" "m \<le> length xs" and d: "d \<le> length xs" "c = b \<and> d = m \<or> d \<le> b \<or> m \<le> c"
    and p: "\<forall>k. c \<le> k \<and> k < d \<longrightarrow> P (xs ! k)"
  shows "\<forall>k. c \<le> k \<and> k < d \<longrightarrow> P (ys ! k)"
proof (cases "c = b \<and> d = m")
  case True
  then show ?thesis using rearranged_in [OF r, of P] p by blast
next
  case False
  then show ?thesis using r(1) d p by (auto simp: rearranged_def)
qed

definition ordered :: "('a \<Rightarrow> 'a \<Rightarrow> int) \<Rightarrow> nat \<Rightarrow> nat \<Rightarrow> 'a list \<Rightarrow> bool" where
  "ordered qscmp a l xs \<longleftrightarrow> (\<forall>p q. a \<le> p \<and> p < q \<and> q < l \<longrightarrow> qscmp (xs ! p) (xs ! q) \<le> 0)"

context comparison
begin

text \<open>Sorted parts before and after the elements equal to the pivot make a sorted whole.\<close>

lemma ordered_join:
  assumes "ordered qscmp a lp xs" and "ordered qscmp (hp + 1) l xs" and lt: "\<forall>k. a \<le> k \<and> k < lp \<longrightarrow> qscmp (xs ! k) v < 0"
    and eq: "\<forall>k. lp \<le> k \<and> k \<le> hp \<longrightarrow> qscmp (xs ! k) v = 0" and gt: "\<forall>k. hp < k \<and> k < l \<longrightarrow> qscmp (xs ! k) v > 0"
  shows "ordered qscmp a l xs"
  unfolding ordered_def
proof (intro allI impI)
  fix p q assume pq: "a \<le> p \<and> p < q \<and> q < l"
  show "qscmp (xs ! p) (xs ! q) \<le> 0"
  proof (cases "q < lp \<or> hp < p")
    case True
    then show ?thesis using assms(1,2) pq unfolding ordered_def by auto
  next
    case False
    then have "qscmp (xs ! p) v \<le> 0" using lt eq pq by (cases "p < lp") (auto intro: less_imp_le)
    moreover have "qscmp v (xs ! q) \<le> 0" using False eq gt pq flip_iff [of v "xs ! q"] by (cases "q \<le> hp") (auto intro: less_imp_le)
    ultimately show ?thesis by (rule trans)
  qed
qed

lemma ordered_outside:
  assumes "ordered qscmp a l xs" and "rearranged b m xs ys" and "l \<le> b \<or> m \<le> a" and "l \<le> length xs"
  shows "ordered qscmp a l ys"
  using assms by (auto simp: ordered_def rearranged_def)

lemma partition_done:
  assumes "part_inv qscmp v a l xs (True, ys, lp, hp, lp, hp)"
  shows "rearranged a l xs ys" "a \<le> lp" "lp \<le> hp" "hp < l" "\<forall>k. a \<le> k \<and> k < lp \<longrightarrow> qscmp (ys ! k) v < 0"
    "\<forall>k. lp \<le> k \<and> k \<le> hp \<longrightarrow> qscmp (ys ! k) v = 0" "\<forall>k. hp < k \<and> k < l \<longrightarrow> qscmp (ys ! k) v > 0"
proof -
  have "length ys = length xs" by (rule mset_eq_length) (use assms in simp)
  then show "rearranged a l xs ys" using assms by (simp add: rearranged_def)
qed (use assms in simp_all)

text \<open>The two parts may be sorted in either order.\<close>

lemma parts_sorted:
  assumes p: "part_inv qscmp v a l xs (True, ys, lp, hp, lp, hp)" and l: "l \<le> length xs"
    and z: "rearranged b m ys us" "rearranged b' m' us zs" "(b, m, b', m') \<in> {(hp + 1, l, a, lp), (a, lp, hp + 1, l)}"
    and o: "ordered qscmp b m us" "ordered qscmp b' m' zs"
  shows "rearranged a l xs zs" and "ordered qscmp a l zs"
proof -
  note d = partition_done [OF p]
  have n: "length ys = length xs" "length us = length xs" using rearranged_length [OF d(1)] rearranged_length [OF z(1)] by simp_all
  have bm: "a \<le> b" "m \<le> l" "a \<le> b'" "m' \<le> l" "b \<le> m" "b' \<le> m'" using z(3) d(2-4) by auto
  have yz: "rearranged a l ys zs" using rearranged_trans [OF z(1,2) bm(1-4)] .
  show "rearranged a l xs zs" using rearranged_trans [OF d(1) yz] by simp
  have sides: "c = b \<and> e = m \<or> e \<le> b \<or> m \<le> c" "c = b' \<and> e = m' \<or> e \<le> b' \<or> m' \<le> c"
    if "(c, e) \<in> {(a, lp), (lp, hp + 1), (hp + 1, l)}" for c e using that z(3) d(2-4) by auto
  have keep: "\<forall>k. c \<le> k \<and> k < e \<longrightarrow> P (zs ! k)" if s: "(c, e) \<in> {(a, lp), (lp, hp + 1), (hp + 1, l)}"
    and q: "\<forall>k. c \<le> k \<and> k < e \<longrightarrow> P (ys ! k)" for c e P
  proof -
    have e: "e \<le> length xs" using s d(2-4) l by auto
    have "\<forall>k. c \<le> k \<and> k < e \<longrightarrow> P (us ! k)"
      using rearranged_all [OF z(1) bm(5) _ _ sides(1) [OF s] q] bm(2) l e n by simp
    then show ?thesis using rearranged_all [OF z(2) bm(6) _ _ sides(2) [OF s], of P] bm(4) l e n by simp
  qed
  have "ordered qscmp b m zs" using ordered_outside [OF o(1) z(2)] z(3) d(2-4) l n by auto
  then have oo: "ordered qscmp a lp zs" "ordered qscmp (hp + 1) l zs" using o(2) z(3) by auto
  have "\<forall>k. a \<le> k \<and> k < lp \<longrightarrow> qscmp (zs ! k) v < 0" by (rule keep [of a lp "\<lambda>x. qscmp x v < 0"]) (use d(5) in simp_all)
  moreover have "\<forall>k. lp \<le> k \<and> k < hp + 1 \<longrightarrow> qscmp (zs ! k) v = 0"
    by (rule keep [of lp "hp + 1" "\<lambda>x. qscmp x v = 0"]) (use d(6) in simp_all)
  moreover have "\<forall>k. hp + 1 \<le> k \<and> k < l \<longrightarrow> qscmp (zs ! k) v > 0"
    by (rule keep [of "hp + 1" l "\<lambda>x. qscmp x v > 0"]) (use d(7) in simp_all)
  ultimately show "ordered qscmp a l zs" using ordered_join [OF oo] by (simp add: less_Suc_eq_le Suc_le_eq)
qed

lemma qs1_spec:
  "l \<le> length xs \<Longrightarrow> \<exists>zs. qs1 qscmp xs a l = Some zs \<and> rearranged a l xs zs \<and> ordered qscmp a l zs"
proof (induction "l - a" arbitrary: xs a l rule: less_induct)
  case less
  show ?case
  proof (cases "l - a \<le> 1")
    case True
    then have "ordered qscmp a l xs" by (auto simp: ordered_def)
    then show ?thesis using True by (subst qs1.simps) (simp add: rearranged_def)
  next
    case False
    define md where "md = a + (l - a) div 2"
    have m: "a \<le> md" "md < l" using False unfolding md_def by linarith+
    have "qscmp (xs ! md) (xs ! md) = 0" using flip [of "xs ! md" "xs ! md"] by (auto simp: sgn_if split: if_splits)
    then have "part_inv qscmp (xs ! md) a l xs (False, xs, a, l - 1, md, md)" using m less.prems by auto
    then obtain ys lp hp where y: "qs_part qscmp (False, xs, a, l - 1, md, md) = Some (ys, lp, hp)"
      and p: "part_inv qscmp (xs ! md) a l xs (True, ys, lp, hp, lp, hp)" using qs_part_spec by blast
    note d = partition_done [OF p]
    have n: "length ys = length xs" by (rule rearranged_length [OF d(1)])
    have hyp: "\<exists>vs. qs1 qscmp us b m = Some vs \<and> rearranged b m us vs \<and> ordered qscmp b m vs"
      if "length us = length xs" "(b, m) \<in> {(hp + 1, l), (a, lp)}" for us b m
      using that d(2-4) less.prems False by (intro less.hyps) auto
    define c where "c \<longleftrightarrow> lp - a \<ge> l - hp"
    define b m b' m' where "b = (if c then hp + 1 else a)" and "m = (if c then l else lp)"
      and "b' = (if c then a else hp + 1)" and "m' = (if c then lp else l)"
    have bm: "(b, m) \<in> {(hp + 1, l), (a, lp)}" "(b', m') \<in> {(hp + 1, l), (a, lp)}"
      by (simp_all add: b_def m_def b'_def m'_def)
    obtain us where us: "qs1 qscmp ys b m = Some us" "rearranged b m ys us" "ordered qscmp b m us"
      using hyp [OF n bm(1)] by blast
    obtain zs where zs: "qs1 qscmp us b' m' = Some zs" "rearranged b' m' us zs" "ordered qscmp b' m' zs"
      using hyp [OF _ bm(2), of us] rearranged_length [OF us(2)] n by auto
    have "qs1 qscmp xs a l = Some zs"
      using False y us(1) zs(1) by (subst qs1.simps) (auto simp: md_def [symmetric] c_def b_def m_def b'_def m'_def split: if_splits)
    moreover have "(b, m, b', m') \<in> {(hp + 1, l, a, lp), (a, lp, hp + 1, l)}" by (simp add: b_def m_def b'_def m'_def)
    ultimately show ?thesis using parts_sorted [OF p less.prems us(2) zs(2) _ us(3) zs(3)] by blast
  qed
qed

end

end
