(* ===== verification/Xinu_Cstring.thy ===== *)
theory Xinu_Cstring
  imports Xinu_Qsort
begin

text \<open>
  Memory and string routines of \<^verbatim>\<open>lib/libxc\<close>: \<^verbatim>\<open>memcpy\<close>, \<^verbatim>\<open>memset\<close>, \<^verbatim>\<open>bzero\<close>,
  \<^verbatim>\<open>memcmp\<close>, \<^verbatim>\<open>memchr\<close>, \<^verbatim>\<open>strnlen\<close>, \<^verbatim>\<open>strncmp\<close>, \<^verbatim>\<open>strncpy\<close>,
  \<^verbatim>\<open>strncat\<close>, \<^verbatim>\<open>strchr\<close>, \<^verbatim>\<open>strrchr\<close>, \<^verbatim>\<open>strstr\<close>, \<^verbatim>\<open>atoi\<close> and \<^verbatim>\<open>atol\<close>.
  They work on a memory of bytes; a character is an unsigned byte, as on ARM. A loop that looks for the end of
  a string is a partial function, so that a missing end is the result \<open>None\<close>.
\<close>

section \<open>The routines\<close>

type_synonym bytes = "u32 \<Rightarrow> u8"

fun memcpy_loop :: "nat \<Rightarrow> u32 \<Rightarrow> u32 \<Rightarrow> bytes \<Rightarrow> bytes" where
  "memcpy_loop 0 dst src m = m"
| "memcpy_loop (Suc n) dst src m = memcpy_loop n (dst + 1) (src + 1) (m(dst := m src))"

definition memcpy :: "u32 \<Rightarrow> u32 \<Rightarrow> int \<Rightarrow> bytes \<Rightarrow> u32 \<times> bytes" where
  "memcpy s ct n m = (s, memcpy_loop (nat n) s ct m)"

fun memset_loop :: "nat \<Rightarrow> u32 \<Rightarrow> u8 \<Rightarrow> bytes \<Rightarrow> bytes" where
  "memset_loop 0 cp c m = m"
| "memset_loop (Suc n) cp c m = memset_loop n (cp + 1) c (m(cp := c))"

definition memset :: "u32 \<Rightarrow> int \<Rightarrow> int \<Rightarrow> bytes \<Rightarrow> u32 \<times> bytes" where
  "memset s c n m = (s, memset_loop (nat n) s (word_of_int c) m)"

fun bzero_loop :: "nat \<Rightarrow> u32 \<Rightarrow> bytes \<Rightarrow> bytes" where
  "bzero_loop 0 pch m = m"
| "bzero_loop (Suc n) pch m = bzero_loop n (pch + 1) (m(pch := 0))"

definition bzero :: "u32 \<Rightarrow> int \<Rightarrow> bytes \<Rightarrow> bytes" where
  "bzero p len m = (if len \<le> 0 then m else bzero_loop (nat len) p m)"

fun memcmp_loop :: "nat \<Rightarrow> u32 \<Rightarrow> u32 \<Rightarrow> bytes \<Rightarrow> int" where
  "memcmp_loop 0 c1 c2 m = 0"
| "memcmp_loop (Suc n) c1 c2 m =
     (if m c1 \<noteq> m c2 then uint (m c1) - uint (m c2) else memcmp_loop n (c1 + 1) (c2 + 1) m)"

definition memcmp :: "u32 \<Rightarrow> u32 \<Rightarrow> int \<Rightarrow> bytes \<Rightarrow> int" where
  "memcmp s1 s2 n m = memcmp_loop (nat n) s1 s2 m"

partial_function (option) memchr_loop :: "u8 \<Rightarrow> u32 \<Rightarrow> bytes \<Rightarrow> u32 option" where
  "memchr_loop c cp m = (if m cp = 0 then Some 0 else if m cp = c then Some cp else memchr_loop c (cp + 1) m)"

definition memchr :: "u32 \<Rightarrow> int \<Rightarrow> int \<Rightarrow> bytes \<Rightarrow> u32 option" where
  "memchr cs c n m = memchr_loop (word_of_int c) cs m"

text \<open>The byte is read before the count is looked at.\<close>

fun strnlen_loop :: "nat \<Rightarrow> u32 \<Rightarrow> bytes \<Rightarrow> nat" where
  "strnlen_loop 0 s m = 0"
| "strnlen_loop (Suc k) s m = (if m s \<noteq> 0 then Suc (strnlen_loop k (s + 1) m) else 0)"

definition strnlen :: "u32 \<Rightarrow> u32 \<Rightarrow> bytes \<Rightarrow> int option" where
  "strnlen s len m = ck (int (strnlen_loop (unat len) s m))"

fun strncmp_loop :: "nat \<Rightarrow> u32 \<Rightarrow> u32 \<Rightarrow> bytes \<Rightarrow> int" where
  "strncmp_loop 0 s1 s2 m = 0"
| "strncmp_loop (Suc n) s1 s2 m =
     (if m s1 = m s2 then (if m s1 = 0 then 0 else strncmp_loop n (s1 + 1) (s2 + 1) m)
      else uint (m s1) - uint (m s2))"

definition strncmp :: "u32 \<Rightarrow> u32 \<Rightarrow> int \<Rightarrow> bytes \<Rightarrow> int option" where
  "strncmp s1 s2 n m = do { _ \<leftarrow> ck (n - 1); Some (strncmp_loop (nat n) s1 s2 m) }"

fun strncpy_pad :: "nat \<Rightarrow> u32 \<Rightarrow> bytes \<Rightarrow> bytes" where
  "strncpy_pad 0 s1 m = m"
| "strncpy_pad (Suc n) s1 m = strncpy_pad n (s1 + 1) (m(s1 := 0))"

fun strncpy_loop :: "nat \<Rightarrow> u32 \<Rightarrow> u32 \<Rightarrow> bytes \<Rightarrow> bytes" where
  "strncpy_loop 0 s1 s2 m = m"
| "strncpy_loop (Suc n) s1 s2 m =
     (let m' = m(s1 := m s2) in
      if m' s1 = 0 then strncpy_pad n (s1 + 1) m' else strncpy_loop n (s1 + 1) (s2 + 1) m')"

definition strncpy :: "u32 \<Rightarrow> u32 \<Rightarrow> int \<Rightarrow> bytes \<Rightarrow> u32 \<times> bytes" where
  "strncpy s1 s2 n m = (s1, strncpy_loop (nat n) s1 s2 m)"

partial_function (option) str_end :: "u32 \<Rightarrow> bytes \<Rightarrow> u32 option" where
  "str_end s1 m = (if m s1 = 0 then Some s1 else str_end (s1 + 1) m)"

text \<open>The copy of \<^verbatim>\<open>strncat\<close>: the character after the last one allowed is stored and then overwritten.\<close>

partial_function (option) strncat_loop :: "int \<Rightarrow> u32 \<Rightarrow> u32 \<Rightarrow> bytes \<Rightarrow> bytes option" where
  "strncat_loop n s1 s2 m =
     (let m = m(s1 := m s2) in
      if m s1 = 0 then Some m
      else do {
        n \<leftarrow> ck (n - 1);
        if n < 0 then Some (m(s1 := 0)) else strncat_loop n (s1 + 1) (s2 + 1) m
      })"

definition strncat :: "u32 \<Rightarrow> u32 \<Rightarrow> int \<Rightarrow> bytes \<Rightarrow> (u32 \<times> bytes) option" where
  "strncat s1 s2 n m = do { e \<leftarrow> str_end s1 m; m \<leftarrow> strncat_loop n e s2 m; Some (s1, m) }"

partial_function (option) strchr_loop :: "u8 \<Rightarrow> u32 \<Rightarrow> bytes \<Rightarrow> u32 option" where
  "strchr_loop c s m =
     (if m s \<noteq> 0 then (if m s = c then Some s else strchr_loop c (s + 1) m)
      else if c = m s then Some s else Some 0)"

definition strchr :: "u32 \<Rightarrow> int \<Rightarrow> bytes \<Rightarrow> u32 option" where
  "strchr s c m = strchr_loop (word_of_int c) s m"

partial_function (option) strrchr_loop :: "u8 \<Rightarrow> u32 \<Rightarrow> u32 \<Rightarrow> bytes \<Rightarrow> u32 option" where
  "strrchr_loop c r s m =
     (if m s \<noteq> 0 then strrchr_loop c (if m s = c then s else r) (s + 1) m
      else if c = m s then Some s else Some r)"

definition strrchr :: "u32 \<Rightarrow> int \<Rightarrow> bytes \<Rightarrow> u32 option" where
  "strrchr s c m = strrchr_loop (word_of_int c) 0 s m"

partial_function (option) strstr_match :: "u32 \<Rightarrow> u32 \<Rightarrow> bytes \<Rightarrow> u32 option" where
  "strstr_match cq cr m =
     (if m cq \<noteq> 0 \<and> m cr \<noteq> 0 \<and> m cq = m cr then strstr_match (cq + 1) (cr + 1) m else Some cr)"

partial_function (option) strstr :: "u32 \<Rightarrow> u32 \<Rightarrow> bytes \<Rightarrow> u32 option" where
  "strstr cs ct m =
     (if m cs = 0 then Some 0
      else if m cs = m ct
      then do { cr \<leftarrow> strstr_match cs ct m; if m cr = 0 then Some cs else strstr (cs + 1) ct m }
      else strstr (cs + 1) ct m)"

text \<open>\<^verbatim>\<open>atoi\<close>: blanks, one sign, digits. The arithmetic of \<^verbatim>\<open>int\<close> may not overflow.\<close>

partial_function (option) atoi_sign :: "u32 \<Rightarrow> bytes \<Rightarrow> (bool \<times> u32) option" where
  "atoi_sign p m =
     (if m p = 0x20 \<or> m p = 0x09 then atoi_sign (p + 1) m
      else if m p = 0x2D then Some (True, p + 1)
      else if m p = 0x2B then Some (False, p + 1)
      else Some (False, p))"

partial_function (option) atoi_digits :: "int \<Rightarrow> u32 \<Rightarrow> bytes \<Rightarrow> int option" where
  "atoi_digits n p m =
     (if 0x30 \<le> m p \<and> m p \<le> 0x39
      then do { k \<leftarrow> ck (n * 10); k \<leftarrow> ck (k + uint (m p)); atoi_digits (k - 0x30) (p + 1) m }
      else Some n)"

definition atoi :: "u32 \<Rightarrow> bytes \<Rightarrow> int option" where
  "atoi p m = do { (f, p) \<leftarrow> atoi_sign p m; n \<leftarrow> atoi_digits 0 p m; Some (if f then - n else n) }"

text \<open>On this platform \<^verbatim>\<open>long\<close> is as wide as \<^verbatim>\<open>int\<close>, and \<^verbatim>\<open>atol\<close> is the same loop.\<close>

definition atol :: "u32 \<Rightarrow> bytes \<Rightarrow> int option" where
  "atol p m = do { (f, p) \<leftarrow> atoi_sign p m; n \<leftarrow> atoi_digits 0 p m; Some (if f then - n else n) }"

definition abs_c :: "int \<Rightarrow> int option" where
  "abs_c arg = (if arg < 0 then ck (- arg) else Some arg)"

definition srand :: "u32 \<Rightarrow> u32" where
  "srand x = x"

definition rand :: "u32 \<Rightarrow> u32 \<times> u32" where
  "rand randx = (let randx = randx * 1103515245 + 12345 in (and (drop_bit 16 randx) 0x7FFF, randx))"

section \<open>Bytes and strings in memory\<close>

text \<open>\<open>rng p n\<close>: the \<open>n\<close> addresses from \<open>p\<close>; \<open>str_at\<close>: a string with its end.\<close>

fun rng :: "u32 \<Rightarrow> nat \<Rightarrow> u32 set" where
  "rng p 0 = {}"
| "rng p (Suc n) = insert p (rng (p + 1) n)"

fun bytes_at :: "bytes \<Rightarrow> u32 \<Rightarrow> u8 list \<Rightarrow> bool" where
  "bytes_at m p [] \<longleftrightarrow> True"
| "bytes_at m p (x # xs) \<longleftrightarrow> m p = x \<and> bytes_at m (p + 1) xs"

definition str_at :: "bytes \<Rightarrow> u32 \<Rightarrow> u8 list \<Rightarrow> bool" where
  "str_at m p xs \<longleftrightarrow> bytes_at m p (xs @ [0]) \<and> 0 \<notin> set xs"

lemma str_at_simps [simp]:
  "str_at m p [] \<longleftrightarrow> m p = 0" "str_at m p (x # xs) \<longleftrightarrow> m p = x \<and> x \<noteq> 0 \<and> str_at m (p + 1) xs"
  by (auto simp: str_at_def)

lemma rng_eq: "rng p n = (\<lambda>k. p + of_nat k) ` {..<n}"
  by (induction n arbitrary: p) (simp_all add: lessThan_Suc_eq_insert_0 image_image algebra_simps)

lemma rng_append: "rng p (a + b) = rng p a \<union> rng (p + of_nat a) b"
  by (induction a arbitrary: p) (simp_all add: ac_simps)

lemma rng_mono: "a \<le> b \<Longrightarrow> rng p a \<subseteq> rng p b"
  by (auto simp: rng_eq)

lemma rng_disjoint:
  assumes "a + b \<le> 2 ^ 32" shows "rng p a \<inter> rng (p + of_nat a) b = {}"
proof -
  have "i = a + j" if "i < a" "j < b" "(of_nat i :: u32) = of_nat (a + j)" for i j
    using that assms by (simp add: word_unat_eq_iff unsigned_of_nat take_bit_nat_eq_self del: of_nat_add)
  then have "(of_nat i :: u32) \<noteq> of_nat (a + j)" if "i < a" "j < b" for i j using that by force
  then show ?thesis by (fastforce simp: rng_eq)
qed

text \<open>A range that does not go round the memory does not come back to its start.\<close>

lemma rng_start:
  assumes "n < 2 ^ 32"
  shows "p \<notin> rng (p + 1) n"
proof
  assume "p \<in> rng (p + 1) n"
  then obtain k where k: "k < n" "p = p + 1 + of_nat k" by (auto simp: rng_eq)
  then have "(of_nat (Suc k) :: u32) = 0" by (simp add: algebra_simps)
  then have "(2 :: nat) ^ 32 dvd Suc k" by (simp only: word_of_nat_eq_0_iff) simp
  then show False using k(1) assms by (auto dest: dvd_imp_le)
qed

lemma bytes_at_frame:
  "\<forall>a\<in>rng p (length xs). m' a = m a \<Longrightarrow> bytes_at m' p xs = bytes_at m p xs"
  by (induction xs arbitrary: p) auto

lemma bytes_at_append: "bytes_at m p (xs @ ys) \<longleftrightarrow> bytes_at m p xs \<and> bytes_at m (p + of_nat (length xs)) ys"
  by (induction xs arbitrary: p) (auto simp: algebra_simps)

section \<open>Copying and filling\<close>

lemma memcpy_frame: "a \<notin> rng dst n \<Longrightarrow> memcpy_loop n dst src m a = m a"
  by (induction n arbitrary: dst src m) auto

text \<open>The bytes are copied when the destination does not lie over a part of the source still to be read.\<close>

lemma memcpy_copies:
  assumes "bytes_at m src xs" and "length xs \<le> 2 ^ 32" and "rng dst (length xs) \<inter> rng src (length xs) = {}"
  shows "bytes_at (memcpy_loop (length xs) dst src m) dst xs"
  using assms
proof (induction xs arbitrary: dst src m)
  case (Cons x xs)
  define m1 where "m1 = m(dst := m src)"
  have d: "dst \<notin> rng (dst + 1) (length xs)" using Cons.prems(2) by (intro rng_start) simp
  have "bytes_at m1 (src + 1) xs" using Cons.prems(1,3) by (subst bytes_at_frame [of _ _ _ m]) (auto simp: m1_def)
  then have "bytes_at (memcpy_loop (length xs) (dst + 1) (src + 1) m1) (dst + 1) xs"
    using Cons.prems by (intro Cons.IH) auto
  then show ?case using Cons.prems(1) memcpy_frame [OF d, of "src + 1" m1] by (simp add: m1_def)
qed simp

lemma memset_frame: "a \<notin> rng p n \<Longrightarrow> memset_loop n p c m a = m a"
  by (induction n arbitrary: p m) auto

lemma memset_bytes: "n \<le> 2 ^ 32 \<Longrightarrow> bytes_at (memset_loop n p c m) p (replicate n c)"
proof (induction n arbitrary: p m)
  case (Suc n)
  then have "p \<notin> rng (p + 1) n" by (intro rng_start) simp
  then show ?case using Suc memset_frame [of p "p + 1" n c "m(p := c)"] by simp
qed simp

lemma bzero_memset: "bzero_loop n p m = memset_loop n p 0 m"
  by (induction n arbitrary: p m) auto

section \<open>Comparing\<close>

lemma byte_eq: "uint (x :: u8) = uint y \<Longrightarrow> x = y"
  by (rule word_uint_eqI)

lemma byte_zero: "uint (x :: u8) = 0 \<Longrightarrow> x = 0"
  using byte_eq [of x 0] by simp

text \<open>For a fixed length \<^verbatim>\<open>memcmp\<close> orders the blocks of a memory, so it can be given to \<^verbatim>\<open>qsort\<close>.\<close>

lemma memcmp_flip: "memcmp_loop n p q m + memcmp_loop n q p m = 0"
  by (induction n arbitrary: p q) auto

lemma memcmp_trans: "memcmp_loop n p q m \<le> 0 \<Longrightarrow> memcmp_loop n q r m \<le> 0 \<Longrightarrow> memcmp_loop n p r m \<le> 0"
proof (induction n arbitrary: p q r)
  case (Suc n)
  have h: "uint (m p) \<le> uint (m q)" "uint (m q) \<le> uint (m r)"
    using Suc.prems by (auto split: if_splits)
  show ?case
  proof (cases "m p = m r")
    case True
    then have "m p = m q" "m q = m r" using h byte_eq [of "m p" "m q"] byte_eq [of "m q" "m r"] by simp_all
    then show ?thesis using Suc by simp
  next
    case False
    then show ?thesis using h by simp
  qed
qed simp

lemma memcmp_zero:
  "length xs = n \<Longrightarrow> length ys = n \<Longrightarrow> bytes_at m p xs \<Longrightarrow> bytes_at m q ys \<Longrightarrow> memcmp_loop n p q m = 0 \<longleftrightarrow> xs = ys"
proof (induction n arbitrary: xs ys p q)
  case (Suc n)
  then obtain x xs' y ys' where "xs = x # xs'" "ys = y # ys'" by (metis length_Suc_conv)
  then show ?case using Suc by (auto dest: byte_eq)
qed simp

interpretation memcmp_blocks: comparison "\<lambda>p q. memcmp p q n m" for n m
proof unfold_locales
  fix x y z :: u32
  have "memcmp y x n m = - memcmp x y n m" using memcmp_flip [of "nat n" y x m] unfolding memcmp_def by linarith
  then show "sgn (memcmp y x n m) = - sgn (memcmp x y n m)" by simp
  show "memcmp x y n m \<le> 0 \<Longrightarrow> memcmp y z n m \<le> 0 \<Longrightarrow> memcmp x z n m \<le> 0"
    unfolding memcmp_def by (rule memcmp_trans)
qed

text \<open>\<^verbatim>\<open>strncmp\<close> compares the strings cut to \<open>n\<close> characters, with the end smaller than any character.\<close>

fun cmp_list :: "u8 list \<Rightarrow> u8 list \<Rightarrow> int" where
  "cmp_list [] [] = 0"
| "cmp_list [] (y # ys) = - uint y"
| "cmp_list (x # xs) [] = uint x"
| "cmp_list (x # xs) (y # ys) = (if x = y then cmp_list xs ys else uint x - uint y)"

lemma strncmp_spec: "str_at m p xs \<Longrightarrow> str_at m q ys \<Longrightarrow> strncmp_loop n p q m = cmp_list (take n xs) (take n ys)"
proof (induction n arbitrary: xs ys p q)
  case (Suc n)
  show ?case using Suc by (cases xs; cases ys) auto
qed simp

lemma cmp_list_zero: "0 \<notin> set xs \<Longrightarrow> 0 \<notin> set ys \<Longrightarrow> cmp_list xs ys = 0 \<longleftrightarrow> xs = ys"
  by (induction xs ys rule: cmp_list.induct) (auto dest: byte_zero byte_eq)

lemma strnlen_spec: "str_at m p xs \<Longrightarrow> strnlen_loop n p m = min n (length xs)"
proof (induction n arbitrary: p xs)
  case (Suc n)
  then show ?case by (cases xs) auto
qed simp

section \<open>Copying strings\<close>

lemma strncpy_pad_memset: "strncpy_pad n p m = memset_loop n p 0 m"
  by (induction n arbitrary: p m) auto

lemma strncpy_frame: "a \<notin> rng p n \<Longrightarrow> strncpy_loop n p q m a = m a"
proof (induction n arbitrary: p q m)
  case (Suc n)
  define m1 where "m1 = m(p := m q)"
  have "a \<noteq> p" "a \<notin> rng (p + 1) n" using Suc.prems by simp_all
  then have "strncpy_loop n (p + 1) (q + 1) m1 a = m1 a" "memset_loop n (p + 1) 0 m1 a = m1 a" "m1 a = m a"
    using Suc.IH memset_frame by (simp_all add: m1_def)
  then show ?case by (simp add: strncpy_pad_memset m1_def [symmetric] Let_def)
qed simp

text \<open>Exactly \<open>n\<close> bytes are written: the string, cut or filled up with zeros.\<close>

lemma strncpy_bytes:
  assumes "str_at m q xs" and "n \<le> 2 ^ 32" and "rng p n \<inter> rng q (Suc (length xs)) = {}"
  shows "bytes_at (strncpy_loop n p q m) p (take n (xs @ replicate n 0))"
  using assms
proof (induction n arbitrary: p q xs m)
  case (Suc n)
  define m1 where "m1 = m(p := m q)"
  have d: "p \<notin> rng (p + 1) n" using Suc.prems(2) by (intro rng_start) simp
  show ?case
  proof (cases xs)
    case Nil
    then show ?thesis using Suc.prems memset_bytes [of n "p + 1" 0 m1] memset_frame [OF d, of 0 m1]
      by (simp add: m1_def Let_def strncpy_pad_memset)
  next
    case (Cons x ys)
    have "str_at m1 (q + 1) ys"
      using Suc.prems(1,3) Cons unfolding str_at_def by (subst bytes_at_frame [of _ _ _ m]) (auto simp: m1_def)
    then have "bytes_at (strncpy_loop n (p + 1) (q + 1) m1) (p + 1) (take n (ys @ replicate n 0))"
      using Suc.prems Cons by (intro Suc.IH) auto
    then show ?thesis using Suc.prems Cons strncpy_frame [OF d, of "q + 1" m1]
      by (simp add: m1_def Let_def del: replicate_Suc)
  qed
qed simp

lemma str_end_spec: "str_at m p xs \<Longrightarrow> str_end p m = Some (p + of_nat (length xs))"
proof (induction xs arbitrary: p)
  case (Cons x xs)
  then show ?case by (subst str_end.simps) (simp add: algebra_simps)
qed (subst str_end.simps, simp)

text \<open>\<^verbatim>\<open>strncat\<close> appends at most \<open>n\<close> characters and an end, and touches no byte past them.\<close>

lemma strncat_loop_spec:
  assumes "str_at m q ys" and "0 \<le> n" "n \<le> MAXKEY" and "rng p (Suc (length ys)) \<inter> rng q (Suc (length ys)) = {}"
    and "length ys < 2 ^ 32"
  shows "\<exists>m'. strncat_loop n p q m = Some m' \<and> str_at m' p (take (nat n) ys)
     \<and> (\<forall>a. a \<notin> rng p (Suc (min (nat n) (length ys))) \<longrightarrow> m' a = m a)"
  using assms
proof (induction ys arbitrary: n p q m)
  case Nil
  then show ?case by (subst strncat_loop.simps) simp
next
  case (Cons y ys)
  define m1 where "m1 = m(p := m q)"
  have y: "m q = y" "y \<noteq> 0" using Cons.prems(1) by simp_all
  show ?case
  proof (cases "n = 0")
    case True
    then show ?thesis using y by (subst strncat_loop.simps) (simp add: Let_def)
  next
    case False
    have "str_at m1 (q + 1) ys"
      using Cons.prems(1,4) unfolding str_at_def by (subst bytes_at_frame [of _ _ _ m]) (auto simp: m1_def)
    then obtain m' where m': "strncat_loop (n - 1) (p + 1) (q + 1) m1 = Some m'" "str_at m' (p + 1) (take (nat (n - 1)) ys)"
      "\<forall>a. a \<notin> rng (p + 1) (Suc (min (nat (n - 1)) (length ys))) \<longrightarrow> m' a = m1 a"
      using Cons.IH [of m1 "q + 1" "n - 1" "p + 1"] Cons.prems False by auto
    have s: "strncat_loop n p q m = Some m'"
      using y m'(1) False Cons.prems(2,3) by (subst strncat_loop.simps) (simp add: Let_def m1_def)
    have n: "nat n = Suc (nat (n - 1))" using False Cons.prems(2) by simp
    have "p \<notin> rng (p + 1) (Suc (min (nat (n - 1)) (length ys)))" using Cons.prems(5) by (intro rng_start) simp
    then have "m' p = y" using m'(3) y by (simp add: m1_def)
    then show ?thesis using s m' y n by (auto simp: m1_def)
  qed
qed

section \<open>Searching\<close>

text \<open>The first and the last place of a character; the end of the string counts as a character.\<close>

lemma strchr_loop_spec:
  "str_at m p xs \<Longrightarrow> strchr_loop c p m = Some (if c \<in> set (xs @ [0]) then p + of_nat (length (takeWhile (\<lambda>x. x \<noteq> c) xs)) else 0)"
proof (induction xs arbitrary: p)
  case (Cons x xs)
  then show ?case by (subst strchr_loop.simps) (auto simp: algebra_simps)
qed (subst strchr_loop.simps, simp)

lemma strrchr_loop_spec:
  "str_at m p xs \<Longrightarrow> c \<noteq> 0 \<Longrightarrow> strrchr_loop c r p m
     = Some (if c \<in> set xs then p + of_nat (length xs - 1 - length (takeWhile (\<lambda>x. x \<noteq> c) (rev xs))) else r)"
proof (induction xs arbitrary: p r)
  case (Cons x xs)
  have "length (takeWhile (\<lambda>x. x \<noteq> c) (rev xs)) < length xs" if "c \<in> set xs"
  proof -
    have "takeWhile (\<lambda>x. x \<noteq> c) (rev xs) \<noteq> rev xs" using that by (auto simp: takeWhile_eq_all_conv)
    then show ?thesis by (metis length_rev length_takeWhile_le nat_less_le takeWhile_eq_take take_all order_refl)
  qed
  moreover have "takeWhile (\<lambda>x. x \<noteq> c) (rev xs @ [x]) = takeWhile (\<lambda>x. x \<noteq> c) (rev xs)" if "c \<in> set xs"
    using that by (intro takeWhile_append1) auto
  moreover have "takeWhile (\<lambda>x. x \<noteq> c) (rev xs @ [x]) = rev xs @ takeWhile (\<lambda>x. x \<noteq> c) [x]" if "c \<notin> set xs"
    using that by (intro takeWhile_append2) auto
  moreover have "strrchr_loop c r p m = strrchr_loop c (if x = c then p else r) (p + 1) m"
    using Cons.prems by (subst strrchr_loop.simps) auto
  ultimately show ?case using Cons.IH [of "p + 1"] Cons.prems
    by (cases "c \<in> set xs") (auto simp: of_nat_diff algebra_simps Suc_diff_Suc)
qed (subst strrchr_loop.simps, simp)

text \<open>\<^verbatim>\<open>memchr\<close> does not look at its length, and stops at a zero byte.\<close>

lemma memchr_ignores_length: "memchr p c n m = memchr p c n' m"
  by (simp add: memchr_def)

lemma memchr_loop_spec:
  "str_at m p xs \<Longrightarrow> c \<noteq> 0 \<Longrightarrow> memchr_loop c p m = Some (if c \<in> set xs then p + of_nat (length (takeWhile (\<lambda>x. x \<noteq> c) xs)) else 0)"
proof (induction xs arbitrary: p)
  case (Cons x xs)
  then show ?case by (subst memchr_loop.simps) (auto simp: algebra_simps)
qed (subst memchr_loop.simps, simp)

text \<open>A reference for the search for a string.\<close>

fun find_sub :: "'a list \<Rightarrow> 'a list \<Rightarrow> nat option" where
  "find_sub ys [] = None"
| "find_sub ys (x # xs) = (if take (length ys) (x # xs) = ys then Some 0 else map_option Suc (find_sub ys xs))"

lemma strstr_match_spec:
  "str_at m p xs \<Longrightarrow> str_at m q ys \<Longrightarrow> \<exists>r. strstr_match p q m = Some r \<and> (m r = 0 \<longleftrightarrow> take (length ys) xs = ys)"
proof (induction ys arbitrary: p q xs)
  case Nil
  then show ?case by (subst strstr_match.simps) simp
next
  case (Cons y ys)
  show ?case
  proof (cases xs)
    case Nil
    then show ?thesis using Cons.prems by (subst strstr_match.simps) simp
  next
    case (Cons x xs')
    then show ?thesis using Cons.IH [of "p + 1" xs' "q + 1"] Cons.prems by (subst strstr_match.simps) auto
  qed
qed

lemma strstr_spec:
  "str_at m p xs \<Longrightarrow> str_at m q ys \<Longrightarrow> ys \<noteq> [] \<Longrightarrow>
   strstr p q m = Some (case find_sub ys xs of None \<Rightarrow> 0 | Some k \<Rightarrow> p + of_nat k)"
proof (induction xs arbitrary: p)
  case Nil
  then show ?case by (subst strstr.simps) simp
next
  case (Cons x xs)
  obtain r where r: "strstr_match p q m = Some r" "m r = 0 \<longleftrightarrow> take (length ys) (x # xs) = ys"
    using strstr_match_spec [OF Cons.prems(1,2)] by blast
  have i: "strstr (p + 1) q m = Some (case find_sub ys xs of None \<Rightarrow> 0 | Some k \<Rightarrow> p + 1 + of_nat k)"
    using Cons by simp
  have n: "take (length ys) (x # xs) \<noteq> ys" if "m p \<noteq> m q" using that Cons.prems by (cases ys) auto
  show ?case using Cons.prems(1) r i n by (subst strstr.simps) (auto split: option.splits simp: algebra_simps)
qed

text \<open>For the empty string it finds nothing, where the C standard has the start.\<close>

lemma strstr_empty: "str_at m p xs \<Longrightarrow> m q = 0 \<Longrightarrow> strstr p q m = Some 0"
proof (induction xs arbitrary: p)
  case (Cons x xs)
  then show ?case by (subst strstr.simps) simp
qed (subst strstr.simps, simp)

end
