(* ===== verification/Xinu_Print.thy ===== *)
theory Xinu_Print
  imports Xinu_Cstring
begin

text \<open>
  Formatted output: \<^verbatim>\<open>lib/libxc/doprnt.c\<close>. The output function is the list of the characters it gets, the
  format is the list of the characters before its end, and an argument is a word or a string. \<^verbatim>\<open>long\<close> is
  a signed number of 32 bits whose arithmetic wraps, as the comment on the format \<^verbatim>\<open>u\<close> relies on. \<open>None\<close> is
  a missing argument, one of the wrong kind, a store past the end of the local buffer, or a read of it before any store.
\<close>

section \<open>The conversions of numbers\<close>

abbreviation (input) ch :: "char \<Rightarrow> u8" where "ch c \<equiv> of_char c"

definition wrap :: "int \<Rightarrow> int" where
  "wrap n = sint (word_of_int n :: u32)"

text \<open>Quotient and remainder of C, which round towards zero.\<close>

definition c_quo :: "int \<Rightarrow> int \<Rightarrow> int" where
  "c_quo n k = (if n < 0 then - ((- n) div k) else n div k)"

definition c_rem :: "int \<Rightarrow> int \<Rightarrow> int" where
  "c_rem n k = (if n < 0 then - ((- n) mod k) else n mod k)"

text \<open>The first loop of the five routines, which fills \<^verbatim>\<open>temp\<close> from index 1.\<close>

fun prt_temp :: "(int \<Rightarrow> u8) \<Rightarrow> (int \<Rightarrow> int) \<Rightarrow> nat \<Rightarrow> int \<Rightarrow> u8 list" where
  "prt_temp dig nxt 0 num = []"
| "prt_temp dig nxt (Suc n) num = dig num # prt_temp dig nxt n (nxt num)"

text \<open>Their last two loops: skip the zeros at the top, keep one digit, and copy down to the end at index 0.\<close>

definition prt_emit :: "u8 list \<Rightarrow> u8 list" where
  "prt_emit temp = (case dropWhile (\<lambda>c. c = 0x30) (rev temp) of [] \<Rightarrow> [hd temp] | cs \<Rightarrow> cs)"

definition prtl10 :: "int \<Rightarrow> u8 list" where
  "prtl10 num = prt_emit (prt_temp (\<lambda>n. word_of_int (c_rem n 10 + 0x30)) (\<lambda>n. c_quo n 10) 10 num)"

definition prtl8 :: "int \<Rightarrow> u8 list" where
  "prtl8 num =
     (let temp = prt_temp (\<lambda>n. word_of_int (n mod 8 + 0x30)) (\<lambda>n. n div 8) 11 num
      in prt_emit (temp[10 := and (temp ! 10) 0x33]))"

definition hexdigs :: "u8 list" where
  "hexdigs = map of_char ''0123456789abcdef''"

definition hexdigsX :: "u8 list" where
  "hexdigsX = map of_char ''0123456789ABCDEF''"

definition prtl16 :: "int \<Rightarrow> u8 list" where
  "prtl16 num = prt_emit (prt_temp (\<lambda>n. hexdigs ! nat (n mod 16)) (\<lambda>n. n div 16) 8 num)"

definition prtX16 :: "int \<Rightarrow> u8 list" where
  "prtX16 num = prt_emit (prt_temp (\<lambda>n. hexdigsX ! nat (n mod 16)) (\<lambda>n. n div 16) 8 num)"

definition prtl2 :: "int \<Rightarrow> u8 list" where
  "prtl2 num = prt_emit (prt_temp (\<lambda>n. if c_rem n 2 = 0 then 0x30 else 0x31) (\<lambda>n. n div 2) 32 num)"

section \<open>The format\<close>

datatype va = VInt int | VStr "u8 list option"

fun va_int :: "va list \<Rightarrow> (int \<times> va list) option" where
  "va_int (VInt n # ap) = Some (n, ap)"
| "va_int _ = None"

fun va_str :: "va list \<Rightarrow> (u8 list option \<times> va list) option" where
  "va_str (VStr s # ap) = Some (s, ap)"
| "va_str _ = None"

fun scan_num :: "int \<Rightarrow> u8 list \<Rightarrow> int \<times> u8 list" where
  "scan_num n [] = (n, [])"
| "scan_num n (c # fmt) = (if 0x30 \<le> c \<and> c \<le> 0x39 then scan_num (wrap (n * 10 + uint c - 0x30)) fmt else (n, c # fmt))"

definition scan_width :: "u8 list \<Rightarrow> va list \<Rightarrow> (int \<times> u8 list \<times> va list) option" where
  "scan_width fmt ap =
     (if fmt \<noteq> [] \<and> hd fmt = ch CHR ''*'' then do { (n, ap) \<leftarrow> va_int ap; Some (n, tl fmt, ap) }
      else (let (n, fmt) = scan_num 0 fmt in Some (n, fmt, ap)))"

text \<open>From after the \<^verbatim>\<open>%\<close> to the conversion character: left-justified, fill, minimum and maximum width.\<close>

definition dspec :: "u8 list \<Rightarrow> va list \<Rightarrow> (bool \<times> u8 \<times> int \<times> int \<times> u8 list \<times> va list) option" where
  "dspec fmt ap =
     (let leftjust = (fmt \<noteq> [] \<and> hd fmt = ch CHR ''-'');
          fmt = (if leftjust then tl fmt else fmt);
          zero = (fmt \<noteq> [] \<and> hd fmt = 0x30);
          fmt = (if zero then tl fmt else fmt)
      in do {
        (fmin, fmt, ap) \<leftarrow> scan_width fmt ap;
        (fmax, fmt, ap) \<leftarrow> (if fmt \<noteq> [] \<and> hd fmt = ch CHR ''.'' then scan_width (tl fmt) ap else Some (0, fmt, ap));
        Some (leftjust, if zero then 0x30 else 0x20, fmin, fmax, fmt, ap)
      })"

text \<open>The loop of the format \<^verbatim>\<open>u\<close>: the billions taken off go to the first digit.\<close>

partial_function (option) u_loop :: "int \<Rightarrow> u8 \<Rightarrow> (int \<times> u8) option" where
  "u_loop larg d1 = (if larg < 0 then u_loop (wrap (larg - 1000000000)) (d1 + 1) else Some (larg, d1))"

text \<open>A store into the local buffer of 20 characters, with the end.\<close>

definition fits20 :: "u8 list \<Rightarrow> u8 list option" where
  "fits20 s = (if length s + 1 \<le> 20 then Some s else None)"

text \<open>
  The \<^verbatim>\<open>switch\<close>: what is written at once, the string to print, the buffer, the sign, the maximum
  width and the fill afterwards. An unknown character is echoed and then the buffer is printed as it is.
\<close>

type_synonym conv = "u8 list \<times> u8 list \<times> u8 list option \<times> bool \<times> int \<times> u8 \<times> va list"

definition dconv :: "u8 \<Rightarrow> int \<Rightarrow> u8 \<Rightarrow> u8 list option \<Rightarrow> va list \<Rightarrow> conv option" where
  "dconv f fmax fill buf ap =
     (if f = ch CHR ''c'' then do {
        (n, ap) \<leftarrow> va_int ap;
        let s = (if word_of_int n = (0 :: u8) then [] else [word_of_int n]);
        Some ([], s, Some s, False, 0, 0x20, ap)
      }
      else if f = ch CHR ''s'' then do {
        (p, ap) \<leftarrow> va_str ap;
        Some ([], case p of None \<Rightarrow> map of_char ''(null)'' | Some s \<Rightarrow> s, buf, False, fmax, 0x20, ap)
      }
      else if f = ch CHR ''d'' then do {
        (larg, ap) \<leftarrow> va_int ap;
        s \<leftarrow> fits20 (prtl10 (if larg < 0 then wrap (- larg) else larg));
        Some ([], s, Some s, larg < 0, fmax, fill, ap)
      }
      else if f = ch CHR ''u'' then do {
        (larg, ap) \<leftarrow> va_int ap;
        (larg, d1) \<leftarrow> u_loop larg 0;
        s \<leftarrow> fits20 (prtl10 larg);
        let s = (hd s + d1) # tl s;
        Some ([], s, Some s, False, 0, fill, ap)
      }
      else if f = ch CHR ''o'' then do {
        (larg, ap) \<leftarrow> va_int ap; s \<leftarrow> fits20 (prtl8 larg); Some ([], s, Some s, False, 0, fill, ap)
      }
      else if f = ch CHR ''X'' then do {
        (larg, ap) \<leftarrow> va_int ap; s \<leftarrow> fits20 (prtX16 larg); Some ([], s, Some s, False, 0, fill, ap)
      }
      else if f = ch CHR ''x'' then do {
        (larg, ap) \<leftarrow> va_int ap; s \<leftarrow> fits20 (prtl16 larg); Some ([], s, Some s, False, 0, fill, ap)
      }
      else if f = ch CHR ''b'' then do {
        (larg, ap) \<leftarrow> va_int ap; s \<leftarrow> fits20 (prtl2 larg); Some ([], s, Some s, False, 0, fill, ap)
      }
      else do { s \<leftarrow> buf; Some ([f], s, buf, False, fmax, fill, ap) })"

text \<open>The output of a field.\<close>

definition dpad :: "bool \<Rightarrow> u8 \<Rightarrow> int \<Rightarrow> int \<Rightarrow> bool \<Rightarrow> u8 list \<Rightarrow> u8 list" where
  "dpad leftjust fill fmin fmax neg str =
     (let fmin = (if fmin > 80 \<or> fmin < 0 then 0 else fmin);
          fmax = (if fmax > 80 \<or> fmax < 0 then 0 else fmax);
          len = (if fmax \<noteq> 0 \<and> int (length str) > fmax then fmax else int (length str));
          leading = (if fmax \<noteq> 0 \<or> fmin \<noteq> 0
                     then (if fmin \<noteq> 0 then fmin - len else 0) - (if neg then 1 else 0) else 0)
      in (if neg \<and> fill = 0x30 then [ch CHR ''-''] else [])
         @ (if leftjust then [] else replicate (nat leading) fill)
         @ (if neg \<and> fill = 0x20 then [ch CHR ''-''] else [])
         @ take (nat len) str
         @ (if leftjust then replicate (nat leading) fill else []))"

lemma scan_num_length: "length (snd (scan_num n fmt)) \<le> length fmt"
  by (induction n fmt rule: scan_num.induct) auto

lemma scan_width_length: "scan_width fmt ap = Some (n, fmt', ap') \<Longrightarrow> length fmt' \<le> length fmt"
  using scan_num_length [of 0 fmt] by (auto simp: scan_width_def split: if_splits prod.splits Option.bind_splits)

lemma dspec_length:
  assumes "dspec fmt ap = Some (leftjust, fill, fmin, fmax, fmt', ap')" shows "length fmt' \<le> length fmt"
  using assms by (auto simp: dspec_def Let_def split: if_splits Option.bind_splits dest!: scan_width_length)

function doprnt :: "u8 list \<Rightarrow> va list \<Rightarrow> u8 list option \<Rightarrow> u8 list option" where
  "doprnt fmt ap buf =
     (case fmt of
        [] \<Rightarrow> Some []
      | c # fmt \<Rightarrow>
          if c \<noteq> ch CHR ''%'' then do { out \<leftarrow> doprnt fmt ap buf; Some (c # out) }
          else if fmt \<noteq> [] \<and> hd fmt = ch CHR ''%'' then do { out \<leftarrow> doprnt (tl fmt) ap buf; Some (hd fmt # out) }
          else do {
            (leftjust, fill, fmin, fmax, fmt, ap) \<leftarrow> dspec fmt ap;
            case fmt of
              [] \<Rightarrow> Some [ch CHR ''%'']
            | f # fmt \<Rightarrow> do {
                (echo, str, buf, neg, fmax, fill, ap) \<leftarrow> dconv f fmax fill buf ap;
                out \<leftarrow> doprnt fmt ap buf;
                Some (echo @ dpad leftjust fill fmin fmax neg str @ out)
              }
          })"
  by pat_completeness auto
termination
  by (relation "measure (\<lambda>(fmt, ap, buf). length fmt)") (auto dest!: dspec_length)

declare doprnt.simps [simp del]

text \<open>\<^verbatim>\<open>sprintf\<close>, with the output function \<^verbatim>\<open>sprntf\<close> that stores a character and moves the pointer.\<close>

definition sprntf :: "u32 \<times> bytes \<Rightarrow> u8 \<Rightarrow> u32 \<times> bytes" where
  "sprntf cpp c = (fst cpp + 1, (snd cpp)(fst cpp := c))"

definition sprintf :: "u32 \<Rightarrow> u8 list \<Rightarrow> va list \<Rightarrow> bytes \<Rightarrow> (u32 \<times> bytes) option" where
  "sprintf str fmt ap m =
     do { out \<leftarrow> doprnt fmt ap None; let (s, m) = foldl sprntf (str, m) out; Some (str, snd (sprntf (s, m) 0)) }"

section \<open>Numerals\<close>

text \<open>The reference: the digits of a number to a base, without zeros in front.\<close>

definition digit :: "nat \<Rightarrow> u8" where
  "digit d = of_nat (if d < 10 then 0x30 + d else 0x57 + d)"

definition digitX :: "nat \<Rightarrow> u8" where
  "digitX d = of_nat (if d < 10 then 0x30 + d else 0x37 + d)"

fun numeral_of :: "(nat \<Rightarrow> u8) \<Rightarrow> nat \<Rightarrow> nat \<Rightarrow> u8 list" where
  "numeral_of dg b n = (if b < 2 \<or> n < b then [dg n] else numeral_of dg b (n div b) @ [dg (n mod b)])"

declare numeral_of.simps [simp del]

definition is_digits :: "(nat \<Rightarrow> u8) \<Rightarrow> nat \<Rightarrow> bool" where
  "is_digits dg b \<longleftrightarrow> (\<forall>d < b. (dg d = 0x30) = (d = 0))"

lemma digits_16: "n < 16 \<Longrightarrow> n \<in> {0,1,2,3,4,5,6,7,8,9,10,11,12,13,14,15}" for n :: nat
  by (simp only: insert_iff empty_iff) arith

lemma is_digits_digit: "b \<le> 16 \<Longrightarrow> is_digits digit b"
  unfolding is_digits_def
proof (intro allI impI)
  fix d assume "b \<le> 16" "d < b"
  then have "d \<in> {0,1,2,3,4,5,6,7,8,9,10,11,12,13,14,15}" by (intro digits_16) simp
  then show "(digit d = 0x30) = (d = 0)" by (auto simp: digit_def)
qed

lemma is_digits_digitX: "b \<le> 16 \<Longrightarrow> is_digits digitX b"
  unfolding is_digits_def
proof (intro allI impI)
  fix d assume "b \<le> 16" "d < b"
  then have "d \<in> {0,1,2,3,4,5,6,7,8,9,10,11,12,13,14,15}" by (intro digits_16) simp
  then show "(digitX d = 0x30) = (d = 0)" by (auto simp: digitX_def)
qed

text \<open>The digits from the last one, and what the copying loops make of them.\<close>

fun low_digits :: "(nat \<Rightarrow> u8) \<Rightarrow> nat \<Rightarrow> nat \<Rightarrow> nat \<Rightarrow> u8 list" where
  "low_digits dg b 0 n = []"
| "low_digits dg b (Suc k) n = dg (n mod b) # low_digits dg b k (n div b)"

lemma low_digits_zero: "is_digits dg b \<Longrightarrow> 1 < b \<Longrightarrow> dropWhile (\<lambda>c. c = 0x30) (rev (low_digits dg b k 0)) = []"
  by (induction k) (auto simp: is_digits_def dropWhile_append)

lemma dropWhile_append_some: "dropWhile P xs \<noteq> [] \<Longrightarrow> dropWhile P (xs @ ys) = dropWhile P xs @ ys"
  by (induction xs) auto

lemma low_digits_rev:
  assumes "is_digits dg b" "1 < b" "0 < n" "n < b ^ k"
  shows "dropWhile (\<lambda>c. c = 0x30) (rev (low_digits dg b k n)) = numeral_of dg b n"
  using assms
proof (induction k arbitrary: n)
  case (Suc k)
  show ?case
  proof (cases "n < b")
    case True
    with Suc.prems low_digits_zero [of dg b k] show ?thesis
      by (auto simp: numeral_of.simps [of dg b n] dropWhile_append is_digits_def)
  next
    case False
    with Suc.prems have "0 < n div b" "n div b < b ^ k"
      by (auto simp: div_greater_zero_iff less_mult_imp_div_less mult.commute)
    with Suc have "dropWhile (\<lambda>c. c = 0x30) (rev (low_digits dg b k (n div b))) = numeral_of dg b (n div b)" by blast
    moreover have "numeral_of dg b (n div b) \<noteq> []" by (simp add: numeral_of.simps [of dg b "n div b"])
    ultimately have "dropWhile (\<lambda>c. c = 0x30) (rev (low_digits dg b k (n div b)) @ [dg (n mod b)]) =
        numeral_of dg b (n div b) @ [dg (n mod b)]"
      using dropWhile_append_some [of "\<lambda>c. c = 0x30" "rev (low_digits dg b k (n div b))"] by (simp only: not_False_eq_True)
    with False Suc.prems show ?thesis by (simp add: numeral_of.simps [of dg b n])
  qed
qed simp

lemma prt_emit_digits:
  assumes "is_digits dg b" "1 < b" "n < b ^ k" "0 < k" shows "prt_emit (low_digits dg b k n) = numeral_of dg b n"
proof (cases "n = 0")
  case True
  have "dropWhile (\<lambda>c. c = 0x30) (rev (low_digits dg b k 0)) = []" using assms(1,2) by (rule low_digits_zero)
  moreover have "hd (low_digits dg b k 0) = dg 0" using \<open>0 < k\<close> by (cases k) auto
  ultimately show ?thesis using True assms(2) by (simp only: prt_emit_def numeral_of.simps [of dg b 0]) simp
next
  case False
  moreover have "numeral_of dg b n \<noteq> []" by (simp add: numeral_of.simps [of dg b n])
  ultimately show ?thesis using assms by (simp add: prt_emit_def low_digits_rev split: list.split)
qed

text \<open>
  Taking off a multiple of the base to the number of digits does not change them: a negative number has the
  digits of its two's complement.
\<close>

lemma prt_temp_digits:
  assumes "1 < b" and "num = int n - int b ^ k * q"
    and "\<And>i. dig i = dg (nat (i mod int b))" and "\<And>i. nxt i = i div int b"
  shows "prt_temp dig nxt k num = low_digits dg b k n"
  using assms(2)
proof (induction k arbitrary: num n)
  case (Suc k)
  have num: "num = int n + int b * (- (int b ^ k * q))" by (simp add: Suc.prems)
  have "num mod int b = int (n mod b)" by (simp only: num mod_mult_self2) (simp add: of_nat_mod)
  moreover have "num div int b = int (n div b) - int b ^ k * q"
    using assms(1) by (simp only: num div_mult_self2) (simp add: of_nat_div)
  ultimately show ?case using Suc.IH [of "num div int b" "n div b"] by (simp add: assms(3,4))
qed simp

lemma prt_temp_append: "prt_temp dig nxt (k + j) num = prt_temp dig nxt k num @ prt_temp dig nxt j ((nxt ^^ k) num)"
  by (induction k arbitrary: num) (simp_all add: funpow_Suc_right del: funpow.simps(2))

text \<open>A signed number read as an unsigned one.\<close>

definition as_nat :: "int \<Rightarrow> nat" where
  "as_nat n = nat (n mod 2 ^ 32)"

abbreviation in_long :: "int \<Rightarrow> bool" where
  "in_long n \<equiv> - (2 ^ 31) \<le> n \<and> n < 2 ^ 31"

lemma as_nat_eq: "in_long n \<Longrightarrow> n = int (as_nat n) - 2 ^ 32 * (if n < 0 then 1 else 0)"
  using mod_pos_pos_trivial [of "n + 2 ^ 32" "2 ^ 32"] by (auto simp: as_nat_def)

lemma hexdigs_nth: "d < 16 \<Longrightarrow> hexdigs ! d = digit d" "d < 16 \<Longrightarrow> hexdigsX ! d = digitX d"
proof -
  assume "d < 16"
  then have "d \<in> {0,1,2,3,4,5,6,7,8,9,10,11,12,13,14,15}" by (rule digits_16)
  then show "hexdigs ! d = digit d" "hexdigsX ! d = digitX d"
    by (elim insertE; simp add: hexdigs_def hexdigsX_def digit_def digitX_def)+
qed

lemma as_nat_less: "as_nat n < 2 ^ 32"
  by (simp add: as_nat_def nat_less_iff)

lemma prt_emit_word:
  assumes "in_long n" "1 < b" "b ^ k = 2 ^ 32" "0 < k" "is_digits dg b"
    and "\<And>i. dig i = dg (nat (i mod int b))" and "\<And>i. nxt i = i div int b"
  shows "prt_emit (prt_temp dig nxt k n) = numeral_of dg b (as_nat n)"
proof -
  have "int b ^ k = 2 ^ 32" using arg_cong [OF assms(3), of int] by simp
  then have "n = int (as_nat n) - int b ^ k * (if n < 0 then 1 else 0)" using as_nat_eq [OF assms(1)] by simp
  from prt_temp_digits [where dg = dg and dig = dig and nxt = nxt, OF assms(2) this assms(6,7)]
  have "prt_temp dig nxt k n = low_digits dg b k (as_nat n)" .
  with prt_emit_digits [OF assms(5,2) _ assms(4), of "as_nat n"] as_nat_less [of n] assms(3) show ?thesis by simp
qed

lemma prtl16_numeral: "in_long n \<Longrightarrow> prtl16 n = numeral_of digit 16 (as_nat n)"
  unfolding prtl16_def by (rule prt_emit_word) (simp_all add: is_digits_digit hexdigs_nth nat_less_iff)

lemma prtX16_numeral: "in_long n \<Longrightarrow> prtX16 n = numeral_of digitX 16 (as_nat n)"
  unfolding prtX16_def by (rule prt_emit_word) (simp_all add: is_digits_digitX hexdigs_nth nat_less_iff)

lemma c_rem_two: "(c_rem n 2 = 0) = even n"
  by (simp add: c_rem_def mod2_eq_if)

lemma prtl2_numeral: "in_long n \<Longrightarrow> prtl2 n = numeral_of digit 2 (as_nat n)"
  unfolding prtl2_def
  by (rule prt_emit_word) (simp_all add: is_digits_digit c_rem_two digit_def mod2_eq_if)

lemma octal_top: "d < 4 \<Longrightarrow> and (word_of_int (int d + 0x30) :: u8) 0x33 = digit d"
  "d < 4 \<Longrightarrow> and (word_of_int (int d + 4 + 0x30) :: u8) 0x33 = digit d"
proof -
  assume "d < 4"
  then have "d = 0 \<or> d = 1 \<or> d = 2 \<or> d = 3" by arith
  then show "and (word_of_int (int d + 0x30) :: u8) 0x33 = digit d"
    "and (word_of_int (int d + 4 + 0x30) :: u8) 0x33 = digit d"
    by (auto simp: digit_def)
qed

lemma length_low_digits [simp]: "length (low_digits dg b k n) = k"
  by (induction k arbitrary: n) auto

lemma low_digits_append: "low_digits dg b (k + j) n = low_digits dg b k n @ low_digits dg b j (n div b ^ k)"
  by (induction k arbitrary: n) (simp_all add: div_mult2_eq)

lemma div_funpow: "0 < b \<Longrightarrow> ((\<lambda>i. i div b) ^^ k) n = n div b ^ k" for n b :: int
  by (induction k arbitrary: n) (simp_all add: funpow_Suc_right zdiv_zmult2_eq del: funpow.simps(2))

lemma prtl8_numeral:
  assumes "in_long n" shows "prtl8 n = numeral_of digit 8 (as_nat n)"
proof -
  let ?dig = "\<lambda>n. word_of_int (n mod 8 + 0x30) :: u8" and ?nxt = "\<lambda>n :: int. n div 8"
  define m and q :: int where "m = as_nat n" and "q = (if n < 0 then 1 else 0)"
  have m: "m < 2 ^ 32" using as_nat_less [of n] by (simp add: m_def)
  have n: "n = int m - int 8 ^ 10 * (4 * q)" using as_nat_eq [OF assms] by (simp add: m_def q_def)
  have dig: "?dig i = digit (nat (i mod int 8))" for i by (simp add: digit_def nat_less_iff)
  define d where "d = m div 8 ^ 10"
  have d: "d < 4" using m by (simp add: d_def less_mult_imp_div_less)
  have low: "prt_temp ?dig ?nxt 10 n = low_digits digit 8 10 m"
    by (rule prt_temp_digits [OF _ n]) (use dig in auto)
  have "n div 8 ^ 10 = int d - 4 * q"
  proof -
    have "n = int m + int 8 ^ 10 * (- (4 * q))" by (simp add: n)
    then show ?thesis by (simp only: div_mult_self2) (simp add: d_def of_nat_div)
  qed
  then have "n div 8 ^ 10 mod 8 = (if q = 0 then int d else int d + 4)"
    using d mod_add_self2 [of "int d - 4" 8] by (auto simp: q_def)
  with octal_top [OF d] have top: "and (?dig ((?nxt ^^ 10) n)) 0x33 = digit d" by (simp add: div_funpow)
  define x where "x = ?dig ((?nxt ^^ 10) n)"
  have "prt_temp ?dig ?nxt 11 n = low_digits digit 8 10 m @ [x]"
    using prt_temp_append [of ?dig ?nxt 10 1 n] by (simp only: low x_def) simp
  then have "prtl8 n = prt_emit (low_digits digit 8 10 m @ [and x 0x33])"
    unfolding prtl8_def Let_def by (simp only:) (simp add: list_update_append nth_append)
  also have "\<dots> = prt_emit (low_digits digit 8 10 m @ [digit d])" using top by (simp only: x_def)
  also have "\<dots> = prt_emit (low_digits digit 8 11 m)"
    using low_digits_append [of digit 8 10 1 m] d by (simp add: d_def)
  also have "\<dots> = numeral_of digit 8 m"
    by (rule prt_emit_digits) (use m in \<open>auto simp: is_digits_digit\<close>)
  finally show ?thesis by (simp add: m_def)
qed

lemma numeral_of_length_ge: "1 < b \<Longrightarrow> b ^ k \<le> n \<Longrightarrow> k < length (numeral_of dg b n)"
proof (induction k arbitrary: n)
  case 0
  then show ?case by (simp add: numeral_of.simps [of dg b n])
next
  case (Suc k)
  have "b ^ k \<le> n div b" using Suc.prems div_le_mono [of "b ^ Suc k" n b] by simp
  moreover have "b \<le> n" using Suc.prems by (metis le_trans power_increasing_iff [of b 1 "Suc k"] power_one_right le_add1 plus_1_eq_Suc)
  ultimately show ?case using Suc.IH [of "n div b"] Suc.prems(1) by (simp add: numeral_of.simps [of dg b n])
qed

lemma prt_temp_nat:
  assumes "\<And>n. dig (int n) = dg (n mod b)" and "\<And>n. nxt (int n) = int (n div b)"
  shows "prt_temp dig nxt k (int n) = low_digits dg b k n"
  by (induction k arbitrary: n) (simp_all add: assms)

lemma prtl10_numeral:
  assumes "n < 10 ^ 10" shows "prtl10 (int n) = numeral_of digit 10 n"
proof -
  have "word_of_int (c_rem (int k) 10 + 0x30) = digit (k mod 10)" for k
  proof -
    have "c_rem (int k) 10 + 0x30 = int (0x30 + k mod 10)" by (simp add: c_rem_def zmod_int)
    then show ?thesis by (simp add: digit_def del: of_nat_add)
  qed
  then have "prtl10 (int n) = prt_emit (low_digits digit 10 10 n)"
    unfolding prtl10_def
    by (subst prt_temp_nat [where dg = digit and b = 10])
      (simp_all add: c_quo_def zdiv_int)
  with assms show ?thesis by (simp add: prt_emit_digits is_digits_digit)
qed

lemma numeral_of_length:
  assumes "1 < b" "n < b ^ k" "0 < k" shows "length (numeral_of dg b n) \<le> k"
  using assms(2,3)
proof (induction k arbitrary: n)
  case (Suc k)
  show ?case
  proof (cases "n < b")
    case False
    with Suc.prems have "0 < k" by (cases k) auto
    moreover have "n div b < b ^ k" using Suc.prems by (simp add: less_mult_imp_div_less mult.commute)
    ultimately show ?thesis using Suc.IH [of "n div b"] by (simp add: numeral_of.simps [of dg b n])
  qed (simp add: numeral_of.simps [of dg b n])
qed simp

section \<open>Unsigned numbers by way of signed ones\<close>

lemma wrap_small: "in_long n \<Longrightarrow> wrap n = n"
  by (simp add: wrap_def signed_of_int signed_take_bit_int_eq_self)

lemma wrap_up: "- (2 ^ 32) - 2 ^ 31 \<le> n \<Longrightarrow> n < - (2 ^ 31) \<Longrightarrow> wrap n = n + 2 ^ 32"
proof -
  have "(word_of_int (n + 2 ^ 32) :: u32) = word_of_int n" by (simp only: word_of_int_eq_iff take_bit_eq_mod) simp
  then show "- (2 ^ 32) - 2 ^ 31 \<le> n \<Longrightarrow> n < - (2 ^ 31) \<Longrightarrow> ?thesis"
    using wrap_small [of "n + 2 ^ 32"] by (simp only: wrap_def) simp
qed

lemma u_loop_nonneg: "0 \<le> n \<Longrightarrow> u_loop n d = Some (n, d)"
  by (simp add: u_loop.simps [of n d])

lemma u_loop_step:
  assumes "- (2 ^ 31) \<le> n" "n < 0"
  shows "u_loop n d = u_loop (if n < - (2 ^ 31) + 1000000000 then n + 2 ^ 32 - 1000000000 else n - 1000000000) (d + 1)"
  using assms wrap_small [of "n - 1000000000"] wrap_up [of "n - 1000000000"] by (subst u_loop.simps) auto

text \<open>The loop ends after at most three rounds with the number less so many billions.\<close>

lemma u_loop_neg:
  assumes "- (2 ^ 31) \<le> n" "n < 0"
  shows "\<exists>j. u_loop n d = Some (n + 2 ^ 32 - int j * 1000000000, d + of_nat j)
    \<and> 2 ^ 31 - 1000000000 \<le> n + 2 ^ 32 - int j * 1000000000 \<and> n + 2 ^ 32 - int j * 1000000000 < 2 ^ 31"
proof -
  consider "n < - (2 ^ 31) + 1000000000" | "- (2 ^ 31) + 1000000000 \<le> n" "n < - (2 ^ 31) + 2000000000"
    | "- (2 ^ 31) + 2000000000 \<le> n" by linarith
  then show ?thesis
  proof cases
    case 1
    with assms show ?thesis by (intro exI [of _ "1 :: nat"]) (simp add: u_loop_step [of n] u_loop_nonneg)
  next
    case 2
    with assms show ?thesis
      by (intro exI [of _ "2 :: nat"]) (simp add: u_loop_step [of n] u_loop_step [of "n - 1000000000"] u_loop_nonneg)
  next
    case 3
    with assms show ?thesis
      by (intro exI [of _ "3 :: nat"]) (simp add: u_loop_step [of n] u_loop_step [of "n - 1000000000"]
          u_loop_step [of "n - 2000000000"] u_loop_nonneg)
  qed
qed

lemma low_digits_mult: "0 < b \<Longrightarrow> low_digits dg b k (n + j * b ^ k) = low_digits dg b k n"
proof (induction k arbitrary: n)
  case (Suc k)
  have eq: "n + j * b ^ Suc k = n + b * (j * b ^ k)" by simp
  from Suc.prems show ?case by (simp only: low_digits.simps eq mod_mult_self2 div_mult_self2 Suc.IH) (simp add: Suc.IH add.commute)
qed simp

lemma ten_digits:
  assumes "10 ^ 9 \<le> n" "n < 10 ^ 10"
  shows "numeral_of digit 10 n = digit (n div 10 ^ 9) # rev (low_digits digit 10 9 n)"
proof -
  define d where "d = n div 10 ^ 9"
  have d: "0 < d" "d < 10" using assms by (auto simp: d_def div_greater_zero_iff less_mult_imp_div_less)
  then have "digit d \<noteq> 0x30" using is_digits_digit [of 10] by (auto simp: is_digits_def)
  moreover have "low_digits digit 10 10 n = low_digits digit 10 9 n @ [digit d]"
    using low_digits_append [of digit 10 9 1 n] d by (simp add: d_def)
  moreover have "dropWhile (\<lambda>c. c = 0x30) (rev (low_digits digit 10 10 n)) = numeral_of digit 10 n"
    by (rule low_digits_rev) (use assms in \<open>auto simp: is_digits_digit\<close>)
  ultimately show ?thesis by (simp add: d_def)
qed

lemma add_billions:
  assumes "10 ^ 9 \<le> n" "n + j * 10 ^ 9 < 10 ^ 10"
  shows "(hd (numeral_of digit 10 n) + of_nat j) # tl (numeral_of digit 10 n) = numeral_of digit 10 (n + j * 10 ^ 9)"
proof -
  have d: "(n + j * 10 ^ 9) div 10 ^ 9 = n div 10 ^ 9 + j" by simp
  have "n div 10 ^ 9 + j < 10" using assms(2) by (simp only: d [symmetric]) (rule less_mult_imp_div_less, simp)
  then have "digit (n div 10 ^ 9) + of_nat j = digit (n div 10 ^ 9 + j)" by (simp add: digit_def)
  moreover have "numeral_of digit 10 n = digit (n div 10 ^ 9) # rev (low_digits digit 10 9 n)"
    using assms by (intro ten_digits) auto
  moreover have "numeral_of digit 10 (n + j * 10 ^ 9) = digit (n div 10 ^ 9 + j) # rev (low_digits digit 10 9 n)"
    using assms ten_digits [of "n + j * 10 ^ 9"] low_digits_mult [of 10 digit 9 n j] by (simp only: d)
  ultimately show ?thesis by simp
qed

section \<open>What a conversion prints\<close>

text \<open>Decimal numerals, signed and unsigned.\<close>

definition dec :: "nat \<Rightarrow> u8 list" where
  "dec n = numeral_of digit 10 n"

definition sdec :: "int \<Rightarrow> u8 list" where
  "sdec n = (if n < 0 then [ch CHR ''-''] else []) @ dec (nat \<bar>n\<bar>)"

lemma dec_length: "n < 10 ^ 10 \<Longrightarrow> length (dec n) \<le> 10"
  unfolding dec_def by (rule numeral_of_length) auto

lemma prtl10_dec: "0 \<le> n \<Longrightarrow> n < 10 ^ 10 \<Longrightarrow> prtl10 n = dec (nat n)"
  using prtl10_numeral [of "nat n"] by (simp add: dec_def nat_less_iff)

lemma fits20_short: "length s \<le> k \<Longrightarrow> k \<le> 19 \<Longrightarrow> fits20 s = Some s"
  by (simp add: fits20_def)

lemma fits20_dec: "n < 10 ^ 10 \<Longrightarrow> fits20 (dec n) = Some (dec n)"
  using dec_length [of n] by (simp add: fits20_def)

lemma dconv_d:
  assumes "- (2 ^ 31) < n" "n < 2 ^ 31"
  shows "dconv (ch CHR ''d'') fmax fill buf (VInt n # ap) =
    Some ([], dec (nat \<bar>n\<bar>), Some (dec (nat \<bar>n\<bar>)), n < 0, fmax, fill, ap)"
proof -
  have "prtl10 (if n < 0 then wrap (- n) else n) = dec (nat \<bar>n\<bar>)"
    using assms wrap_small [of "- n"] prtl10_dec [of "\<bar>n\<bar>"] by auto
  then show ?thesis using assms fits20_dec [of "nat \<bar>n\<bar>"] by (simp add: dconv_def nat_less_iff)
qed

lemma u_loop_dec:
  assumes "in_long n"
  shows "\<exists>larg d. u_loop n 0 = Some (larg, d) \<and> 0 \<le> larg \<and> larg < 10 ^ 10
    \<and> (hd (dec (nat larg)) + d) # tl (dec (nat larg)) = dec (as_nat n)"
proof (cases "n < 0")
  case True
  with assms u_loop_neg [of n 0, unfolded add_0_left] obtain j where j:
    "u_loop n 0 = Some (n + 2 ^ 32 - int j * 1000000000, of_nat j)" and lo: "2 ^ 31 - 1000000000 \<le> n + 2 ^ 32 - int j * 1000000000"
    and hi: "n + 2 ^ 32 - int j * 1000000000 < 2 ^ 31" by blast
  define k where "k = nat (n + 2 ^ 32 - int j * 1000000000)"
  have N: "as_nat n = k + j * 10 ^ 9" using as_nat_eq [OF assms] True lo by (simp add: k_def nat_eq_iff)
  have "10 ^ 9 \<le> k" using lo by (simp add: k_def)
  moreover have "k + j * 10 ^ 9 < 10 ^ 10" unfolding N [symmetric] using as_nat_less [of n] by simp
  ultimately have "10 ^ 9 \<le> k" "k + j * 10 ^ 9 < 10 ^ 10" .
  from add_billions [OF this] j lo hi show ?thesis by (auto simp: dec_def N k_def)
next
  case False
  moreover have "dec k = (hd (dec k) + 0) # tl (dec k)" for k by (simp add: dec_def numeral_of.simps [of digit 10 k])
  ultimately show ?thesis using assms by (auto simp: u_loop_nonneg as_nat_def mod_pos_pos_trivial)
qed

lemma dconv_u:
  assumes "in_long n"
  shows "dconv (ch CHR ''u'') fmax fill buf (VInt n # ap) =
    Some ([], dec (as_nat n), Some (dec (as_nat n)), False, 0, fill, ap)"
proof -
  obtain larg d where u: "u_loop n 0 = Some (larg, d)" "0 \<le> larg" "larg < 10 ^ 10"
    "(hd (dec (nat larg)) + d) # tl (dec (nat larg)) = dec (as_nat n)" using u_loop_dec [OF assms] by blast
  then show ?thesis using fits20_dec [of "nat larg"] by (simp add: dconv_def prtl10_dec nat_less_iff Let_def)
qed

lemma dconv_hex:
  assumes "in_long n"
  shows "dconv (ch CHR ''x'') fmax fill buf (VInt n # ap) = (let s = numeral_of digit 16 (as_nat n) in Some ([], s, Some s, False, 0, fill, ap))"
    and "dconv (ch CHR ''X'') fmax fill buf (VInt n # ap) = (let s = numeral_of digitX 16 (as_nat n) in Some ([], s, Some s, False, 0, fill, ap))"
    and "dconv (ch CHR ''o'') fmax fill buf (VInt n # ap) = (let s = numeral_of digit 8 (as_nat n) in Some ([], s, Some s, False, 0, fill, ap))"
proof -
  have "as_nat n < 16 ^ 8" "as_nat n < 8 ^ 11" using as_nat_less [of n] by simp_all
  then have fit: "fits20 (numeral_of dg 16 (as_nat n)) = Some (numeral_of dg 16 (as_nat n))"
    "fits20 (numeral_of dg 8 (as_nat n)) = Some (numeral_of dg 8 (as_nat n))" for dg
    by (simp_all add: fits20_short [OF numeral_of_length [of 16 _ 8]] fits20_short [OF numeral_of_length [of 8 _ 11]])
  show "dconv (ch CHR ''x'') fmax fill buf (VInt n # ap) = (let s = numeral_of digit 16 (as_nat n) in Some ([], s, Some s, False, 0, fill, ap))"
    by (simp add: dconv_def Let_def prtl16_numeral [OF assms] fit)
  show "dconv (ch CHR ''X'') fmax fill buf (VInt n # ap) = (let s = numeral_of digitX 16 (as_nat n) in Some ([], s, Some s, False, 0, fill, ap))"
    by (simp add: dconv_def Let_def prtX16_numeral [OF assms] fit)
  show "dconv (ch CHR ''o'') fmax fill buf (VInt n # ap) = (let s = numeral_of digit 8 (as_nat n) in Some ([], s, Some s, False, 0, fill, ap))"
    by (simp add: dconv_def Let_def prtl8_numeral [OF assms] fit)
qed

section \<open>Whole formats\<close>

lemma doprnt_Nil [simp]: "doprnt [] ap buf = Some []"
  by (simp add: doprnt.simps [of "[]"])

lemma doprnt_char: "c \<noteq> ch CHR ''%'' \<Longrightarrow> doprnt (c # fmt) ap buf = do { out \<leftarrow> doprnt fmt ap buf; Some (c # out) }"
  by (subst doprnt.simps) simp

lemma doprnt_plain: "ch CHR ''%'' \<notin> set fmt \<Longrightarrow> doprnt (fmt @ rest) ap buf = map_option ((@) fmt) (doprnt rest ap buf)"
proof (induction fmt)
  case Nil
  show ?case by (cases "doprnt rest ap buf") auto
next
  case (Cons c fmt)
  then show ?case by (cases "doprnt rest ap buf") (auto simp: doprnt_char)
qed

lemma doprnt_percent: "doprnt (ch CHR ''%'' # ch CHR ''%'' # fmt) ap buf = do { out \<leftarrow> doprnt fmt ap buf; Some (ch CHR ''%'' # out) }"
  by (subst doprnt.simps) simp

lemma doprnt_conv:
  assumes "dspec fmt ap = Some (leftjust, fill, fmin, fmax, f # fmt', ap')" and "hd fmt \<noteq> ch CHR ''%''"
    and "dconv f fmax fill buf ap' = Some (echo, str, buf', neg, fmax', fill', ap'')"
  shows "doprnt (ch CHR ''%'' # fmt) ap buf =
    map_option (\<lambda>out. echo @ dpad leftjust fill' fmin fmax' neg str @ out) (doprnt fmt' ap'' buf')"
  using assms by (subst doprnt.simps) (cases "doprnt fmt' ap'' buf'"; simp)

text \<open>Numerals in the format are read back.\<close>

lemma digit_byte: "d < 10 \<Longrightarrow> 0x30 \<le> digit d \<and> digit d \<le> 0x39 \<and> uint (digit d) = int d + 0x30 \<and> (0 < d \<longrightarrow> 0x31 \<le> digit d)"
  using digits_16 [of d] by (auto simp: digit_def)

lemma dec_induct [case_names digit step]:
  assumes "\<And>n. n < 10 \<Longrightarrow> P n" and "\<And>n d. 0 < n \<Longrightarrow> d < 10 \<Longrightarrow> P n \<Longrightarrow> P (10 * n + d)" shows "P (n :: nat)"
proof (induction n rule: less_induct)
  case (less n)
  show ?case
  proof (cases "n < 10")
    case False
    then have "P (10 * (n div 10) + n mod 10)" by (intro assms(2) less) auto
    then show ?thesis by simp
  qed (rule assms(1))
qed

lemma dec_simps: "n < 10 \<Longrightarrow> dec n = [digit n]" "0 < n \<Longrightarrow> d < 10 \<Longrightarrow> dec (10 * n + d) = dec n @ [digit d]"
  by (simp_all add: dec_def numeral_of.simps [of digit 10 n] numeral_of.simps [of digit 10 "10 * n + d"])

lemma dec_digits: "c \<in> set (dec n) \<Longrightarrow> 0x30 \<le> c \<and> c \<le> 0x39"
  by (induction n rule: dec_induct) (auto simp: dec_simps digit_byte)

lemma scan_num_append:
  assumes "\<And>c. c \<in> set xs \<Longrightarrow> 0x30 \<le> c \<and> c \<le> 0x39"
  shows "scan_num n (xs @ ys) = scan_num (foldl (\<lambda>n c. wrap (n * 10 + uint c - 0x30)) n xs) ys"
  using assms by (induction xs arbitrary: n) auto

lemma foldl_dec: "n < 2 ^ 31 \<Longrightarrow> foldl (\<lambda>n c. wrap (n * 10 + uint c - 0x30)) 0 (dec n) = int n"
  by (induction n rule: dec_induct) (auto simp: dec_simps digit_byte wrap_small)

lemma scan_num_dec:
  assumes "n < 2 ^ 31" "\<not> (0x30 \<le> f \<and> f \<le> 0x39)" shows "scan_num 0 (dec n @ f # fmt) = (int n, f # fmt)"
  using assms by (auto simp: scan_num_append [OF dec_digits] foldl_dec)

lemma dec_hd: "0 < n \<Longrightarrow> dec n \<noteq> [] \<and> 0x31 \<le> hd (dec n) \<and> hd (dec n) \<le> 0x39"
  by (induction n rule: dec_induct) (auto simp: dec_simps digit_byte)

section \<open>Fields\<close>

text \<open>A field is never shorter than its minimum, and is as long as what it holds otherwise.\<close>

lemma dpad_length:
  assumes "fill \<in> {0x20, 0x30}" and "0 \<le> fmin" "fmin \<le> 80" "0 \<le> fmax" "fmax \<le> 80"
  shows "length (dpad leftjust fill fmin fmax neg str) =
    max (nat fmin) ((if fmax = 0 then length str else min (nat fmax) (length str)) + (if neg then 1 else 0))"
  using assms by (auto simp: dpad_def Let_def)

lemma dpad_none [simp]: "dpad leftjust 0x20 0 0 neg str = (if neg then [ch CHR ''-''] else []) @ str"
  by (simp add: dpad_def Let_def)

abbreviation sign_of :: "int \<Rightarrow> u8 list" where
  "sign_of n \<equiv> if n < 0 then [ch CHR ''-''] else []"

lemma dpad_sdec:
  assumes "0 < w" "w \<le> 80"
  shows "dpad False 0x20 (int w) 0 (n < 0) (dec (nat \<bar>n\<bar>)) = replicate (w - length (sdec n)) 0x20 @ sdec n"
    and "dpad True 0x20 (int w) 0 (n < 0) (dec (nat \<bar>n\<bar>)) = sdec n @ replicate (w - length (sdec n)) 0x20"
    and "dpad False 0x30 (int w) 0 (n < 0) (dec (nat \<bar>n\<bar>)) = sign_of n @ replicate (w - length (sdec n)) 0x30 @ dec (nat \<bar>n\<bar>)"
  using assms by (auto simp: dpad_def Let_def sdec_def nat_diff_distrib nat_minus_as_int)

lemma scan_width_dec:
  assumes "0 < w" "w \<le> 80" "\<not> (0x30 \<le> f \<and> f \<le> 0x39)"
  shows "scan_width (dec w @ f # fmt) ap = Some (int w, f # fmt, ap)"
proof -
  have "hd (dec w) \<noteq> ch CHR ''*''" using dec_hd [OF assms(1)] by auto
  then show ?thesis using assms dec_hd [OF assms(1)] by (simp add: scan_width_def scan_num_dec)
qed

lemma dspec_width:
  assumes "0 < w" "w \<le> 80" "\<not> (0x30 \<le> f \<and> f \<le> 0x39)" "f \<noteq> ch CHR ''.''"
  shows "dspec (dec w @ f # fmt) ap = Some (False, 0x20, int w, 0, f # fmt, ap)"
    and "dspec (ch CHR ''-'' # dec w @ f # fmt) ap = Some (True, 0x20, int w, 0, f # fmt, ap)"
    and "dspec (0x30 # dec w @ f # fmt) ap = Some (False, 0x30, int w, 0, f # fmt, ap)"
proof -
  have "hd (dec w) \<noteq> ch CHR ''-''" "hd (dec w) \<noteq> 0x30" using dec_hd [OF assms(1)] by auto
  then show "dspec (dec w @ f # fmt) ap = Some (False, 0x20, int w, 0, f # fmt, ap)"
    "dspec (ch CHR ''-'' # dec w @ f # fmt) ap = Some (True, 0x20, int w, 0, f # fmt, ap)"
    "dspec (0x30 # dec w @ f # fmt) ap = Some (False, 0x30, int w, 0, f # fmt, ap)"
    using assms dec_hd [OF assms(1)] scan_width_dec [OF assms(1-3), of fmt ap] by (simp_all add: dspec_def Let_def)
qed

lemma dspec_none:
  assumes "\<not> (0x30 \<le> f \<and> f \<le> 0x39)" "f \<notin> {ch CHR ''.'', ch CHR ''-'', ch CHR ''*''}"
  shows "dspec (f # fmt) ap = Some (False, 0x20, 0, 0, f # fmt, ap)"
  using assms by (auto simp: dspec_def Let_def scan_width_def)

lemma doprnt_d:
  assumes "- (2 ^ 31) < n" "n < 2 ^ 31"
  shows "doprnt (ch CHR ''%'' # ch CHR ''d'' # rest) (VInt n # ap) buf =
    map_option ((@) (sdec n)) (doprnt rest ap (Some (dec (nat \<bar>n\<bar>))))"
  by (subst doprnt_conv [OF dspec_none _ dconv_d [OF assms]]) (auto simp: sdec_def intro: option.map_cong)

lemma doprnt_u:
  assumes "in_long n"
  shows "doprnt (ch CHR ''%'' # ch CHR ''u'' # rest) (VInt n # ap) buf =
    map_option ((@) (dec (as_nat n))) (doprnt rest ap (Some (dec (as_nat n))))"
  by (subst doprnt_conv [OF dspec_none _ dconv_u [OF assms]]) auto

lemma dconv_s:
  "dconv (ch CHR ''s'') fmax fill buf (VStr (Some s) # ap) = Some ([], s, buf, False, fmax, 0x20, ap)"
  by (simp add: dconv_def)

lemma doprnt_s:
  "doprnt (ch CHR ''%'' # ch CHR ''s'' # rest) (VStr (Some s) # ap) buf = map_option ((@) s) (doprnt rest ap buf)"
  by (subst doprnt_conv [OF dspec_none _ dconv_s]) auto

section \<open>Reading back\<close>

lemma sprntf_bytes:
  assumes "length out \<le> 2 ^ 32"
  shows "\<exists>m'. foldl sprntf (p, m) out = (p + of_nat (length out), m') \<and> bytes_at m' p out
    \<and> (\<forall>a. a \<notin> rng p (length out) \<longrightarrow> m' a = m a)"
  using assms
proof (induction out arbitrary: p m)
  case (Cons c out)
  define m1 where "m1 = m(p := c)"
  from Cons obtain m' where m': "foldl sprntf (p + 1, m1) out = (p + 1 + of_nat (length out), m')"
    "bytes_at m' (p + 1) out" "\<forall>a. a \<notin> rng (p + 1) (length out) \<longrightarrow> m' a = m1 a" by fastforce
  moreover have "p \<notin> rng (p + 1) (length out)" using Cons.prems by (intro rng_start) simp
  moreover have "sprntf (p, m) c = (p + 1, m1)" by (simp add: sprntf_def m1_def)
  ultimately show ?case by (intro exI [of _ m']) (auto simp: m1_def)
qed simp

lemma sprintf_str:
  assumes "doprnt fmt ap None = Some out" and "0 \<notin> set out" and "length out < 2 ^ 32"
  shows "\<exists>m'. sprintf p fmt ap m = Some (p, m') \<and> str_at m' p out \<and> (\<forall>a. a \<notin> rng p (length out + 1) \<longrightarrow> m' a = m a)"
proof -
  obtain m' where m': "foldl sprntf (p, m) out = (p + of_nat (length out), m')" "bytes_at m' p out"
    "\<forall>a. a \<notin> rng p (length out) \<longrightarrow> m' a = m a" using sprntf_bytes [of out p m] assms(3) by auto
  define e where "e = p + of_nat (length out)"
  have split: "rng p (length out + 1) = insert e (rng p (length out))" by (auto simp: rng_eq e_def lessThan_Suc)
  have e: "e \<notin> rng p (length out)"
  proof
    assume "e \<in> rng p (length out)"
    then obtain k where "k < length out" "(of_nat (length out) :: u32) = of_nat k" by (auto simp: rng_eq e_def)
    with assms(3) show False by (simp add: word_unat_eq_iff unsigned_of_nat take_bit_nat_eq_self)
  qed
  have "bytes_at (m'(e := 0)) p out" using m'(2) e by (subst bytes_at_frame [of _ _ _ m']) auto
  then have "str_at (m'(e := 0)) p out" using assms(2) by (simp add: str_at_def bytes_at_append e_def)
  moreover have "sprintf p fmt ap m = Some (p, m'(e := 0))" by (simp add: sprintf_def assms(1) m'(1) sprntf_def e_def)
  ultimately show ?thesis using m'(3) split by auto
qed

text \<open>
  The loop of \<^verbatim>\<open>atoi\<close> adds the character before it takes \<^verbatim>\<open>'0'\<close> off, so the sum stays in range only for
  numbers 48 below the largest one.
\<close>

lemma atoi_digits_dec:
  assumes "n + 48 \<le> nat MAXKEY" and "bytes_at m p (dec n)" and "m (p + of_nat (length (dec n))) = 0"
  shows "atoi_digits 0 p m = Some (int n)"
proof -
  have step: "bytes_at m p (dec n) \<Longrightarrow> n + 48 \<le> nat MAXKEY \<Longrightarrow>
      atoi_digits 0 p m = atoi_digits (int n) (p + of_nat (length (dec n))) m" for n
  proof (induction n rule: dec_induct)
    case (digit n)
    then show ?case using digit_byte [of n] by (subst atoi_digits.simps) (simp add: dec_simps)
  next
    case (step n d)
    then have md: "m (p + of_nat (length (dec n))) = digit d" by (simp add: dec_simps bytes_at_append)
    from step have "atoi_digits 0 p m = atoi_digits (int n) (p + of_nat (length (dec n))) m"
      by (simp add: dec_simps bytes_at_append)
    also have "\<dots> = atoi_digits (int (10 * n + d)) (p + of_nat (length (dec n)) + 1) m"
      using step.prems(2) digit_byte [OF step.hyps(2)] md by (subst atoi_digits.simps) (simp add: mult.commute)
    finally show ?case by (simp add: dec_simps(2) [OF step.hyps]) (simp add: ac_simps)
  qed
  show ?thesis using step [OF assms(2,1)] assms(3) by (simp add: atoi_digits.simps [of "int n"])
qed

lemma atoi_sdec:
  assumes "str_at m p (sdec n)" and "\<bar>n\<bar> + 48 \<le> MAXKEY" shows "atoi p m = Some n"
proof -
  have d: "0x30 \<le> c \<and> c \<le> 0x39" if "c \<in> set (dec k)" for c k using dec_digits [OF that] .
  obtain c cs where c: "dec (nat \<bar>n\<bar>) = c # cs" "0x30 \<le> c" "c \<le> 0x39"
    using d [of _ "nat \<bar>n\<bar>"] by (cases "dec (nat \<bar>n\<bar>)") (auto simp: dec_def numeral_of.simps [of digit 10 "nat \<bar>n\<bar>"] split: if_splits)
  have bound: "nat \<bar>n\<bar> + 48 \<le> nat MAXKEY" using assms(2) by simp
  show ?thesis
  proof (cases "n < 0")
    case True
    then have "m p = 0x2D" "bytes_at m (p + 1) (dec (nat \<bar>n\<bar>))" "m (p + 1 + of_nat (length (dec (nat \<bar>n\<bar>)))) = 0"
      using assms(1) by (auto simp: sdec_def str_at_def bytes_at_append)
    with True atoi_digits_dec [OF bound, of m "p + 1"] show ?thesis by (simp add: atoi_def atoi_sign.simps [of p])
  next
    case False
    then have "bytes_at m p (dec (nat \<bar>n\<bar>))" "m (p + of_nat (length (dec (nat \<bar>n\<bar>)))) = 0"
      using assms(1) by (auto simp: sdec_def str_at_def bytes_at_append)
    moreover have "m p = c" using calculation(1) by (simp add: c(1))
    ultimately show ?thesis using False c(2,3) atoi_digits_dec [OF bound, of m p]
      by (auto simp: atoi_def atoi_sign.simps [of p])
  qed
qed

section \<open>Properties\<close>

lemma dec_no_end: "0 \<notin> set (dec n)"
  using dec_digits [of 0 n] by auto

lemma sdec_no_end: "0 \<notin> set (sdec n)"
  by (auto simp: sdec_def dec_no_end)

lemma sdec_length: "n < 2 ^ 31 \<Longrightarrow> - (2 ^ 31) < n \<Longrightarrow> length (sdec n) \<le> 11"
  using dec_length [of "nat \<bar>n\<bar>"] by (auto simp: sdec_def nat_less_iff)

text \<open>C25: a number printed with \<^verbatim>\<open>sprintf(p, "%d", n)\<close> is read back by \<^verbatim>\<open>atoi(p)\<close>, for every
  number at least 48 from the ends of its type, and nothing but the string and its end is written.\<close>

theorem sprintf_atoi:
  assumes "\<bar>n\<bar> + 48 \<le> MAXKEY"
  shows "\<exists>m'. sprintf p (map of_char ''%d'') [VInt n] m = Some (p, m') \<and> atoi p m' = Some n
    \<and> (\<forall>a. a \<notin> rng p (length (sdec n) + 1) \<longrightarrow> m' a = m a)"
proof -
  have "doprnt (map of_char ''%d'') [VInt n] None = Some (sdec n)"
    using doprnt_d [of n "[]" "[]" None] assms by simp
  moreover have "length (sdec n) < 2 ^ 32" using sdec_length [of n] assms by (simp add: abs_le_iff)
  ultimately obtain m' where
    "sprintf p (map of_char ''%d'') [VInt n] m = Some (p, m')" "str_at m' p (sdec n)"
    "\<forall>a. a \<notin> rng p (length (sdec n) + 1) \<longrightarrow> m' a = m a"
    using sprintf_str [OF _ sdec_no_end, of "map of_char ''%d''" "[VInt n]" n p] by blast
  with atoi_sdec [OF _ assms] show ?thesis by blast
qed

theorem sprintf_atoi_witness:
  "\<exists>m'. sprintf 0x1000 (map of_char ''%d'') [VInt (- 207)] (\<lambda>a. 0xFF) = Some (0x1000, m') \<and> atoi 0x1000 m' = Some (- 207)"
  using sprintf_atoi [of "- 207" "0x1000" "\<lambda>a. 0xFF"] by auto

text \<open>C29: \<^verbatim>\<open>%u\<close>, \<^verbatim>\<open>%x\<close>, \<^verbatim>\<open>%X\<close> and \<^verbatim>\<open>%o\<close> print the value of the argument as an unsigned
  word, to base 10, 16 and 8 without zeros in front, for every word; the loop over the billions of \<^verbatim>\<open>%u\<close> ends.\<close>

theorem doprnt_unsigned:
  assumes "in_long n"
  shows "doprnt (map of_char ''%u %x %X %o'') [VInt n, VInt n, VInt n, VInt n] buf = Some
    (numeral_of digit 10 (as_nat n) @ [0x20] @ numeral_of digit 16 (as_nat n) @ [0x20]
     @ numeral_of digitX 16 (as_nat n) @ [0x20] @ numeral_of digit 8 (as_nat n))"
proof -
  have x: "doprnt (ch CHR ''%'' # ch CHR ''x'' # rest) (VInt n # ap) buf =
      map_option ((@) (numeral_of digit 16 (as_nat n))) (doprnt rest ap (Some (numeral_of digit 16 (as_nat n))))" for rest ap buf
    by (subst doprnt_conv [OF dspec_none _ dconv_hex(1) [OF assms, unfolded Let_def]]) auto
  have X: "doprnt (ch CHR ''%'' # ch CHR ''X'' # rest) (VInt n # ap) buf =
      map_option ((@) (numeral_of digitX 16 (as_nat n))) (doprnt rest ap (Some (numeral_of digitX 16 (as_nat n))))" for rest ap buf
    by (subst doprnt_conv [OF dspec_none _ dconv_hex(2) [OF assms, unfolded Let_def]]) auto
  have o: "doprnt (ch CHR ''%'' # ch CHR ''o'' # rest) (VInt n # ap) buf =
      map_option ((@) (numeral_of digit 8 (as_nat n))) (doprnt rest ap (Some (numeral_of digit 8 (as_nat n))))" for rest ap buf
    by (subst doprnt_conv [OF dspec_none _ dconv_hex(3) [OF assms, unfolded Let_def]]) auto
  show ?thesis using doprnt_u [OF assms] x X o by (simp add: doprnt_char dec_def)
qed

theorem doprnt_unsigned_witness:
  "doprnt (map of_char ''%u %x %X %o'') [VInt (- 1), VInt (- 1), VInt (- 1), VInt (- 1)] None =
    Some (map of_char ''4294967295 ffffffff FFFFFFFF 37777777777'')"
  using doprnt_unsigned [of "- 1" None] by (simp add: as_nat_def numeral_of.simps digit_def digitX_def)

text \<open>C30: \<^verbatim>\<open>%d\<close> with a width of up to 80 columns sets the number to the right, with \<^verbatim>\<open>-\<close> to the left, and with
  \<^verbatim>\<open>0\<close> it puts the zeros between the sign and the digits.\<close>

theorem doprnt_width:
  assumes "0 < w" "w \<le> 80" "- (2 ^ 31) < n" "n < 2 ^ 31"
  shows "doprnt (ch CHR ''%'' # dec w @ [ch CHR ''d'']) [VInt n] buf = Some (replicate (w - length (sdec n)) 0x20 @ sdec n)
    \<and> doprnt (ch CHR ''%'' # ch CHR ''-'' # dec w @ [ch CHR ''d'']) [VInt n] buf =
      Some (sdec n @ replicate (w - length (sdec n)) 0x20)
    \<and> doprnt (ch CHR ''%'' # 0x30 # dec w @ [ch CHR ''d'']) [VInt n] buf =
      Some (sign_of n @ replicate (w - length (sdec n)) 0x30 @ dec (nat \<bar>n\<bar>))"
proof (intro conjI)
  have "hd (dec w @ [ch CHR ''d'']) \<noteq> ch CHR ''%''" using dec_hd [OF assms(1)] by auto
  then show "doprnt (ch CHR ''%'' # dec w @ [ch CHR ''d'']) [VInt n] buf = Some (replicate (w - length (sdec n)) 0x20 @ sdec n)"
    by (subst doprnt_conv [OF dspec_width(1) _ dconv_d]) (use assms in \<open>auto simp: dpad_sdec\<close>)
  show "doprnt (ch CHR ''%'' # ch CHR ''-'' # dec w @ [ch CHR ''d'']) [VInt n] buf =
      Some (sdec n @ replicate (w - length (sdec n)) 0x20)"
    by (subst doprnt_conv [OF dspec_width(2) _ dconv_d]) (use assms in \<open>auto simp: dpad_sdec\<close>)
  show "doprnt (ch CHR ''%'' # 0x30 # dec w @ [ch CHR ''d'']) [VInt n] buf =
      Some (sign_of n @ replicate (w - length (sdec n)) 0x30 @ dec (nat \<bar>n\<bar>))"
    by (subst doprnt_conv [OF dspec_width(3) _ dconv_d]) (use assms in \<open>auto simp: dpad_sdec\<close>)
qed

theorem doprnt_width_witness:
  "doprnt (map of_char ''%6d'') [VInt (- 42)] None = Some (map of_char ''   -42'')
   \<and> doprnt (map of_char ''%06d'') [VInt (- 42)] None = Some (map of_char ''-00042'')"
  using doprnt_width [of 6 "- 42" None] by (simp add: dec_def sdec_def numeral_of.simps digit_def numeral_3_eq_3)

text \<open>C39: \<^verbatim>\<open>%b\<close> of a number of twenty or more binary digits writes past the end of the local buffer of 20 characters.\<close>

theorem doprnt_binary_overflow:
  assumes "in_long n" and "2 ^ 19 \<le> as_nat n"
  shows "doprnt (map of_char ''%b'') [VInt n] buf = None"
proof -
  have "19 < length (prtl2 n)" using numeral_of_length_ge [of 2 19 "as_nat n" digit] assms(2) by (simp add: prtl2_numeral [OF assms(1)])
  then have "dconv (ch CHR ''b'') fmax fill buf [VInt n] = None" for fmax fill by (simp add: dconv_def fits20_def)
  then show ?thesis by (subst doprnt.simps) (simp add: dspec_none)
qed

theorem doprnt_binary_overflow_witness:
  "doprnt (map of_char ''%b'') [VInt (- 1)] None = None"
  using doprnt_binary_overflow [of "- 1" None] by (simp add: as_nat_def)

text \<open>An unknown conversion prints its character and then the number of the conversion before it once more.\<close>

theorem doprnt_unknown_repeats:
  assumes "- (2 ^ 31) < n" "n < 2 ^ 31"
  shows "doprnt (map of_char ''%d%y'') [VInt n] buf = Some (sdec n @ ch CHR ''y'' # dec (nat \<bar>n\<bar>))"
proof -
  have y: "dconv (ch CHR ''y'') fmax fill (Some s) ap = Some ([ch CHR ''y''], s, Some s, False, fmax, fill, ap)" for fmax fill s ap
    by (simp add: dconv_def)
  have "doprnt (ch CHR ''%'' # [ch CHR ''y'']) [] (Some s) = Some (ch CHR ''y'' # s)" for s
    by (subst doprnt_conv [OF dspec_none _ y]) auto
  then show ?thesis using doprnt_d [OF assms, of "map of_char ''%y''" "[]" buf] by simp
qed

theorem doprnt_unknown_repeats_witness:
  "doprnt (map of_char ''%d%y'') [VInt 12] None = Some (map of_char ''12y12'')"
  using doprnt_unknown_repeats [of 12 None] by (simp add: sdec_def dec_def numeral_of.simps digit_def)

end
