(* ===== verification/Xinu_Netaddr.thy ===== *)
theory Xinu_Netaddr
  imports Xinu_Print
begin

text \<open>
  Network addresses and the Internet checksum: \<^verbatim>\<open>network/netaddr/\<close>,
  \<^verbatim>\<open>network/ipv4/dot2ipv4.c\<close>, \<^verbatim>\<open>network/net/netChksum.c\<close>, the table of character
  classes of \<^verbatim>\<open>lib/libxc/ctype_.c\<close> and the byte order macros of \<^verbatim>\<open>include/network.h\<close> for the
  little-endian platforms. An access past the six octets of an address is the result \<open>None\<close>. The
  lemmas show that an address survives printing and reading, what a mask does to an address, and
  that the checksum stored in a block of data makes the block verify.
\<close>

section \<open>Byte order\<close>

text \<open>\<^verbatim>\<open>hs2net\<close> and \<^verbatim>\<open>net2hs\<close> on a 16-bit value, \<^verbatim>\<open>hl2net\<close> and \<^verbatim>\<open>net2hl\<close> on a 32-bit one.\<close>

definition hs2net :: "u32 \<Rightarrow> u32" where
  "hs2net x = or (and (drop_bit 8 x) 0xFF) (push_bit 8 (and x 0xFF))"

definition hl2net :: "u32 \<Rightarrow> u32" where
  "hl2net x = or (or (push_bit 24 (and x 0xFF)) (and (drop_bit 24 x) 0xFF))
     (or (drop_bit 8 (and x 0xFF0000)) (push_bit 8 (and x 0xFF00)))"

section \<open>Addresses\<close>

record netaddr =
  ntype :: u16
  nlen :: u8
  naddr :: "u8 list"

abbreviation (input) NETADDR_ETHERNET :: u16 where "NETADDR_ETHERNET \<equiv> 1"
abbreviation (input) NETADDR_IPv4 :: u16 where "NETADDR_IPv4 \<equiv> 0x800"
abbreviation (input) NET_MAX_ALEN :: nat where "NET_MAX_ALEN \<equiv> 6"
abbreviation (input) IPv4_ADDR_LEN :: u8 where "IPv4_ADDR_LEN \<equiv> 4"
abbreviation (input) ETH_ADDR_LEN :: u8 where "ETH_ADDR_LEN \<equiv> 6"

text \<open>\<^verbatim>\<open>memcmp\<close> of two arrays: it reads up to the first difference.\<close>

fun memcmp_arr :: "nat \<Rightarrow> u8 list \<Rightarrow> u8 list \<Rightarrow> int option" where
  "memcmp_arr 0 xs ys = Some 0"
| "memcmp_arr (Suc n) (x # xs) (y # ys) =
     (if x \<noteq> y then Some (uint x - uint y) else memcmp_arr n xs ys)"
| "memcmp_arr _ _ _ = None"

definition netaddrequal :: "netaddr \<Rightarrow> netaddr \<Rightarrow> bool option" where
  "netaddrequal a b =
     (if ntype a \<noteq> ntype b then Some False
      else if nlen a \<noteq> nlen b then Some False
      else do {
        r \<leftarrow> memcmp_arr (unat (nlen a)) (naddr a) (naddr b);
        if 0 \<noteq> r then Some False else Some True
      })"

text \<open>The loop over the octets of \<^verbatim>\<open>netaddrmask\<close> and \<^verbatim>\<open>netaddrhost\<close>.\<close>

fun octets :: "(u8 \<Rightarrow> u8 \<Rightarrow> u8) \<Rightarrow> nat \<Rightarrow> u8 list \<Rightarrow> u8 list \<Rightarrow> u8 list option" where
  "octets f 0 xs ys = Some xs"
| "octets f (Suc n) (x # xs) (y # ys) = map_option ((#) (f x y)) (octets f n xs ys)"
| "octets f _ _ _ = None"

definition netaddrmask :: "netaddr \<Rightarrow> netaddr \<Rightarrow> (int \<times> netaddr) option" where
  "netaddrmask a msk =
     (if ntype a \<noteq> ntype msk then Some (SYSERR, a)
      else if nlen a \<noteq> nlen msk then Some (SYSERR, a)
      else do {
        xs \<leftarrow> octets (\<lambda>x y. and x y) (unat (nlen a)) (naddr a) (naddr msk);
        Some (OK, a\<lparr>naddr := xs\<rparr>)
      })"

definition netaddrhost :: "netaddr \<Rightarrow> netaddr \<Rightarrow> (int \<times> netaddr) option" where
  "netaddrhost a msk =
     (if ntype a \<noteq> ntype msk then Some (SYSERR, a)
      else if nlen a \<noteq> nlen msk then Some (SYSERR, a)
      else do {
        xs \<leftarrow> octets (\<lambda>x y. and x (not y)) (unat (nlen a)) (naddr a) (naddr msk);
        Some (OK, a\<lparr>naddr := xs\<rparr>)
      })"

definition netaddrsprintf :: "u32 \<Rightarrow> netaddr \<Rightarrow> bytes \<Rightarrow> (u32 \<times> bytes) option" where
  "netaddrsprintf str addr m =
     (case naddr addr of
        [a, b, c, d, e, f] \<Rightarrow>
          (if ntype addr = NETADDR_ETHERNET
           then sprintf str (map of_char ''%02X:%02X:%02X:%02X:%02X:%02X'')
             [VInt (uint a), VInt (uint b), VInt (uint c), VInt (uint d), VInt (uint e), VInt (uint f)] m
           else if ntype addr = NETADDR_IPv4
           then sprintf str (map of_char ''%d.%d.%d.%d'')
             [VInt (uint a), VInt (uint b), VInt (uint c), VInt (uint d)] m
           else if ntype addr = 0 then sprintf str (map of_char ''NULL'') [] m
           else sprintf str (map of_char ''ERROR'') [] m)
      | _ \<Rightarrow> None)"

section \<open>Reading an address\<close>

text \<open>The classes of the characters; \<^verbatim>\<open>(_ctype_+1)[c]\<close> lies outside the table for \<open>c > 127\<close>.\<close>

definition ctype_tab :: "u8 list" where
  "ctype_tab = 0 #
     [0x20, 0x20, 0x20, 0x20, 0x20, 0x20, 0x20, 0x20,
      0x20, 0x08, 0x08, 0x08, 0x08, 0x08, 0x20, 0x20,
      0x20, 0x20, 0x20, 0x20, 0x20, 0x20, 0x20, 0x20,
      0x20, 0x20, 0x20, 0x20, 0x20, 0x20, 0x20, 0x20,
      0x08, 0x10, 0x10, 0x10, 0x10, 0x10, 0x10, 0x10,
      0x10, 0x10, 0x10, 0x10, 0x10, 0x10, 0x10, 0x10,
      0x04, 0x04, 0x04, 0x04, 0x04, 0x04, 0x04, 0x04,
      0x04, 0x04, 0x10, 0x10, 0x10, 0x10, 0x10, 0x10,
      0x10, 0x41, 0x41, 0x41, 0x41, 0x41, 0x41, 0x01,
      0x01, 0x01, 0x01, 0x01, 0x01, 0x01, 0x01, 0x01,
      0x01, 0x01, 0x01, 0x01, 0x01, 0x01, 0x01, 0x01,
      0x01, 0x01, 0x01, 0x10, 0x10, 0x10, 0x10, 0x10,
      0x10, 0x42, 0x42, 0x42, 0x42, 0x42, 0x42, 0x02,
      0x02, 0x02, 0x02, 0x02, 0x02, 0x02, 0x02, 0x02,
      0x02, 0x02, 0x02, 0x02, 0x02, 0x02, 0x02, 0x02,
      0x02, 0x02, 0x02, 0x10, 0x10, 0x10, 0x10, 0x20]"

definition isdigit :: "u8 \<Rightarrow> bool option" where
  "isdigit c = (if Suc (unat c) < length ctype_tab then Some (and (ctype_tab ! Suc (unat c)) 0x04 \<noteq> 0) else None)"

text \<open>The loop of \<^verbatim>\<open>dot2ipv4\<close>; the flag says that a character was refused.\<close>

partial_function (option) dot_loop :: "u32 \<Rightarrow> nat \<Rightarrow> u32 \<Rightarrow> u8 list \<Rightarrow> bytes \<Rightarrow> (bool \<times> nat \<times> u32 \<times> u8 list) option" where
  "dot_loop str cnt temp addr m =
     (if cnt < 4 \<and> m str \<noteq> 0
      then do {
        let c = m str;
        dig \<leftarrow> isdigit c;
        if dig then dot_loop (str + 1) cnt (temp * 10 + (ucast c - 0x30)) addr m
        else if c = ch CHR ''.'' then dot_loop (str + 1) (cnt + 1) 0 (addr[cnt := ucast temp]) m
        else Some (True, cnt, temp, addr)
      }
      else Some (False, cnt, temp, addr))"

definition dot2ipv4 :: "u32 \<Rightarrow> netaddr option \<Rightarrow> bytes \<Rightarrow> (int \<times> netaddr option) option" where
  "dot2ipv4 str ip m =
     (case ip of None \<Rightarrow> Some (SYSERR, None)
      | Some ip \<Rightarrow>
          if str = 0 then Some (SYSERR, Some ip)
          else do {
            (bad, cnt, temp, addr) \<leftarrow> dot_loop str 0 0 (naddr ip) m;
            if bad then Some (SYSERR, Some (ip\<lparr>naddr := addr\<rparr>))
            else Some (OK, Some (ip\<lparr>naddr := addr[cnt := ucast temp], ntype := NETADDR_IPv4, nlen := IPv4_ADDR_LEN\<rparr>))
          })"

section \<open>The checksum\<close>

text \<open>A 16-bit load, the lower octet first.\<close>

definition ld16 :: "bytes \<Rightarrow> u32 \<Rightarrow> u16" where
  "ld16 m p = or (ucast (m p)) (push_bit 8 (ucast (m (p + 1))))"

definition st16 :: "u32 \<Rightarrow> u16 \<Rightarrow> bytes \<Rightarrow> bytes" where
  "st16 p w m = m(p := ucast w, p + 1 := ucast (drop_bit 8 w))"

fun chk_add :: "nat \<Rightarrow> u32 \<Rightarrow> u32 \<Rightarrow> bytes \<Rightarrow> u32" where
  "chk_add 0 p sm m = sm"
| "chk_add (Suc 0) p sm m = sm + hs2net (push_bit 8 (ucast (m p)))"
| "chk_add (Suc (Suc n)) p sm m = chk_add n (p + 2) (sm + ucast (ld16 m p)) m"

lemma unat_high: "unat (drop_bit 16 sm) = unat sm div 65536" for sm :: u32
  by (simp add: drop_bit_eq_div unat_div)

lemma fold_parts: "unat (drop_bit 16 sm + and sm 0xFFFF) = unat sm div 65536 + unat sm mod 65536" for sm :: u32
proof -
  have "and sm 0xFFFF = take_bit 16 sm" by (simp add: take_bit_eq_mask mask_numeral)
  then have b: "unat (and sm 0xFFFF) = unat sm mod 65536" by (simp add: take_bit_eq_mod unat_mod)
  have "unat sm div 65536 < 65536" "unat sm mod 65536 < 65536" using unsigned_less [of sm] by (auto intro: less_mult_imp_div_less)
  then show ?thesis using b by (simp add: unat_word_ariths unat_high)
qed

lemma fold_again: "drop_bit 16 sm \<noteq> 0 \<longleftrightarrow> 65536 \<le> unat sm" for sm :: u32
  using unat_high [of sm] div_greater_zero_iff [of "unat sm" 65536] unat_eq_zero [of "drop_bit 16 sm"] by linarith

lemma fold_less: "65536 \<le> n \<Longrightarrow> n div 65536 + n mod 65536 < n" for n :: nat
  using div_mult_mod_eq [of n 65536] div_greater_zero_iff [of n 65536] by linarith

text \<open>The loop that folds the sum into 16 bits.\<close>

function chk_fold :: "u32 \<Rightarrow> u32" where
  "chk_fold sm = (if drop_bit 16 sm \<noteq> 0 then chk_fold (drop_bit 16 sm + and sm 0xFFFF) else sm)"
  by pat_completeness auto

termination
proof (relation "measure unat")
  fix sm :: u32
  assume "drop_bit 16 sm \<noteq> 0"
  then have "unat sm div 65536 + unat sm mod 65536 < unat sm" by (intro fold_less) (simp add: fold_again)
  then show "(drop_bit 16 sm + and sm 0xFFFF, sm) \<in> measure unat" by (simp add: fold_parts)
qed simp

declare chk_fold.simps [simp del]

definition netChksum :: "u32 \<Rightarrow> u32 \<Rightarrow> bytes \<Rightarrow> u16" where
  "netChksum data len m = ucast (not (chk_fold (chk_add (unat len) data 0 m)))"

section \<open>What the address operations do\<close>

text \<open>An address with a length that fits its array.\<close>

definition netaddr_ok :: "netaddr \<Rightarrow> bool" where
  "netaddr_ok a \<longleftrightarrow> length (naddr a) = NET_MAX_ALEN \<and> unat (nlen a) \<le> NET_MAX_ALEN"

definition same_addr :: "netaddr \<Rightarrow> netaddr \<Rightarrow> bool" where
  "same_addr a b \<longleftrightarrow> ntype a = ntype b \<and> nlen a = nlen b
     \<and> take (unat (nlen a)) (naddr a) = take (unat (nlen a)) (naddr b)"

definition masked :: "netaddr \<Rightarrow> netaddr \<Rightarrow> netaddr" where
  "masked a msk =
     (if ntype a = ntype msk \<and> nlen a = nlen msk
      then a\<lparr>naddr := map2 and (take (unat (nlen a)) (naddr a)) (naddr msk) @ drop (unat (nlen a)) (naddr a)\<rparr>
      else a)"

lemma memcmp_arr_eq:
  assumes "n \<le> length xs" "n \<le> length ys"
  shows "\<exists>r. memcmp_arr n xs ys = Some r \<and> (r = 0 \<longleftrightarrow> take n xs = take n ys)"
  using assms
proof (induction n xs ys rule: memcmp_arr.induct)
  case (2 n x xs y ys)
  then show ?case using uint_word_of_int_eq by (auto simp: word_uint_eq_iff)
qed auto

lemma netaddrequal_ok:
  assumes "netaddr_ok a" "netaddr_ok b"
  shows "netaddrequal a b = Some (same_addr a b)"
proof (cases "ntype a = ntype b \<and> nlen a = nlen b")
  case True
  then obtain r where "memcmp_arr (unat (nlen a)) (naddr a) (naddr b) = Some r"
    "r = 0 \<longleftrightarrow> take (unat (nlen a)) (naddr a) = take (unat (nlen a)) (naddr b)"
    using memcmp_arr_eq [of "unat (nlen a)" "naddr a" "naddr b"] assms by (auto simp: netaddr_ok_def)
  then show ?thesis using True by (auto simp: netaddrequal_def same_addr_def)
qed (auto simp: netaddrequal_def same_addr_def)

lemma octets_eq:
  "n \<le> length xs \<Longrightarrow> n \<le> length ys \<Longrightarrow> octets f n xs ys = Some (map2 f (take n xs) ys @ drop n xs)"
  by (induction f n xs ys rule: octets.induct) auto

lemma netaddrmask_ok:
  assumes "netaddr_ok a" "netaddr_ok msk"
  shows "netaddrmask a msk = Some (if ntype a = ntype msk \<and> nlen a = nlen msk then OK else SYSERR, masked a msk)"
  using assms by (auto simp: netaddrmask_def masked_def netaddr_ok_def octets_eq)

lemma masked_ok: "netaddr_ok a \<Longrightarrow> netaddr_ok msk \<Longrightarrow> netaddr_ok (masked a msk)"
  by (auto simp: masked_def netaddr_ok_def)

lemma same_addr_refl [simp]: "same_addr a a"
  by (simp add: same_addr_def)

lemma same_addr_sym: "same_addr a b \<Longrightarrow> same_addr b a"
  by (auto simp: same_addr_def)

lemma same_addr_trans: "same_addr a b \<Longrightarrow> same_addr b c \<Longrightarrow> same_addr a c"
  by (auto simp: same_addr_def)

lemma map2_and_idem: "map2 and (map2 and xs ys) ys = map2 and xs (ys :: u8 list)"
  by (induction xs ys rule: list_induct2') (auto simp: and.assoc)

lemma masked_idem:
  assumes "netaddr_ok a" "netaddr_ok msk" shows "same_addr (masked (masked a msk) msk) (masked a msk)"
proof (cases "ntype a = ntype msk \<and> nlen a = nlen msk")
  case True
  then have "length (map2 and (take (unat (nlen a)) (naddr a)) (naddr msk)) = unat (nlen a)"
    using assms by (simp add: netaddr_ok_def)
  then show ?thesis using True by (simp add: masked_def same_addr_def map2_and_idem)
qed (auto simp: masked_def)

text \<open>The network part and the host part make up the address.\<close>

lemma netaddr_parts:
  assumes "netaddr_ok a" "netaddr_ok msk" "ntype a = ntype msk" "nlen a = nlen msk"
  shows "\<exists>n h. netaddrmask a msk = Some (OK, n) \<and> netaddrhost a msk = Some (OK, h)
    \<and> map2 or (naddr n) (naddr h) = naddr a"
proof -
  have *: "n \<le> length xs \<Longrightarrow> n \<le> length ys \<Longrightarrow>
    map2 or (map2 and (take n xs) ys @ drop n xs) (map2 (\<lambda>x y. and x (not y)) (take n xs) ys @ drop n xs) = xs"
    for n and xs ys :: "u8 list"
  proof (induction n arbitrary: xs ys)
    case 0
    then show ?case by (induction xs) auto
  next
    case (Suc n)
    then obtain x xs' y ys' where e: "xs = x # xs'" "ys = y # ys'" by (metis Suc_le_length_iff)
    have "or (and x y) (and x (not y)) = x" by (rule bit_eqI) (auto simp: bit_simps)
    then show ?case using Suc e by simp
  qed
  show ?thesis using assms * [of "unat (nlen a)" "naddr a" "naddr msk"]
    by (simp add: netaddrmask_def netaddrhost_def octets_eq netaddr_ok_def)
qed

section \<open>What the checksum checks\<close>

text \<open>The sum of the 16-bit words of a block, and the number that the fold leaves of it.\<close>

fun sum16 :: "nat \<Rightarrow> u32 \<Rightarrow> bytes \<Rightarrow> nat" where
  "sum16 0 p m = 0"
| "sum16 (Suc 0) p m = unat (m p)"
| "sum16 (Suc (Suc n)) p m = unat (ld16 m p) + sum16 n (p + 2) m"

definition ones :: "nat \<Rightarrow> nat" where
  "ones n = (if n = 0 then 0 else (n - 1) mod 65535 + 1)"

lemma ones_fold: "65536 \<le> n \<Longrightarrow> ones (n div 65536 + n mod 65536) = ones n"
proof -
  assume n: "65536 \<le> n"
  define q r where "q = n div 65536" and "r = n mod 65536"
  have e: "n = q * 65536 + r" unfolding q_def r_def by (simp add: div_mult_mod_eq)
  have q: "0 < q" using n unfolding q_def by (simp add: div_greater_zero_iff)
  have "n - 1 = q * 65535 + (q + r - 1)" using e q by simp
  then have "(n - 1) mod 65535 = (q + r - 1) mod 65535" by (simp only: mod_mult_self3)
  then show ?thesis using q n by (simp add: ones_def q_def [symmetric] r_def [symmetric])
qed

lemma chk_fold_ones: "unat (chk_fold sm) = ones (unat sm)"
proof (induction sm rule: chk_fold.induct)
  case (1 sm)
  show ?case
  proof (cases "drop_bit 16 sm \<noteq> 0")
    case True
    then have "65536 \<le> unat sm" by (simp add: fold_again)
    moreover have "chk_fold sm = chk_fold (drop_bit 16 sm + and sm 0xFFFF)" using True by (subst chk_fold.simps) (rule if_P)
    ultimately show ?thesis using 1 [OF True] by (simp only: fold_parts ones_fold)
  next
    case False
    then have "unat sm < 65536" using fold_again [of sm] by linarith
    then have "ones (unat sm) = unat sm" by (auto simp: ones_def)
    then show ?thesis using False by (subst chk_fold.simps) (simp only: if_False simp_thms)
  qed
qed

lemma hs2net_parts: "hs2net x = or (take_bit 8 (drop_bit 8 x)) (push_bit 8 (take_bit 8 x))"
  unfolding hs2net_def take_bit_eq_mask by (simp add: mask_numeral)

lemma hs2net_byte: "hs2net (push_bit 8 (ucast b)) = ucast (b :: u8)"
  unfolding hs2net_parts by (rule bit_word_eqI) (auto simp: bit_simps dest: bit_imp_le_length)

lemma chk_add_sum: "chk_add n p sm m = sm + of_nat (sum16 n p m)"
  by (induction n p sm m rule: chk_add.induct) (simp_all add: hs2net_byte)

lemma unat_lt: "unat w < 2 ^ LENGTH('a)" for w :: "'a :: len word"
  by (rule unsigned_less)

lemma unat_not: "unat (not w) = 2 ^ 32 - 1 - unat w" for w :: u32
proof -
  have "not w = - 1 - w" by (simp add: not_eq_complement)
  then have "unat (not w) = unat (- 1 :: u32) - unat w" by (simp only: unat_sub word_n1_ge)
  moreover have "unat (- 1 :: u32) = 2 ^ 32 - 1" by (simp add: unsigned_minus_1_eq_mask mask_eq_exp_minus_1)
  ultimately show ?thesis by simp
qed

lemma sum16_le: "sum16 n p m \<le> 65535 * ((n + 1) div 2)"
proof (induction n p m rule: sum16.induct)
  case (2 p m)
  show ?case using unat_lt [of "m p"] by simp
next
  case (3 n p m)
  then show ?case using unat_lt [of "ld16 m p"] by simp
qed simp

lemma netChksum_unat:
  assumes "unat len \<le> 131074"
  shows "unat (netChksum data len m) = 65535 - ones (sum16 (unat len) data m)"
proof -
  define S where "S = sum16 (unat len) data m"
  have "(unat len + 1) div 2 \<le> 65537" using assms by simp
  then have "65535 * ((unat len + 1) div 2) \<le> 65535 * 65537" by (rule mult_le_mono2)
  then have "S < 2 ^ 32" using sum16_le [of "unat len" data m] unfolding S_def by simp
  then have "unat (chk_add (unat len) data 0 m) = S" unfolding chk_add_sum S_def [symmetric]
    by (simp add: unsigned_of_nat take_bit_nat_eq_self)
  then have f: "unat (chk_fold (chk_add (unat len) data 0 m)) = ones S" by (simp add: chk_fold_ones)
  have le: "ones S \<le> 65535" by (auto simp: ones_def Suc_leI)
  define c where "c = chk_fold (chk_add (unat len) data 0 m)"
  have "unat (ucast (not c) :: u16) = unat (not c) mod 65536" by (simp add: unsigned_ucast_eq take_bit_eq_mod)
  also have "unat (not c) = 2 ^ 32 - 1 - ones S" using f by (simp add: unat_not c_def)
  also have "\<dots> mod 65536 = 65535 - ones S"
  proof -
    have "(2 ^ 32 - 1 - ones S :: nat) = 65535 * 65536 + (65535 - ones S)" using le by simp
    also have "\<dots> mod 65536 = 65535 - ones S" by (simp only: mod_mult_self3) simp
    finally show ?thesis .
  qed
  finally show ?thesis by (simp add: netChksum_def c_def S_def)
qed

lemma ld16_unat: "unat (ld16 m p) = unat (m p) + 256 * unat (m (p + 1))"
proof -
  have d: "(ucast (m p) :: u16) = take_bit 8 (ucast (m p))" by (rule bit_word_eqI) (auto simp: bit_simps dest: bit_imp_le_length)
  have "ld16 m p = ucast (m p) + push_bit 8 (ucast (m (p + 1)))" unfolding ld16_def
    by (rule disjunctive_add [symmetric]) (auto simp: bit_simps dest: bit_imp_le_length)
  moreover have "unat (push_bit 8 (ucast (m (p + 1))) :: u16) = 256 * unat (m (p + 1))"
    using unat_lt [of "m (p + 1)"] by (simp add: push_bit_eq_mult unat_word_ariths unsigned_ucast_eq take_bit_nat_eq_self)
  moreover have "unat (ucast (m p) :: u16) = unat (m p)"
    using unat_lt [of "m p"] by (simp add: unsigned_ucast_eq take_bit_nat_eq_self)
  moreover have "unat (m p) + 256 * unat (m (p + 1)) < 65536" using unat_lt [of "m (p + 1)"] unat_lt [of "m p"] by simp
  ultimately show ?thesis by (simp add: unat_word_ariths)
qed

lemma ld16_st16 [simp]: "ld16 (st16 p w m) p = w"
  unfolding ld16_def st16_def by (rule bit_word_eqI) (auto simp: bit_simps dest: bit_imp_le_length)

lemma ld16_cong: "m' p = m p \<Longrightarrow> m' (p + 1) = m (p + 1) \<Longrightarrow> ld16 m' p = ld16 m p"
  by (simp add: ld16_def)

lemma st16_other: "a \<noteq> p \<Longrightarrow> a \<noteq> p + 1 \<Longrightarrow> st16 p w m a = m a"
  by (simp add: st16_def)

lemma sum16_cong: "(\<And>a. a \<in> rng p n \<Longrightarrow> m' a = m a) \<Longrightarrow> sum16 n p m' = sum16 n p m"
proof (induction n p m rule: sum16.induct)
  case (3 n p m)
  have "ld16 m' p = ld16 m p" by (rule ld16_cong; rule 3(2)) simp_all
  moreover have "sum16 n (p + 2) m' = sum16 n (p + 2) m" by (rule 3(1), rule 3(2)) (simp add: add.assoc)
  ultimately show ?case by simp
qed simp_all


text \<open>Storing a word of the block changes the sum by the difference.\<close>

lemma two_words: "(a :: u32) + of_nat (2 * Suc k) = a + 2 + of_nat (2 * k)"
  by (simp add: algebra_simps)

lemma sum16_store:
  assumes "2 * k + 2 \<le> n" "n \<le> 2 ^ 31"
  shows "sum16 n p (st16 (p + of_nat (2 * k)) w m) + unat (ld16 m (p + of_nat (2 * k))) = sum16 n p m + unat w"
  using assms
proof (induction k arbitrary: n p)
  case 0
  then obtain n' where n: "n = Suc (Suc n')" by (metis Suc_le_D Suc_le_mono add_2_eq_Suc' mult_0_right)
  have "rng p 2 \<inter> rng (p + 2) n' = {}" using rng_disjoint [of 2 n' p] 0 n by simp
  moreover have "p \<in> rng p 2" "p + 1 \<in> rng p 2" by (simp_all add: numeral_2_eq_2)
  ultimately have "a \<noteq> p \<and> a \<noteq> p + 1" if "a \<in> rng (p + 2) n'" for a using that by blast
  then have "sum16 n' (p + 2) (st16 p w m) = sum16 n' (p + 2) m" by (intro sum16_cong st16_other) auto
  then show ?case using n by simp
next
  case (Suc k)
  then obtain n' where n: "n = Suc (Suc n')" by (metis Suc_le_D Suc_le_mono add_2_eq_Suc')
  define q where "q = p + 2 + of_nat (2 * k)"
  have q: "q = p + of_nat (2 * k + 2)" by (simp add: q_def algebra_simps)
  have "q \<notin> rng p 2 \<and> q + 1 \<notin> rng p 2"
  proof -
    have "rng p 2 \<inter> rng (p + 2) (2 * k + 2) = {}" using rng_disjoint [of 2 "2 * k + 2" p] Suc.prems by simp
    moreover have "q \<in> rng (p + 2) (2 * k + 2)" unfolding rng_eq q_def by (rule image_eqI [of _ _ "2 * k"]) simp_all
    moreover have "q + 1 \<in> rng (p + 2) (2 * k + 2)" unfolding rng_eq q_def by (rule image_eqI [of _ _ "2 * k + 1"]) (simp_all add: add.assoc)
    ultimately show ?thesis by blast
  qed
  then have "ld16 (st16 q w m) p = ld16 m p" by (intro ld16_cong st16_other) (auto simp: numeral_2_eq_2)
  moreover have "sum16 n' (p + 2) (st16 q w m) + unat (ld16 m q) = sum16 n' (p + 2) m + unat w"
    using Suc.IH [of n' "p + 2"] Suc.prems n unfolding q_def by simp
  ultimately show ?case using n unfolding two_words q_def [symmetric] by simp
qed

lemma ones_verifies: "ones n = 65535 \<longleftrightarrow> 0 < n \<and> n mod 65535 = 0"
proof (cases n)
  case (Suc k)
  show ?thesis unfolding Suc ones_def using mod_Suc [of k 65535] by simp
qed (simp add: ones_def)

lemma ones_complement: "ones (n + (65535 - ones n)) = 65535"
proof (cases "n = 0")
  case False
  define q r where "q = (n - 1) div 65535" and "r = (n - 1) mod 65535"
  have r: "r < 65535" "n = q * 65535 + r + 1" "ones n = r + 1"
    using False div_mult_mod_eq [of "n - 1" 65535] by (simp_all add: q_def r_def ones_def)
  have "n + (65535 - ones n) = (q + 1) * 65535" using r by simp
  then show ?thesis by (simp add: ones_verifies)
qed (simp add: ones_def)

lemma netChksum_zero:
  assumes "unat len \<le> 131074"
  shows "netChksum data len m = 0 \<longleftrightarrow> ones (sum16 (unat len) data m) = 65535"
proof -
  have "ones (sum16 (unat len) data m) \<le> 65535" by (auto simp: ones_def Suc_leI)
  then show ?thesis using netChksum_unat [OF assms, of data m] by (metis diff_diff_cancel diff_self_eq_0 diff_zero unat_eq_zero)
qed

lemma chksum_stored:
  assumes "2 * k + 2 \<le> unat len" and "unat len \<le> 131074" and "q = data + of_nat (2 * k)"
  shows "netChksum data len (st16 q (netChksum data len (st16 q 0 m)) (st16 q 0 m)) = 0"
proof -
  define m0 where "m0 = st16 q 0 m"
  define S where "S = sum16 (unat len) data m0"
  have le: "unat len \<le> 2 ^ 31" using assms(2) by simp
  have "sum16 (unat len) data (st16 q (netChksum data len m0) m0) = S + (65535 - ones S)"
    using sum16_store [OF assms(1) le, of data "netChksum data len m0" m0] netChksum_unat [OF assms(2), of data m0]
    unfolding S_def by (simp add: m0_def assms(3))
  then show ?thesis by (simp add: netChksum_zero [OF assms(2)] ones_complement m0_def)
qed

lemma chksum_change:
  assumes z: "netChksum data len m = 0" and "unat len \<le> 131074" and j: "2 * j + 2 \<le> unat len"
    and ne: "unat w mod 65535 \<noteq> unat (ld16 m (data + of_nat (2 * j))) mod 65535"
  shows "netChksum data len (st16 (data + of_nat (2 * j)) w m) \<noteq> 0"
proof
  let ?q = "data + of_nat (2 * j)"
  have le: "unat len \<le> 2 ^ 31" using assms(2) by simp
  assume w: "netChksum data len (st16 ?q w m) = 0"
  define A B where "A = sum16 (unat len) data (st16 ?q w m)" and "B = sum16 (unat len) data m"
  have z': "A mod 65535 = 0" "B mod 65535 = 0"
    using w z by (simp_all add: netChksum_zero [OF assms(2)] ones_verifies A_def B_def)
  have "A + unat (ld16 m ?q) = B + unat w" using sum16_store [OF j le] by (simp only: A_def B_def)
  then have "unat (ld16 m ?q) mod 65535 = unat w mod 65535"
    using z' mod_add_left_eq [of A 65535 "unat (ld16 m ?q)"] mod_add_left_eq [of B 65535 "unat w"] by simp
  with ne show False by simp
qed

text \<open>C19: a checksum stored in a block of data whose checksum field was zero makes the whole block
  add up to zero under \<^verbatim>\<open>netChksum\<close>, and no later change of one 16-bit word of the block goes
  unnoticed, except between the two representations of zero.\<close>

theorem chksum_verifies:
  assumes "2 * k + 2 \<le> unat len" and "unat len \<le> 131074" and "q = data + of_nat (2 * k)"
    and "m1 = st16 q (netChksum data len (st16 q 0 m)) (st16 q 0 m)"
  shows "netChksum data len m1 = 0
    \<and> (\<forall>j w. 2 * j + 2 \<le> unat len \<and> unat w mod 65535 \<noteq> unat (ld16 m1 (data + of_nat (2 * j))) mod 65535
          \<longrightarrow> netChksum data len (st16 (data + of_nat (2 * j)) w m1) \<noteq> 0)"
proof
  show z: "netChksum data len m1 = 0" unfolding assms(4) by (rule chksum_stored [OF assms(1-3)])
  show "\<forall>j w. 2 * j + 2 \<le> unat len \<and> unat w mod 65535 \<noteq> unat (ld16 m1 (data + of_nat (2 * j))) mod 65535
    \<longrightarrow> netChksum data len (st16 (data + of_nat (2 * j)) w m1) \<noteq> 0"
    using chksum_change [OF z assms(2)] by blast
qed

lemma isdigit_digit: "0x30 \<le> c \<Longrightarrow> c \<le> 0x39 \<Longrightarrow> isdigit c = Some True"
proof -
  assume "0x30 \<le> c" "c \<le> 0x39"
  then have "48 \<le> unat c" "unat c \<le> 57" by (simp_all add: word_le_nat_alt)
  then have "unat c \<in> {48, 49, 50, 51, 52, 53, 54, 55, 56, 57}" by simp presburger
  then show ?thesis by (auto simp: isdigit_def ctype_tab_def)
qed

lemma dot_loop_digits:
  assumes "bytes_at m p xs" and "\<And>c. c \<in> set xs \<Longrightarrow> 0x30 \<le> c \<and> c \<le> 0x39" and "cnt < 4"
  shows "dot_loop p cnt t addr m =
    dot_loop (p + of_nat (length xs)) cnt (foldl (\<lambda>t c. t * 10 + (ucast c - 0x30)) t xs) addr m"
  using assms
proof (induction xs arbitrary: p t)
  case (Cons c xs)
  have d: "0x30 \<le> c" "c \<le> 0x39" using Cons.prems(2) [of c] by simp_all
  then have c: "m p = c" "isdigit c = Some True" "c \<noteq> 0" using Cons.prems(1) isdigit_digit by auto
  show ?case using Cons c by (subst dot_loop.simps) (simp add: add.assoc)
qed simp

lemma foldl_dot: "foldl (\<lambda>t c. t * 10 + (ucast c - 0x30)) 0 (dec n) = (of_nat n :: u32)"
proof (induction n rule: dec_induct)
  case (digit n)
  then show ?case using digits_16 [of n] by (auto simp: dec_simps digit_def)
next
  case (step n d)
  then have "ucast (digit d) - 0x30 = (of_nat d :: u32)" using digits_16 [of d] by (auto simp: digit_def)
  then show ?case using step by (simp add: dec_simps)
qed

lemma isdigit_dot: "isdigit (ch CHR ''.'') = Some False"
  by (simp add: isdigit_def ctype_tab_def)

lemma dot_loop_dec:
  assumes "bytes_at m p (dec n)" "cnt < 4"
  shows "dot_loop p cnt 0 addr m = dot_loop (p + of_nat (length (dec n))) cnt (of_nat n) addr m"
proof -
  have "\<And>c. c \<in> set (dec n) \<Longrightarrow> 0x30 \<le> c \<and> c \<le> 0x39" by (rule dec_digits)
  from dot_loop_digits [OF assms(1) this assms(2), where t = 0 and addr = addr] show ?thesis by (simp only: foldl_dot)
qed

lemma ucast_octet: "ucast (of_nat n :: u32) = (of_nat n :: u8)"
  by (rule bit_word_eqI) (simp add: bit_simps)

lemma dot_loop_octet:
  assumes "bytes_at m p (dec n)" "m (p + of_nat (length (dec n))) = ch CHR ''.''" "cnt < 4"
  shows "dot_loop p cnt 0 addr m = dot_loop (p + of_nat (length (dec n)) + 1) (Suc cnt) 0 (addr[cnt := of_nat n]) m"
  using assms isdigit_dot unfolding dot_loop_dec [OF assms(1,3)]
  by (subst dot_loop.simps) (simp add: ucast_octet)

lemma dot_loop_last:
  assumes "bytes_at m p (dec n)" "m (p + of_nat (length (dec n))) = 0" "cnt < 4"
  shows "dot_loop p cnt 0 addr m = Some (False, cnt, of_nat n, addr)"
  using assms unfolding dot_loop_dec [OF assms(1,3)] by (subst dot_loop.simps) simp

text \<open>The four numbers of an address with dots between them.\<close>

definition dotted :: "nat list \<Rightarrow> u8 list" where
  "dotted ns = concat (map (\<lambda>n. dec n @ [ch CHR ''.'']) (butlast ns)) @ dec (last ns)"

lemma doprnt_dotted:
  assumes "a < 2 ^ 31" "b < 2 ^ 31" "c < 2 ^ 31" "d < 2 ^ 31"
  shows "doprnt (map of_char ''%d.%d.%d.%d'') [VInt (int a), VInt (int b), VInt (int c), VInt (int d)] None =
    Some (dotted [a, b, c, d])"
  using assms by (simp add: doprnt_d [simplified] doprnt_char [simplified] dotted_def sdec_def)

lemma dotted_length: "a < 10 ^ 10 \<Longrightarrow> b < 10 ^ 10 \<Longrightarrow> c < 10 ^ 10 \<Longrightarrow> d < 10 ^ 10 \<Longrightarrow> length (dotted [a, b, c, d]) \<le> 43"
  using dec_length [of a] dec_length [of b] dec_length [of c] dec_length [of d] by (simp add: dotted_def)

lemma dot_loop_dotted:
  assumes "str_at m p (dotted [a, b, c, d])"
  shows "dot_loop p 0 0 addr m = Some (False, 3, of_nat d, addr[0 := of_nat a, 1 := of_nat b, 2 := of_nat c])"
proof -
  define p1 where "p1 = p + of_nat (length (dec a))"
  define p2 where "p2 = p1 + 1 + of_nat (length (dec b))"
  define p3 where "p3 = p2 + 1 + of_nat (length (dec c))"
  define p4 where "p4 = p3 + 1 + of_nat (length (dec d))"
  have b: "bytes_at m p (dec a)" "m p1 = ch CHR ''.''" "bytes_at m (p1 + 1) (dec b)" "m p2 = ch CHR ''.''"
    "bytes_at m (p2 + 1) (dec c)" "m p3 = ch CHR ''.''" "bytes_at m (p3 + 1) (dec d)" "m p4 = 0"
    using assms(1) by (simp_all add: str_at_def dotted_def bytes_at_append p1_def p2_def p3_def p4_def add.assoc)
  have "dot_loop p 0 0 addr m = dot_loop (p1 + 1) 1 0 (addr[0 := of_nat a]) m"
    using dot_loop_octet [OF b(1)] b assms by (simp add: p1_def)
  also have "\<dots> = dot_loop (p2 + 1) 2 0 (addr[0 := of_nat a, 1 := of_nat b]) m"
    using dot_loop_octet [OF b(3)] b assms by (simp add: p2_def numeral_2_eq_2)
  also have "\<dots> = dot_loop (p3 + 1) 3 0 (addr[0 := of_nat a, 1 := of_nat b, 2 := of_nat c]) m"
    using dot_loop_octet [OF b(5)] b assms by (simp add: p3_def numeral_3_eq_3)
  also have "\<dots> = Some (False, 3, of_nat d, addr[0 := of_nat a, 1 := of_nat b, 2 := of_nat c])"
    using dot_loop_last [OF b(7)] b by (simp add: p4_def)
  finally show ?thesis .
qed


text \<open>Each number is taken modulo 256: an octet that is too large is not refused.\<close>

lemma dot2ipv4_dotted:
  assumes "str_at m p (dotted [a, b, c, d])" "p \<noteq> 0" "length (naddr ip) = NET_MAX_ALEN"
  shows "dot2ipv4 p (Some ip) m = Some (OK, Some (ip\<lparr>ntype := NETADDR_IPv4, nlen := IPv4_ADDR_LEN,
    naddr := [of_nat a, of_nat b, of_nat c, of_nat d] @ drop 4 (naddr ip)\<rparr>))"
proof -
  from assms(3) obtain x0 x1 x2 x3 x4 x5 where x: "naddr ip = [x0, x1, x2, x3, x4, x5]"
    by (auto simp: numeral_eq_Suc length_Suc_conv)
  have "(naddr ip)[0 := of_nat a, 1 := of_nat b, 2 := of_nat c, 3 := of_nat d] =
    [of_nat a, of_nat b, of_nat c, of_nat d] @ drop 4 (naddr ip)" by (simp add: x)
  then show ?thesis using assms(2) by (simp add: dot2ipv4_def dot_loop_dotted [OF assms(1)] ucast_octet)
qed

lemma dotted_no_end: "0 \<notin> set (dotted [a, b, c, d])"
  using dec_no_end by (simp add: dotted_def)

lemma netaddrsprintf_ipv4:
  assumes "ntype x = NETADDR_IPv4" "naddr x = [a, b, c, d, e, f]"
  shows "\<exists>m'. netaddrsprintf p x m = Some (p, m') \<and> str_at m' p (dotted [unat a, unat b, unat c, unat d])"
proof -
  have lt: "unat y < 256" for y :: u8 using unat_lt [of y] by simp
  have i: "uint y = int (unat y)" for y :: u8 by simp
  let ?out = "dotted [unat a, unat b, unat c, unat d]"
  have s: "doprnt (map of_char ''%d.%d.%d.%d'') [VInt (uint a), VInt (uint b), VInt (uint c), VInt (uint d)] None = Some ?out"
    unfolding i by (rule doprnt_dotted) (use lt in \<open>simp_all add: less_trans [OF lt]\<close>)
  have "length ?out \<le> 43" by (rule dotted_length) (simp_all add: less_trans [OF lt])
  then show ?thesis using sprintf_str [OF s dotted_no_end, of p m] assms by (auto simp: netaddrsprintf_def)
qed

text \<open>C20: an IPv4 address printed by \<^verbatim>\<open>netaddrsprintf\<close> is read back by \<^verbatim>\<open>dot2ipv4\<close>: the call succeeds and
  leaves in the structure an address that \<^verbatim>\<open>netaddrequal\<close> takes for the printed one, whatever the structure
  held before.\<close>

theorem dot2ipv4_reads_back:
  assumes "ntype x = NETADDR_IPv4" "nlen x = IPv4_ADDR_LEN" "length (naddr x) = NET_MAX_ALEN"
    and "length (naddr ip) = NET_MAX_ALEN" and "p \<noteq> 0"
  shows "\<exists>m' y. netaddrsprintf p x m = Some (p, m') \<and> dot2ipv4 p (Some ip) m' = Some (OK, Some y)
    \<and> netaddrequal x y = Some True"
proof -
  from assms(3) obtain a b c d e f where x: "naddr x = [a, b, c, d, e, f]"
    by (auto simp: numeral_eq_Suc length_Suc_conv)
  obtain m' where m': "netaddrsprintf p x m = Some (p, m')" "str_at m' p (dotted [unat a, unat b, unat c, unat d])"
    using netaddrsprintf_ipv4 [OF assms(1) x] by blast
  define y where "y = ip\<lparr>ntype := NETADDR_IPv4, nlen := IPv4_ADDR_LEN, naddr := [a, b, c, d] @ drop 4 (naddr ip)\<rparr>"
  have "dot2ipv4 p (Some ip) m' = Some (OK, Some y)"
    using dot2ipv4_dotted [OF m'(2) assms(5,4)] by (simp add: y_def)
  moreover have "netaddrequal x y = Some True"
    using assms x by (subst netaddrequal_ok) (auto simp: netaddr_ok_def same_addr_def y_def)
  ultimately show ?thesis using m'(1) by blast
qed

theorem dot2ipv4_reads_back_witness:
  "\<exists>m' y. netaddrsprintf 0x1000 \<lparr>ntype = 0x800, nlen = 4, naddr = [192, 168, 0, 17, 0, 0]\<rparr> (\<lambda>a. 0) = Some (0x1000, m')
    \<and> dot2ipv4 0x1000 (Some \<lparr>ntype = 0, nlen = 0, naddr = replicate 6 0xFF\<rparr>) m' = Some (OK, Some y)
    \<and> netaddrequal \<lparr>ntype = 0x800, nlen = 4, naddr = [192, 168, 0, 17, 0, 0]\<rparr> y = Some True"
  by (rule dot2ipv4_reads_back) simp_all

theorem chksum_verifies_witness:
  "netChksum 0x100 4 (st16 0x102 (netChksum 0x100 4 (st16 0x102 0 (\<lambda>a. 0x45))) (st16 0x102 0 (\<lambda>a. 0x45))) = 0"
  using chksum_verifies [of 1 4 "0x102" "0x100" _ "\<lambda>a. 0x45"] by auto

end
