(* ===== verification/Xinu_Machine.thy ===== *)
theory Xinu_Machine
  imports Xinu_Kill Xinu_Boot
begin

text \<open>
  The kernel as a machine: the system calls of the running threads, the clock interrupt, and
  the second halves of calls that were interrupted by a switch. One step is one call, as calls run
  with interrupts off. The invariant of the kernel holds in every state that is reached.
\<close>

section \<open>The machine\<close>

datatype syscall =
    Yield | Resume tid_typ | Suspend tid_typ | Chprio tid_typ int
  | Wait semaphore | Signal semaphore | Signaln semaphore int | Semcreate int | Semfree semaphore
  | Sleep u32 | Send tid_typ message | Receive | Recvtime int | Recvclr
  | Create u32 u32 u32 int string "u32 list" | Kill tid_typ

text \<open>Where a thread that gave the processor away goes on.\<close>

datatype pending = InSuspend irqmask | InReceive irqmask | InRecvtime irqmask

record machine =
  kern :: kernel
  pend :: "tid_typ \<Rightarrow> pending option"

definition done_call :: "('a \<times> kernel) option \<Rightarrow> machine \<Rightarrow> machine option" where
  "done_call r m = map_option (\<lambda>(_, s). m\<lparr>kern := s\<rparr>) r"

definition park :: "pending \<Rightarrow> ('a call \<times> kernel) option \<Rightarrow> machine \<Rightarrow> machine option" where
  "park w r m = map_option (\<lambda>(c, s). case c of Returned _ \<Rightarrow> m\<lparr>kern := s\<rparr>
     | Switched \<Rightarrow> m\<lparr>kern := s, pend := (pend m)(thrcurrent (kern m) \<mapsto> w)\<rparr>) r"

fun exec :: "syscall \<Rightarrow> machine \<Rightarrow> machine option" where
  "exec Yield m = done_call (yield (kern m)) m"
| "exec (Resume t) m = done_call (resume t (kern m)) m"
| "exec (Suspend t) m = park (InSuspend (imask (kern m))) (suspend t (kern m)) m"
| "exec (Chprio t p) m = done_call (chprio t p (kern m)) m"
| "exec (Wait i) m = done_call (wait i (kern m)) m"
| "exec (Signal i) m = done_call (signal i (kern m)) m"
| "exec (Signaln i n) m = done_call (signaln i n (kern m)) m"
| "exec (Semcreate n) m = done_call (Some (semcreate n (kern m))) m"
| "exec (Semfree i) m = done_call (semfree i (kern m)) m"
| "exec (Sleep ms) m = done_call (sleep ms (kern m)) m"
| "exec (Send t w) m = done_call (send t w (kern m)) m"
| "exec Receive m = park (InReceive (imask (kern m))) (receive (kern m)) m"
| "exec (Recvtime w) m = park (InRecvtime (imask (kern m))) (recvtime w (kern m)) m"
| "exec Recvclr m = done_call (recvclr (kern m)) m"
| "exec (Create ret proc ssize p name args) m =
     map_option (\<lambda>(t, s). m\<lparr>kern := s, pend := (pend m)(t := None)\<rparr>) (create ret proc ssize p name args (kern m))"
| "exec (Kill t) m = done_call (kill t (kern m)) m"

definition go_on :: "machine \<Rightarrow> machine" where
  "go_on m = (let s = kern m; me = thrcurrent s; m' = m\<lparr>pend := (pend m)(me := None)\<rparr> in
     case pend m me of
       None \<Rightarrow> m
     | Some (InSuspend im) \<Rightarrow> m'\<lparr>kern := snd (suspend_rest me im s)\<rparr>
     | Some (InReceive im) \<Rightarrow> m'\<lparr>kern := snd (receive_rest me im s)\<rparr>
     | Some (InRecvtime im) \<Rightarrow> m'\<lparr>kern := snd (recvtime_rest me im s)\<rparr>)"

text \<open>
  What the callers must respect: the null thread never blocks, a priority is above the key of
  the end of a queue, counts do not overflow, a thread that sleeps or waits with a limit is not killed, and the parent of
  a killed thread is not waiting for the message at that moment.
\<close>

abbreviation (input) may_block :: "kernel \<Rightarrow> bool" where
  "may_block s \<equiv> thrcurrent s \<noteq> NULLTHREAD"

fun allowed :: "syscall \<Rightarrow> kernel \<Rightarrow> bool" where
  "allowed (Chprio t p) s \<longleftrightarrow> MINKEY < p \<and> p \<le> MAXKEY"
| "allowed (Wait i) s \<longleftrightarrow> may_block s \<or> isbadsem i s \<or> 0 < scount (semtab s i)"
| "allowed (Signal i) s \<longleftrightarrow> isbadsem i s \<or> scount (semtab s i) < MAXKEY"
| "allowed (Signaln i n) s \<longleftrightarrow> isbadsem i s \<or> scount (semtab s i) + n \<le> MAXKEY"
| "allowed (Semcreate n) s \<longleftrightarrow> n \<le> MAXKEY"
| "allowed (Sleep ms) s \<longleftrightarrow> may_block s \<or> sleep_ticks ms \<le> 0"
| "allowed Receive s \<longleftrightarrow> may_block s \<or> hasmsg (thrtab s (thrcurrent s))"
| "allowed (Recvtime w) s \<longleftrightarrow> (may_block s \<or> hasmsg (thrtab s (thrcurrent s)) \<or> w < 0) \<and> w \<le> MAXKEY"
| "allowed (Create ret proc ssize p name args) s \<longleftrightarrow> MINKEY < p \<and> p \<le> MAXKEY"
| "allowed (Kill t) s \<longleftrightarrow> isbadtid t s \<or> t = NULLTHREAD
     \<or> tstate (thrtab s t) \<notin> {THRSLEEP, THRTMOUT} \<and> \<not> receptive (parent (thrtab s t)) s \<and> thrcount s \<le> MAXKEY"
| "allowed _ s \<longleftrightarrow> True"

inductive mstep :: "machine \<Rightarrow> machine \<Rightarrow> bool" where
  call: "pend m (thrcurrent (kern m)) = None \<Longrightarrow> allowed c (kern m) \<Longrightarrow> exec c m = Some m' \<Longrightarrow> mstep m m'"
| tick: "pend m (thrcurrent (kern m)) = None \<Longrightarrow> clkhandler (kern m) = Some s \<Longrightarrow> mstep m (m\<lparr>kern := s\<rparr>)"
| rest: "pend m (thrcurrent (kern m)) \<noteq> None \<Longrightarrow> mstep m (go_on m)"

inductive reachable :: "machine \<Rightarrow> machine \<Rightarrow> bool" for m where
  start: "reachable m m"
| step: "reachable m m' \<Longrightarrow> mstep m' m'' \<Longrightarrow> \<not> halted (kern m') \<Longrightarrow> reachable m m''"

inductive_cases mstepE: "mstep m m'"

section \<open>Frames of the heap calls\<close>

text \<open>Whatever the free list looks like, a call that returns has changed the memory, the list head and the mask only.\<close>

lemma set_next_only: "set_next p v s = Some s' \<Longrightarrow> mem_only s s'"
  by (auto simp: set_next_def mem_only_def split: mptr.splits if_splits)

lemma set_len_only: "set_len p v s = Some s' \<Longrightarrow> mem_only s s'"
  by (auto simp: set_len_def mem_only_def split: mptr.splits if_splits)

lemmas set_only = set_next_only set_len_only

lemma memfree_join_only: "memfree_join b nxt s = Some s' \<Longrightarrow> mem_only s s'"
  by (auto simp: memfree_join_def split: Option.bind_splits if_splits intro: set_only mem_only_trans [OF set_len_only set_next_only])

lemma memfree_link_only: "memfree_link prev tp b n nxt s = Some (b', s') \<Longrightarrow> mem_only s s'"
  by (auto simp: memfree_link_def split: Option.bind_splits if_splits mptr.splits
      intro: set_only mem_only_trans [OF mem_only_trans [OF set_next_only set_len_only] set_next_only])

lemma mem_only_unmask: "mem_only (s\<lparr>imask := x\<rparr>) s' \<Longrightarrow> \<exists>v. s' = v\<lparr>imask := x\<rparr> \<and> mem_only s v"
  by (rule exI [of _ "s'\<lparr>imask := imask s\<rparr>"]) (cases s; cases s'; simp add: mem_only_def)

lemma mem_only_add: "mem_only s (add_free n s)" "mem_only s (sub_free n s)"
  by auto

lemma memfree_only: "memfree b n s = Some (r, s') \<Longrightarrow> \<exists>v x. s' = v\<lparr>imask := x\<rparr> \<and> mem_only s v"
proof -
  assume m: "memfree b n s = Some (r, s')"
  define z where "z = s\<lparr>imask := (imask s)\<lparr>irqen := 0x80\<rparr>\<rparr>"
  have "s' = s \<or> (\<exists>u y. mem_only z u \<and> s' = u\<lparr>imask := y\<rparr>)"
    using m by (auto simp: memfree_def irq_simps z_def [symmetric] Let_def split: if_splits Option.bind_splits prod.splits mptr.splits
        intro: mem_only_trans [OF mem_only_add(1) mem_only_trans [OF memfree_link_only memfree_join_only]])
  then show ?thesis
  proof
    assume "s' = s"
    then show ?thesis by (intro exI [of _ s] exI [of _ "imask s"]) auto
  next
    assume "\<exists>u y. mem_only z u \<and> s' = u\<lparr>imask := y\<rparr>"
    then show ?thesis using mem_only_unmask [where s = s] unfolding z_def by fastforce
  qed
qed

lemma stkfree_only: "stkfree p n s = Some (r, s') \<Longrightarrow> \<exists>v x. s' = v\<lparr>imask := x\<rparr> \<and> mem_only s v"
  unfolding stkfree_def by (rule memfree_only)

lemma stkget_only: "stkget n s = Some (r, s') \<Longrightarrow> \<exists>v x. s' = v\<lparr>imask := x\<rparr> \<and> mem_only s v"
proof -
  assume m: "stkget n s = Some (r, s')"
  define z where "z = s\<lparr>imask := (imask s)\<lparr>irqen := 0x80\<rparr>\<rparr>"
  have "s' = s \<or> (\<exists>u y. mem_only z u \<and> s' = u\<lparr>imask := y\<rparr>)"
    using m by (auto simp: stkget_def irq_simps z_def [symmetric] Let_def split: if_splits Option.bind_splits option.splits prod.splits
        intro: mem_only_trans [OF set_next_only mem_only_add(2)] mem_only_trans [OF set_len_only mem_only_add(2)])
  then show ?thesis
  proof
    assume "s' = s"
    then show ?thesis by (intro exI [of _ s] exI [of _ "imask s"]) auto
  next
    assume "\<exists>u y. mem_only z u \<and> s' = u\<lparr>imask := y\<rparr>"
    then show ?thesis using mem_only_unmask [where s = s] unfolding z_def by fastforce
  qed
qed

section \<open>Every call keeps the invariant\<close>

lemma kinv_only: "mem_only s v \<Longrightarrow> kinv (v\<lparr>imask := x\<rparr>) = kinv s"
  by (simp add: kinv_mem_only)

lemma thrnew_kinv:
  assumes "thrnew s = (t, s')" and "kinv s"
  shows "kinv s'" and "t \<noteq> SYSERR \<Longrightarrow> is_tid t \<and> tstate (thrtab s' t) = THRFREE"
proof -
  have n: "kinv (s\<lparr>nexttid := n\<rparr>) = kinv s" for n by simp
  show "kinv s'" using thrnew_spec [OF assms(1)] assms(2) n by metis
  show "is_tid t \<and> tstate (thrtab s' t) = THRFREE" if "t \<noteq> SYSERR"
  proof -
    have "\<exists>u. is_tid u \<and> tstate (thrtab s u) = THRFREE" using thrnew_spec(2) [OF assms(1)] that by blast
    from thrnew_spec(1) [OF assms(1) this] show ?thesis by simp
  qed
qed

lemma create_kinv:
  assumes k: "kinv s" and p: "MINKEY < p" "p \<le> MAXKEY" and c: "create ret proc ssize p name args s = Some (t, s')"
  shows "kinv s'"
proof -
  define z where "z = s\<lparr>imask := (imask s)\<lparr>irqen := 0x80\<rparr>\<rparr>"
  obtain a v where g: "stkget (stack_size ssize) z = Some (a, v)"
    using c by (auto simp: create_def irq_simps z_def [symmetric] Let_def split: Option.bind_splits prod.splits)
  obtain tid w where t: "thrnew v = (tid, w)" by fastforce
  have "kinv v" using stkget_only [OF g] k by (auto simp: z_def dest!: kinv_mem_only)
  note w = thrnew_kinv [OF t this]
  show ?thesis
  proof (cases "a = -1 \<or> tid = SYSERR")
    case True
    then have "s' = w\<lparr>imask := norm_mask (imask s)\<rparr>" using c g t
      by (simp add: create_def irq_simps z_def [symmetric] Let_def split: if_splits)
    then show ?thesis using w(1) by simp
  next
    case False
    obtain n sp m where n: "ck (thrcount w + 1) = Some n"
      and b: "build_stack (word_of_int tid) a (stack_size ssize) proc ret args (mem w) = (sp, m)"
    proof -
      from c g t False obtain n where "ck (thrcount w + 1) = Some n"
        by (cases "ck (thrcount w + 1)") (auto simp: create_def irq_simps z_def [symmetric] Let_def)
      then show thesis using that by (cases "build_stack (word_of_int tid) a (stack_size ssize) proc ret args (mem w)") blast
    qed
    define e where "e = new_thread w tid p name a (stack_size ssize) sp"
    have "s' = w\<lparr>thrcount := n, mem := m, thrtab := (thrtab w)(tid := e), imask := norm_mask (imask s)\<rparr>"
      unfolding e_def using c g t False w(2) n b
      by (auto simp: create_def irq_simps z_def [symmetric] Let_def twr_def new_thread_def gettid_def split: if_splits)
    moreover have "tstate e = THRSUSP" "prio e = p" by (simp_all add: e_def new_thread_def)
    ultimately show ?thesis using kinv_new_thread [of "w\<lparr>thrcount := n, mem := m\<rparr>" tid e] w False p by simp
  qed
qed

lemma kinv_halted: "kinv (s\<lparr>halted := h\<rparr>) = kinv s"
  by (simp add: kinv_def kmid_def queue_inv_def qheads_def qhome_def layout_inv_def thread_inv_def ready_inv_def sleep_inv_def
      sem_inv_def sem_ok_def rest_inv_def cong: thrstate.case_cong)

lemma kill_kinv:
  assumes k: "kinv s" and a: "allowed (Kill t) s" and c: "kill t s = Some (r, s')"
  shows "kinv s'"
proof (cases "isbadtid t s \<or> t = NULLTHREAD")
  case True
  then show ?thesis using kill_error [OF True] c k by simp
next
  case False
  then have t: "\<not> isbadtid t s" "t \<noteq> NULLTHREAD" "is_tid t" by (auto simp: isbadtid_def)
  show ?thesis
  proof (cases "thrcount s \<le> 2")
    case True
    then have "\<exists>n x. s' = s\<lparr>thrcount := n, imask := x, halted := True\<rparr>"
      using c t by (auto simp: kill_def irq_simps isbadtid_def xdone_def Let_def ck_eq_Some_iff split: Option.bind_splits if_splits)
    then show ?thesis using k by (auto simp: kinv_halted)
  next
    case False
    obtain x where kl: "kill t s = kill_rest t (imask s) ((counted_out t s)\<lparr>imask := x\<rparr>)"
      using kill_told [OF t(1,2)] False a t by auto
    define d where "d = (counted_out t s)\<lparr>imask := x\<rparr>"
    have kd: "kinv d" using counted_out_kinv [OF k] by (simp add: d_def)
    have st: "tstate (thrtab d t) = tstate (thrtab s t)" "thrcurrent d = thrcurrent s" by (simp_all add: d_def counted_out_sel)
    have "\<exists>q v'. stkfree (stkbase (thrtab d t)) (stklen (thrtab d t)) d = Some (q, v')"
      using c t(3) unfolding kl d_def [symmetric] by (auto simp: kill_rest_def trd_def Let_def split: Option.bind_splits)
    then obtain q v y where f: "stkfree (stkbase (thrtab d t)) (stklen (thrtab d t)) d = Some (q, v\<lparr>imask := y\<rparr>)" "mem_only d v"
      using stkfree_only by blast
    have "tstate (thrtab d t) \<in> {THRREADY, THRSUSP, THRRECV, THRWAIT} \<or> tstate (thrtab d t) = THRCURR"
      using a t st(1) by (cases "tstate (thrtab s t)") (auto simp: isbadtid_def)
    then show ?thesis
    proof
      assume "tstate (thrtab d t) = THRCURR"
      then have "t = thrcurrent d" using kinvD(1) [OF kd] t(3) unfolding kmid_def thread_inv_def by blast
      from kill_rest_self [OF kd this t(2) f, of "imask s"] show ?thesis using c unfolding kl d_def [symmetric] by auto
    next
      assume "tstate (thrtab d t) \<in> {THRREADY, THRSUSP, THRRECV, THRWAIT}"
      from kill_rest_gone [OF kd t(3,2) this f, of "imask s"] show ?thesis
        using c unfolding kl d_def [symmetric] gone_def by auto
    qed
  qed
qed

text \<open>The calls that do not touch the heap always return, and keep the invariant.\<close>

definition heap_call :: "syscall \<Rightarrow> bool" where
  "heap_call c \<longleftrightarrow> (case c of Create _ _ _ _ _ _ \<Rightarrow> True | Kill _ \<Rightarrow> True | _ \<Rightarrow> False)"

abbreviation (input) returns_ok :: "('a \<times> kernel) option \<Rightarrow> bool" where
  "returns_ok r \<equiv> \<exists>x s'. r = Some (x, s') \<and> kinv s'"

lemma sched_calls:
  assumes k: "kinv s"
  shows "returns_ok (yield s)" and "returns_ok (resume t s)" and "returns_ok (suspend t s)"
    and "MINKEY < p \<Longrightarrow> p \<le> MAXKEY \<Longrightarrow> returns_ok (chprio t p s)"
proof -
  show "returns_ok (yield s)" using yield_spec [OF k] by blast
  show "returns_ok (resume t s)"
    using resume_spec [OF k, of t] k by (cases "isbadtid t s \<or> tstate (thrtab s t) \<noteq> THRSUSP") fastforce+
  show "returns_ok (suspend t s)"
  proof (cases "isbadtid t s \<or> t = NULLTHREAD \<or> tstate (thrtab s t) \<notin> {THRCURR, THRREADY}")
    case True
    then show ?thesis using suspend_error [OF True] k by simp
  next
    case False
    then have t: "is_tid t" "t \<noteq> NULLTHREAD" by (auto simp: isbadtid_def)
    show ?thesis
    proof (cases "tstate (thrtab s t) = THRREADY")
      case True
      then show ?thesis using suspend_ready [OF k t] by blast
    next
      case f: False
      then have "t = thrcurrent s" using False t kinvD(1) [OF k] unfolding kmid_def thread_inv_def by blast
      then show ?thesis using suspend_self [OF k _ t(2)] by blast
    qed
  qed
  show "returns_ok (chprio t p s)" if "MINKEY < p" "p \<le> MAXKEY"
  proof (cases "isbadtid t s")
    case True
    then show ?thesis using k by (auto simp: chprio_def irq_simps isbadtid_def)
  qed (use chprio_spec [OF k _ that] in blast)
qed

lemma sem_count: "kinv s \<Longrightarrow> \<not> isbadsem i s \<Longrightarrow> scount (semtab s i) \<le> MAXKEY"
  using kinvD(1) [of s] by (auto simp: kmid_def rest_inv_def sem_inv_def sem_ok_def isbadsem_def)

lemma wait_calls:
  assumes k: "kinv s"
  shows "allowed (Wait i) s \<Longrightarrow> returns_ok (wait i s)" and "allowed (Signal i) s \<Longrightarrow> returns_ok (signal i s)"
    and "allowed (Signaln i n) s \<Longrightarrow> returns_ok (signaln i n s)" and "returns_ok (semfree i s)"
    and "allowed (Semcreate n) s \<Longrightarrow> kinv (snd (semcreate n s))"
proof -
  show "returns_ok (wait i s)" if "allowed (Wait i) s"
    using wait_error [of i s] wait_pass [OF k, of i] wait_block [OF k, of i] that k
    by (cases "isbadsem i s"; cases "0 < scount (semtab s i)") force+
  show "returns_ok (signal i s)" if "allowed (Signal i) s"
    using signal_error [of i s] signal_free [OF k, of i] signal_release [OF k, of i] that k
    by (cases "isbadsem i s"; cases "0 \<le> scount (semtab s i)") force+
  show "returns_ok (signaln i n s)" if "allowed (Signaln i n) s"
  proof (cases "isbadsem i s \<or> n \<le> 0")
    case True
    then show ?thesis using k by (auto simp: signaln_def irq_simps isbadsem_def)
  next
    case False
    then show ?thesis using signaln_spec [OF k, of i n] that by fastforce
  qed
  show "returns_ok (semfree i s)"
  proof (cases "isbadsem i s")
    case True
    then show ?thesis using k by (auto simp: semfree_def irq_simps isbadsem_def)
  qed (use semfree_spec [OF k] in blast)
  show "kinv (snd (semcreate n s))" if "allowed (Semcreate n) s"
  proof (cases "\<forall>j<NSEM. sstate (semtab s j) = SUSED")
    case True
    then show ?thesis using semcreate_full [OF k, of n] by auto
  next
    case False
    then have f: "\<exists>j<NSEM. sstate (semtab s j) = SFREE" using semstate.exhaust by blast
    show ?thesis using semcreate_negative [OF k _ f, of n] semcreate_ok [OF k _ _ f, of n] that by (cases "n < 0") fastforce+
  qed
qed

lemma msg_calls:
  assumes k: "kinv s"
  shows "allowed (Sleep ms) s \<Longrightarrow> returns_ok (sleep ms s)" and "returns_ok (send t w s)" and "returns_ok (recvclr s)"
    and "allowed Receive s \<Longrightarrow> returns_ok (receive s)" and "allowed (Recvtime n) s \<Longrightarrow> returns_ok (recvtime n s)"
proof -
  show "returns_ok (sleep ms s)" if "allowed (Sleep ms) s"
    using sleep_spec [OF k, of ms] sleep_zero [OF k, of ms] that by (cases "sleep_ticks ms \<le> 0") force+
  show "returns_ok (send t w s)"
  proof -
    consider "isbadtid t s \<or> hasmsg (thrtab s t)"
      | "\<not> isbadtid t s" "\<not> hasmsg (thrtab s t)" "tstate (thrtab s t) \<notin> {THRRECV, THRTMOUT}"
      | "\<not> isbadtid t s" "\<not> hasmsg (thrtab s t)" "tstate (thrtab s t) = THRRECV"
      | "\<not> isbadtid t s" "\<not> hasmsg (thrtab s t)" "tstate (thrtab s t) = THRTMOUT" by blast
    then show ?thesis
    proof cases
      case 1
      then show ?thesis using send_error [OF 1] k by simp
    next
      case 2
      then show ?thesis using send_running [OF 2] kinv_deposited [OF k] by simp
    next
      case 3
      then show ?thesis using send_wakes [OF k 3] by blast
    next
      case 4
      then show ?thesis using send_times_out [OF k 4] by blast
    qed
  qed
  show "returns_ok (recvclr s)" using recvclr_spec [OF k] by blast
  show "returns_ok (receive s)" if "allowed Receive s"
    using receive_now [OF k] receive_block [OF k] that by (cases "hasmsg (thrtab s (thrcurrent s))") force+
  show "returns_ok (recvtime n s)" if "allowed (Recvtime n) s"
  proof (cases "n < 0")
    case True
    then show ?thesis using k by (simp add: recvtime_def)
  next
    case False
    then show ?thesis using recvtime_now [OF k, of n] recvtime_block [OF k, of n] that
      by (cases "hasmsg (thrtab s (thrcurrent s))") force+
  qed
qed

lemma done_call_ok: "returns_ok r \<Longrightarrow> \<exists>m'. done_call r m = Some m' \<and> kinv (kern m')"
  by (auto simp: done_call_def)

lemma park_ok: "returns_ok r \<Longrightarrow> \<exists>m'. park w r m = Some m' \<and> kinv (kern m')"
proof -
  assume "returns_ok r"
  then obtain x s' where "r = Some (x, s')" "kinv s'" by blast
  then show ?thesis by (cases x) (simp_all add: park_def)
qed

lemma exec_progress:
  assumes k: "kinv (kern m)" and a: "allowed c (kern m)" and h: "\<not> heap_call c"
  shows "\<exists>m'. exec c m = Some m' \<and> kinv (kern m')"
proof (cases c)
  case (Chprio t p)
  then show ?thesis using done_call_ok [OF sched_calls(4) [OF k, of p t]] a by simp
next
  case (Semcreate n)
  then show ?thesis using wait_calls(5) [OF k, of n] a
    by (cases "semcreate n (kern m)") (simp add: done_call_def)
next
  case (Wait i)
  then show ?thesis using done_call_ok [OF wait_calls(1) [OF k a [unfolded Wait]]] by simp
next
  case (Signal i)
  then show ?thesis using done_call_ok [OF wait_calls(2) [OF k a [unfolded Signal]]] by simp
next
  case (Signaln i n)
  then show ?thesis using done_call_ok [OF wait_calls(3) [OF k a [unfolded Signaln]]] by simp
next
  case (Sleep ms)
  then show ?thesis using done_call_ok [OF msg_calls(1) [OF k a [unfolded Sleep]]] by simp
next
  case Receive
  then show ?thesis using park_ok [OF msg_calls(4) [OF k a [unfolded Receive]]] by simp
next
  case (Recvtime n)
  then show ?thesis using park_ok [OF msg_calls(5) [OF k a [unfolded Recvtime]]] by simp
qed (use h done_call_ok [OF sched_calls(1) [OF k]] done_call_ok [OF sched_calls(2) [OF k]] park_ok [OF sched_calls(3) [OF k]]
    done_call_ok [OF wait_calls(4) [OF k]] done_call_ok [OF msg_calls(2) [OF k]] done_call_ok [OF msg_calls(3) [OF k]]
    in \<open>simp_all add: heap_call_def\<close>)

lemma exec_kinv:
  assumes "kinv (kern m)" and "allowed c (kern m)" and "exec c m = Some m'"
  shows "kinv (kern m')"
proof (cases c)
  case (Kill t)
  then show ?thesis using kill_kinv [OF assms(1) assms(2) [unfolded Kill]] assms(3) by (auto simp: done_call_def)
next
  case (Create ret proc ssize p name args)
  then show ?thesis using create_kinv [OF assms(1)] assms(2,3) by auto
qed (use exec_progress [OF assms(1,2)] assms(3) in \<open>auto simp: heap_call_def\<close>)

lemma go_on_kinv:
  assumes "kinv (kern m)" shows "kinv (kern (go_on m))"
proof -
  have e: "kinv (s\<lparr>thrtab := (thrtab s)(t := (thrtab s t)\<lparr>hasmsg := False\<rparr>)\<rparr>)" if "kinv s" for s t
    using kinv_entry [OF that, of "(thrtab s t)\<lparr>hasmsg := False\<rparr>" t] by simp
  show ?thesis using assms e [OF assms]
    by (auto simp: go_on_def Let_def suspend_rest_def receive_rest_def recvtime_rest_def irq_simps split: option.split pending.split)
qed

lemma mstep_kinv: "mstep m m' \<Longrightarrow> kinv (kern m) \<Longrightarrow> kinv (kern m')"
proof (induction rule: mstep.induct)
  case (tick m s)
  then show ?case using clkhandler_spec [of "kern m"] by auto
qed (auto intro: exec_kinv go_on_kinv)

lemma reachable_kinv: "reachable m m' \<Longrightarrow> kinv (kern m) \<Longrightarrow> kinv (kern m')"
  by (induction rule: reachable.induct) (auto intro: mstep_kinv)

section \<open>Sleeping threads wake up\<close>

text \<open>\<open>n\<close> clock interrupts in a row.\<close>

fun ticks :: "nat \<Rightarrow> kernel \<Rightarrow> kernel option" where
  "ticks 0 s = Some s"
| "ticks (Suc n) s = do { s \<leftarrow> ticks n s; clkhandler s }"

lemma sleepers_nonneg: "kinv s \<Longrightarrow> \<forall>(u, d)\<in>set (sleepers s). 0 \<le> d"
  using kinvD(1) [of s] by (simp add: kmid_def rest_inv_def sleep_inv_def sleepers_def Let_def)

lemma count_downs:
  "map (\<lambda>(u, w). (u, w - 1)) (filter (\<lambda>(u, w). 1 < w) (map (\<lambda>(u, w). (u, w - int n)) (filter (\<lambda>(u, w). int n < w) L)))
    = map (\<lambda>(u, w). (u, w - int (Suc n))) (filter (\<lambda>(u, w). int (Suc n) < w) L)"
  by (induction L) auto

lemma ticks_times:
  assumes "kinv s" and "\<forall>(u, w)\<in>set (wake_times s). 0 < w"
  shows "\<exists>s'. ticks n s = Some s' \<and> kinv s'
     \<and> wake_times s' = map (\<lambda>(u, w). (u, w - int n)) (filter (\<lambda>(u, w). int n < w) (wake_times s))"
proof (induction n)
  case 0
  have "filter (\<lambda>(u, w). 0 < w) (wake_times s) = wake_times s" using assms(2) by (simp add: filter_id_conv case_prod_beta)
  then show ?case using assms(1) by (simp add: split_def)
next
  case (Suc n)
  then obtain s1 where s1: "ticks n s = Some s1" "kinv s1"
    "wake_times s1 = map (\<lambda>(u, w). (u, w - int n)) (filter (\<lambda>(u, w). int n < w) (wake_times s))" by blast
  obtain s' where s': "clkhandler s1 = Some s'" "kinv s'" "sleepers s' = after_tick (sleepers s1)"
    using clkhandler_spec [OF s1(2)] by blast
  have pos: "\<forall>(u, w)\<in>set (dtimes 0 (sleepers s1)). 0 < w" unfolding wake_times_def [symmetric] s1(3) by auto
  have "wake_times s' = map (\<lambda>(u, w). (u, w - 1)) (filter (\<lambda>(u, w). 1 < w) (wake_times s1))"
    using after_tick_times(1) [OF sleepers_nonneg [OF s1(2)] pos] by (simp add: wake_times_def s'(3))
  also have "\<dots> = map (\<lambda>(u, w). (u, w - int (Suc n))) (filter (\<lambda>(u, w). int (Suc n) < w) (wake_times s))"
    unfolding s1(3) by (rule count_downs)
  finally show ?case using s1(1) s'(1,2) by simp
qed

lemma tick_wakes:
  assumes k: "kinv s" and p: "\<forall>(u, w)\<in>set (wake_times s). 0 < w" and t: "(t, 1) \<in> set (wake_times s)"
  shows "\<exists>s'. clkhandler s = Some s' \<and> kinv s' \<and> tstate (thrtab s' t) \<in> {THRREADY, THRCURR}"
proof -
  obtain s1 s' where s': "clkhandler s = Some s'" "kinv s'" "dispatched s1 s'"
    "\<forall>t. tstate (thrtab s1 t) = (if t \<in> set (woken (sleepers s)) then THRREADY else tstate (thrtab s t))"
    using clkhandler_spec [OF k] by blast
  have "t \<in> set (woken (sleepers s))"
    using after_tick_times(2) [OF sleepers_nonneg [OF k]] p t by (force simp: wake_times_def)
  then have "tstate (thrtab s1 t) = THRREADY" using s'(4) by simp
  then have "tstate (thrtab s' t) \<in> {THRREADY, THRCURR}" using s'(3) by (simp add: dispatched_def)
  then show ?thesis using s'(1,2) by blast
qed

lemma sleeping_wakes_on_time:
  assumes k: "kinv s" and p: "\<forall>(u, w)\<in>set (wake_times s). 0 < w" and t: "(t, w) \<in> set (wake_times s)"
  shows "\<exists>s'. ticks (nat w) s = Some s' \<and> kinv s' \<and> tstate (thrtab s' t) \<in> {THRREADY, THRCURR}"
    and "n < nat w \<Longrightarrow> \<exists>s'. ticks n s = Some s' \<and> (t, w - int n) \<in> set (wake_times s')"
proof -
  have w: "0 < w" using p t by auto
  show "\<exists>s'. ticks n s = Some s' \<and> (t, w - int n) \<in> set (wake_times s')" if "n < nat w"
    using ticks_times [OF k p, of n] t that by force
  define n where "n = nat w - 1"
  obtain s1 where s1: "ticks n s = Some s1" "kinv s1"
    "wake_times s1 = map (\<lambda>(u, w). (u, w - int n)) (filter (\<lambda>(u, w). int n < w) (wake_times s))"
    using ticks_times [OF k p] by blast
  have "(t, 1) \<in> set (wake_times s1)" unfolding s1(3) using t w by (force simp: n_def)
  moreover have "\<forall>(u, w)\<in>set (wake_times s1). 0 < w" unfolding s1(3) by auto
  ultimately obtain s' where "clkhandler s1 = Some s'" "kinv s'" "tstate (thrtab s' t) \<in> {THRREADY, THRCURR}"
    using tick_wakes [OF s1(2)] by blast
  moreover have "nat w = Suc n" using w by (simp add: n_def)
  ultimately show "\<exists>s'. ticks (nat w) s = Some s' \<and> kinv s' \<and> tstate (thrtab s' t) \<in> {THRREADY, THRCURR}" using s1(1) by simp
qed

text \<open>
  In general one more tick is needed when a thread is due already: the first tick is spent on it, and
  after that no thread is due.
\<close>

lemma ticks_first: "ticks (Suc n) s = do { s \<leftarrow> clkhandler s; ticks n s }"
proof (induction n)
  case (Suc n)
  have "ticks (Suc (Suc n)) s = do { s \<leftarrow> ticks (Suc n) s; clkhandler s }" by simp
  also have "\<dots> = do { s \<leftarrow> do { s \<leftarrow> clkhandler s; ticks n s }; clkhandler s }" unfolding Suc ..
  finally show ?case by (cases "clkhandler s") simp_all
qed (cases "clkhandler s"; simp)

definition late :: "kernel \<Rightarrow> nat" where
  "late s = (if 0 \<in> snd ` set (wake_times s) then 1 else 0)"

lemma wake_nonneg: "kinv s \<Longrightarrow> (u, w) \<in> set (wake_times s) \<Longrightarrow> 0 \<le> w"
  unfolding wake_times_def by (rule dtimes_ge [OF sleepers_nonneg])

lemma late_tick:
  assumes k: "kinv s" and l: "0 \<in> snd ` set (wake_times s)"
  shows "\<exists>s'. clkhandler s = Some s' \<and> kinv s' \<and> wake_times s' = filter (\<lambda>(u, w). 0 < w) (wake_times s)
    \<and> (\<forall>t. (t, 0) \<in> set (wake_times s) \<longrightarrow> tstate (thrtab s' t) \<in> {THRREADY, THRCURR})"
proof -
  obtain s1 s' where s': "clkhandler s = Some s'" "kinv s'" "dispatched s1 s'" "sleepers s' = after_tick (sleepers s)"
    "\<forall>t. tstate (thrtab s1 t) = (if t \<in> set (woken (sleepers s)) then THRREADY else tstate (thrtab s t))"
    using clkhandler_spec [OF k] by blast
  note due = after_tick_due [OF sleepers_nonneg [OF k] l [unfolded wake_times_def], folded wake_times_def]
  have "tstate (thrtab s' t) \<in> {THRREADY, THRCURR}" if "(t, 0) \<in> set (wake_times s)" for t
  proof -
    have "t \<in> set (woken (sleepers s))" unfolding due(2) using that by force
    then show ?thesis using s'(3,5) by (simp add: dispatched_def)
  qed
  then show ?thesis using s'(1,2,4) due(1) by (auto simp: wake_times_def)
qed

lemma sleeping_wakes:
  assumes k: "kinv s" and t: "(t, w) \<in> set (wake_times s)"
  shows "\<exists>s'. ticks (nat w + late s) s = Some s' \<and> kinv s' \<and> tstate (thrtab s' t) \<in> {THRREADY, THRCURR}"
    and "n < nat w + late s \<Longrightarrow> \<exists>s'. ticks n s = Some s' \<and> (t, w - int (n - late s)) \<in> set (wake_times s')"
proof (atomize (full), cases "0 \<in> snd ` set (wake_times s)")
  case False
  then have "\<forall>(u, w)\<in>set (wake_times s). 0 < w" using wake_nonneg [OF k] by (force simp: less_le)
  from sleeping_wakes_on_time [OF k this t]
  show "(\<exists>s'. ticks (nat w + late s) s = Some s' \<and> kinv s' \<and> tstate (thrtab s' t) \<in> {THRREADY, THRCURR})
      \<and> (n < nat w + late s \<longrightarrow> (\<exists>s'. ticks n s = Some s' \<and> (t, w - int (n - late s)) \<in> set (wake_times s')))"
    using False by (simp add: late_def)
next
  case True
  then have l: "late s = 1" by (simp add: late_def)
  obtain s1 where s1: "clkhandler s = Some s1" "kinv s1" "wake_times s1 = filter (\<lambda>(u, w). 0 < w) (wake_times s)"
    "(t, 0) \<in> set (wake_times s) \<longrightarrow> tstate (thrtab s1 t) \<in> {THRREADY, THRCURR}" using late_tick [OF k True] by blast
  have pos: "\<forall>(u, w)\<in>set (wake_times s1). 0 < w" unfolding s1(3) by auto
  have w: "w = 0 \<or> (t, w) \<in> set (wake_times s1)" using wake_nonneg [OF k t] t unfolding s1(3) by auto
  have "\<exists>s'. ticks (nat w) s1 = Some s' \<and> kinv s' \<and> tstate (thrtab s' t) \<in> {THRREADY, THRCURR}"
    using w sleeping_wakes_on_time(1) [OF s1(2) pos] s1(2,4) t by fastforce
  moreover have "\<exists>s'. ticks n s = Some s' \<and> (t, w - int (n - 1)) \<in> set (wake_times s')" if "n < Suc (nat w)"
  proof (cases n)
    case (Suc m)
    then show ?thesis using that w sleeping_wakes_on_time(2) [OF s1(2) pos, of t w m] s1(1) by (auto simp: ticks_first simp del: ticks.simps)
  qed (use t in simp)
  ultimately show "(\<exists>s'. ticks (nat w + late s) s = Some s' \<and> kinv s' \<and> tstate (thrtab s' t) \<in> {THRREADY, THRCURR})
      \<and> (n < nat w + late s \<longrightarrow> (\<exists>s'. ticks n s = Some s' \<and> (t, w - int (n - late s)) \<in> set (wake_times s')))"
    using s1(1) by (simp add: l ticks_first del: ticks.simps)
qed

section \<open>Threads of equal priority take turns\<close>

fun yields :: "nat \<Rightarrow> kernel \<Rightarrow> kernel option" where
  "yields 0 s = Some s"
| "yields (Suc n) s = do { s \<leftarrow> yields n s; (_, s) \<leftarrow> yield s; Some s }"

text \<open>
  \<open>turns s xs ys\<close>: the running thread and the threads behind it in \<open>xs\<close> have the same priority, which is
  also the key of the latter in the ready list, and the keys of the rest \<open>ys\<close> are lower. The priorities
  of \<open>ys\<close> do not matter: \<^verbatim>\<open>chprio\<close> of a ready thread changes its priority but not its key, by which it is scheduled.
\<close>

definition turns :: "kernel \<Rightarrow> tid_typ list \<Rightarrow> tid_typ list \<Rightarrow> bool" where
  "turns s xs ys \<longleftrightarrow> thrcurrent s # contents s (readylist s) = xs @ ys \<and> xs \<noteq> []
     \<and> (\<forall>x\<in>set xs. prio (thrtab s x) = prio (thrtab s (thrcurrent s)))
     \<and> (\<forall>x\<in>set (tl xs). qkey (quetab s x) = prio (thrtab s (thrcurrent s)))
     \<and> (\<forall>y\<in>set ys. qkey (quetab s y) < prio (thrtab s (thrcurrent s)))"

lemma yield_turns:
  assumes k: "kinv s" and t: "turns s xs ys"
  shows "\<exists>s'. yield s = Some (OK, s') \<and> kinv s' \<and> turns s' (rotate1 xs) ys \<and> readylist s' = readylist s"
proof -
  obtain s' where s': "yield s = Some (OK, s')" "kinv s'" "dispatched s s'" using yield_spec [OF k] by blast
  define c where "c = thrcurrent s"
  define p where "p = prio (thrtab s c)"
  obtain zs where xs: "xs = c # zs" and R: "contents s (readylist s) = zs @ ys"
    using t by (cases xs) (auto simp: turns_def c_def)
  have pz: "\<forall>x\<in>set zs. prio (thrtab s x) = p \<and> qkey (quetab s x) = p" and py: "\<forall>y\<in>set ys. qkey (quetab s y) < p"
    using t unfolding turns_def xs p_def c_def by auto
  have "takeWhile (\<lambda>x. p \<le> key_of s x) (zs @ ys) = zs" "dropWhile (\<lambda>x. p \<le> key_of s x) (zs @ ys) = ys"
    using pz py by (simp_all add: takeWhile_append dropWhile_append) (cases ys; simp)+
  then have rn: "ready_next s = zs @ c # ys"
    using kinvD(2) [OF k] R by (simp add: ready_next_def Let_def ins_desc_def flip: c_def p_def)
  have run: "thrcurrent s' # contents s' (readylist s) = zs @ c # ys"
    using s'(3) rn by (cases zs) (simp_all add: dispatched_def)
  have pr: "prio (thrtab s' u) = prio (thrtab s u)" for u
  proof -
    have "same_entry (thrtab s u) (thrtab s' u)" using s'(3) by (simp add: dispatched_def)
    then show ?thesis unfolding same_entry_def by (cases "thrtab s u"; cases "thrtab s' u") simp
  qed
  have kc: "thrcurrent s' = c \<or> qkey (quetab s' c) = p" and ko: "u \<noteq> c \<Longrightarrow> qkey (quetab s' u) = qkey (quetab s u)" for u
    using s'(3) kinvD(2) [OF k] unfolding dispatched_def c_def p_def by blast+
  have d: "c \<notin> set (zs @ ys)"
    using queue_inv_mem [OF kpreD(1) [OF kinvD(1) [OF k]], of "readylist s" c] kinvD(2) [OF k] R by (simp add: qhome_state c_def)
  have rl: "readylist s' = readylist s" using dispatched_globals [OF s'(3)] by simp
  have p': "prio (thrtab s' (thrcurrent s')) = p" using run pz by (cases zs) (auto simp: pr p_def)
  have "qkey (quetab s' x) = p" if "x \<in> set (tl (zs @ [c]))" for x
    using that kc ko [of x] pz d run by (cases "x = c"; cases zs) auto
  moreover have "qkey (quetab s' y) < p" if "y \<in> set ys" for y using ko [of y] that py d by (cases "y = c") auto
  ultimately have "turns s' (rotate1 xs) ys" using run pz p' by (auto simp: turns_def xs pr rl p_def)
  then show ?thesis using s'(1,2) rl by blast
qed

lemma yields_turns:
  assumes "kinv s" and "turns s xs ys"
  shows "\<exists>s'. yields n s = Some s' \<and> kinv s' \<and> turns s' (rotate n xs) ys"
proof (induction n)
  case (Suc n)
  then obtain s1 where s1: "yields n s = Some s1" "kinv s1" "turns s1 (rotate n xs) ys" by blast
  from yield_turns [OF s1(2,3)] show ?case using s1(1) by auto
qed (use assms in simp)

lemma turns_current: "turns s xs ys \<Longrightarrow> thrcurrent s = hd xs"
  by (cases xs) (auto simp: turns_def)

lemma turns_all_run:
  assumes "kinv s" and "turns s xs ys" and "n < length xs"
  shows "\<exists>s'. yields n s = Some s' \<and> kinv s' \<and> thrcurrent s' = xs ! n"
    and "\<exists>s'. yields (length xs) s = Some s' \<and> kinv s' \<and> turns s' xs ys"
proof -
  obtain s' where s': "yields n s = Some s'" "kinv s'" "turns s' (rotate n xs) ys" using yields_turns [OF assms(1,2)] by blast
  then have "thrcurrent s' = hd (rotate n xs)" by (intro turns_current)
  also have "\<dots> = xs ! n" using assms(3) by (subst hd_rotate_conv_nth) auto
  finally show "\<exists>s'. yields n s = Some s' \<and> kinv s' \<and> thrcurrent s' = xs ! n" using s' by blast
  show "\<exists>s'. yields (length xs) s = Some s' \<and> kinv s' \<and> turns s' xs ys"
    using yields_turns [OF assms(1,2), of "length xs"] by (simp add: rotate_id)
qed

end
