(* ===== verification/Xinu_Bufpool.thy ===== *)
theory Xinu_Bufpool
  imports Xinu_Sem Xinu_Heap
begin

text \<open>
  Pools of buffers: \<^verbatim>\<open>include/bufpool.h\<close>, \<^verbatim>\<open>system/bfpalloc.c\<close>,
  \<^verbatim>\<open>bfpfree.c\<close>, \<^verbatim>\<open>bufget.c\<close> and \<^verbatim>\<open>buffree.c\<close>. The free
  buffers are a list through the buffers themselves, counted by a semaphore. The lemmas show that a pool hands
  out each of its buffers to one client at a time and takes back only what is out.
\<close>

section \<open>The operations\<close>

abbreviation (input) NPOOL :: int where "NPOOL \<equiv> 8"

definition isbadpool :: "int \<Rightarrow> kernel \<Rightarrow> bool" where
  "isbadpool p s \<longleftrightarrow> p \<ge> NPOOL \<or> p < 0 \<or> bstate (bfptab s p) = BFPFREE"

definition roundword :: "u32 \<Rightarrow> u32" where
  "roundword b = and (3 + b) (not 3)"

definition bwr :: "int \<Rightarrow> (bfpentry \<Rightarrow> bfpentry) \<Rightarrow> kernel \<Rightarrow> kernel" where
  "bwr i f s = s\<lparr>bfptab := (bfptab s)(i := f (bfptab s i))\<rparr>"

text \<open>The first free entry from \<open>id\<close> on, or \<^verbatim>\<open>NPOOL\<close>.\<close>

fun bfp_find :: "nat \<Rightarrow> int \<Rightarrow> kernel \<Rightarrow> int" where
  "bfp_find 0 pid s = pid"
| "bfp_find (Suc n) pid s = (if bstate (bfptab s pid) = BFPFREE then pid else bfp_find n (pid + 1) s)"

text \<open>The loop that writes the headers of \<open>n\<close> buffers; a header is the next buffer and the pool.\<close>

fun bfp_link :: "nat \<Rightarrow> u32 \<Rightarrow> int \<Rightarrow> u32 \<Rightarrow> (u32 \<Rightarrow> u32) \<Rightarrow> (u32 \<Rightarrow> u32)" where
  "bfp_link 0 bufptr pid sz m = m"
| "bfp_link (Suc n) bufptr pid sz m =
     (let m = m(bufptr + 4 := word_of_int pid); m = m(bufptr := bufptr + sz)
      in bfp_link n (m bufptr) pid sz m)"

text \<open>
  The result of \<^verbatim>\<open>memget\<close> is not checked: when there is no memory the loop writes through the
  pointer \<^verbatim>\<open>SYSERR\<close>, which is undefined.
\<close>

definition bfpalloc :: "u32 \<Rightarrow> u32 \<Rightarrow> kernel \<Rightarrow> (int \<times> kernel) option" where
  "bfpalloc sz n s =
     (let sz = roundword sz + 8 in
      if sz > 2048 \<or> sz < 8 \<or> n > 8192 \<or> n < 1 then Some (SYSERR, s)
      else (let (im, s) = disable s; pid = bfp_find 8 0 s in
        if pid = NPOOL then Some (SYSERR, restore im s)
        else (let s = bwr pid (bstate_update (\<lambda>_. BFPUSED)) s;
                  (sem, s) = semcreate 0 s;
                  s = bwr pid (freebuf_update (\<lambda>_. sem)) s;
                  s = restore im s in
          if sem = -1 then Some (SYSERR, s)
          else do {
            let s = bwr pid (\<lambda>b. b\<lparr>nbuf := n, bufsize := sz\<rparr>) s;
            (bufptr, s) \<leftarrow> memget (n * sz) s;
            let s = bwr pid (\<lambda>b. b\<lparr>bnext := bufptr, bhead := bufptr\<rparr>) s;
            if bufptr = -1 then None
            else do {
              let s = s\<lparr>mem := bfp_link (unat n) bufptr pid sz (mem s)\<rparr>;
              (_, s) \<leftarrow> signaln (freebuf (bfptab s pid)) (int (unat n)) s;
              Some (pid, s)
            }
          })))"

definition bfpfree :: "int \<Rightarrow> kernel \<Rightarrow> (int \<times> kernel) option" where
  "bfpfree pid s =
     (if isbadpool pid s then Some (SYSERR, s)
      else do {
        let (im, s) = disable s;
        let s = bwr pid (bstate_update (\<lambda>_. BFPFREE)) s;
        (r, s) \<leftarrow> memfree (bhead (bfptab s pid)) (nbuf (bfptab s pid) * bufsize (bfptab s pid)) s;
        if r = SYSERR then Some (SYSERR, restore im s)
        else do {
          (r, s) \<leftarrow> semfree (freebuf (bfptab s pid)) s;
          if r = SYSERR then Some (SYSERR, restore im s)
          else Some (OK, restore im s)
        }
      })"

text \<open>After \<^verbatim>\<open>wait\<close>, when the caller has the processor (again).\<close>

definition bufget_rest :: "int \<Rightarrow> irqmask \<Rightarrow> kernel \<Rightarrow> u32 \<times> kernel" where
  "bufget_rest pid im s =
     (let bufptr = bnext (bfptab s pid);
          s = bwr pid (bnext_update (\<lambda>_. mem s bufptr)) s;
          s = restore im s;
          s = s\<lparr>mem := (mem s)(bufptr := bufptr)\<rparr>
      in (bufptr + 8, s))"

definition bufget :: "int \<Rightarrow> kernel \<Rightarrow> (u32 call \<times> kernel) option" where
  "bufget pid s =
     (if isbadpool pid s then Some (Returned (-1), s)
      else do {
        let me = thrcurrent s;
        let (im, s) = disable s;
        (_, s) \<leftarrow> wait (freebuf (bfptab s pid)) s;
        if thrcurrent s = me then (let (b, s) = bufget_rest pid im s in Some (Returned b, s))
        else Some (Switched, s)
      })"

definition buffree :: "u32 \<Rightarrow> kernel \<Rightarrow> (int \<times> kernel) option" where
  "buffree buffer s =
     (let bufptr = buffer - 8; pid = sint (mem s (bufptr + 4)) in
      if isbadpool pid s then Some (SYSERR, s)
      else if mem s bufptr \<noteq> bufptr then Some (SYSERR, s)
      else do {
        let (im, s) = disable s;
        let s = s\<lparr>mem := (mem s)(bufptr := bnext (bfptab s pid))\<rparr>;
        let s = bwr pid (bnext_update (\<lambda>_. bufptr)) s;
        let s = restore im s;
        (_, s) \<leftarrow> signaln (freebuf (bfptab s pid)) 1 s;
        Some (OK, s)
      })"

section \<open>The buffers of a pool\<close>

text \<open>The buffers lie one after the other from \<^verbatim>\<open>head\<close>; the address after the last one ends the list.\<close>

definition pool_bufs :: "bfpentry \<Rightarrow> u32 list" where
  "pool_bufs b = map (\<lambda>k. bhead b + of_nat k * bufsize b) [0..<unat (nbuf b)]"

definition pool_end :: "bfpentry \<Rightarrow> u32" where
  "pool_end b = bhead b + nbuf b * bufsize b"

definition pool_fits :: "bfpentry \<Rightarrow> bool" where
  "pool_fits b \<longleftrightarrow> 8 \<le> unat (bufsize b) \<and> unat (bhead b) + unat (nbuf b) * unat (bufsize b) < 2 ^ 32"

fun pchain :: "(u32 \<Rightarrow> u32) \<Rightarrow> u32 \<Rightarrow> u32 list \<Rightarrow> u32 \<Rightarrow> bool" where
  "pchain m p [] e \<longleftrightarrow> p = e"
| "pchain m p (x # xs) e \<longleftrightarrow> p = x \<and> pchain m (m x) xs e"

lemma unat_buf:
  assumes "pool_fits b" and "k \<le> unat (nbuf b)"
  shows "unat (bhead b + of_nat k * bufsize b) = unat (bhead b) + k * unat (bufsize b)"
proof -
  have l: "unat (bhead b) + k * unat (bufsize b) < 2 ^ 32"
    using assms mult_le_mono1 [OF assms(2), of "unat (bufsize b)"] unfolding pool_fits_def by linarith
  have "bhead b + of_nat k * bufsize b = of_nat (unat (bhead b) + k * unat (bufsize b))" by simp
  then have "unat (bhead b + of_nat k * bufsize b) = unat (of_nat (unat (bhead b) + k * unat (bufsize b)) :: u32)" by (rule arg_cong)
  also have "\<dots> = unat (bhead b) + k * unat (bufsize b)" using l by (subst unsigned_of_nat) (simp add: take_bit_nat_eq_self)
  finally show ?thesis .
qed

lemma buf_offset:
  assumes f: "pool_fits b" and j: "j < unat (nbuf b)" and k: "k \<le> unat (nbuf b)" and d: "d < 8"
    and e: "bhead b + of_nat j * bufsize b + of_nat d = bhead b + of_nat k * bufsize b"
  shows "j = k \<and> d = 0"
proof -
  let ?z = "unat (bufsize b)"
  have z: "8 \<le> ?z" using f by (simp add: pool_fits_def)
  have "j * ?z + d < Suc j * ?z" using z d by simp
  also have "\<dots> \<le> unat (nbuf b) * ?z" using j by (intro mult_le_mono1) simp
  finally have "unat (bhead b) + j * ?z + d < 2 ^ 32" using f by (simp add: pool_fits_def)
  then have "unat (bhead b + of_nat j * bufsize b + of_nat d) = unat (bhead b) + j * ?z + d"
    using unat_buf [OF f, of j] j d by (subst unat_add_small) (simp_all add: unsigned_of_nat take_bit_nat_eq_self)
  then have "j * ?z + d = k * ?z" using unat_buf [OF f k] e by simp
  moreover from this have "d = 0" using d z by (metis mod_less mod_mult_self2_is_0 mod_mult_self3 order_less_le_trans)
  ultimately show ?thesis using z by auto
qed

lemma pool_bufs_distinct: "pool_fits b \<Longrightarrow> distinct (pool_bufs b)"
  using buf_offset [of b _ _ 0] by (auto simp: pool_bufs_def distinct_map inj_on_def)

lemma pool_bufsD:
  assumes f: "pool_fits b" and x: "x \<in> set (pool_bufs b)"
  shows "x \<noteq> pool_end b" and "y \<in> set (pool_bufs b) \<Longrightarrow> x + 4 \<noteq> y"
proof -
  from x obtain j where j: "j < unat (nbuf b)" "x = bhead b + of_nat j * bufsize b" by (auto simp: pool_bufs_def)
  show "x \<noteq> pool_end b" using buf_offset [OF f j(1), of "unat (nbuf b)" 0] j by (auto simp: pool_end_def)
  show "x + 4 \<noteq> y" if "y \<in> set (pool_bufs b)"
  proof -
    from that obtain k where k: "k < unat (nbuf b)" "y = bhead b + of_nat k * bufsize b" by (auto simp: pool_bufs_def)
    then show ?thesis using buf_offset [OF f j(1), of k 4] j(2) by auto
  qed
qed

lemma buf_room:
  assumes f: "pool_fits b" and x: "x \<in> set (pool_bufs b)"
  shows "unat x + 8 < 2 ^ 32"
proof -
  let ?z = "unat (bufsize b)"
  from x obtain j where j: "j < unat (nbuf b)" "x = bhead b + of_nat j * bufsize b" by (auto simp: pool_bufs_def)
  have "j * ?z + 8 \<le> Suc j * ?z" using f by (simp add: pool_fits_def)
  also have "\<dots> \<le> unat (nbuf b) * ?z" using j by (intro mult_le_mono1) simp
  finally show ?thesis using unat_buf [OF f, of j] j f by (simp add: pool_fits_def)
qed

lemma pchain_upd: "y \<notin> set xs \<Longrightarrow> pchain (m(y := v)) p xs e = pchain m p xs e"
  by (induction xs arbitrary: p) auto

lemma pchain_next_ne:
  "pchain m p xs e \<Longrightarrow> distinct xs \<Longrightarrow> e \<notin> set xs \<Longrightarrow> x \<in> set xs \<Longrightarrow> m x \<noteq> x"
proof (induction xs arbitrary: p)
  case (Cons y ys)
  then show ?case by (cases ys) auto
qed simp


text \<open>
  \<open>pool_state pid s xs hs\<close>: in pool \<open>pid\<close> the buffers \<open>xs\<close> are free, in the order in which
  they will be handed out, and \<open>hs\<close> are out.
\<close>

definition pool_state :: "int \<Rightarrow> kernel \<Rightarrow> u32 list \<Rightarrow> u32 list \<Rightarrow> bool" where
  "pool_state pid s xs hs \<longleftrightarrow> (let b = bfptab s pid in
     kinv s \<and> \<not> isbadpool pid s \<and> pool_fits b \<and> \<not> isbadsem (freebuf b) s
     \<and> scount (semtab s (freebuf b)) = int (length xs) \<and> length xs + length hs \<le> 8192
     \<and> pchain (mem s) (bnext b) xs (pool_end b) \<and> (\<forall>h\<in>set hs. mem s h = h)
     \<and> mset (xs @ hs) = mset (pool_bufs b) \<and> (\<forall>x\<in>set (pool_bufs b). mem s (x + 4) = word_of_int pid))"

lemma pool_stateD:
  assumes "pool_state pid s xs hs"
  shows "kinv s" "0 \<le> pid" "pid < 8" "bstate (bfptab s pid) = BFPUSED" "pool_fits (bfptab s pid)"
    "\<not> isbadsem (freebuf (bfptab s pid)) s" "scount (semtab s (freebuf (bfptab s pid))) = int (length xs)"
    "length xs + length hs \<le> 8192"
    "pchain (mem s) (bnext (bfptab s pid)) xs (pool_end (bfptab s pid))" "\<forall>h\<in>set hs. mem s h = h"
    "mset (xs @ hs) = mset (pool_bufs (bfptab s pid))" "\<forall>x\<in>set (pool_bufs (bfptab s pid)). mem s (x + 4) = word_of_int pid"
    "distinct (xs @ hs)" "set (xs @ hs) = set (pool_bufs (bfptab s pid))"
proof -
  note p = assms [unfolded pool_state_def Let_def]
  show 1: "kinv s" "0 \<le> pid" "pid < 8" "pool_fits (bfptab s pid)"
    "\<not> isbadsem (freebuf (bfptab s pid)) s" "scount (semtab s (freebuf (bfptab s pid))) = int (length xs)"
    "length xs + length hs \<le> 8192"
    "pchain (mem s) (bnext (bfptab s pid)) xs (pool_end (bfptab s pid))" "\<forall>h\<in>set hs. mem s h = h"
    "mset (xs @ hs) = mset (pool_bufs (bfptab s pid))" "\<forall>x\<in>set (pool_bufs (bfptab s pid)). mem s (x + 4) = word_of_int pid"
    using p by (simp_all add: isbadpool_def)
  show "bstate (bfptab s pid) = BFPUSED" using p by (cases "bstate (bfptab s pid)") (simp_all add: isbadpool_def)
  show "distinct (xs @ hs)" using mset_eq_imp_distinct_iff [OF 1(10)] pool_bufs_distinct [OF 1(4)] by simp
  show "set (xs @ hs) = set (pool_bufs (bfptab s pid))" by (rule mset_eq_setD [OF 1(10)])
qed

lemma pool_state_imask [simp]: "pool_state pid (k\<lparr>imask := i\<rparr>) xs hs = pool_state pid k xs hs"
  by (simp add: pool_state_def Let_def isbadpool_def isbadsem_def)

text \<open>A pool in another state of the kernel: what has to agree.\<close>

lemma pool_state_new:
  assumes p: "pool_state pid s xs hs" and k: "kinv s'" and b: "bfptab s' pid = (bfptab s pid)\<lparr>bnext := nx\<rparr>"
    and i: "\<not> isbadsem (freebuf (bfptab s pid)) s'" "scount (semtab s' (freebuf (bfptab s pid))) = int (length xs')"
    and c: "pchain (mem s') nx xs' (pool_end (bfptab s pid))" and h: "\<forall>h\<in>set hs'. mem s' h = h"
    and m: "mset (xs' @ hs') = mset (xs @ hs)"
    and e: "\<And>a. a \<notin> set (xs @ hs) \<Longrightarrow> mem s' a = mem s a"
  shows "pool_state pid s' xs' hs'"
proof -
  note d = pool_stateD [OF p]
  have pe: "pool_end (bfptab s' pid) = pool_end (bfptab s pid)" "pool_bufs (bfptab s' pid) = pool_bufs (bfptab s pid)"
    "pool_fits (bfptab s' pid) = pool_fits (bfptab s pid)" by (simp_all add: b pool_end_def pool_bufs_def pool_fits_def)
  have "mem s' (x + 4) = word_of_int pid" if "x \<in> set (pool_bufs (bfptab s pid))" for x
    using d(12) e [of "x + 4"] pool_bufsD(2) [OF d(5) that] that unfolding d(14) by metis
  moreover have "length xs' + length hs' = length xs + length hs" using arg_cong [OF m, of size] by simp
  ultimately show ?thesis using k i c h m d(2-5,8,11) unfolding pool_state_def Let_def pe
    by (simp add: isbadpool_def b)
qed

lemma not_isbadsem_count: "isbadsem j (set_count i c s) = isbadsem j s"
  by (simp add: isbadsem_def set_count_def)

lemma bufget_law:
  assumes p: "pool_state pid s (x # xs) hs"
  shows "\<exists>s'. bufget pid s = Some (Returned (x + 8), s') \<and> pool_state pid s' xs (x # hs) \<and> thrcurrent s' = thrcurrent s
     \<and> clktime s' = clktime s"
proof -
  note d = pool_stateD [OF p]
  let ?b = "bfptab s pid"
  define z where "z = s\<lparr>imask := (imask s)\<lparr>irqen := 0x80\<rparr>\<rparr>"
  have kz: "kinv z" and bz: "\<not> isbadsem (freebuf ?b) z" and cz: "0 < scount (semtab z (freebuf ?b))" and zz: "bfptab z = bfptab s"
    "thrcurrent z = thrcurrent s" "semtab z = semtab s" using d(1,6,7) by (simp_all add: z_def isbadsem_def)
  note w = wait_pass [OF kz bz cz]
  define s' where "s' = (set_count (freebuf ?b) (int (length xs)) s)\<lparr>bfptab := (bfptab s)(pid := ?b\<lparr>bnext := mem s x\<rparr>),
     imask := norm_mask (imask s), mem := (mem s)(x := x)\<rparr>"
  have x: "bnext ?b = x" "pchain (mem s) (mem s x) xs (pool_end ?b)" using d(9) by simp_all
  have "bufget pid s = Some (Returned (x + 8), s')"
    using d(2-4,7) w(1) x(1) by (simp add: bufget_def isbadpool_def disable_eq z_def [symmetric] zz bufget_rest_def bwr_def
        restore_eq s'_def Let_def) (simp add: z_def set_count_def)
  moreover have "kinv (set_count (freebuf ?b) (int (length xs)) s)" using wait_pass(2) [OF d(1,6)] d(7) by simp
  then have "pool_state pid s' xs (x # hs)"
    using d(6,10,13) x(2) by (intro pool_state_new [OF p, where nx = "mem s x"])
      (auto simp: s'_def not_isbadsem_count isbadsem_def set_count_def pchain_upd)
  ultimately show ?thesis by (auto simp: s'_def set_count_def)
qed

lemma buffree_law:
  assumes p: "pool_state pid s xs hs" and h: "h \<in> set hs"
  shows "\<exists>s'. buffree (h + 8) s = Some (OK, s') \<and> pool_state pid s' (h # xs) (remove1 h hs)
     \<and> (\<forall>t. same_entry (thrtab s t) (thrtab s' t))"
proof -
  note d = pool_stateD [OF p]
  let ?b = "bfptab s pid"
  have i: "sint (word_of_int pid :: u32) = pid" using d(2,3) by (simp add: signed_of_int signed_take_bit_int_eq_self)
  define z where "z = s\<lparr>mem := (mem s)(h := bnext ?b), bfptab := (bfptab s)(pid := ?b\<lparr>bnext := h\<rparr>), imask := norm_mask (imask s)\<rparr>"
  have kz: "kinv z" and bz: "\<not> isbadsem (freebuf ?b) z" and zz: "scount (semtab z (freebuf ?b)) = int (length xs)"
    using d(1,6,7) by (simp_all add: z_def isbadsem_def)
  obtain s' where s': "signaln (freebuf ?b) 1 z = Some (OK, s')" "kinv s'"
      "dispatched (set_count (freebuf ?b) (int (length xs) + 1) z) s'"
    using signaln_free [OF kz bz, of 1] zz d(8) by auto
  have "h \<in> set (pool_bufs ?b)" using h unfolding d(14) [symmetric] by simp
  then have hd: "mem s (h + 4) = word_of_int pid" "mem s h = h" using d(10,12) h by auto
  have b: "buffree (h + 8) s = Some (OK, s')"
    using d(2-4) s'(1) i hd by (simp add: buffree_def isbadpool_def irq_simps bwr_def z_def Let_def)
  have hn: "h \<notin> set xs" "distinct hs" using d(13) h by auto
  have "pool_state pid s' (h # xs) (remove1 h hs)"
    using dispatched_globals [OF s'(3)] d(6,9,10) hn h
    by (intro pool_state_new [OF p s'(2), where nx = h])
      (auto simp: z_def isbadsem_def set_count_def pchain_upd)
  moreover have "same_entry (thrtab s t) (thrtab s' t)" for t using s'(3) by (simp add: dispatched_def z_def set_count_def)
  ultimately show ?thesis using b by blast
qed

text \<open>A buffer that is free already is refused.\<close>

lemma buffree_refused:
  assumes p: "pool_state pid s xs hs" and h: "x \<in> set xs"
  shows "buffree (x + 8) s = Some (SYSERR, s)"
proof -
  note d = pool_stateD [OF p]
  have "sint (word_of_int pid :: u32) = pid" using d(2,3) by (simp add: signed_of_int signed_take_bit_int_eq_self)
  moreover have "x \<in> set (pool_bufs (bfptab s pid))" "pool_end (bfptab s pid) \<notin> set xs"
    using d(14) h pool_bufsD(1) [OF d(5)] by auto
  moreover from this have "mem s x \<noteq> x" using pchain_next_ne [OF d(9)] d(13) h by simp
  ultimately show ?thesis using d(12) by (simp add: buffree_def)
qed

section \<open>Making a pool\<close>

abbreviation (input) buf_at :: "bfpentry \<Rightarrow> nat \<Rightarrow> u32" where
  "buf_at b k \<equiv> bhead b + of_nat k * bufsize b"

lemma buf_apart:
  assumes f: "pool_fits b" and "j < unat (nbuf b)" and "k < unat (nbuf b)" and "j \<noteq> k"
  shows "buf_at b j \<noteq> buf_at b k" "buf_at b j \<noteq> buf_at b k + 4" "buf_at b j + 4 \<noteq> buf_at b k" "buf_at b j + 4 \<noteq> buf_at b k + 4"
  using buf_offset [OF f assms(2), of k 0] buf_offset [OF f assms(2), of k 4] buf_offset [OF f assms(3), of j 4] assms by auto

text \<open>What the loop has written when it gets to the end from buffer \<open>j\<close>.\<close>

lemma bfp_link_spec:
  assumes f: "pool_fits b" and "j + n = unat (nbuf b)" and m': "m' = bfp_link n (buf_at b j) pid (bufsize b) m"
  shows "(\<forall>k. j \<le> k \<longrightarrow> k < unat (nbuf b) \<longrightarrow> m' (buf_at b k) = buf_at b (Suc k) \<and> m' (buf_at b k + 4) = word_of_int pid)
     \<and> (\<forall>a. (\<forall>k. j \<le> k \<longrightarrow> k < unat (nbuf b) \<longrightarrow> a \<noteq> buf_at b k \<and> a \<noteq> buf_at b k + 4) \<longrightarrow> m' a = m a)"
  using assms(2) m'
proof (induction n arbitrary: j m)
  case (Suc n)
  let ?N = "unat (nbuf b)" and ?p = "buf_at b j"
  define m1 where "m1 = m(?p + 4 := word_of_int pid, ?p := ?p + bufsize b)"
  have "(4 :: u32) \<noteq> 0" by simp
  then have p: "m1 ?p = buf_at b (Suc j)" "m1 (?p + 4) = word_of_int pid"
    unfolding m1_def by (simp_all add: distrib_right)
  have j: "j < ?N" using Suc.prems(1) by simp
  have "m' = bfp_link n (buf_at b (Suc j)) pid (bufsize b) m1"
    using Suc.prems(2) unfolding p(1) [symmetric] by (simp add: m1_def Let_def)
  from Suc.IH [OF _ this] Suc.prems(1)
  have i: "\<And>k. Suc j \<le> k \<Longrightarrow> k < ?N \<Longrightarrow> m' (buf_at b k) = buf_at b (Suc k) \<and> m' (buf_at b k + 4) = word_of_int pid"
    "\<And>a. (\<And>k. Suc j \<le> k \<Longrightarrow> k < ?N \<Longrightarrow> a \<noteq> buf_at b k \<and> a \<noteq> buf_at b k + 4) \<Longrightarrow> m' a = m1 a" by auto
  have "m' ?p = m1 ?p" "m' (?p + 4) = m1 (?p + 4)"
    using buf_apart [OF f j] by (auto intro!: i(2) dest: Suc_le_lessD)
  moreover have "m' a = m a" if "\<forall>k. j \<le> k \<longrightarrow> k < ?N \<longrightarrow> a \<noteq> buf_at b k \<and> a \<noteq> buf_at b k + 4" for a
    using i(2) [of a] that j by (auto simp: m1_def)
  ultimately show ?case using i(1) p by (metis Suc_leI le_neq_implies_less)
qed simp

lemma pchain_bufs:
  assumes "\<forall>k<N. m (buf_at b k) = buf_at b (Suc k)" and "j \<le> N"
  shows "pchain m (buf_at b j) (map (buf_at b) [j..<N]) (buf_at b N)"
  using assms(2)
proof (induction "N - j" arbitrary: j)
  case (Suc n)
  then have "[j..<N] = j # [Suc j..<N]" by (simp add: upt_conv_Cons)
  moreover have "pchain m (buf_at b (Suc j)) (map (buf_at b) [Suc j..<N]) (buf_at b N)" using Suc.hyps(1) [of "Suc j"] Suc.hyps(2) Suc.prems by linarith
  ultimately show ?case using assms(1) Suc by simp
qed simp

lemma bfp_find_spec:
  "bfp_find n p s = q \<Longrightarrow> p \<le> q \<and> q \<le> p + int n \<and> (q < p + int n \<longrightarrow> bstate (bfptab s q) = BFPFREE)
    \<and> (\<forall>i. p \<le> i \<and> i < q \<longrightarrow> bstate (bfptab s i) \<noteq> BFPFREE)"
proof (induction n arbitrary: p)
  case (Suc n)
  show ?case
  proof (cases "bstate (bfptab s p) = BFPFREE")
    case False
    then have "bfp_find n (p + 1) s = q" using Suc.prems by simp
    from Suc.IH [OF this] show ?thesis using False by (smt (verit) of_nat_Suc)
  qed (use Suc.prems in auto)
qed auto


lemma bfp_linked:
  assumes k: "kinv v" and b: "b = bfptab v pid" "pool_fits b" "bnext b = bhead b" and p: "\<not> isbadpool pid v"
    and i: "\<not> isbadsem (freebuf b) v" "scount (semtab v (freebuf b)) = 0" and n: "0 < unat (nbuf b)" "unat (nbuf b) \<le> 8192"
    and w: "w = v\<lparr>mem := bfp_link (unat (nbuf b)) (bhead b) pid (bufsize b) (mem v)\<rparr>"
  shows "\<exists>s'. signaln (freebuf b) (int (unat (nbuf b))) w = Some (OK, s') \<and> pool_state pid s' (pool_bufs b) []
     \<and> dispatched (set_count (freebuf b) (int (unat (nbuf b))) w) s'"
proof -
  have kw: "kinv w" and wz: "\<not> isbadsem (freebuf b) w" "scount (semtab w (freebuf b)) = 0"
    using k i by (simp_all add: w isbadsem_def)
  define N where "N = int (unat (nbuf b))"
  have N: "0 < N" "N \<le> MAXKEY" using n unfolding N_def by linarith+
  obtain s' where s': "signaln (freebuf b) N w = Some (OK, s')" "kinv s'" "dispatched (set_count (freebuf b) N w) s'"
    using signaln_free [OF kw wz(1) N(1)] wz(2) N(2) by auto
  note g = dispatched_globals [OF s'(3)]
  have l: "m (buf_at b k) = buf_at b (Suc k) \<and> m (buf_at b k + 4) = word_of_int pid" if "m = mem w" "k < unat (nbuf b)" for m k
    using bfp_link_spec [OF b(2), of 0 "unat (nbuf b)" m pid "mem v"] that by (simp add: w)
  have "pchain (mem w) (buf_at b 0) (map (buf_at b) [0..<unat (nbuf b)]) (buf_at b (unat (nbuf b)))"
    using l by (intro pchain_bufs) auto
  then have "pool_state pid s' (pool_bufs b) []"
    using s'(2) p b i n(2) l unfolding pool_state_def Let_def
    by (auto simp: g w isbadpool_def isbadsem_def set_count_def pool_bufs_def pool_end_def N_def)
  then show ?thesis using s' by (fold N_def) blast
qed

lemma pool_bytes:
  assumes "\<not> sz > 2048" "\<not> sz < 8" "\<not> n > 8192" "\<not> n < (1 :: u32)"
  shows "unat (n * sz) = unat n * unat sz" "n * sz \<noteq> 0" "unat (n * sz) \<le> 2 ^ 32 - 8" "8 \<le> unat sz" "0 < unat n" "unat n \<le> 8192"
proof -
  have s: "8 \<le> unat sz" "unat sz \<le> 2048" "unat n \<le> 8192" "1 \<le> unat n"
    using assms by (simp_all add: word_less_nat_alt not_less)
  then show "8 \<le> unat sz" "0 < unat n" "unat n \<le> 8192" by simp_all
  have "unat n * unat sz \<le> 8192 * 2048" using s by (intro mult_le_mono) simp_all
  then show u: "unat (n * sz) = unat n * unat sz" by (simp add: unat_word_ariths)
  then show "unat (n * sz) \<le> 2 ^ 32 - 8" using \<open>unat n * unat sz \<le> 8192 * 2048\<close> by simp
  have "0 < unat (n * sz)" using u s by simp
  then show "n * sz \<noteq> 0" by (simp add: unat_gt_0)
qed


lemma memget_kept:
  assumes k: "kinv v" and i: "mem_inv v bs" and n: "n \<noteq> 0" "unat n \<le> 2 ^ 32 - 8" and f: "first_fit (roundmb n) bs = Some (p, bs')"
  shows "\<exists>u. memget n v = Some (p, u) \<and> kinv u \<and> mem_inv u bs' \<and> bfptab u = bfptab v \<and> semtab u = semtab v
     \<and> (\<forall>x. unat x \<notin> free_bytes bs \<longrightarrow> mem u x = mem v x)"
proof -
  obtain u where u: "memget n v = Some (p, u\<lparr>imask := norm_mask (imask v)\<rparr>)" "mem_inv u bs'" "mem_only v u"
    "\<forall>x. unat x \<notin> free_bytes bs \<longrightarrow> mem u x = mem v x" using memget_spec [OF i n f] by blast
  moreover have "bfptab u = bfptab v" "semtab u = semtab v"
    using arg_cong [OF u(3) [unfolded mem_only_def], of bfptab] arg_cong [OF u(3) [unfolded mem_only_def], of semtab] by simp_all
  ultimately show ?thesis using kinv_mem_only [OF u(3)] k by simp
qed

text \<open>The headers lie in the memory of the pool.\<close>

lemma bfp_link_frame:
  assumes f: "pool_fits b" and a: "unat a \<notin> region (bhead b) r" and r: "unat (nbuf b) * unat (bufsize b) \<le> unat r"
  shows "bfp_link (unat (nbuf b)) (bhead b) pid (bufsize b) m a = m a"
proof -
  have "a \<noteq> buf_at b k \<and> a \<noteq> buf_at b k + 4" if "k < unat (nbuf b)" for k
  proof -
    have z: "8 \<le> unat (bufsize b)" "unat (bhead b) + unat (nbuf b) * unat (bufsize b) < 2 ^ 32" using f by (simp_all add: pool_fits_def)
    have "k * unat (bufsize b) + 8 \<le> Suc k * unat (bufsize b)" using z by simp
    also have "\<dots> \<le> unat (nbuf b) * unat (bufsize b)" using that by (intro mult_le_mono1) simp
    finally have l: "k * unat (bufsize b) + 8 \<le> unat (nbuf b) * unat (bufsize b)" .
    have "unat (buf_at b k) = unat (bhead b) + k * unat (bufsize b)" using unat_buf [OF f, of k] that by simp
    moreover from this have "unat (buf_at b k + 4) = unat (bhead b) + k * unat (bufsize b) + 4"
      using l z by (subst unat_add_small) simp_all
    ultimately show ?thesis using a l r by (auto simp: region_def)
  qed
  then show ?thesis using bfp_link_spec [OF f, of 0 "unat (nbuf b)" _ pid m] by simp
qed

text \<open>The entry and the semaphore of a new pool, up to the call of \<^verbatim>\<open>memget\<close>.\<close>

lemma bfpalloc_entry:
  assumes k: "kinv s" and i: "mem_inv s bs" and sz: "sz = roundword size0 + 8"
    and g: "\<not> sz > 2048" "\<not> sz < 8" "\<not> n > 8192" "\<not> n < 1"
    and fp: "\<exists>j. 0 \<le> j \<and> j < 8 \<and> bstate (bfptab s j) = BFPFREE" and fs: "\<exists>j<NSEM. sstate (semtab s j) = SFREE"
  shows "\<exists>pid j v. 0 \<le> pid \<and> pid < 8 \<and> bstate (bfptab s pid) = BFPFREE \<and> kinv v \<and> mem_inv v bs
     \<and> bfptab v pid = (bfptab s pid)\<lparr>bstate := BFPUSED, freebuf := j, nbuf := n, bufsize := sz\<rparr>
     \<and> \<not> isbadsem j v \<and> scount (semtab v j) = 0
     \<and> (\<forall>p u. memget (n * sz) v = Some (p, u) \<longrightarrow> bfptab u = bfptab v \<longrightarrow> p \<noteq> -1 \<longrightarrow> bfpalloc size0 n s
          = signaln j (int (unat n)) ((bwr pid (\<lambda>b. b\<lparr>bnext := p, bhead := p\<rparr>) u)\<lparr>mem := bfp_link (unat n) p pid sz (mem u)\<rparr>)
            \<bind> (\<lambda>(_, s). Some (pid, s)))"
proof -
  define z where "z = s\<lparr>imask := (imask s)\<lparr>irqen := 0x80\<rparr>\<rparr>"
  define pid where "pid = bfp_find 8 0 z"
  have pid: "0 \<le> pid" "pid < 8" "bstate (bfptab s pid) = BFPFREE"
    using bfp_find_spec [of 8 0 z pid] fp pid_def by (auto simp: z_def)
  define a where "a = bwr pid (bstate_update (\<lambda>_. BFPUSED)) z"
  have "kinv a" "\<exists>j<NSEM. sstate (semtab a j) = SFREE" using k fs by (simp_all add: a_def bwr_def z_def)
  then obtain j c where c: "semcreate 0 a = (j, c)" "j < NSEM" "kinv c" "semtab c = (semtab a)(j := (semtab a j)\<lparr>sstate := SUSED, scount := 0\<rparr>)"
    using semcreate_ok [of a 0] by auto
  note cf = semcreate_frame [OF c(1)]
  define v where "v = bwr pid (\<lambda>b. b\<lparr>nbuf := n, bufsize := sz\<rparr>) (restore (imask s) (bwr pid (freebuf_update (\<lambda>_. j)) c))"
  have kv: "kinv v" "mem_inv v bs" using c(3) i by (simp_all add: v_def bwr_def restore_eq cf mem_inv_def a_def z_def)
  have j: "j \<noteq> -1" "\<not> isbadsem j v" "scount (semtab v j) = 0"
    using c(2,4) by (auto simp: v_def bwr_def restore_eq isbadsem_def not_le)
  have e: "bfptab v pid = (bfptab s pid)\<lparr>bstate := BFPUSED, freebuf := j, nbuf := n, bufsize := sz\<rparr>"
    by (simp add: v_def bwr_def restore_eq cf a_def z_def)
  have "bfpalloc size0 n s = signaln j (int (unat n)) ((bwr pid (\<lambda>b. b\<lparr>bnext := p, bhead := p\<rparr>) u)\<lparr>mem := bfp_link (unat n) p pid sz (mem u)\<rparr>)
      \<bind> (\<lambda>(_, s). Some (pid, s))" if "memget (n * sz) v = Some (p, u)" "bfptab u = bfptab v" "p \<noteq> -1" for p u
    using that g pid j(1) c(1) e unfolding bfpalloc_def sz [symmetric] Let_def disable_eq
    by (simp add: z_def [symmetric] pid_def [symmetric] a_def [symmetric] v_def [symmetric]) (simp add: bwr_def)
  then show ?thesis using pid kv j(2,3) e by blast
qed

lemma bfpalloc_ok:
  assumes k: "kinv s" and i: "mem_inv s bs" and sz: "sz = roundword size0 + 8"
    and g: "\<not> sz > 2048" "\<not> sz < 8" "\<not> n > 8192" "\<not> n < 1"
    and fp: "\<exists>j. 0 \<le> j \<and> j < 8 \<and> bstate (bfptab s j) = BFPFREE" and fs: "\<exists>j<NSEM. sstate (semtab s j) = SFREE"
    and f: "first_fit (roundmb (n * sz)) bs = Some (p, bs')"
  shows "\<exists>pid s'. bfpalloc size0 n s = Some (pid, s') \<and> bstate (bfptab s pid) = BFPFREE
     \<and> pool_state pid s' (pool_bufs (bfptab s' pid)) [] \<and> nbuf (bfptab s' pid) = n \<and> bufsize (bfptab s' pid) = sz
     \<and> bhead (bfptab s' pid) = p \<and> mem_inv s' bs'"
proof -
  note y = pool_bytes [OF g]
  obtain pid j v where pid: "0 \<le> pid" "pid < 8" "bstate (bfptab s pid) = BFPFREE" and kv: "kinv v" "mem_inv v bs"
    and bv: "bfptab v pid = (bfptab s pid)\<lparr>bstate := BFPUSED, freebuf := j, nbuf := n, bufsize := sz\<rparr>"
    and j: "\<not> isbadsem j v" "scount (semtab v j) = 0"
    and al: "\<forall>p u. memget (n * sz) v = Some (p, u) \<longrightarrow> bfptab u = bfptab v \<longrightarrow> p \<noteq> -1 \<longrightarrow> bfpalloc size0 n s
          = signaln j (int (unat n)) ((bwr pid (\<lambda>b. b\<lparr>bnext := p, bhead := p\<rparr>) u)\<lparr>mem := bfp_link (unat n) p pid sz (mem u)\<rparr>)
            \<bind> (\<lambda>(_, s). Some (pid, s))"
    using bfpalloc_entry [OF k i sz g fp fs] by blast
  obtain u where u: "memget (n * sz) v = Some (p, u)" "kinv u" "mem_inv u bs'" "bfptab u = bfptab v" "semtab u = semtab v"
    using memget_kept [OF kv y(2,3) f] by blast
  have bl: "blocks_ok (unat (memheap s)) (unat (maxaddr s)) bs" "unat (maxaddr s) < 2 ^ 32"
    using i unsigned_less [of "maxaddr s"] by (simp_all add: mem_inv_def)
  note tk = block_taken [OF bl(1) f y(2,3) bl(2)]
  define x where "x = bwr pid (\<lambda>b. b\<lparr>bnext := p, bhead := p\<rparr>) u"
  define b where "b = bfptab x pid"
  have b: "bhead b = p" "bnext b = p" "nbuf b = n" "bufsize b = sz" "freebuf b = j" "bstate b = BFPUSED"
    using bv u(4) by (simp_all add: b_def x_def bwr_def)
  have r: "unat n * unat sz \<le> unat (roundmb (n * sz))" using roundmb_spec(2) [OF y(3)] y(1) by simp
  have fit: "pool_fits b" using tk(1) r bl(2) y(4) b by (simp add: pool_fits_def in_heap_def)
  have kx: "kinv x" "\<not> isbadpool pid x" "\<not> isbadsem (freebuf b) x" "scount (semtab x (freebuf b)) = 0"
    using u(2,5) j pid b(5,6) unfolding b_def by (simp_all add: x_def bwr_def isbadpool_def isbadsem_def)
  define w where "w = x\<lparr>mem := bfp_link (unat (nbuf b)) (bhead b) pid (bufsize b) (mem x)\<rparr>"
  obtain s' where s': "signaln (freebuf b) (int (unat (nbuf b))) w = Some (OK, s')" "pool_state pid s' (pool_bufs b) []"
    "dispatched (set_count (freebuf b) (int (unat (nbuf b))) w) s'"
    using bfp_linked [OF kx(1) b_def fit _ kx(2-4) _ _ w_def] b y(5,6) by auto
  have wm: "mem w = bfp_link (unat n) p pid sz (mem u)" by (simp add: w_def b x_def bwr_def)
  have "mem w a = mem u a" if "unat a \<in> free_bytes bs'" for a
    using bfp_link_frame [OF fit, of a "roundmb (n * sz)" pid "mem u"] that r unfolding wm b tk(3) by blast
  then have "mem_inv w bs'"
    using mem_inv_frame [OF u(3), of "mem w"] by (simp add: w_def x_def bwr_def mem_inv_def)
  then have "mem_inv s' bs'" using dispatched_mem_inv [OF s'(3)] by (simp add: mem_inv_def set_count_def)
  moreover have "bfptab s' pid = b" using dispatched_globals(11) [OF s'(3)] by (simp add: w_def b_def set_count_def)
  moreover have "mem x = mem u" by (simp add: x_def bwr_def)
  then have "bfpalloc size0 n s = Some (pid, s')"
    using al [rule_format, OF u(1,4) tk(4)] s'(1) unfolding b by (simp add: w_def b x_def)
  ultimately show ?thesis using s'(2) pid(3) b by blast
qed

section \<open>What a client of a pool sees\<close>

text \<open>
  A client asks for buffers and gives them back. The reference keeps the free buffers as a stack; a
  buffer that is not out is not taken back. A request that finds no buffer would wait, and is outside the reference.
\<close>

datatype 'b pool_op = Acquire | Release 'b

fun pool_run :: "('s \<Rightarrow> ('b \<times> 's) option) \<Rightarrow> ('b \<Rightarrow> 's \<Rightarrow> (int \<times> 's) option) \<Rightarrow> 'b pool_op list \<Rightarrow> 's
    \<Rightarrow> ('b list \<times> 's) option" where
  "pool_run get put [] s = Some ([], s)"
| "pool_run get put (Acquire # ops) s = do { (b, s) \<leftarrow> get s; (bs, s) \<leftarrow> pool_run get put ops s; Some (b # bs, s) }"
| "pool_run get put (Release b # ops) s = do { (_, s) \<leftarrow> put b s; pool_run get put ops s }"

fun pool_ref :: "'b pool_op list \<Rightarrow> 'b list \<Rightarrow> 'b list \<Rightarrow> ('b list \<times> 'b list \<times> 'b list) option" where
  "pool_ref [] xs hs = Some ([], xs, hs)"
| "pool_ref (Acquire # ops) [] hs = None"
| "pool_ref (Acquire # ops) (x # xs) hs = do { (bs, r) \<leftarrow> pool_ref ops xs (x # hs); Some (x # bs, r) }"
| "pool_ref (Release b # ops) xs hs =
     (if b \<in> set hs then pool_ref ops (b # xs) (remove1 b hs) else pool_ref ops xs hs)"

lemma pool_ref_mset: "pool_ref ops xs hs = Some (bs, xs', hs') \<Longrightarrow> mset (xs' @ hs') = mset (xs @ hs)"
  by (induction ops xs hs arbitrary: bs rule: pool_ref.induct) (auto split: if_splits bind_splits)

locale buffer_pool =
  fixes st :: "'s \<Rightarrow> 'b list \<Rightarrow> 'b list \<Rightarrow> bool"
    and get :: "'s \<Rightarrow> ('b \<times> 's) option"
    and put :: "'b \<Rightarrow> 's \<Rightarrow> (int \<times> 's) option"
  assumes get_next: "st s (x # xs) hs \<Longrightarrow> \<exists>s'. get s = Some (x, s') \<and> st s' xs (x # hs)"
    and put_back: "st s xs hs \<Longrightarrow> h \<in> set hs \<Longrightarrow> \<exists>s'. put h s = Some (OK, s') \<and> st s' (h # xs) (remove1 h hs)"
    and put_again: "st s xs hs \<Longrightarrow> x \<in> set xs \<Longrightarrow> \<exists>s'. put x s = Some (SYSERR, s') \<and> st s' xs hs"
    and once: "st s xs hs \<Longrightarrow> distinct (xs @ hs)"
begin

lemma runs_as_ref:
  assumes "st s xs hs" and "pool_ref ops xs hs = Some (bs, xs', hs')" and "\<forall>b. Release b \<in> set ops \<longrightarrow> b \<in> set (xs @ hs)"
  shows "\<exists>s'. pool_run get put ops s = Some (bs, s') \<and> st s' xs' hs'"
  using assms
proof (induction ops xs hs arbitrary: bs s rule: pool_ref.induct)
  case (3 ops x xs hs)
  obtain s1 where s1: "get s = Some (x, s1)" "st s1 xs (x # hs)" using get_next [OF 3(2)] by blast
  obtain cs where cs: "pool_ref ops xs (x # hs) = Some (cs, xs', hs')" "bs = x # cs" using 3(3) by (auto split: bind_splits)
  show ?case using 3(1) [OF s1(2) cs(1)] 3(4) s1(1) cs(2) by auto
next
  case (4 b ops xs hs)
  show ?case
  proof (cases "b \<in> set hs")
    case True
    obtain s1 where s1: "put b s = Some (OK, s1)" "st s1 (b # xs) (remove1 b hs)" using put_back [OF 4(3) True] by blast
    have "\<forall>c. Release c \<in> set ops \<longrightarrow> c \<in> set ((b # xs) @ remove1 b hs)" using 4(5) True in_set_remove1 by fastforce
    then show ?thesis using 4(1) [OF True s1(2)] 4(4) True s1(1) by simp
  next
    case False
    then have "b \<in> set xs" using 4(5) by auto
    then obtain s1 where s1: "put b s = Some (SYSERR, s1)" "st s1 xs hs" using put_again [OF 4(3)] by blast
    then show ?thesis using 4(2) [OF False s1(2)] 4(4,5) False by simp
  qed
qed auto

text \<open>No buffer is lost, and none is out twice.\<close>

lemma conserves:
  assumes "st s xs hs" and "pool_ref ops xs hs = Some (bs, xs', hs')" and "\<forall>b. Release b \<in> set ops \<longrightarrow> b \<in> set (xs @ hs)"
  shows "\<exists>s'. pool_run get put ops s = Some (bs, s') \<and> mset (xs' @ hs') = mset (xs @ hs) \<and> distinct (xs' @ hs') \<and> st s' xs' hs'"
  using runs_as_ref [OF assms] pool_ref_mset [OF assms(2)] once by blast

end

text \<open>The pointers a client sees are past the header of the buffer.\<close>

definition bufget_now :: "int \<Rightarrow> kernel \<Rightarrow> (u32 \<times> kernel) option" where
  "bufget_now pid s = (case bufget pid s of Some (Returned b, s') \<Rightarrow> Some (b, s') | _ \<Rightarrow> None)"

definition pool_out :: "int \<Rightarrow> kernel \<Rightarrow> u32 list \<Rightarrow> u32 list \<Rightarrow> bool" where
  "pool_out pid s xs hs \<longleftrightarrow> pool_state pid s (map (\<lambda>b. b - 8) xs) (map (\<lambda>b. b - 8) hs)"

lemma remove1_shift: "remove1 (h - 8) (map (\<lambda>b. b - 8) hs) = map (\<lambda>b. b - 8) (remove1 (h :: u32) hs)"
  by (induction hs) auto

interpretation pool: buffer_pool "pool_out pid" "bufget_now pid" buffree for pid
proof unfold_locales
  fix s x xs hs assume "pool_out pid s (x # xs) hs"
  then show "\<exists>s'. bufget_now pid s = Some (x, s') \<and> pool_out pid s' xs (x # hs)"
    using bufget_law [of pid s "x - 8" "map (\<lambda>b. b - 8) xs" "map (\<lambda>b. b - 8) hs"] by (auto simp: pool_out_def bufget_now_def)
next
  fix s xs hs h assume "pool_out pid s xs hs" "h \<in> set hs"
  then show "\<exists>s'. buffree h s = Some (OK, s') \<and> pool_out pid s' (h # xs) (remove1 h hs)"
    using buffree_law [of pid s "map (\<lambda>b. b - 8) xs" "map (\<lambda>b. b - 8) hs" "h - 8"] by (auto simp: pool_out_def remove1_shift)
next
  fix s xs hs x assume "pool_out pid s xs hs" "x \<in> set xs"
  then show "\<exists>s'. buffree x s = Some (SYSERR, s') \<and> pool_out pid s' xs hs"
    using buffree_refused [of pid s "map (\<lambda>b. b - 8) xs" "map (\<lambda>b. b - 8) hs" "x - 8"] by (auto simp: pool_out_def)
next
  fix s xs hs assume "pool_out pid s xs hs"
  then have "distinct (map (\<lambda>b. b - 8) (xs @ hs))" using pool_stateD(13) by (fastforce simp: pool_out_def)
  then show "distinct (xs @ hs)" using distinct_map by blast
qed

text \<open>An empty pool makes its client wait.\<close>

lemma bufget_waits:
  assumes p: "pool_state pid s [] hs" and n: "thrcurrent s \<noteq> NULLTHREAD"
  shows "\<exists>s'. bufget pid s = Some (Switched, s') \<and> kinv s' \<and> tstate (thrtab s' (thrcurrent s)) = THRWAIT
     \<and> contents s' (squeue (semtab s (freebuf (bfptab s pid)))) = contents s (squeue (semtab s (freebuf (bfptab s pid)))) @ [thrcurrent s]"
proof -
  note d = pool_stateD [OF p]
  define z where "z = s\<lparr>imask := (imask s)\<lparr>irqen := 0x80\<rparr>\<rparr>"
  have z: "kinv z" "\<not> isbadsem (freebuf (bfptab s pid)) z" "scount (semtab z (freebuf (bfptab s pid))) \<le> 0" "thrcurrent z \<noteq> NULLTHREAD"
    using d(1,6,7) n by (simp_all add: z_def isbadsem_def)
  obtain s' where s': "wait (freebuf (bfptab s pid)) z = Some (OK, s')" "kinv s'" "thrcurrent s' \<noteq> thrcurrent s"
    "tstate (thrtab s' (thrcurrent s)) = THRWAIT"
    "contents s' (squeue (semtab s (freebuf (bfptab s pid)))) = contents s (squeue (semtab s (freebuf (bfptab s pid)))) @ [thrcurrent s]"
    using wait_block [OF z] by (auto simp: z_def)
  have "bufget pid s = Some (Switched, s')"
    using d(2-4) s'(1,3) by (simp add: bufget_def isbadpool_def disable_eq z_def Let_def)
  then show ?thesis using s' by blast
qed


section \<open>Giving up a pool\<close>

lemma bfpfree_ok:
  assumes p: "pool_state pid s xs hs" and i: "mem_inv s bs" and b: "b = bfptab s pid"
    and n: "unat (nbuf b * bufsize b) \<le> 2 ^ 32 - 8"
    and m: "may_free (unat (memheap s)) (unat (maxaddr s)) (bhead b) (roundmb (nbuf b * bufsize b)) bs"
  shows "\<exists>s'. bfpfree pid s = Some (OK, s') \<and> kinv s' \<and> isbadpool pid s' \<and> isbadsem (freebuf b) s'
     \<and> mem_inv s' (give_back (bhead b) (roundmb (nbuf b * bufsize b)) bs)"
proof -
  note d = pool_stateD [OF p]
  define z where "z = bwr pid (bstate_update (\<lambda>_. BFPFREE)) (s\<lparr>imask := (imask s)\<lparr>irqen := 0x80\<rparr>\<rparr>)"
  have z: "mem_inv z bs" "kinv z" "memheap z = memheap s" "maxaddr z = maxaddr s" "semtab z = semtab s"
    "bfptab z pid = b\<lparr>bstate := BFPFREE\<rparr>" using i d(1) by (simp_all add: z_def bwr_def mem_inv_def b)
  obtain u where u: "memfree (bhead b) (nbuf b * bufsize b) z = Some (OK, u\<lparr>imask := norm_mask (imask z)\<rparr>)"
    "mem_inv u (give_back (bhead b) (roundmb (nbuf b * bufsize b)) bs)" "mem_only z u"
    using memfree_spec [OF z(1) n] m unfolding z(3,4) by blast
  define v where "v = u\<lparr>imask := norm_mask (imask z)\<rparr>"
  have v: "kinv v" "bfptab v = bfptab z" "semtab v = semtab s"
    using kinv_mem_only [OF u(3)] z(2,5) arg_cong [OF u(3) [unfolded mem_only_def], of bfptab]
      arg_cong [OF u(3) [unfolded mem_only_def], of semtab] by (simp_all add: v_def)
  have vb: "\<not> isbadsem (freebuf b) v" "0 \<le> scount (semtab v (freebuf b))" using d(6,7) v(3) by (simp_all add: isbadsem_def b)
  note f = semfree_idle [OF v(1) vb]
  have "bfpfree pid s = Some (OK, v\<lparr>semtab := (semtab v)(freebuf b := (semtab v (freebuf b))\<lparr>scount := 0, sstate := SFREE\<rparr>),
      imask := norm_mask (imask s)\<rparr>)"
    using d(2-4) u(1) f(1) z(6) v(2) by (simp add: bfpfree_def isbadpool_def disable_eq z_def [symmetric] v_def [symmetric] Let_def restore_eq)
  then show ?thesis using f(2) u(2) v(2) z(6) by (simp add: isbadpool_def isbadsem_def mem_inv_def v_def)
qed

section \<open>Requests the checks let through\<close>

text \<open>Rounding wraps, so a request for the largest size is served as one for size 0.\<close>

lemma bfpalloc_wraps: "bfpalloc (-1) n s = bfpalloc 0 n s"
proof -
  have "roundword (-1) = roundword 0" by (simp add: roundword_def)
  then show ?thesis by (simp add: bfpalloc_def)
qed

end
