(* ===== verification/Xinu_Net.thy ===== *)
theory Xinu_Net
  imports Xinu_Netaddr Xinu_Machine Xinu_Bufpool Xinu_Examples
begin

text \<open>
  The state of the network code (\<^verbatim>\<open>include/network.h\<close>, \<^verbatim>\<open>include/route.h\<close>,
  \<^verbatim>\<open>include/arp.h\<close>, \<^verbatim>\<open>include/icmp.h\<close>) beside the state of the kernel, and its packet buffers
  (\<^verbatim>\<open>network/net/netGetbuf.c\<close>, \<^verbatim>\<open>netFreebuf.c\<close>, \<^verbatim>\<open>netLookup.c\<close>).
  A pointer to an entry of a table is its index, \<^verbatim>\<open>NULL\<close> is \<open>None\<close>; the number of
  interfaces is the length of \<open>netiftab\<close>. A packet is named by the address of its buffer: its fields
  are in \<open>packets\<close>, and the bytes of \<^verbatim>\<open>data\<close> in the memory of bytes \<open>pb\<close>. What was written to the
  network devices is in \<open>wire\<close>, oldest first; what the driver of a device answers to a frame is the
  parameter \<open>devwrite\<close>. No capture is attached to an interface.
\<close>

section \<open>The state\<close>

datatype ifstate = NET_FREE | NET_ALLOC

record netif =
  if_dev :: int
  if_state :: ifstate
  mtu :: u32
  linkhdrlen :: u32
  if_ip :: netaddr
  if_mask :: netaddr
  if_gateway :: netaddr
  if_ipbrc :: netaddr
  if_hwaddr :: netaddr
  if_hwbrc :: netaddr
  recvthr :: "int list"
  nin :: u32
  nproc :: u32

datatype rtstate = RT_FREE | RT_USED | RT_PEND

record rtEntry =
  rt_state :: rtstate
  masklen :: u16
  rt_dst :: netaddr
  rt_gateway :: netaddr
  rt_mask :: netaddr
  rt_nif :: "nat option"

text \<open>\<^verbatim>\<open>ARP_USED\<close> and \<^verbatim>\<open>ARP_UNRESOLVED\<close> are the same number.\<close>

datatype arpstate = ARP_FREE | ARP_UNRESOLVED | ARP_RESOLVED

record arpEntry =
  ar_state :: arpstate
  ar_nif :: "nat option"
  ar_hwaddr :: netaddr
  ar_praddr :: netaddr
  expires :: u32
  waiting :: "tid_typ list"
  wcount :: int

record packet =
  p_nif :: "nat option"
  p_len :: u32
  linkhdr :: u32
  nethdr :: u32
  curr :: u32

text \<open>
  The pings whose answers a thread waits for (\<^verbatim>\<open>struct icmpEchoQueue\<close>; head and tail are indices into the
  ten places for packets).
\<close>

record icmpEchoQueue =
  eq_tid :: int
  eq_head :: nat
  eq_tail :: nat
  eq_pkts :: "u32 list"

record net =
  nkern :: kernel
  netiftab :: "netif list"
  netpool :: int
  rttab :: "rtEntry list"
  rtqueue :: int
  arptab :: "arpEntry list"
  arpqueue :: int
  icmpqueue :: int
  echotab :: "icmpEchoQueue list"
  packets :: "u32 \<Rightarrow> packet"
  pb :: bytes
  wire :: "(int \<times> u8 list) list"
  devwrite :: "int \<Rightarrow> u8 list \<Rightarrow> int"

abbreviation (input) RT_NENTRY :: nat where "RT_NENTRY \<equiv> 32"
abbreviation (input) ARP_NENTRY :: nat where "ARP_NENTRY \<equiv> 32"
abbreviation (input) ARP_NTHRWAIT :: int where "ARP_NTHRWAIT \<equiv> 10"
abbreviation (input) NET_NTHR :: nat where "NET_NTHR \<equiv> 5"
abbreviation (input) ETHER_TYPE_IPv4 :: u16 where "ETHER_TYPE_IPv4 \<equiv> 0x800"
abbreviation (input) ETHER_TYPE_ARP :: u16 where "ETHER_TYPE_ARP \<equiv> 0x806"

text \<open>What \<^verbatim>\<open>bzero\<close> leaves of the structures.\<close>

definition zero_addr :: netaddr where
  "zero_addr = \<lparr>ntype = 0, nlen = 0, naddr = replicate NET_MAX_ALEN 0\<rparr>"

definition zero_netif :: netif where
  "zero_netif = \<lparr>if_dev = 0, if_state = NET_FREE, mtu = 0, linkhdrlen = 0, if_ip = zero_addr, if_mask = zero_addr,
     if_gateway = zero_addr, if_ipbrc = zero_addr, if_hwaddr = zero_addr, if_hwbrc = zero_addr,
     recvthr = replicate NET_NTHR 0, nin = 0, nproc = 0\<rparr>"

definition zero_rt :: rtEntry where
  "zero_rt = \<lparr>rt_state = RT_FREE, masklen = 0, rt_dst = zero_addr, rt_gateway = zero_addr, rt_mask = zero_addr, rt_nif = None\<rparr>"

definition zero_arp :: arpEntry where
  "zero_arp = \<lparr>ar_state = ARP_FREE, ar_nif = None, ar_hwaddr = zero_addr, ar_praddr = zero_addr, expires = 0,
     waiting = replicate 10 0, wcount = 0\<rparr>"

definition zero_echo :: icmpEchoQueue where
  "zero_echo = \<lparr>eq_tid = 0, eq_head = 0, eq_tail = 0, eq_pkts = replicate 10 0\<rparr>"

section \<open>Kernel calls\<close>

text \<open>A call of the kernel on the state of the network, and the interrupt mask.\<close>

definition kcall :: "(kernel \<Rightarrow> ('a \<times> kernel) option) \<Rightarrow> net \<Rightarrow> ('a \<times> net) option" where
  "kcall f s = do { (r, k) \<leftarrow> f (nkern s); Some (r, s\<lparr>nkern := k\<rparr>) }"

definition ndisable :: "net \<Rightarrow> irqmask \<times> net" where
  "ndisable s = (let (im, k) = disable (nkern s) in (im, s\<lparr>nkern := k\<rparr>))"

definition nrestore :: "irqmask \<Rightarrow> net \<Rightarrow> net" where
  "nrestore im s = s\<lparr>nkern := restore im (nkern s)\<rparr>"

lemmas nirq_simps = ndisable_def nrestore_def irq_simps

section \<open>Packets\<close>

definition pktwr :: "u32 \<Rightarrow> (packet \<Rightarrow> packet) \<Rightarrow> net \<Rightarrow> net" where
  "pktwr p f s = s\<lparr>packets := (packets s)(p := f (packets s p))\<rparr>"

text \<open>
  The packet begins with its fields, \<^verbatim>\<open>data\<close> is at offset 22; the buffer has room for
  \<^verbatim>\<open>NET_MAX_PKTLEN\<close> bytes of data, and \<^verbatim>\<open>curr\<close> points to the end of it.
\<close>

definition pkt_data :: "u32 \<Rightarrow> u32" where
  "pkt_data p = p + 22"

text \<open>Copying an array into the memory of bytes and out of it.\<close>

fun put :: "u32 \<Rightarrow> u8 list \<Rightarrow> bytes \<Rightarrow> bytes" where
  "put p [] m = m"
| "put p (x # xs) m = put (p + 1) xs (m(p := x))"

fun get :: "u32 \<Rightarrow> nat \<Rightarrow> bytes \<Rightarrow> u8 list" where
  "get p 0 m = []"
| "get p (Suc n) m = m p # get (p + 1) n m"

text \<open>The first octets of an array that are copied; none where there are not so many.\<close>

definition take_arr :: "u8 \<Rightarrow> u8 list \<Rightarrow> u8 list option" where
  "take_arr n xs = (if unat n \<le> length xs then Some (take (unat n) xs) else None)"

definition netGetbuf_rest :: "u32 \<Rightarrow> net \<Rightarrow> u32 \<times> net" where
  "netGetbuf_rest p s =
     (if p = -1 then (-1, s)
      else (let s = s\<lparr>pb := bzero (pkt_data p) 1600 (pb s)\<rparr>;
                s = pktwr p (\<lambda>_. \<lparr>p_nif = None, p_len = 0, linkhdr = 0, nethdr = 0, curr = pkt_data p + 1598\<rparr>) s
            in (p, s)))"

definition netGetbuf :: "net \<Rightarrow> (u32 call \<times> net) option" where
  "netGetbuf s = do {
     (r, s) \<leftarrow> kcall (bufget (netpool s)) s;
     (case r of Switched \<Rightarrow> Some (Switched, s)
      | Returned p \<Rightarrow> (let (p, s) = netGetbuf_rest p s in Some (Returned p, s)))
   }"

definition netFreebuf :: "u32 \<Rightarrow> net \<Rightarrow> (int \<times> net) option" where
  "netFreebuf p s = kcall (buffree p) s"

section \<open>Interfaces\<close>

text \<open>The first interface of a table with a property, as a loop with an early exit finds it.\<close>

fun find_from :: "nat \<Rightarrow> ('a \<Rightarrow> bool) \<Rightarrow> 'a list \<Rightarrow> nat option" where
  "find_from i P [] = None"
| "find_from i P (x # xs) = (if P x then Some i else find_from (Suc i) P xs)"

definition netLookup :: "int \<Rightarrow> net \<Rightarrow> nat option" where
  "netLookup devnum s = find_from 0 (\<lambda>n. if_state n = NET_ALLOC \<and> if_dev n = devnum) (netiftab s)"

definition netAlloc :: "net \<Rightarrow> nat option" where
  "netAlloc s = find_from 0 (\<lambda>n. if_state n = NET_FREE) (netiftab s)"

lemma find_from_None: "find_from i P xs = None \<longleftrightarrow> (\<forall>x\<in>set xs. \<not> P x)"
  by (induction xs arbitrary: i) auto

lemma find_from_SomeD:
  "find_from i P xs = Some j \<Longrightarrow> \<exists>k. j = i + k \<and> k < length xs \<and> P (xs ! k) \<and> (\<forall>l<k. \<not> P (xs ! l))"
proof (induction xs arbitrary: i)
  case (Cons x xs)
  show ?case
  proof (cases "P x")
    case True
    then show ?thesis using Cons.prems by (intro exI [of _ 0]) simp
  next
    case False
    then have "find_from (Suc i) P xs = Some j" using Cons.prems by simp
    from Cons.IH [OF this] obtain k where k: "j = Suc i + k" "k < length xs" "P (xs ! k)" "\<forall>l<k. \<not> P (xs ! l)"
      by blast
    have "\<not> P ((x # xs) ! l)" if "l < Suc k" for l using k(4) False that by (cases l) simp_all
    then show ?thesis using k by (intro exI [of _ "Suc k"]) simp
  qed
qed simp

section \<open>Arrays in memory\<close>

lemma length_get [simp]: "length (get p n m) = n"
  by (induction n arbitrary: p) simp_all

lemma get_cong: "(\<And>a. a \<in> rng p n \<Longrightarrow> m' a = m a) \<Longrightarrow> get p n m' = get p n m"
  by (induction n arbitrary: p) simp_all

lemma get_append: "get p (a + b) m = get p a m @ get (p + of_nat a) b m"
  by (induction a arbitrary: p) (simp_all add: add.assoc)

lemma get_nth: "k < n \<Longrightarrow> get p n m ! k = m (p + of_nat k)"
proof (induction n arbitrary: p k)
  case (Suc n)
  then show ?case by (cases k) (simp_all add: add.assoc)
qed simp

lemma put_frame: "a \<notin> rng p (length xs) \<Longrightarrow> put p xs m a = m a"
  by (induction xs arbitrary: p m) auto

lemma get_put: "length xs \<le> 2 ^ 32 \<Longrightarrow> get p (length xs) (put p xs m) = xs"
proof (induction xs arbitrary: p m)
  case (Cons x xs)
  then have "p \<notin> rng (p + 1) (length xs)" by (intro rng_start) simp
  then show ?case using Cons by (simp add: put_frame)
qed simp

lemma get_sum16: "get q n m' = get p n m \<Longrightarrow> sum16 n q m' = sum16 n p m"
proof (induction n p m arbitrary: q rule: sum16.induct)
  case (3 n p m)
  then have "m' q = m p" "m' (q + 1) = m (p + 1)" "get (q + 2) n m' = get (p + 2) n m" by (simp_all add: add.assoc)
  then show ?case using "3.IH" [of "q + 2"] by (simp add: ld16_def)
qed simp_all

text \<open>A state with two interfaces and empty tables, for examples.\<close>

definition net0 :: net where
  "net0 = \<lparr>nkern = idle_kernel, netiftab = [zero_netif, zero_netif], netpool = 0, rttab = replicate RT_NENTRY zero_rt, rtqueue = 0,
     arptab = replicate ARP_NENTRY zero_arp, arpqueue = 1, icmpqueue = 2, echotab = replicate 5 zero_echo,
     packets = (\<lambda>_. \<lparr>p_nif = None, p_len = 0, linkhdr = 0, nethdr = 0, curr = 0\<rparr>), pb = (\<lambda>_. 0), wire = [], devwrite = (\<lambda>_ xs. int (length xs))\<rparr>"

text \<open>The kernel of the examples with pool 0: one buffer, which is out, and two buffers, which are free.\<close>

definition out_kernel :: kernel where
  "out_kernel = busy_kernel\<lparr>bfptab := (bfptab busy_kernel)(0 := \<lparr>bstate = BFPUSED, bufsize = 0x680, nbuf = 1, bhead = 0x10000,
       bnext = 0x10680, freebuf = 5\<rparr>), mem := (\<lambda>_. 0)(0x10000 := 0x10000)\<rparr>"

definition in_kernel :: kernel where
  "in_kernel = busy_kernel\<lparr>bfptab := (bfptab busy_kernel)(0 := \<lparr>bstate = BFPUSED, bufsize = 0x680, nbuf = 2, bhead = 0x10000,
       bnext = 0x10000, freebuf = 6\<rparr>), mem := (\<lambda>_. 0)(0x10000 := 0x10680, 0x10680 := 0x10D00)\<rparr>"

lemma pool_kernels: "pool_state 0 out_kernel [] [0x10000]" "pool_state 0 in_kernel [0x10000, 0x10680] []"
proof -
  have "pool_bufs (bfptab out_kernel 0) = [0x10000]" "pool_bufs (bfptab in_kernel 0) = [0x10000, 0x10680]"
    by (simp_all add: out_kernel_def in_kernel_def pool_bufs_def upt_rec)
  then show "pool_state 0 out_kernel [] [0x10000]" "pool_state 0 in_kernel [0x10000, 0x10680] []"
    using kinv_busy_kernel unfolding pool_state_def Let_def
    by (simp_all add: out_kernel_def in_kernel_def isbadpool_def isbadsem_def pool_fits_def pool_end_def)
qed

end
