(* ===== verification/Xinu_Route.thy ===== *)
theory Xinu_Route
  imports Xinu_Net
begin

text \<open>
  The routing table: \<^verbatim>\<open>network/route/rtInit.c\<close>, \<^verbatim>\<open>rtAlloc.c\<close>, \<^verbatim>\<open>rtAdd.c\<close>,
  \<^verbatim>\<open>rtDefault.c\<close>, \<^verbatim>\<open>rtLookup.c\<close>, \<^verbatim>\<open>rtRemove.c\<close>, \<^verbatim>\<open>rtClear.c\<close> and the queue of packets
  to route, \<^verbatim>\<open>rtRecv.c\<close>. The addresses that are passed do not lie in the table. The lemmas show
  that every operation keeps the table well formed and that \<^verbatim>\<open>rtLookup\<close> finds the entry with the
  longest mask among those that match.
\<close>

section \<open>The operations\<close>

definition rtwr :: "nat \<Rightarrow> (rtEntry \<Rightarrow> rtEntry) \<Rightarrow> net \<Rightarrow> net" where
  "rtwr i f s = s\<lparr>rttab := (rttab s)[i := f (rttab s ! i)]\<rparr>"

definition rtAlloc :: "net \<Rightarrow> nat option \<times> net" where
  "rtAlloc s =
     (let (im, s) = ndisable s in
      case find_from 0 (\<lambda>e. rt_state e = RT_FREE) (rttab s) of
        Some i \<Rightarrow> (Some i, nrestore im (rtwr i (rt_state_update (\<lambda>_. RT_PEND)) s))
      | None \<Rightarrow> (None, nrestore im s))"

text \<open>The loop that counts the one bits of an octet, and the one over the octets of the mask.\<close>

function octet_bits :: "u8 \<Rightarrow> u16 \<Rightarrow> u16" where
  "octet_bits octet len =
     (if octet > 0 then octet_bits (drop_bit 1 octet) (if and octet 0x01 \<noteq> 0 then len + 1 else len) else len)"
  by pat_completeness auto

termination
proof (relation "measure (\<lambda>(octet, len). unat octet)")
  fix octet :: u8 and len :: u16
  assume "octet > 0"
  then have "0 < unat octet" by (simp add: unat_gt_0 word_greater_zero_iff)
  then show "((drop_bit 1 octet, if and octet 0x01 \<noteq> 0 then len + 1 else len), octet, len) \<in> measure (\<lambda>(octet, len). unat octet)"
    by (simp add: drop_bit_eq_div unat_div)
qed simp

declare octet_bits.simps [simp del]

fun mask_bits :: "nat \<Rightarrow> u8 list \<Rightarrow> u16 \<Rightarrow> u16 option" where
  "mask_bits 0 xs len = Some len"
| "mask_bits (Suc n) (x # xs) len = mask_bits n xs (octet_bits x len)"
| "mask_bits (Suc n) [] len = None"

definition rtAdd :: "netaddr option \<Rightarrow> netaddr option \<Rightarrow> netaddr option \<Rightarrow> nat option \<Rightarrow> net \<Rightarrow> (int \<times> net) option" where
  "rtAdd dst gate msk nif s =
     (case (dst, msk, nif) of
        (Some dst, Some msk, Some nif) \<Rightarrow>
          (case rtAlloc s of
             (None, s) \<Rightarrow> Some (SYSERR, s)
           | (Some i, s) \<Rightarrow> do {
               (_, d) \<leftarrow> netaddrmask dst msk;
               let s = rtwr i (rt_dst_update (\<lambda>_. d)) s;
               let s = (case gate of
                          None \<Rightarrow> rtwr i (\<lambda>e. e\<lparr>rt_gateway := (rt_gateway e)\<lparr>ntype := 0\<rparr>\<rparr>) s
                        | Some g \<Rightarrow> rtwr i (rt_gateway_update (\<lambda>_. g)) s);
               let s = rtwr i (\<lambda>e. e\<lparr>rt_mask := msk, rt_nif := Some nif\<rparr>) s;
               len \<leftarrow> mask_bits (unat (nlen msk)) (naddr msk) 0;
               Some (OK, rtwr i (\<lambda>e. e\<lparr>masklen := len, rt_state := RT_USED\<rparr>) s)
             })
      | _ \<Rightarrow> Some (SYSERR, s))"

text \<open>The loop of \<^verbatim>\<open>rtLookup\<close> over the indices; \<open>best\<close> is the entry remembered so far.\<close>

fun rt_scan :: "netaddr \<Rightarrow> rtEntry list \<Rightarrow> nat list \<Rightarrow> nat option \<Rightarrow> nat option option" where
  "rt_scan addr tab [] best = Some best"
| "rt_scan addr tab (i # is) best =
     (if rt_state (tab ! i) = RT_USED
      then do {
        (_, mskd) \<leftarrow> netaddrmask addr (rt_mask (tab ! i));
        eq \<leftarrow> netaddrequal mskd (rt_dst (tab ! i));
        rt_scan addr tab is
          (if eq \<and> (case best of None \<Rightarrow> True | Some j \<Rightarrow> masklen (tab ! j) < masklen (tab ! i)) then Some i else best)
      }
      else rt_scan addr tab is best)"

definition rtLookup :: "netaddr \<Rightarrow> net \<Rightarrow> (nat option \<times> net) option" where
  "rtLookup addr s = do {
     let (im, s) = ndisable s;
     r \<leftarrow> rt_scan addr (rttab s) [0..<RT_NENTRY] None;
     Some (r, nrestore im s)
   }"

fun rt_remove :: "netaddr \<Rightarrow> rtEntry list \<Rightarrow> rtEntry list option" where
  "rt_remove dst [] = Some []"
| "rt_remove dst (e # es) = do {
     eq \<leftarrow> (if rt_state e = RT_USED then netaddrequal dst (rt_dst e) else Some False);
     es \<leftarrow> rt_remove dst es;
     Some ((if eq then e\<lparr>rt_state := RT_FREE, rt_nif := None\<rparr> else e) # es)
   }"

definition rtRemove :: "netaddr option \<Rightarrow> net \<Rightarrow> (int \<times> net) option" where
  "rtRemove dst s =
     (case dst of None \<Rightarrow> Some (SYSERR, s)
      | Some dst \<Rightarrow> do {
          let (im, s) = ndisable s;
          tab \<leftarrow> rt_remove dst (rttab s);
          Some (OK, nrestore im (s\<lparr>rttab := tab\<rparr>))
        })"

definition rtClear :: "nat option \<Rightarrow> net \<Rightarrow> int \<times> net" where
  "rtClear nif s =
     (case nif of None \<Rightarrow> (SYSERR, s)
      | Some n \<Rightarrow>
          (let (im, s) = ndisable s;
               s = s\<lparr>rttab := map (\<lambda>e. if rt_state e = RT_USED \<and> rt_nif e = Some n
                                        then e\<lparr>rt_state := RT_FREE, rt_nif := None\<rparr> else e) (rttab s)\<rparr>
           in (OK, nrestore im s)))"

text \<open>
  The test for an existing default route. The octets of the local variable \<^verbatim>\<open>mask\<close> after its length
  are not initialised: they are what the stack held, \<open>junk\<close>.
\<close>

fun rt_has_default :: "netaddr \<Rightarrow> rtEntry list \<Rightarrow> bool option" where
  "rt_has_default msk [] = Some False"
| "rt_has_default msk (e # es) = do {
     eq \<leftarrow> (if rt_state e = RT_USED then netaddrequal (rt_mask e) msk else Some False);
     if eq then Some True else rt_has_default msk es
   }"

definition rtDefault :: "u8 list \<Rightarrow> netaddr option \<Rightarrow> nat option \<Rightarrow> net \<Rightarrow> (int \<times> net) option" where
  "rtDefault junk gate nif s =
     (case (gate, nif) of
        (Some gate, Some nif) \<Rightarrow>
          if unat (nlen gate) > NET_MAX_ALEN then Some (SYSERR, s)
          else do {
            let n = unat (nlen gate);
            let msk = \<lparr>ntype = ntype gate, nlen = nlen gate, naddr = replicate n 0 @ drop n junk\<rparr>;
            old \<leftarrow> rt_has_default msk (rttab s);
            if old then Some (OK, s)
            else (case rtAlloc s of
                    (None, s) \<Rightarrow> Some (SYSERR, s)
                  | (Some i, s) \<Rightarrow>
                      Some (OK, rtwr i (\<lambda>e. e\<lparr>rt_dst := msk, rt_gateway := gate, rt_mask := msk, rt_nif := Some nif,
                        masklen := 0, rt_state := RT_USED\<rparr>) s))
          }
      | _ \<Rightarrow> Some (SYSERR, s))"

text \<open>\<^verbatim>\<open>initret\<close> and \<open>daemon\<close> are the addresses of \<^verbatim>\<open>userret\<close> and \<^verbatim>\<open>rtDaemon\<close>.\<close>

definition rtInit_rest :: "u32 \<Rightarrow> u32 \<Rightarrow> int \<Rightarrow> net \<Rightarrow> (int call \<times> net) option" where
  "rtInit_rest initret daemon box s =
     (let s = s\<lparr>rtqueue := box\<rparr> in
      if box = SYSERR then Some (Returned SYSERR, s)
      else do {
        (tid, s) \<leftarrow> kcall (create initret daemon 4096 30 ''rtDaemon'' []) s;
        (_, s) \<leftarrow> kcall (ready tid False) s;
        Some (Returned OK, s)
      })"

definition rtInit :: "u32 \<Rightarrow> u32 \<Rightarrow> net \<Rightarrow> (int call \<times> net) option" where
  "rtInit initret daemon s = do {
     let s = s\<lparr>rttab := replicate RT_NENTRY zero_rt\<rparr>;
     (r, s) \<leftarrow> kcall (mailboxAlloc 32) s;
     (case r of Switched \<Rightarrow> Some (Switched, s) | Returned box \<Rightarrow> rtInit_rest initret daemon box s)
   }"

definition rtRecv :: "u32 \<Rightarrow> net \<Rightarrow> (int call \<times> net) option" where
  "rtRecv pkt s =
     (if pkt = 0 then Some (Returned SYSERR, s)
      else do {
        let (im, s) = ndisable s;
        (n, s) \<leftarrow> kcall (\<lambda>k. Some (mailboxCount (word_of_int (rtqueue s)) k)) s;
        if n \<ge> 32 then do {
          (_, s) \<leftarrow> netFreebuf pkt (nrestore im s);
          Some (Returned OK, s)
        }
        else do {
          (r, s) \<leftarrow> kcall (mailboxSend (word_of_int (rtqueue s)) (sint pkt)) s;
          (case r of Switched \<Rightarrow> Some (Switched, s)
           | Returned r \<Rightarrow>
               if r = SYSERR then do {
                 (_, s) \<leftarrow> netFreebuf pkt (nrestore im s);
                 Some (Returned SYSERR, s)
               }
               else Some (Returned OK, nrestore im s))
        }
      })"

section \<open>The length of a mask\<close>

definition bits_in :: "u8 \<Rightarrow> nat" where
  "bits_in x = card {i. bit x i}"

text \<open>The number of one bits of a mask.\<close>

definition mask_ones :: "netaddr \<Rightarrow> nat" where
  "mask_ones a = sum_list (map bits_in (take (unat (nlen a)) (naddr a)))"

lemma finite_bits: "finite {i. bit x i}" for x :: u8
  by (rule finite_subset [of _ "{..<8}"]) (auto dest: bit_imp_le_length)

lemma bits_in_zero: "bits_in x = 0 \<longleftrightarrow> x = 0"
proof
  assume "bits_in x = 0"
  then have "{i. bit x i} = {}" using finite_bits [of x] by (simp add: bits_in_def)
  then show "x = 0" by (intro bit_word_eqI) auto
qed (simp add: bits_in_def)

lemma bits_in_step: "bits_in x = (if and x 1 \<noteq> 0 then 1 else 0) + bits_in (drop_bit 1 x)"
proof -
  have e: "{i. bit x i} = (if and x 1 \<noteq> 0 then {0} else {}) \<union> Suc ` {i. bit (drop_bit 1 x) i}" (is "?A = ?B \<union> ?C")
  proof (rule set_eqI)
    fix i show "i \<in> ?A \<longleftrightarrow> i \<in> ?B \<union> ?C"
      by (cases i) (auto simp: bit_drop_bit_eq bit_0 and_one_eq odd_iff_mod_2_eq_one image_iff)
  qed
  have "card (?B \<union> ?C) = card ?B + card ?C" by (rule card_Un_disjoint) (auto simp: finite_bits)
  then show ?thesis unfolding bits_in_def e by (simp add: card_image)
qed

lemma octet_bits_eq: "octet_bits x len = len + of_nat (bits_in x)"
proof (induction x len rule: octet_bits.induct)
  case (1 x len)
  show ?case
  proof (cases "x > 0")
    case True
    then show ?thesis using 1 bits_in_step [of x] by (subst octet_bits.simps) (simp add: add.assoc)
  next
    case False
    then have "x = 0" by (simp add: word_greater_zero_iff)
    then show ?thesis by (subst octet_bits.simps) (simp add: bits_in_def)
  qed
qed

lemma mask_bits_eq:
  "n \<le> length xs \<Longrightarrow> mask_bits n xs len = Some (len + of_nat (sum_list (map bits_in (take n xs))))"
  by (induction n xs len rule: mask_bits.induct) (simp_all add: octet_bits_eq add.assoc)

lemma bits_in_le: "bits_in x \<le> 8"
proof -
  have "{i. bit x i} \<subseteq> {..<8}" by (auto dest: bit_imp_le_length)
  then show ?thesis using card_mono [of "{..<8}" "{i. bit x i}"] by (simp add: bits_in_def)
qed

lemma mask_ones_le: "netaddr_ok a \<Longrightarrow> mask_ones a \<le> 48"
proof -
  assume a: "netaddr_ok a"
  have "sum_list (map bits_in xs) \<le> 8 * length xs" for xs
  proof (induction xs)
    case (Cons x xs)
    then show ?case using bits_in_le [of x] by simp
  qed simp
  from this [of "take (unat (nlen a)) (naddr a)"] show ?thesis using a by (simp add: mask_ones_def netaddr_ok_def)
qed

section \<open>Well-formed tables\<close>

definition rt_entry_ok :: "rtEntry \<Rightarrow> bool" where
  "rt_entry_ok e \<longleftrightarrow> netaddr_ok (rt_dst e) \<and> netaddr_ok (rt_gateway e) \<and> netaddr_ok (rt_mask e)
     \<and> (rt_state e = RT_USED \<longrightarrow> rt_nif e \<noteq> None \<and> unat (masklen e) = mask_ones (rt_mask e)
         \<and> same_addr (masked (rt_dst e) (rt_mask e)) (rt_dst e))"

definition rt_ok :: "net \<Rightarrow> bool" where
  "rt_ok s \<longleftrightarrow> length (rttab s) = RT_NENTRY \<and> (\<forall>e\<in>set (rttab s). rt_entry_ok e)"

lemma rt_okD: "rt_ok s \<Longrightarrow> i < RT_NENTRY \<Longrightarrow> rt_entry_ok (rttab s ! i)"
  by (simp add: rt_ok_def)

lemma rt_ok_write:
  assumes "rt_ok s" "i < RT_NENTRY \<Longrightarrow> rt_entry_ok e"
  shows "rt_ok (s\<lparr>rttab := (rttab s)[i := e]\<rparr>)"
proof (cases "i < RT_NENTRY")
  case True
  then show ?thesis using assms set_update_subset_insert [of "rttab s" i e] by (auto simp: rt_ok_def)
qed (use assms in \<open>simp add: rt_ok_def list_update_beyond\<close>)

lemma zero_addr_ok [simp]: "netaddr_ok zero_addr"
  by (simp add: netaddr_ok_def zero_addr_def)

lemma rt_ok_init: "rttab s = replicate RT_NENTRY zero_rt \<Longrightarrow> rt_ok s"
  by (simp add: rt_ok_def rt_entry_ok_def zero_rt_def)

lemma rtAlloc_cases:
  assumes "rt_ok s"
  obtains (full) k where "rtAlloc s = (None, s\<lparr>nkern := k\<rparr>)" "\<forall>e\<in>set (rttab s). rt_state e \<noteq> RT_FREE"
  | (entry) i k where "rtAlloc s = (Some i, s\<lparr>nkern := k, rttab := (rttab s)[i := (rttab s ! i)\<lparr>rt_state := RT_PEND\<rparr>]\<rparr>)"
      "i < RT_NENTRY" "rt_state (rttab s ! i) = RT_FREE"
proof (cases "find_from 0 (\<lambda>e. rt_state e = RT_FREE) (rttab s)")
  case None
  then have "\<forall>e\<in>set (rttab s). rt_state e \<noteq> RT_FREE" by (simp add: find_from_None)
  then show thesis using None by (intro full) (simp_all add: rtAlloc_def nirq_simps)
next
  case (Some i)
  from find_from_SomeD [OF this] have "i < RT_NENTRY" "rt_state (rttab s ! i) = RT_FREE" using assms by (auto simp: rt_ok_def)
  then show thesis using Some
    by (intro entry [of i "(nkern s)\<lparr>imask := norm_mask (imask (nkern s))\<rparr>"]) (simp_all add: rtAlloc_def nirq_simps rtwr_def)
qed

lemma rtAdd_typed:
  assumes "rt_ok s" "\<forall>a. dst = Some a \<or> gate = Some a \<or> msk = Some a \<longrightarrow> netaddr_ok a"
  shows "\<exists>r s'. rtAdd dst gate msk nif s = Some (r, s') \<and> rt_ok s'"
proof (cases "dst = None \<or> msk = None \<or> nif = None")
  case True
  then show ?thesis using assms(1) by (auto simp: rtAdd_def split: option.splits)
next
  case False
  then obtain d m n where a: "dst = Some d" "msk = Some m" "nif = Some n" by auto
  have ok: "netaddr_ok d" "netaddr_ok m" "\<And>g. gate = Some g \<Longrightarrow> netaddr_ok g" using assms(2) a by auto
  have len: "mask_bits (unat (nlen m)) (naddr m) 0 = Some (of_nat (mask_ones m))"
    using ok(2) by (simp add: mask_bits_eq mask_ones_def netaddr_ok_def)
  from assms(1) show ?thesis
  proof (cases rule: rtAlloc_cases)
    case (full k)
    then show ?thesis using assms(1) a by (auto simp: rtAdd_def rt_ok_def)
  next
    case (entry i k)
    define e where "e = rttab s ! i"
    define e' where "e' = e\<lparr>rt_dst := masked d m, rt_gateway := (case gate of None \<Rightarrow> (rt_gateway e)\<lparr>ntype := 0\<rparr> | Some g \<Rightarrow> g),
      rt_mask := m, rt_nif := Some n, masklen := of_nat (mask_ones m), rt_state := RT_USED\<rparr>"
    have i: "i < length (rttab s)" using entry(2) assms(1) by (simp add: rt_ok_def)
    have "rtAdd dst gate msk nif s = Some (OK, s\<lparr>nkern := k, rttab := (rttab s)[i := e']\<rparr>)"
      using entry(1) a i len by (cases gate) (auto simp: rtAdd_def netaddrmask_ok [OF ok(1,2)] rtwr_def e'_def e_def)
    moreover have "rt_entry_ok e'"
    proof -
      have "netaddr_ok (rt_gateway e)" using rt_okD [OF assms(1) entry(2)] by (simp add: rt_entry_ok_def e_def)
      then have "netaddr_ok ((rt_gateway e)\<lparr>ntype := 0\<rparr>)" by (simp add: netaddr_ok_def)
      moreover have "unat (of_nat (mask_ones m) :: u16) = mask_ones m"
        using mask_ones_le [OF ok(2)] by (simp add: unsigned_of_nat take_bit_nat_eq_self)
      ultimately show ?thesis using ok masked_ok [OF ok(1,2)] masked_idem [OF ok(1,2)]
        by (auto simp: rt_entry_ok_def e'_def split: option.splits)
    qed
    ultimately show ?thesis using rt_ok_write [OF assms(1), of i e'] by (auto simp: rt_ok_def)
  qed
qed


lemma rtDefault_typed:
  assumes "rt_ok s" "\<forall>a. gate = Some a \<longrightarrow> netaddr_ok a" "length junk = NET_MAX_ALEN"
  shows "\<exists>r s'. rtDefault junk gate nif s = Some (r, s') \<and> rt_ok s'"
proof (cases "gate = None \<or> nif = None")
  case True
  then show ?thesis using assms(1) by (auto simp: rtDefault_def split: option.splits)
next
  case False
  then obtain g n where a: "gate = Some g" "nif = Some n" by auto
  define m where "m = \<lparr>ntype = ntype g, nlen = nlen g, naddr = replicate (unat (nlen g)) 0 @ drop (unat (nlen g)) junk\<rparr>"
  have ok: "netaddr_ok g" "netaddr_ok m" using assms a by (auto simp: netaddr_ok_def m_def)
  have one: "mask_ones m = 0" by (simp add: m_def mask_ones_def bits_in_def sum_list_replicate)
  have "\<exists>b. rt_has_default m es = Some b" if "\<forall>e\<in>set es. rt_entry_ok e" for es
    using that by (induction es) (auto simp: netaddrequal_ok ok rt_entry_ok_def)
  then obtain b where b: "rt_has_default m (rttab s) = Some b" using assms(1) by (auto simp: rt_ok_def)
  have def: "rtDefault junk gate nif s = (if b then Some (OK, s) else
     (case rtAlloc s of (None, s) \<Rightarrow> Some (SYSERR, s)
      | (Some i, s) \<Rightarrow> Some (OK, rtwr i (\<lambda>e. e\<lparr>rt_dst := m, rt_gateway := g, rt_mask := m, rt_nif := Some n,
           masklen := 0, rt_state := RT_USED\<rparr>) s)))"
    using a ok(1) b by (simp add: rtDefault_def m_def [symmetric] netaddr_ok_def Let_def split: prod.split option.split)
  from assms(1) show ?thesis
  proof (cases rule: rtAlloc_cases)
    case (full k)
    then show ?thesis using assms(1) def by (auto simp: rt_ok_def)
  next
    case (entry i k)
    define e' where "e' = (rttab s ! i)\<lparr>rt_dst := m, rt_gateway := g, rt_mask := m, rt_nif := Some n, masklen := 0, rt_state := RT_USED\<rparr>"
    have i: "i < length (rttab s)" using entry(2) assms(1) by (simp add: rt_ok_def)
    have z: "map2 and (replicate k 0) ys = replicate k (0 :: u8)" if "k \<le> length ys" for k ys
      using that by (induction k arbitrary: ys) (auto simp: Suc_le_length_iff)
    have "same_addr (masked m m) m" using ok(2) by (simp add: masked_def same_addr_def m_def z netaddr_ok_def)
    then have "rt_entry_ok e'" using ok one by (simp add: rt_entry_ok_def e'_def)
    moreover have "rtDefault junk gate nif s = Some (OK, if b then s else s\<lparr>nkern := k, rttab := (rttab s)[i := e']\<rparr>)"
      using def entry(1) i by (simp add: rtwr_def e'_def)
    ultimately show ?thesis using assms(1) rt_ok_write [OF assms(1), of i e'] by (auto simp: rt_ok_def)
  qed
qed

lemma rtRemove_typed:
  assumes "rt_ok s" "\<forall>a. dst = Some a \<longrightarrow> netaddr_ok a"
  shows "\<exists>r s'. rtRemove dst s = Some (r, s') \<and> rt_ok s'"
proof (cases dst)
  case None
  then show ?thesis using assms(1) by (simp add: rtRemove_def)
next
  case (Some d)
  have "\<exists>es'. rt_remove d es = Some es' \<and> length es' = length es \<and> (\<forall>e\<in>set es'. rt_entry_ok e)"
    if "\<forall>e\<in>set es. rt_entry_ok e" for es
    using that
  proof (induction es)
    case (Cons e es)
    then obtain es' where "rt_remove d es = Some es'" "length es' = length es" "\<forall>e\<in>set es'. rt_entry_ok e" by auto
    moreover have "netaddrequal d (rt_dst e) = Some (same_addr d (rt_dst e))"
      using Cons.prems assms(2) Some by (intro netaddrequal_ok) (auto simp: rt_entry_ok_def)
    ultimately show ?case using Cons.prems by (auto simp: rt_entry_ok_def)
  qed simp
  from this [of "rttab s"] show ?thesis using assms(1) Some
    by (auto simp: rtRemove_def nirq_simps rt_ok_def)
qed

lemma rtClear_typed: "rt_ok s \<Longrightarrow> rt_ok (snd (rtClear nif s))"
  by (cases nif) (auto simp: rtClear_def nirq_simps rt_ok_def rt_entry_ok_def)


section \<open>Lookup\<close>

definition rt_match :: "netaddr \<Rightarrow> rtEntry \<Rightarrow> bool" where
  "rt_match a e \<longleftrightarrow> rt_state e = RT_USED \<and> same_addr (masked a (rt_mask e)) (rt_dst e)"

text \<open>\<open>rt_best a tab is best r\<close>: \<open>r\<close> is the first index with the longest mask among \<open>best\<close> and the matching ones of \<open>is\<close>.\<close>

definition rt_best :: "netaddr \<Rightarrow> rtEntry list \<Rightarrow> nat list \<Rightarrow> nat option \<Rightarrow> nat option \<Rightarrow> bool" where
  "rt_best a tab is best r \<longleftrightarrow>
     (case r of
        None \<Rightarrow> best = None \<and> (\<forall>i\<in>set is. \<not> rt_match a (tab ! i))
      | Some j \<Rightarrow> (best = Some j \<or> j \<in> set is \<and> rt_match a (tab ! j))
          \<and> (\<forall>b. best = Some b \<longrightarrow> j = b \<or> masklen (tab ! b) < masklen (tab ! j))
          \<and> (\<forall>i\<in>set is. rt_match a (tab ! i) \<longrightarrow>
               masklen (tab ! i) < masklen (tab ! j) \<or> masklen (tab ! i) = masklen (tab ! j) \<and> (best = Some j \<or> j \<le> i)))"

lemma rt_scan_best:
  assumes "\<forall>i\<in>set is. rt_entry_ok (tab ! i)" "netaddr_ok a" "sorted is"
  shows "\<exists>r. rt_scan a tab is best = Some r \<and> rt_best a tab is best r"
  using assms
proof (induction "is" arbitrary: best)
  case Nil
  then show ?case by (auto simp: rt_best_def split: option.split)
next
  case (Cons i "is")
  define best' where "best' = (if rt_match a (tab ! i) \<and> (case best of None \<Rightarrow> True | Some j \<Rightarrow> masklen (tab ! j) < masklen (tab ! i))
    then Some i else best)"
  have ok: "netaddr_ok (rt_mask (tab ! i))" "netaddr_ok (rt_dst (tab ! i))" using Cons.prems(1) by (auto simp: rt_entry_ok_def)
  have step: "rt_scan a tab (i # is) best = rt_scan a tab is best'"
    using Cons.prems(2) ok by (auto simp: netaddrmask_ok masked_ok netaddrequal_ok best'_def rt_match_def)
  obtain r where r: "rt_scan a tab is best' = Some r" "rt_best a tab is best' r"
    using Cons.IH [of best'] Cons.prems by auto
  have "rt_best a tab (i # is) best r"
    using r(2) Cons.prems(3) unfolding rt_best_def best'_def
    by (auto split: option.splits if_splits)
  then show ?case using step r(1) by auto
qed


lemma rtLookup_best:
  assumes "rt_ok s" "netaddr_ok a"
  shows "\<exists>r. rtLookup a s = Some (r, s\<lparr>nkern := (nkern s)\<lparr>imask := norm_mask (imask (nkern s))\<rparr>\<rparr>)
    \<and> rt_best a (rttab s) [0..<RT_NENTRY] None r"
proof -
  have "\<forall>i\<in>set [0..<RT_NENTRY]. rt_entry_ok (rttab s ! i)" using rt_okD [OF assms(1)] by auto
  from rt_scan_best [OF this assms(2), of None] obtain r where
    "rt_scan a (rttab s) [0..<RT_NENTRY] None = Some r" "rt_best a (rttab s) [0..<RT_NENTRY] None r" by auto
  then show ?thesis by (simp add: rtLookup_def nirq_simps del: upt_rec_numeral upt_Suc)
qed

section \<open>Sequences of operations\<close>

datatype rtop =
    Add "netaddr option" "netaddr option" "netaddr option" "nat option"
  | Default "u8 list" "netaddr option" "nat option"
  | Remove "netaddr option"
  | Clear "nat option"

fun rt_exec :: "rtop \<Rightarrow> net \<Rightarrow> (int \<times> net) option" where
  "rt_exec (Add dst gate msk nif) s = rtAdd dst gate msk nif s"
| "rt_exec (Default junk gate nif) s = rtDefault junk gate nif s"
| "rt_exec (Remove dst) s = rtRemove dst s"
| "rt_exec (Clear nif) s = Some (rtClear nif s)"

fun rt_run :: "rtop list \<Rightarrow> net \<Rightarrow> net option" where
  "rt_run [] s = Some s"
| "rt_run (op # ops) s = do { (_, s) \<leftarrow> rt_exec op s; rt_run ops s }"

fun rtop_ok :: "rtop \<Rightarrow> bool" where
  "rtop_ok (Add dst gate msk nif) = (pred_option netaddr_ok dst \<and> pred_option netaddr_ok gate \<and> pred_option netaddr_ok msk)"
| "rtop_ok (Default junk gate nif) = (length junk = NET_MAX_ALEN \<and> pred_option netaddr_ok gate)"
| "rtop_ok (Remove dst) = pred_option netaddr_ok dst"
| "rtop_ok (Clear nif) = True"

lemma rt_exec_typed: "rt_ok s \<Longrightarrow> rtop_ok op \<Longrightarrow> \<exists>r s'. rt_exec op s = Some (r, s') \<and> rt_ok s'"
proof (cases op)
  case (Add dst gate msk nif)
  then show "rt_ok s \<Longrightarrow> rtop_ok op \<Longrightarrow> ?thesis" by (auto intro!: rtAdd_typed)
next
  case (Default junk gate nif)
  then show "rt_ok s \<Longrightarrow> rtop_ok op \<Longrightarrow> ?thesis" by (auto intro!: rtDefault_typed)
next
  case (Remove dst)
  then show "rt_ok s \<Longrightarrow> rtop_ok op \<Longrightarrow> ?thesis" by (auto intro!: rtRemove_typed)
next
  case (Clear nif)
  then show "rt_ok s \<Longrightarrow> rtop_ok op \<Longrightarrow> ?thesis" using rtClear_typed [of s nif] by (cases "rtClear nif s") auto
qed

lemma rt_run_typed: "rt_ok s \<Longrightarrow> \<forall>op\<in>set ops. rtop_ok op \<Longrightarrow> \<exists>s'. rt_run ops s = Some s' \<and> rt_ok s'"
proof (induction ops arbitrary: s)
  case (Cons op ops)
  then obtain r s1 where "rt_exec op s = Some (r, s1)" "rt_ok s1" using rt_exec_typed [of s op] by auto
  then show ?case using Cons by auto
qed simp

text \<open>C21: well-typed arguments keep the routing table well typed: no sequence of \<^verbatim>\<open>rtAdd\<close>, \<^verbatim>\<open>rtDefault\<close>,
  \<^verbatim>\<open>rtRemove\<close> and \<^verbatim>\<open>rtClear\<close> with addresses that fit their arrays reads or writes past an array, and
  the table it leaves has 32 entries, each with addresses that fit, and in each used one an interface, the number of one
  bits of its mask as the length, and a destination that the mask leaves as it is.\<close>

theorem route_table_typed:
  assumes "rt_ok s" and "\<forall>op\<in>set ops. rtop_ok op"
  shows "\<exists>s'. rt_run ops s = Some s' \<and> rt_ok s'"
  by (rule rt_run_typed [OF assms])

text \<open>C16: longest prefix routing. In a table made from the empty one by any sequence of operations,
  \<^verbatim>\<open>rtLookup\<close> returns \<^verbatim>\<open>NULL\<close> exactly when no used entry matches the address under its mask, and
  otherwise the first of the matching entries whose mask has the most one bits; it changes nothing.\<close>

theorem route_longest_prefix:
  assumes "rttab s = replicate RT_NENTRY zero_rt" and "\<forall>op\<in>set ops. rtop_ok op" and "rt_run ops s = Some t"
    and "netaddr_ok a"
  shows "\<exists>r. rtLookup a t = Some (r, t\<lparr>nkern := (nkern t)\<lparr>imask := norm_mask (imask (nkern t))\<rparr>\<rparr>)
    \<and> (r = None \<longleftrightarrow> (\<forall>i<RT_NENTRY. \<not> rt_match a (rttab t ! i)))
    \<and> (\<forall>j. r = Some j \<longrightarrow> j < RT_NENTRY \<and> rt_match a (rttab t ! j)
          \<and> (\<forall>i<RT_NENTRY. rt_match a (rttab t ! i) \<longrightarrow>
               mask_ones (rt_mask (rttab t ! i)) < mask_ones (rt_mask (rttab t ! j))
               \<or> mask_ones (rt_mask (rttab t ! i)) = mask_ones (rt_mask (rttab t ! j)) \<and> j \<le> i))"
proof -
  have t: "rt_ok t" using rt_run_typed [OF rt_ok_init [OF assms(1)] assms(2)] assms(3) by simp
  obtain r where r: "rtLookup a t = Some (r, t\<lparr>nkern := (nkern t)\<lparr>imask := norm_mask (imask (nkern t))\<rparr>\<rparr>)"
    "rt_best a (rttab t) [0..<RT_NENTRY] None r" using rtLookup_best [OF t assms(4)] by blast
  have len: "unat (masklen (rttab t ! i)) = mask_ones (rt_mask (rttab t ! i))" if "i < RT_NENTRY" "rt_match a (rttab t ! i)" for i
    using rt_okD [OF t that(1)] that(2) by (simp add: rt_entry_ok_def rt_match_def)
  show ?thesis
  proof (cases r)
    case None
    then have "\<forall>i<RT_NENTRY. \<not> rt_match a (rttab t ! i)" using r(2) by (simp add: rt_best_def del: upt_rec_numeral)
    then show ?thesis using r(1) None by simp
  next
    case (Some j)
    then have j: "j < RT_NENTRY" "rt_match a (rttab t ! j)"
      and le: "i < RT_NENTRY \<Longrightarrow> rt_match a (rttab t ! i) \<Longrightarrow> masklen (rttab t ! i) < masklen (rttab t ! j)
        \<or> masklen (rttab t ! i) = masklen (rttab t ! j) \<and> j \<le> i" for i
      using r(2) by (simp_all add: rt_best_def del: upt_rec_numeral)
    have "mask_ones (rt_mask (rttab t ! i)) < mask_ones (rt_mask (rttab t ! j))
      \<or> mask_ones (rt_mask (rttab t ! i)) = mask_ones (rt_mask (rttab t ! j)) \<and> j \<le> i"
      if "i < RT_NENTRY" "rt_match a (rttab t ! i)" for i
      using le [OF that] len [OF that] len [OF j] by (auto simp: word_less_nat_alt)
    then show ?thesis using r(1) j Some by auto
  qed
qed

text \<open>The example: two networks, one inside the other, and a default route.\<close>

definition ip4 :: "u8 list \<Rightarrow> netaddr" where
  "ip4 xs = \<lparr>ntype = NETADDR_IPv4, nlen = IPv4_ADDR_LEN, naddr = xs @ [0, 0]\<rparr>"

definition routes_ex :: "rtop list" where
  "routes_ex = [Default [1, 2, 3, 4, 5, 6] (Some (ip4 [10, 0, 0, 1])) (Some 0),
     Add (Some (ip4 [10, 0, 0, 9])) None (Some (ip4 [255, 0, 0, 0])) (Some 0),
     Add (Some (ip4 [10, 1, 0, 9])) None (Some (ip4 [255, 255, 0, 0])) (Some 1)]"

lemma routes_ex_ok: "\<forall>op\<in>set routes_ex. rtop_ok op"
  by (simp add: routes_ex_def netaddr_ok_def ip4_def)

lemma routes_ex_lookup:
  "map_option fst (do { t \<leftarrow> rt_run routes_ex net0; rtLookup (ip4 [10, 1, 2, 3]) t }) = Some (Some 2)"
  by code_simp


lemma routes_ex_run: "\<exists>t. rt_run routes_ex net0 = Some t"
  using rt_run_typed [OF rt_ok_init routes_ex_ok, of net0] by (auto simp: net0_def)

theorem route_table_typed_witness: "\<exists>t. rt_run routes_ex net0 = Some t \<and> rt_ok t"
  by (rule route_table_typed [OF rt_ok_init routes_ex_ok]) (simp add: net0_def)

theorem route_longest_prefix_witness:
  "\<exists>t s'. rt_run routes_ex net0 = Some t \<and> rtLookup (ip4 [10, 1, 2, 3]) t = Some (Some 2, s')
    \<and> rt_match (ip4 [10, 1, 2, 3]) (rttab t ! 2)
    \<and> (\<forall>i<RT_NENTRY. rt_match (ip4 [10, 1, 2, 3]) (rttab t ! i) \<longrightarrow>
         mask_ones (rt_mask (rttab t ! i)) \<le> mask_ones (rt_mask (rttab t ! 2)))"
proof -
  obtain t where t: "rt_run routes_ex net0 = Some t" using routes_ex_run by blast
  have "rttab net0 = replicate RT_NENTRY zero_rt" "netaddr_ok (ip4 [10, 1, 2, 3])" by (simp_all add: net0_def netaddr_ok_def ip4_def)
  from route_longest_prefix [OF this(1) routes_ex_ok t this(2)] obtain r where
    r: "rtLookup (ip4 [10, 1, 2, 3]) t = Some (r, t\<lparr>nkern := (nkern t)\<lparr>imask := norm_mask (imask (nkern t))\<rparr>\<rparr>)"
    "\<forall>j. r = Some j \<longrightarrow> j < RT_NENTRY \<and> rt_match (ip4 [10, 1, 2, 3]) (rttab t ! j)
       \<and> (\<forall>i<RT_NENTRY. rt_match (ip4 [10, 1, 2, 3]) (rttab t ! i) \<longrightarrow>
            mask_ones (rt_mask (rttab t ! i)) < mask_ones (rt_mask (rttab t ! j))
            \<or> mask_ones (rt_mask (rttab t ! i)) = mask_ones (rt_mask (rttab t ! j)) \<and> j \<le> i)" by blast
  have "r = Some 2" using routes_ex_lookup t r(1) by simp
  then have "rt_match (ip4 [10, 1, 2, 3]) (rttab t ! 2)"
    "\<forall>i<RT_NENTRY. rt_match (ip4 [10, 1, 2, 3]) (rttab t ! i) \<longrightarrow> mask_ones (rt_mask (rttab t ! i)) \<le> mask_ones (rt_mask (rttab t ! 2))"
    using r(2) by auto
  then show ?thesis using t r(1) \<open>r = Some 2\<close> by blast
qed

text \<open>A second default route is not entered: the call returns \<^verbatim>\<open>OK\<close> and leaves the table as it is.\<close>

lemma rtDefault_keeps:
  assumes "rt_ok s" "netaddr_ok g" "length junk = NET_MAX_ALEN" "i < RT_NENTRY" "rt_state (rttab s ! i) = RT_USED"
    and "ntype (rt_mask (rttab s ! i)) = ntype g" "nlen (rt_mask (rttab s ! i)) = nlen g" "mask_ones (rt_mask (rttab s ! i)) = 0"
  shows "rtDefault junk (Some g) (Some n) s = Some (OK, s)"
proof -
  define m where "m = \<lparr>ntype = ntype g, nlen = nlen g, naddr = replicate (unat (nlen g)) 0 @ drop (unat (nlen g)) junk\<rparr>"
  have ok: "netaddr_ok m" using assms(2,3) by (simp add: netaddr_ok_def m_def)
  define e where "e = rttab s ! i"
  have e: "netaddr_ok (rt_mask e)" using rt_okD [OF assms(1,4)] by (simp add: rt_entry_ok_def e_def)
  have "x = 0" if "x \<in> set (take (unat (nlen g)) (naddr (rt_mask e)))" for x
    using that assms(7,8) by (auto simp: mask_ones_def e_def bits_in_zero)
  then have "take (unat (nlen g)) (naddr (rt_mask e)) = replicate (length (take (unat (nlen g)) (naddr (rt_mask e)))) 0"
    by (intro replicate_eqI) simp_all
  then have same: "same_addr (rt_mask e) m" using assms(6,7) e by (simp add: same_addr_def m_def e_def netaddr_ok_def)
  have "rt_has_default m es = Some True" if "e \<in> set es" "\<forall>e\<in>set es. rt_entry_ok e" for es
    using that by (induction es) (auto simp: netaddrequal_ok ok rt_entry_ok_def same assms(5) [folded e_def])
  moreover have "e \<in> set (rttab s)" "\<forall>e\<in>set (rttab s). rt_entry_ok e" using assms(1,4) by (auto simp: rt_ok_def e_def)
  ultimately have "rt_has_default m (rttab s) = Some True" by blast
  then show ?thesis using assms(2) by (simp add: rtDefault_def m_def netaddr_ok_def)
qed

end
