(* ===== verification/Xinu_Arp.thy ===== *)
theory Xinu_Arp
  imports Xinu_Route
begin

text \<open>
  Address resolution: \<^verbatim>\<open>network/arp/\<close>, and \<^verbatim>\<open>network/net/netSend.c\<close>, which calls it and is called
  by it. A call that waits, or whose message to a waiting thread gives the processor away, ends in
  \<open>Switched\<close>; \<open>arpLookup_woken\<close> is what \<^verbatim>\<open>arpLookup\<close> does when its thread has the answer of
  \<^verbatim>\<open>recvtime\<close>. The lemmas show how an entry is learned and found, that a full table gives up the entry
  that expires first, and that a successful \<^verbatim>\<open>arpLookup\<close> returns with the interrupts off.
  Local addresses have six octets of which IPv4 uses four; the other two, which the code does not
  initialise and copies, but neither compares nor sends, are zero here.
\<close>

section \<open>The table\<close>

definition arwr :: "nat \<Rightarrow> (arpEntry \<Rightarrow> arpEntry) \<Rightarrow> net \<Rightarrow> net" where
  "arwr i f s = s\<lparr>arptab := (arptab s)[i := f (arptab s ! i)]\<rparr>"

text \<open>The loop of \<^verbatim>\<open>arpAlloc\<close>: a free entry, or else the one that expires first.\<close>

fun arp_scan :: "arpEntry list \<Rightarrow> nat list \<Rightarrow> nat option \<Rightarrow> nat + nat option" where
  "arp_scan tab [] minexpires = Inr minexpires"
| "arp_scan tab (i # is) minexpires =
     (if ar_state (tab ! i) = ARP_FREE then Inl i
      else arp_scan tab is
        (case minexpires of None \<Rightarrow> Some i
         | Some j \<Rightarrow> if expires (tab ! i) < expires (tab ! j) then Some i else Some j))"

definition arpAlloc :: "net \<Rightarrow> nat option \<times> net" where
  "arpAlloc s =
     (case arp_scan (arptab s) [0..<ARP_NENTRY] None of
        Inl i \<Rightarrow> (Some i, arwr i (ar_state_update (\<lambda>_. ARP_UNRESOLVED)) s)
      | Inr None \<Rightarrow> (None, s)
      | Inr (Some i) \<Rightarrow> (Some i, arwr i (\<lambda>_. zero_arp\<lparr>ar_state := ARP_UNRESOLVED\<rparr>) s))"

text \<open>The loop of \<^verbatim>\<open>arpNotify\<close> over the waiting threads from \<open>i\<close> on.\<close>

fun notify_from :: "nat \<Rightarrow> nat \<Rightarrow> nat \<Rightarrow> message \<Rightarrow> net \<Rightarrow> (int call \<times> net) option" where
  "notify_from 0 i e m s = Some (Returned OK, s)"
| "notify_from (Suc k) i e m s =
     (if length (waiting (arptab s ! e)) \<le> i then None
      else do {
        let me = thrcurrent (nkern s);
        (r, s) \<leftarrow> kcall (send (waiting (arptab s ! e) ! i) m) s;
        if thrcurrent (nkern s) \<noteq> me then Some (Switched, s)
        else if r = SYSERR then Some (Returned SYSERR, s)
        else notify_from k (Suc i) e m s
      })"

definition arpNotify :: "nat option \<Rightarrow> message \<Rightarrow> net \<Rightarrow> (int call \<times> net) option" where
  "arpNotify entry m s =
     (case entry of None \<Rightarrow> Some (Returned SYSERR, s)
      | Some e \<Rightarrow> do {
          let (im, s) = ndisable s;
          (r, s) \<leftarrow> notify_from (nat (wcount (arptab s ! e))) 0 e m s;
          (case r of Switched \<Rightarrow> Some (Switched, s)
           | Returned r \<Rightarrow>
               if r = SYSERR then Some (Returned SYSERR, nrestore im s)
               else (let s = arwr e (\<lambda>a. a\<lparr>wcount := 0, waiting := replicate 10 0\<rparr>) s
                     in Some (Returned OK, nrestore im s)))
        })"

definition arpFree :: "nat option \<Rightarrow> net \<Rightarrow> (int call \<times> net) option" where
  "arpFree entry s =
     (case entry of None \<Rightarrow> Some (Returned SYSERR, s)
      | Some e \<Rightarrow> do {
          (r, s) \<leftarrow> (if ar_state (arptab s ! e) = ARP_UNRESOLVED then arpNotify entry TIMEOUT s
                      else Some (Returned OK, s));
          (case r of Switched \<Rightarrow> Some (Switched, s)
           | Returned _ \<Rightarrow> Some (Returned OK, arwr e (\<lambda>_. zero_arp) s))
        })"

fun arp_get :: "nat list \<Rightarrow> netaddr \<Rightarrow> net \<Rightarrow> (nat option call \<times> net) option" where
  "arp_get [] praddr s = Some (Returned None, s)"
| "arp_get (i # is) praddr s =
     (if ar_state (arptab s ! i) = ARP_FREE then arp_get is praddr s
      else if expires (arptab s ! i) < clktime (nkern s)
      then do {
        (r, s) \<leftarrow> arpFree (Some i) s;
        (case r of Switched \<Rightarrow> Some (Switched, s) | Returned _ \<Rightarrow> arp_get is praddr s)
      }
      else do {
        eq \<leftarrow> netaddrequal (ar_praddr (arptab s ! i)) praddr;
        if eq then Some (Returned (Some i), s) else arp_get is praddr s
      })"

definition arpGetEntry :: "netaddr \<Rightarrow> net \<Rightarrow> (nat option call \<times> net) option" where
  "arpGetEntry praddr s = do {
     let (im, s) = ndisable s;
     (r, s) \<leftarrow> arp_get [0..<ARP_NENTRY] praddr s;
     (case r of Switched \<Rightarrow> Some (Switched, s) | Returned e \<Rightarrow> Some (Returned e, nrestore im s))
   }"

definition arpInit_rest :: "u32 \<Rightarrow> u32 \<Rightarrow> int \<Rightarrow> net \<Rightarrow> (int call \<times> net) option" where
  "arpInit_rest initret daemon box s =
     (let s = s\<lparr>arpqueue := box\<rparr> in
      if box = SYSERR then Some (Returned SYSERR, s)
      else do {
        (tid, s) \<leftarrow> kcall (create initret daemon 4096 30 ''arpDaemon'' []) s;
        (_, s) \<leftarrow> kcall (ready tid False) s;
        Some (Returned OK, s)
      })"

definition arpInit :: "u32 \<Rightarrow> u32 \<Rightarrow> net \<Rightarrow> (int call \<times> net) option" where
  "arpInit initret daemon s = do {
     let s = s\<lparr>arptab := replicate ARP_NENTRY zero_arp\<rparr>;
     (r, s) \<leftarrow> kcall (mailboxAlloc 32) s;
     (case r of Switched \<Rightarrow> Some (Switched, s) | Returned box \<Rightarrow> arpInit_rest initret daemon box s)
   }"

section \<open>Sending\<close>

text \<open>
  The two halves of \<^verbatim>\<open>netSend\<close>: the space for the Ethernet header with its type and source (none when the
  packet has no interface that is up), and the destination and the device.
\<close>

definition netSend_head :: "u32 \<Rightarrow> u16 \<Rightarrow> net \<Rightarrow> (nat option \<times> net) option" where
  "netSend_head pkt ty s =
     (if pkt = 0 then Some (None, s)
      else case p_nif (packets s pkt) of
        None \<Rightarrow> Some (None, s)
      | Some n \<Rightarrow>
          if length (netiftab s) \<le> n then None
          else if if_state (netiftab s ! n) \<noteq> NET_ALLOC then Some (None, s)
          else do {
            let nif = netiftab s ! n;
            let s = pktwr pkt (\<lambda>p. p\<lparr>curr := curr p - linkhdrlen nif, p_len := p_len p + linkhdrlen nif\<rparr>) s;
            let ether = curr (packets s pkt);
            src \<leftarrow> take_arr (nlen (if_hwaddr nif)) (naddr (if_hwaddr nif));
            let m = st16 (ether + 12) (ucast (hs2net (ucast ty))) (pb s);
            Some (Some n, s\<lparr>pb := put (ether + 6) src m\<rparr>)
          })"

definition netSend_tail :: "u32 \<Rightarrow> nat \<Rightarrow> netaddr \<Rightarrow> net \<Rightarrow> (int \<times> net) option" where
  "netSend_tail pkt n hw s = do {
     dst \<leftarrow> take_arr (nlen hw) (naddr hw);
     let p = packets s pkt;
     let s = s\<lparr>pb := put (curr p) dst (pb s)\<rparr>;
     let frame = get (curr p) (unat (p_len p)) (pb s);
     let dev = if_dev (netiftab s ! n);
     let s = s\<lparr>wire := wire s @ [(dev, frame)]\<rparr>;
     Some (if devwrite s dev frame = SYSERR then SYSERR else OK, s)
   }"

text \<open>\<^verbatim>\<open>netSend\<close> with a hardware address.\<close>

definition netSend_hw :: "u32 \<Rightarrow> netaddr \<Rightarrow> u16 \<Rightarrow> net \<Rightarrow> (int \<times> net) option" where
  "netSend_hw pkt hw ty s = do {
     (n, s) \<leftarrow> netSend_head pkt ty s;
     (case n of None \<Rightarrow> Some (SYSERR, s) | Some n \<Rightarrow> netSend_tail pkt n hw s)
   }"

text \<open>
  The header of an ARP packet: types, lengths and the operation, then the addresses of the sender
  and of the target. \<^verbatim>\<open>arpSendRqst\<close> leaves the hardware address of the target as it is, zero.
\<close>

definition arpSendRqst_fill :: "u32 \<Rightarrow> nat \<Rightarrow> netaddr \<Rightarrow> net \<Rightarrow> net option" where
  "arpSendRqst_fill pkt n praddr s = do {
     let nif = netiftab s ! n;
     let len = 8 + ucast (nlen (if_hwaddr nif)) * 2 + ucast (nlen (if_ip nif)) * 2;
     let s = pktwr pkt (\<lambda>p. p\<lparr>p_nif := Some n, p_len := len, curr := curr p - len\<rparr>) s;
     let arp = curr (packets s pkt);
     let hwalen = nlen (if_hwaddr nif);
     let pralen = nlen (if_ip nif);
     let m = st16 arp (ucast (hs2net (ucast (ntype (if_hwaddr nif))))) (pb s);
     let m = st16 (arp + 2) (ucast (hs2net (ucast (ntype (if_ip nif))))) m;
     let m = m(arp + 4 := hwalen, arp + 5 := pralen);
     let m = st16 (arp + 6) (ucast (hs2net 1)) m;
     sha \<leftarrow> take_arr hwalen (naddr (if_hwaddr nif));
     spa \<leftarrow> take_arr pralen (naddr (if_ip nif));
     dpa \<leftarrow> take_arr pralen (naddr praddr);
     let m = put (arp + 8) sha m;
     let m = put (arp + 8 + ucast hwalen) spa m;
     let m = put (arp + 8 + (2 * ucast hwalen + ucast pralen)) dpa m;
     Some (s\<lparr>pb := m\<rparr>)
   }"

definition arpSendRqst :: "nat option \<Rightarrow> net \<Rightarrow> (int call \<times> net) option" where
  "arpSendRqst entry s =
     (case entry of None \<Rightarrow> Some (Returned SYSERR, s)
      | Some e \<Rightarrow> do {
          nif \<leftarrow> ar_nif (arptab s ! e);
          (r, s) \<leftarrow> netGetbuf s;
          (case r of Switched \<Rightarrow> Some (Switched, s)
           | Returned pkt \<Rightarrow>
               if pkt = -1 then Some (Returned SYSERR, s)
               else if length (netiftab s) \<le> nif then None
               else do {
                 s \<leftarrow> arpSendRqst_fill pkt nif (ar_praddr (arptab s ! e)) s;
                 (result, s) \<leftarrow> netSend_hw pkt (if_hwbrc (netiftab s ! nif)) ETHER_TYPE_ARP s;
                 (r, s) \<leftarrow> netFreebuf pkt s;
                 if r = SYSERR then Some (Returned SYSERR, s) else Some (Returned result, s)
               })
        })"

section \<open>Lookup\<close>

text \<open>The new entry of \<^verbatim>\<open>arpLookup\<close>; the caller has masked the interrupts.\<close>

definition arp_unresolved :: "nat \<Rightarrow> netaddr \<Rightarrow> nat \<Rightarrow> net \<Rightarrow> net" where
  "arp_unresolved nif praddr e s =
     arwr e (\<lambda>a. a\<lparr>ar_state := ARP_UNRESOLVED, ar_nif := Some nif, ar_praddr := praddr,
       expires := clktime (nkern s) + 5, wcount := 0\<rparr>) s"

text \<open>
  One pass of the loop up to the answer: the hardware address when the entry is resolved, or the
  message that \<^verbatim>\<open>recvtime\<close> returns. The first is returned without restoring the interrupts.
\<close>

datatype lookup = Found netaddr | Fail | Answer message

definition arp_wait :: "nat \<Rightarrow> irqmask \<Rightarrow> net \<Rightarrow> (lookup call \<times> net) option" where
  "arp_wait e im s =
     (let a = arptab s ! e in
      if wcount a \<ge> ARP_NTHRWAIT then Some (Returned Fail, nrestore im s)
      else if wcount a < 0 \<or> int (length (waiting a)) \<le> wcount a then None
      else do {
        let s = arwr e (\<lambda>a. a\<lparr>waiting := (waiting a)[nat (wcount a) := gettid (nkern s)], wcount := wcount a + 1\<rparr>) s;
        let ttl = sint ((expires (arptab s ! e) - clktime (nkern s)) * CLKTICKS_PER_SEC);
        let s = nrestore im s;
        (r, s) \<leftarrow> arpSendRqst (Some e) s;
        (case r of Switched \<Rightarrow> Some (Switched, s)
         | Returned r \<Rightarrow>
             if r = SYSERR then Some (Returned Fail, s)
             else do {
               (_, s) \<leftarrow> kcall recvclr s;
               (r, s) \<leftarrow> kcall (recvtime ttl) s;
               (case r of Switched \<Rightarrow> Some (Switched, s) | Returned m \<Rightarrow> Some (Returned (Answer m), s))
             })
      })"

definition arp_try :: "nat \<Rightarrow> netaddr \<Rightarrow> net \<Rightarrow> (lookup call \<times> net) option" where
  "arp_try nif praddr s = do {
     let (im, s) = ndisable s;
     (r, s) \<leftarrow> arpGetEntry praddr s;
     (case r of Switched \<Rightarrow> Some (Switched, s)
      | Returned entry \<Rightarrow>
          (let (entry, s) = (case entry of
                 Some e \<Rightarrow> (Some e, s)
               | None \<Rightarrow> (case arpAlloc s of (None, s) \<Rightarrow> (None, s)
                         | (Some e, s) \<Rightarrow> (Some e, arp_unresolved nif praddr e s)))
           in case entry of
             None \<Rightarrow> Some (Returned Fail, nrestore im s)
           | Some e \<Rightarrow>
               if ar_state (arptab s ! e) = ARP_RESOLVED then Some (Returned (Found (ar_hwaddr (arptab s ! e))), s)
               else arp_wait e im s))
   }"

text \<open>The loop with the number of attempts left, and what follows when \<^verbatim>\<open>recvtime\<close> has answered.\<close>

fun arpLookup_loop :: "nat \<Rightarrow> nat \<Rightarrow> netaddr \<Rightarrow> net \<Rightarrow> ((int \<times> netaddr option) call \<times> net) option" where
  "arpLookup_loop 0 nif praddr s = Some (Returned (SYSERR, None), s)"
| "arpLookup_loop (Suc k) nif praddr s = do {
     (r, s) \<leftarrow> arp_try nif praddr s;
     (case r of Switched \<Rightarrow> Some (Switched, s)
      | Returned (Found hw) \<Rightarrow> Some (Returned (OK, Some hw), s)
      | Returned Fail \<Rightarrow> Some (Returned (SYSERR, None), s)
      | Returned (Answer m) \<Rightarrow>
          if m = TIMEOUT \<or> m = SYSERR then Some (Returned (SYSERR, None), s)
          else arpLookup_loop k nif praddr s)
   }"

definition arpLookup_woken :: "nat \<Rightarrow> message \<Rightarrow> nat \<Rightarrow> netaddr \<Rightarrow> net \<Rightarrow> ((int \<times> netaddr option) call \<times> net) option" where
  "arpLookup_woken k m nif praddr s =
     (if m = TIMEOUT \<or> m = SYSERR then Some (Returned (SYSERR, None), s) else arpLookup_loop k nif praddr s)"

definition arpLookup :: "nat option \<Rightarrow> netaddr option \<Rightarrow> net \<Rightarrow> ((int \<times> netaddr option) call \<times> net) option" where
  "arpLookup netptr praddr s =
     (case (netptr, praddr) of
        (Some nif, Some praddr) \<Rightarrow> arpLookup_loop 5 nif praddr s
      | _ \<Rightarrow> Some (Returned (SYSERR, None), s))"

definition netSend :: "u32 \<Rightarrow> netaddr option \<Rightarrow> netaddr option \<Rightarrow> u16 \<Rightarrow> net \<Rightarrow> (int call \<times> net) option" where
  "netSend pkt hwaddr praddr ty s = do {
     (n, s) \<leftarrow> netSend_head pkt ty s;
     (case n of None \<Rightarrow> Some (Returned SYSERR, s)
      | Some n \<Rightarrow>
          (case hwaddr of
             Some hw \<Rightarrow> do { (r, s) \<leftarrow> netSend_tail pkt n hw s; Some (Returned r, s) }
           | None \<Rightarrow> do {
               (r, s) \<leftarrow> arpLookup (Some n) praddr s;
               (case r of Switched \<Rightarrow> Some (Switched, s)
                | Returned (result, hw) \<Rightarrow>
                    (case hw of None \<Rightarrow> Some (Returned result, s)
                     | Some hw \<Rightarrow> do { (r, s) \<leftarrow> netSend_tail pkt n hw s; Some (Returned r, s) }))
             }))
   }"

section \<open>Receiving\<close>

definition arpSendReply :: "u32 \<Rightarrow> net \<Rightarrow> (int \<times> net) option" where
  "arpSendReply pkt s =
     (if pkt = 0 then Some (SYSERR, s)
      else do {
        n \<leftarrow> p_nif (packets s pkt);
        if length (netiftab s) \<le> n then None
        else do {
          let nif = netiftab s ! n;
          let arp = curr (packets s pkt);
          let m = st16 (arp + 6) (ucast (hs2net 2)) (pb s);
          let hwalen = m (arp + 4);
          let pralen = m (arp + 5);
          let sha = arp + 8;
          let spa = arp + 8 + ucast hwalen;
          let dha = arp + 8 + (ucast hwalen + ucast pralen);
          let dpa = arp + 8 + (2 * ucast hwalen + ucast pralen);
          let (_, m) = memcpy dha sha (uint hwalen) m;
          let (_, m) = memcpy dpa spa (uint pralen) m;
          hw \<leftarrow> take_arr hwalen (naddr (if_hwaddr nif));
          ip \<leftarrow> take_arr pralen (naddr (if_ip nif));
          let m = put spa ip (put sha hw m);
          if unat hwalen > NET_MAX_ALEN then None
          else (let dst = \<lparr>ntype = ucast (hs2net (ucast (ld16 m arp))), nlen = hwalen,
                           naddr = get dha (unat hwalen) m @ replicate (NET_MAX_ALEN - unat hwalen) 0\<rparr>
                in netSend_hw pkt dst ETHER_TYPE_ARP (s\<lparr>pb := m\<rparr>))
        }
      })"

text \<open>One pass of the loop of \<^verbatim>\<open>arpDaemon\<close>, and what it does with the packet it has received.\<close>

definition arpDaemon_got :: "int \<Rightarrow> net \<Rightarrow> (unit call \<times> net) option" where
  "arpDaemon_got pkt s =
     (if pkt = SYSERR then Some (Returned (), s)
      else do {
        (_, s) \<leftarrow> arpSendReply (word_of_int pkt) s;
        (_, s) \<leftarrow> netFreebuf (word_of_int pkt) s;
        Some (Returned (), s)
      })"

definition arpDaemon_pass :: "net \<Rightarrow> (unit call \<times> net) option" where
  "arpDaemon_pass s = do {
     (r, s) \<leftarrow> kcall (mailboxReceive (word_of_int (arpqueue s))) s;
     (case r of Switched \<Rightarrow> Some (Switched, s) | Returned pkt \<Rightarrow> arpDaemon_got pkt s)
   }"

text \<open>The entry for the sender: the existing one is updated; \<open>Returned None\<close> when there is none.\<close>

definition arpRecv_update :: "netaddr \<Rightarrow> netaddr \<Rightarrow> net \<Rightarrow> (nat option call \<times> net) option" where
  "arpRecv_update sha spa s = do {
     (r, s) \<leftarrow> arpGetEntry spa s;
     (case r of Switched \<Rightarrow> Some (Switched, s)
      | Returned None \<Rightarrow> Some (Returned None, s)
      | Returned (Some e) \<Rightarrow> do {
          let s = arwr e (\<lambda>a. a\<lparr>ar_hwaddr := sha, expires := clktime (nkern s) + 300\<rparr>) s;
          if ar_state (arptab s ! e) = ARP_UNRESOLVED
          then do {
            let s = arwr e (ar_state_update (\<lambda>_. ARP_RESOLVED)) s;
            (r, s) \<leftarrow> arpNotify (Some e) 1 s;
            (case r of Switched \<Rightarrow> Some (Switched, s) | Returned _ \<Rightarrow> Some (Returned (Some e), s))
          }
          else Some (Returned (Some e), s)
        })
   }"

text \<open>The part for packets that ask for or tell the address of the interface.\<close>

definition arpRecv_mine :: "u32 \<Rightarrow> irqmask \<Rightarrow> nat option \<Rightarrow> netaddr \<Rightarrow> netaddr \<Rightarrow> net \<Rightarrow> (int call \<times> net) option" where
  "arpRecv_mine pkt im entry sha spa s =
     (let (entry, s) = (case entry of
            Some e \<Rightarrow> (Some e, s)
          | None \<Rightarrow> (case arpAlloc s of (None, s) \<Rightarrow> (None, s)
                    | (Some e, s) \<Rightarrow> (Some e, arwr e (\<lambda>a. a\<lparr>ar_state := ARP_RESOLVED, ar_nif := p_nif (packets s pkt),
                         ar_hwaddr := sha, ar_praddr := spa, expires := clktime (nkern s) + 300\<rparr>) s)))
      in case entry of
        None \<Rightarrow> do { (_, s) \<leftarrow> netFreebuf pkt (nrestore im s); Some (Returned SYSERR, s) }
      | Some e \<Rightarrow>
          if hs2net (ucast (ld16 (pb s) (curr (packets s pkt) + 6))) = 1
          then do {
            (n, s) \<leftarrow> kcall (\<lambda>k. Some (mailboxCount (word_of_int (arpqueue s)) k)) s;
            if n \<ge> 32 then do { (_, s) \<leftarrow> netFreebuf pkt (nrestore im s); Some (Returned SYSERR, s) }
            else do {
              (r, s) \<leftarrow> kcall (mailboxSend (word_of_int (arpqueue s)) (sint pkt)) s;
              (case r of Switched \<Rightarrow> Some (Switched, s) | Returned _ \<Rightarrow> Some (Returned OK, nrestore im s))
            }
          }
          else do { (_, s) \<leftarrow> netFreebuf pkt (nrestore im s); Some (Returned OK, s) })"

definition arpRecv :: "u32 \<Rightarrow> net \<Rightarrow> (int call \<times> net) option" where
  "arpRecv pkt s =
     (if pkt = 0 then Some (Returned SYSERR, s)
      else do {
        let s = pktwr pkt (\<lambda>p. p\<lparr>nethdr := curr p\<rparr>) s;
        let arp = curr (packets s pkt);
        (case p_nif (packets s pkt) of
           None \<Rightarrow> do { (_, s) \<leftarrow> netFreebuf pkt s; Some (Returned SYSERR, s) }
         | Some n \<Rightarrow>
             if arp = 0 \<or> hs2net (ucast (ld16 (pb s) arp)) \<noteq> 1 \<or> pb s (arp + 4) \<noteq> ETH_ADDR_LEN
                \<or> hs2net (ucast (ld16 (pb s) (arp + 2))) \<noteq> ucast ETHER_TYPE_IPv4 \<or> pb s (arp + 5) \<noteq> IPv4_ADDR_LEN
             then do { (_, s) \<leftarrow> netFreebuf pkt s; Some (Returned SYSERR, s) }
             else if length (netiftab s) \<le> n then None
             else do {
               let sha = \<lparr>ntype = NETADDR_ETHERNET, nlen = ETH_ADDR_LEN, naddr = get (arp + 8) 6 (pb s)\<rparr>;
               let spa = \<lparr>ntype = NETADDR_IPv4, nlen = IPv4_ADDR_LEN, naddr = get (arp + 14) 4 (pb s) @ [0, 0]\<rparr>;
               let dpa = \<lparr>ntype = NETADDR_IPv4, nlen = IPv4_ADDR_LEN, naddr = get (arp + 24) 4 (pb s) @ [0, 0]\<rparr>;
               let (im, s) = ndisable s;
               (r, s) \<leftarrow> arpRecv_update sha spa s;
               (case r of Switched \<Rightarrow> Some (Switched, s)
                | Returned entry \<Rightarrow> do {
                    mine \<leftarrow> netaddrequal (if_ip (netiftab s ! n)) dpa;
                    if mine then arpRecv_mine pkt im entry sha spa s
                    else do { (_, s) \<leftarrow> netFreebuf pkt (nrestore im s); Some (Returned OK, s) }
                  })
             })
      })"

section \<open>The entry of an address\<close>

definition arp_entry_ok :: "arpEntry \<Rightarrow> bool" where
  "arp_entry_ok e \<longleftrightarrow> netaddr_ok (ar_praddr e) \<and> netaddr_ok (ar_hwaddr e) \<and> length (waiting e) = 10
     \<and> 0 \<le> wcount e \<and> wcount e \<le> ARP_NTHRWAIT"

definition arp_ok :: "net \<Rightarrow> bool" where
  "arp_ok s \<longleftrightarrow> length (arptab s) = ARP_NENTRY \<and> (\<forall>e\<in>set (arptab s). arp_entry_ok e)"

text \<open>No entry has expired.\<close>

definition arp_fresh :: "net \<Rightarrow> bool" where
  "arp_fresh s \<longleftrightarrow> (\<forall>e\<in>set (arptab s). ar_state e \<noteq> ARP_FREE \<longrightarrow> clktime (nkern s) \<le> expires e)"

definition arp_match :: "netaddr \<Rightarrow> arpEntry \<Rightarrow> bool" where
  "arp_match a e \<longleftrightarrow> ar_state e \<noteq> ARP_FREE \<and> same_addr (ar_praddr e) a"

definition arp_index :: "netaddr \<Rightarrow> net \<Rightarrow> nat option" where
  "arp_index a s = find (\<lambda>i. arp_match a (arptab s ! i)) [0..<ARP_NENTRY]"

abbreviation masked_off :: "net \<Rightarrow> net" where
  "masked_off s \<equiv> s\<lparr>nkern := (nkern s)\<lparr>imask := (imask (nkern s))\<lparr>irqen := 0x80\<rparr>\<rparr>\<rparr>"

abbreviation restored :: "net \<Rightarrow> net" where
  "restored s \<equiv> s\<lparr>nkern := (nkern s)\<lparr>imask := norm_mask (imask (nkern s))\<rparr>\<rparr>"

lemma arp_get_find:
  assumes "arp_ok s" "arp_fresh s" "netaddr_ok a" "set is \<subseteq> {..<ARP_NENTRY}"
  shows "arp_get is a s = Some (Returned (find (\<lambda>i. arp_match a (arptab s ! i)) is), s)"
  using assms(4)
proof (induction "is")
  case (Cons i "is")
  then have e: "arptab s ! i \<in> set (arptab s)" using assms(1) by (auto simp: arp_ok_def)
  then have "netaddrequal (ar_praddr (arptab s ! i)) a = Some (same_addr (ar_praddr (arptab s ! i)) a)"
    using assms(1,3) by (intro netaddrequal_ok) (auto simp: arp_ok_def arp_entry_ok_def)
  moreover have "ar_state (arptab s ! i) \<noteq> ARP_FREE \<Longrightarrow> \<not> expires (arptab s ! i) < clktime (nkern s)"
    using assms(2) e by (auto simp: arp_fresh_def not_less)
  ultimately show ?case using Cons by (auto simp: arp_match_def)
qed simp

lemma arp_ok_kern [simp]: "arp_ok (s\<lparr>nkern := k\<rparr>) = arp_ok s"
  by (simp add: arp_ok_def)

lemma arp_index_kern [simp]: "arp_index a (s\<lparr>nkern := k\<rparr>) = arp_index a s"
  by (simp add: arp_index_def del: upt_rec_numeral)

lemma norm_mask_off [simp]: "norm_mask (im\<lparr>irqen := 0x80\<rparr>) = im\<lparr>irqen := 0x80\<rparr>"
  by (simp add: norm_mask_def)

lemma arpGetEntry_find:
  assumes "arp_ok s" "arp_fresh s" "netaddr_ok a"
  shows "arpGetEntry a s = Some (Returned (arp_index a s), restored s)"
proof -
  have "arp_fresh (masked_off s)" using assms(2) by (simp add: arp_fresh_def)
  then show ?thesis using arp_get_find [of "masked_off s" a "[0..<ARP_NENTRY]"] assms
    by (simp add: arpGetEntry_def nirq_simps arp_index_def atLeast0LessThan del: upt_rec_numeral)
qed

lemma find_Some_least:
  assumes "find P [0..<n] = Some i" shows "i < n \<and> P i \<and> (\<forall>j<i. \<not> P j)"
proof -
  from assms [unfolded find_Some_iff] obtain k where "k < n" "P k" "i = k" "\<forall>j<k. \<not> P ([0..<n] ! j)" by auto
  then show ?thesis by auto
qed

text \<open>A lookup that finds a resolved entry answers at once, and leaves the interrupts off.\<close>

lemma arpLookup_hit:
  assumes "arp_ok s" "arp_fresh s" "netaddr_ok a" "arp_index a s = Some e" "ar_state (arptab s ! e) = ARP_RESOLVED"
  shows "arpLookup (Some n) (Some a) s = Some (Returned (OK, Some (ar_hwaddr (arptab s ! e))), masked_off s)"
proof -
  have "arp_fresh (masked_off s)" using assms(2) by (simp add: arp_fresh_def)
  then have "arpGetEntry a (masked_off s) = Some (Returned (Some e), masked_off s)"
    using arpGetEntry_find [of "masked_off s" a] assms by simp
  then have "arp_try n a s = Some (Returned (Found (ar_hwaddr (arptab s ! e))), masked_off s)"
    using assms(5) by (simp add: arp_try_def nirq_simps)
  then show ?thesis by (simp add: arpLookup_def numeral_eq_Suc)
qed

section \<open>The entry that is given up\<close>

lemma arp_scan_spec:
  assumes "\<forall>b. mn = Some b \<longrightarrow> ar_state (tab ! b) \<noteq> ARP_FREE"
  shows "case arp_scan tab is mn of
      Inl i \<Rightarrow> i \<in> set is \<and> ar_state (tab ! i) = ARP_FREE
    | Inr None \<Rightarrow> is = [] \<and> mn = None
    | Inr (Some i) \<Rightarrow> (mn = Some i \<or> i \<in> set is) \<and> (\<forall>j\<in>set is. ar_state (tab ! j) \<noteq> ARP_FREE \<and> expires (tab ! i) \<le> expires (tab ! j))
        \<and> (\<forall>b. mn = Some b \<longrightarrow> expires (tab ! i) \<le> expires (tab ! b))"
  using assms
proof (induction "is" arbitrary: mn)
  case Nil
  then show ?case by (auto split: option.split)
next
  case (Cons i "is")
  define mn' where "mn' = (case mn of None \<Rightarrow> Some i | Some j \<Rightarrow> if expires (tab ! i) < expires (tab ! j) then Some i else Some j)"
  show ?case
  proof (cases "ar_state (tab ! i) = ARP_FREE")
    case False
    then have "\<forall>b. mn' = Some b \<longrightarrow> ar_state (tab ! b) \<noteq> ARP_FREE" using Cons.prems by (auto simp: mn'_def split: option.splits)
    from Cons.IH [OF this] False show ?thesis
      by (auto simp: mn'_def split: sum.splits option.splits if_splits)
  qed simp
qed

lemma arpAlloc_cases:
  assumes "length (arptab s) = ARP_NENTRY"
  obtains (free) i where "i < ARP_NENTRY" "ar_state (arptab s ! i) = ARP_FREE"
      "arpAlloc s = (Some i, s\<lparr>arptab := (arptab s)[i := (arptab s ! i)\<lparr>ar_state := ARP_UNRESOLVED\<rparr>]\<rparr>)"
  | (old) i where "i < ARP_NENTRY" "\<forall>j<ARP_NENTRY. ar_state (arptab s ! j) \<noteq> ARP_FREE \<and> expires (arptab s ! i) \<le> expires (arptab s ! j)"
      "arpAlloc s = (Some i, s\<lparr>arptab := (arptab s)[i := zero_arp\<lparr>ar_state := ARP_UNRESOLVED\<rparr>]\<rparr>)"
proof -
  note sp = arp_scan_spec [of None "arptab s" "[0..<ARP_NENTRY]"]
  show thesis
  proof (cases "arp_scan (arptab s) [0..<ARP_NENTRY] None")
    case (Inl i)
    then show thesis using sp by (intro free [of i]) (auto simp: arpAlloc_def arwr_def simp del: upt_rec_numeral)
  next
    case (Inr r)
    then obtain i where "r = Some i" using sp by (cases r) auto
    then show thesis using sp Inr by (intro old [of i]) (auto simp: arpAlloc_def arwr_def simp del: upt_rec_numeral)
  qed
qed

section \<open>Telling the waiting threads\<close>

text \<open>
  \<open>sent_only k k'\<close>: what messages to other threads leave as it is, the tables that the network relies on and the
  messages that threads have already.
\<close>

definition sent_only :: "kernel \<Rightarrow> kernel \<Rightarrow> bool" where
  "sent_only k k' \<longleftrightarrow> semtab k' = semtab k \<and> bfptab k' = bfptab k \<and> mem k' = mem k \<and> clktime k' = clktime k
     \<and> (\<forall>t. hasmsg (thrtab k t) \<longrightarrow> hasmsg (thrtab k' t) \<and> msg (thrtab k' t) = msg (thrtab k t))"

definition has_message :: "tid_typ \<Rightarrow> message \<Rightarrow> kernel \<Rightarrow> bool" where
  "has_message t m k \<longleftrightarrow> hasmsg (thrtab k t) \<and> msg (thrtab k t) = m"

lemma sent_only_refl [simp]: "sent_only k k"
  by (simp add: sent_only_def)

lemma sent_only_imask [simp]: "sent_only (k\<lparr>imask := i\<rparr>) k' = sent_only k k'" "sent_only k (k'\<lparr>imask := i\<rparr>) = sent_only k k'"
  by (simp_all add: sent_only_def)

lemma sent_only_trans: "sent_only a b \<Longrightarrow> sent_only b c \<Longrightarrow> sent_only a c"
  by (simp add: sent_only_def)

lemma sent_only_message: "sent_only k k' \<Longrightarrow> has_message t m k \<Longrightarrow> has_message t m k'"
  by (simp add: sent_only_def has_message_def)

lemma same_entry_message: "same_entry (thrtab k t) (thrtab k' t) \<Longrightarrow> has_message t m k' = has_message t m k"
  unfolding same_entry_def has_message_def by (cases "thrtab k t"; cases "thrtab k' t") simp

lemma deliver_only:
  assumes r: "made_ready t ((deposited t m k)\<lparr>quetab := qt\<rparr>) (k1\<lparr>imask := i\<rparr>)" and d: "dispatched k1 k'" and h: "\<not> hasmsg (thrtab k t)"
  shows "sent_only k k' \<and> has_message t m k'"
proof -
  have k1: "thrtab k1 = (thrtab (deposited t m k))(t := (thrtab (deposited t m k) t)\<lparr>tstate := THRREADY\<rparr>)"
    "semtab k1 = semtab k" "bfptab k1 = bfptab k" "mem k1 = mem k" "clktime k1 = clktime k"
    using made_ready_globals [OF r] by (simp_all add: deposited_def)
  have e: "same_entry (thrtab k1 u) (thrtab k' u)" for u using d by (simp add: dispatched_def)
  have "hasmsg (thrtab k' u) = hasmsg (thrtab k1 u) \<and> msg (thrtab k' u) = msg (thrtab k1 u)" for u
    using e [of u] unfolding same_entry_def by (cases "thrtab k1 u"; cases "thrtab k' u") simp
  then show ?thesis using dispatched_globals [OF d] k1 h by (auto simp: sent_only_def has_message_def deposited_def)
qed

lemma send_only:
  assumes k: "kinv k"
  shows "\<exists>r k'. send t m k = Some (r, k') \<and> kinv k' \<and> sent_only k k'
     \<and> (\<not> isbadtid t k \<and> \<not> hasmsg (thrtab k t) \<longrightarrow> r = OK \<and> has_message t m k')"
proof -
  consider (bad) "isbadtid t k \<or> hasmsg (thrtab k t)"
    | (run) "\<not> isbadtid t k" "\<not> hasmsg (thrtab k t)" "tstate (thrtab k t) \<notin> {THRRECV, THRTMOUT}"
    | (recv) "\<not> isbadtid t k" "\<not> hasmsg (thrtab k t)" "tstate (thrtab k t) = THRRECV"
    | (tmout) "\<not> isbadtid t k" "\<not> hasmsg (thrtab k t)" "tstate (thrtab k t) = THRTMOUT" by blast
  then show ?thesis
  proof cases
    case bad
    then show ?thesis using send_error [of t k m] k by auto
  next
    case run
    have "sent_only k (deposited t m k)" "has_message t m (deposited t m k)"
      using run by (simp_all add: sent_only_def has_message_def deposited_def)
    then show ?thesis using send_running [OF run, of m] kinv_deposited [OF k] by (simp add: has_message_def)
  next
    case recv
    from send_wakes [OF k recv, of m] obtain k1 k' where k': "send t m k = Some (OK, k')" "kinv k'"
      "made_ready t (deposited t m k) (k1\<lparr>imask := imask k\<rparr>)" "dispatched k1 k'" by blast
    have q: "(deposited t m k)\<lparr>quetab := quetab (deposited t m k)\<rparr> = deposited t m k" by simp
    have "made_ready t ((deposited t m k)\<lparr>quetab := quetab (deposited t m k)\<rparr>) (k1\<lparr>imask := imask k\<rparr>)" unfolding q by (rule k'(3))
    then show ?thesis using deliver_only [OF _ k'(4) recv(2)] k'(1,2) by blast
  next
    case tmout
    from send_times_out [OF k tmout, of m] obtain qt k1 k' where k': "send t m k = Some (OK, k')" "kinv k'"
      "made_ready t ((deposited t m k)\<lparr>quetab := qt\<rparr>) (k1\<lparr>imask := imask k\<rparr>)" "dispatched k1 k'" by blast
    then show ?thesis using deliver_only [OF k'(3,4) tmout(2)] by blast
  qed
qed

text \<open>\<open>told\<close>: the first of the waiting threads has the message, if it could take one.\<close>

definition told :: "nat \<Rightarrow> tid_typ \<Rightarrow> message \<Rightarrow> kernel \<Rightarrow> kernel \<Rightarrow> bool" where
  "told n t m k k' \<longleftrightarrow> (0 < n \<and> \<not> isbadtid t k \<and> \<not> hasmsg (thrtab k t) \<longrightarrow> has_message t m k')"

lemma notify_from_ok:
  assumes "kinv (nkern s)" "i + n \<le> length (waiting (arptab s ! e))"
  shows "\<exists>r k. notify_from n i e m s = Some (r, s\<lparr>nkern := k\<rparr>) \<and> kinv k \<and> sent_only (nkern s) k
     \<and> told n (waiting (arptab s ! e) ! i) m (nkern s) k"
  using assms
proof (induction n arbitrary: i s)
  case (Suc n)
  let ?t = "waiting (arptab s ! e) ! i"
  obtain r k where k: "send ?t m (nkern s) = Some (r, k)" "kinv k" "sent_only (nkern s) k"
    "\<not> isbadtid ?t (nkern s) \<and> \<not> hasmsg (thrtab (nkern s) ?t) \<longrightarrow> has_message ?t m k" using send_only [OF Suc.prems(1)] by blast
  have td: "told (Suc n) ?t m (nkern s) k'" if "sent_only k k'" for k' using k(4) sent_only_message [OF that] by (simp add: told_def)
  obtain r' k' where k': "notify_from n (Suc i) e m (s\<lparr>nkern := k\<rparr>) = Some (r', s\<lparr>nkern := k'\<rparr>)" "kinv k'" "sent_only k k'"
    using Suc.IH [of "s\<lparr>nkern := k\<rparr>" "Suc i"] k(2) Suc.prems(2) by auto
  have "notify_from (Suc n) i e m s = Some (if thrcurrent k \<noteq> thrcurrent (nkern s) then (Switched, s\<lparr>nkern := k\<rparr>)
      else if r = SYSERR then (Returned SYSERR, s\<lparr>nkern := k\<rparr>) else (r', s\<lparr>nkern := k'\<rparr>))"
    using k(1) k'(1) Suc.prems(2) by (simp add: kcall_def)
  moreover have "kinv k \<and> sent_only (nkern s) k \<and> told (Suc n) ?t m (nkern s) k" using k(2,3) td [of k] by simp
  moreover have "kinv k' \<and> sent_only (nkern s) k' \<and> told (Suc n) ?t m (nkern s) k'"
    using k'(2,3) td [of k'] sent_only_trans [OF k(3)] by simp
  ultimately show ?case by (cases "thrcurrent k \<noteq> thrcurrent (nkern s)"; cases "r = SYSERR") (simp only: if_True if_False simp_thms, blast)+
next
  case 0
  then show ?case by (intro exI [of _ "Returned OK"] exI [of _ "nkern s"]) (simp add: told_def)
qed

lemma arpNotify_ok:
  assumes k: "kinv (nkern s)" and e: "arp_entry_ok (arptab s ! e)" "e < length (arptab s)"
  shows "\<exists>r k a. arpNotify (Some e) m s = Some (r, s\<lparr>nkern := k, arptab := (arptab s)[e := a]\<rparr>) \<and> kinv k \<and> sent_only (nkern s) k
     \<and> told (nat (wcount (arptab s ! e))) (waiting (arptab s ! e) ! 0) m (nkern s) k
     \<and> (a = arptab s ! e \<or> a = (arptab s ! e)\<lparr>wcount := 0, waiting := replicate 10 0\<rparr>)"
proof -
  let ?n = "nat (wcount (arptab s ! e))" and ?t = "waiting (arptab s ! e) ! 0"
  obtain r k where k: "notify_from ?n 0 e m (masked_off s) = Some (r, s\<lparr>nkern := k\<rparr>)" "kinv k" "sent_only (nkern s) k"
    "told ?n ?t m (nkern s) k"
  proof -
    have "?n \<le> length (waiting (arptab s ! e))" using e(1) by (auto simp: arp_entry_ok_def)
    then show thesis using that notify_from_ok [of "masked_off s" 0 ?n e m] k by (auto simp: told_def isbadtid_def)
  qed
  have r: "told ?n ?t m (nkern s) (k\<lparr>imask := j\<rparr>)" for j using k(4) by (simp add: told_def has_message_def)
  show ?thesis
  proof (cases "\<exists>v. r = Returned v \<and> v \<noteq> SYSERR")
    case True
    then have "arpNotify (Some e) m s = Some (Returned OK, s\<lparr>nkern := k\<lparr>imask := norm_mask (imask (nkern s))\<rparr>,
        arptab := (arptab s)[e := (arptab s ! e)\<lparr>wcount := 0, waiting := replicate 10 0\<rparr>]\<rparr>)"
      using k(1) by (auto simp: arpNotify_def nirq_simps arwr_def)
    then show ?thesis using k(2,3) r by (intro exI conjI) (assumption | simp)+
  next
    case False
    then have "\<exists>r' j. arpNotify (Some e) m s = Some (r', s\<lparr>nkern := k\<lparr>imask := j\<rparr>, arptab := (arptab s)[e := arptab s ! e]\<rparr>)"
      using k(1) by (cases r) (auto simp: arpNotify_def nirq_simps list_update_id intro: exI [of _ "imask k"])
    then obtain r' j where "arpNotify (Some e) m s = Some (r', s\<lparr>nkern := k\<lparr>imask := j\<rparr>, arptab := (arptab s)[e := arptab s ! e]\<rparr>)" by blast
    then show ?thesis using k(2,3) r by (intro exI conjI) (assumption | simp)+
  qed
qed

section \<open>Learning an address\<close>

text \<open>\<open>arp_says s pkt op sha spa dpa\<close>: the packet is an ARP packet for Ethernet and IPv4 with these fields.\<close>

definition arp_says :: "net \<Rightarrow> u32 \<Rightarrow> u8 \<Rightarrow> u8 list \<Rightarrow> u8 list \<Rightarrow> u8 list \<Rightarrow> bool" where
  "arp_says s pkt op sha spa dpa \<longleftrightarrow> (let arp = curr (packets s pkt) in
     pkt \<noteq> 0 \<and> arp \<noteq> 0 \<and> get arp 8 (pb s) = [0, 1, 8, 0, 6, 4, 0, op]
     \<and> get (arp + 8) 6 (pb s) = sha \<and> get (arp + 14) 4 (pb s) = spa \<and> get (arp + 24) 4 (pb s) = dpa)"

definition eth :: "u8 list \<Rightarrow> netaddr" where
  "eth xs = \<lparr>ntype = NETADDR_ETHERNET, nlen = ETH_ADDR_LEN, naddr = xs\<rparr>"

lemma lookup_stored:
  assumes "arp_ok s" "i < ARP_NENTRY" "arp_entry_ok e" "ar_state e = ARP_RESOLVED" "same_addr (ar_praddr e) a" "netaddr_ok a"
    and "\<forall>j<i. \<not> arp_match a (arptab s ! j)" "arptab t = (arptab s)[i := e]" "arp_fresh t"
  shows "arpLookup n' (Some a) t = (case n' of None \<Rightarrow> Some (Returned (SYSERR, None), t)
    | Some n \<Rightarrow> Some (Returned (OK, Some (ar_hwaddr e)), masked_off t))"
proof (cases n')
  case (Some n)
  have len: "length (arptab s) = ARP_NENTRY" using assms(1) by (simp add: arp_ok_def)
  have t: "arp_ok t" using assms(1,3,8) set_update_subset_insert [of "arptab s" i e] by (auto simp: arp_ok_def)
  have ti: "arptab t ! i = e" using assms(2,8) len by simp
  have "\<not> arp_match a (arptab t ! j)" if "j < i" for j using assms(2,7,8) that by simp
  moreover have "arp_match a (arptab t ! i)" using assms(4,5) ti by (simp add: arp_match_def)
  ultimately have "arp_index a t = Some i" unfolding arp_index_def find_Some_iff
    using assms(2) by (intro exI [of _ i]) (auto simp del: upt_rec_numeral)
  then show ?thesis using arpLookup_hit [OF t assms(9,6)] assms(4) ti Some by simp
qed (simp add: arpLookup_def)

lemma arp_index_None: "arp_index a s = None \<Longrightarrow> j < ARP_NENTRY \<Longrightarrow> \<not> arp_match a (arptab s ! j)"
  by (auto simp: arp_index_def find_None_iff simp del: upt_rec_numeral)

lemma arp_saysD:
  assumes "arp_says s pkt op sha spa dpa"
  shows "pkt \<noteq> 0" "curr (packets s pkt) \<noteq> 0" "hs2net (ucast (ld16 (pb s) (curr (packets s pkt)))) = 1"
    "hs2net (ucast (ld16 (pb s) (curr (packets s pkt) + 2))) = 0x800"
    "pb s (curr (packets s pkt) + 4) = 6" "pb s (curr (packets s pkt) + 5) = 4"
    "hs2net (ucast (ld16 (pb s) (curr (packets s pkt) + 6))) = ucast op"
    "get (curr (packets s pkt) + 8) 6 (pb s) = sha" "get (curr (packets s pkt) + 14) 4 (pb s) = spa"
    "get (curr (packets s pkt) + 24) 4 (pb s) = dpa"
proof -
  define a where "a = curr (packets s pkt)"
  have g: "get a 8 (pb s) = [0, 1, 8, 0, 6, 4, 0, op]" using assms by (simp add: arp_says_def Let_def a_def)
  then have b: "pb s a = 0" "pb s (a + 1) = 1" "pb s (a + 2) = 8" "pb s (a + 3) = 0" "pb s (a + 4) = 6" "pb s (a + 5) = 4"
    "pb s (a + 6) = 0" "pb s (a + 7) = op" by (simp_all add: numeral_eq_Suc add.assoc)
  show "hs2net (ucast (ld16 (pb s) (curr (packets s pkt)))) = 1"
    "hs2net (ucast (ld16 (pb s) (curr (packets s pkt) + 2))) = 0x800"
    unfolding a_def [symmetric] using b by (simp_all add: ld16_def hs2net_def add.assoc)
  have "hs2net (ucast (ld16 (pb s) (a + 6))) = ucast op"
    using b(7,8) by (simp add: ld16_def hs2net_parts add.assoc)
      (rule bit_word_eqI, auto simp: bit_simps dest: bit_imp_le_length)
  then show "hs2net (ucast (ld16 (pb s) (curr (packets s pkt) + 6))) = ucast op" by (simp add: a_def)
  show "pb s (curr (packets s pkt) + 4) = 6" "pb s (curr (packets s pkt) + 5) = 4" using b by (simp_all add: a_def)
qed (use assms in \<open>simp_all add: arp_says_def Let_def\<close>)

lemma ip4_ok [simp]: "length xs = 4 \<Longrightarrow> netaddr_ok (ip4 xs)"
  by (simp add: ip4_def netaddr_ok_def)

lemma eth_ok [simp]: "length xs = 6 \<Longrightarrow> netaddr_ok (eth xs)"
  by (simp add: eth_def netaddr_ok_def)

lemma zero_arp_ok [simp]: "arp_entry_ok zero_arp"
  by (simp add: arp_entry_ok_def zero_arp_def)

text \<open>The table after a packet from \<open>spa\<close>: the new or updated entry is the first one for that address.\<close>

definition arp_stored :: "net \<Rightarrow> netaddr \<Rightarrow> netaddr \<Rightarrow> nat \<Rightarrow> arpEntry \<Rightarrow> bool" where
  "arp_stored s sha spa i e \<longleftrightarrow> i < ARP_NENTRY \<and> arp_entry_ok e \<and> ar_state e = ARP_RESOLVED \<and> same_addr (ar_praddr e) spa
     \<and> ar_hwaddr e = sha \<and> expires e = clktime (nkern s) + 300 \<and> (\<forall>j<i. \<not> arp_match spa (arptab s ! j))"

lemma arpRecv_update_known:
  assumes ok: "arp_ok s" "arp_fresh s" "netaddr_ok spa" "netaddr_ok sha" and im: "irqen (imask (nkern s)) = 0x80"
    and idx: "arp_index spa s = Some i" and kin: "kinv (nkern s)"
  shows "\<exists>r k e. arpRecv_update sha spa s = Some (r, s\<lparr>nkern := k, arptab := (arptab s)[i := e]\<rparr>)
     \<and> (r = Returned (Some i) \<or> r = Switched \<and> ar_state (arptab s ! i) = ARP_UNRESOLVED)
     \<and> kinv k \<and> sent_only (nkern s) k \<and> arp_stored s sha spa i e
     \<and> (ar_state (arptab s ! i) = ARP_UNRESOLVED \<longrightarrow> told (nat (wcount (arptab s ! i))) (waiting (arptab s ! i) ! 0) 1 (nkern s) k)"
proof -
  have off: "restored s = s" using im by (simp add: norm_mask_def)
  from idx have i: "i < ARP_NENTRY" "arp_match spa (arptab s ! i)" "\<forall>j<i. \<not> arp_match spa (arptab s ! j)"
    using find_Some_least [of "\<lambda>i. arp_match spa (arptab s ! i)" ARP_NENTRY i] by (simp_all add: arp_index_def del: upt_rec_numeral)
  have il: "i < length (arptab s)" "arp_entry_ok (arptab s ! i)" using ok(1) i(1) by (auto simp: arp_ok_def)
  note get = arpGetEntry_find [OF ok(1-3), unfolded off idx]
  define e where "e = (arptab s ! i)\<lparr>ar_hwaddr := sha, expires := clktime (nkern s) + 300\<rparr>"
  show ?thesis
  proof (cases "ar_state (arptab s ! i) = ARP_UNRESOLVED")
    case False
    then have "arpRecv_update sha spa s = Some (Returned (Some i), s\<lparr>nkern := nkern s, arptab := (arptab s)[i := e]\<rparr>)"
      using get il by (simp add: arpRecv_update_def arwr_def e_def)
    moreover have "ar_state (arptab s ! i) = ARP_RESOLVED"
      using False i(2) by (cases "ar_state (arptab s ! i)") (simp_all add: arp_match_def)
    then have "arp_stored s sha spa i e" using i il ok(4) by (auto simp: arp_stored_def e_def arp_entry_ok_def arp_match_def)
    ultimately show ?thesis using False kin sent_only_refl by blast
  next
    case True
    define f where "f = e\<lparr>ar_state := ARP_RESOLVED\<rparr>"
    define z where "z = s\<lparr>arptab := (arptab s)[i := f]\<rparr>"
    have f: "arp_entry_ok f" "arptab z ! i = f" "i < length (arptab z)" "nkern z = nkern s" "wcount f = wcount (arptab s ! i)"
      "waiting f = waiting (arptab s ! i)" using il ok(4) by (auto simp: f_def e_def z_def arp_entry_ok_def)
    obtain r k a where n: "arpNotify (Some i) 1 z = Some (r, z\<lparr>nkern := k, arptab := (arptab z)[i := a]\<rparr>)" "kinv k" "sent_only (nkern s) k"
      "told (nat (wcount (arptab s ! i))) (waiting (arptab s ! i) ! 0) 1 (nkern s) k"
      "a = f \<or> a = f\<lparr>wcount := 0, waiting := replicate 10 0\<rparr>"
      using arpNotify_ok [of z i 1] kin f by auto
    have "arpRecv_update sha spa s = Some (case r of Switched \<Rightarrow> Switched | Returned _ \<Rightarrow> Returned (Some i), s\<lparr>nkern := k, arptab := (arptab s)[i := a]\<rparr>)"
      using get il n(1) True by (cases r) (simp_all add: arpRecv_update_def arwr_def e_def f_def z_def)
    moreover have "arp_stored s sha spa i a" using n(5) i f(1) ok(4) by (auto simp: arp_stored_def f_def e_def arp_entry_ok_def arp_match_def)
    ultimately show ?thesis using n(2-4) True by (cases r) auto
  qed
qed

lemma arpRecv_mine_reply:
  assumes "arp_ok s" "netaddr_ok spa" "netaddr_ok sha"
    and "hs2net (ucast (ld16 (pb s) (curr (packets s pkt) + 6))) \<noteq> 1"
    and "buffree pkt (restore im (nkern s)) = Some (r, k)"
  shows "arpRecv_mine pkt im (Some i) sha spa s = Some (Returned OK, s\<lparr>nkern := k\<rparr>)"
    and "(\<And>j. j < ARP_NENTRY \<Longrightarrow> \<not> arp_match spa (arptab s ! j)) \<Longrightarrow>
      \<exists>i e. arpRecv_mine pkt im None sha spa s = Some (Returned OK, s\<lparr>nkern := k, arptab := (arptab s)[i := e]\<rparr>) \<and> arp_stored s sha spa i e"
proof -
  show "arpRecv_mine pkt im (Some i) sha spa s = Some (Returned OK, s\<lparr>nkern := k\<rparr>)"
    using assms(4,5) by (simp add: arpRecv_mine_def netFreebuf_def kcall_def nrestore_def)
next
  assume none: "\<And>j. j < ARP_NENTRY \<Longrightarrow> \<not> arp_match spa (arptab s ! j)"
  have len: "length (arptab s) = ARP_NENTRY" using assms(1) by (simp add: arp_ok_def)
  obtain i e where a: "i < ARP_NENTRY" "arpAlloc s = (Some i, s\<lparr>arptab := (arptab s)[i := e]\<rparr>)" "arp_entry_ok e"
    using len
  proof (cases rule: arpAlloc_cases)
    case (free i)
    then have "arp_entry_ok (arptab s ! i)" using assms(1) by (auto simp: arp_ok_def)
    then have "arp_entry_ok ((arptab s ! i)\<lparr>ar_state := ARP_UNRESOLVED\<rparr>)" by (simp add: arp_entry_ok_def)
    with free that show thesis by blast
  next
    case (old i)
    have "arp_entry_ok (zero_arp\<lparr>ar_state := ARP_UNRESOLVED\<rparr>)" by (simp add: arp_entry_ok_def zero_arp_def)
    with old that show thesis by blast
  qed
  define e' where "e' = e\<lparr>ar_state := ARP_RESOLVED, ar_nif := p_nif (packets s pkt), ar_hwaddr := sha, ar_praddr := spa, expires := clktime (nkern s) + 300\<rparr>"
  have "arpRecv_mine pkt im None sha spa s = Some (Returned OK, s\<lparr>nkern := k, arptab := (arptab s)[i := e']\<rparr>)"
    using assms(4,5) a len by (simp add: arpRecv_mine_def netFreebuf_def kcall_def nrestore_def arwr_def e'_def)
  moreover have "arp_stored s sha spa i e'" using a none assms(2,3) by (auto simp: arp_stored_def e'_def arp_entry_ok_def)
  ultimately show "\<exists>i e. arpRecv_mine pkt im None sha spa s = Some (Returned OK, s\<lparr>nkern := k, arptab := (arptab s)[i := e]\<rparr>) \<and> arp_stored s sha spa i e"
    by blast
qed

lemma pool_state_sent:
  "pool_state pid k xs hs \<Longrightarrow> sent_only k k' \<Longrightarrow> kinv k' \<Longrightarrow> pool_state pid (restore im k') xs hs"
  by (simp add: pool_state_def sent_only_def isbadpool_def isbadsem_def Let_def restore_eq)

text \<open>
  \<open>arp_waiter_told a s k'\<close>: when the entry for \<open>a\<close> waits for an answer, the first of its waiting threads has the message.
\<close>

definition arp_waiter_told :: "netaddr \<Rightarrow> net \<Rightarrow> kernel \<Rightarrow> bool" where
  "arp_waiter_told a s k' \<longleftrightarrow> (\<forall>i. arp_index a s = Some i \<and> ar_state (arptab s ! i) = ARP_UNRESOLVED
     \<longrightarrow> told (nat (wcount (arptab s ! i))) (waiting (arptab s ! i) ! 0) 1 (nkern s) k')"

lemma arpRecv_reply:
  assumes ok: "arp_ok s" "arp_fresh s" and msg: "arp_says s pkt 2 sha spa dpa"
    and nif: "p_nif (packets s pkt) = Some n" "n < length (netiftab s)" "netaddr_ok (if_ip (netiftab s ! n))"
      "same_addr (if_ip (netiftab s ! n)) (ip4 dpa)"
    and pool: "pool_state pid (nkern s) xs hs" "pkt - 8 \<in> set hs"
  shows "\<exists>r s' i e. arpRecv pkt s = Some (r, s') \<and> (r = Returned OK \<or> r = Switched \<and> ar_state (arptab s ! i) = ARP_UNRESOLVED)
     \<and> arptab s' = (arptab s)[i := e] \<and> arp_stored s (eth sha) (ip4 spa) i e \<and> kinv (nkern s') \<and> arp_waiter_told (ip4 spa) s (nkern s')"
proof -
  note m = arp_saysD [OF msg]
  have len: "length sha = 6" "length spa = 4" "length dpa = 4" using m(8-10) length_get by metis+
  define z where "z = masked_off (pktwr pkt (\<lambda>p. p\<lparr>nethdr := curr p\<rparr>) s)"
  have z: "arptab z = arptab s" "netiftab z = netiftab s" "pb z = pb s" "curr (packets z pkt) = curr (packets s pkt)"
    "clktime (nkern z) = clktime (nkern s)" "irqen (imask (nkern z)) = 0x80" "sent_only (nkern s) (nkern z)"
    by (simp_all add: z_def pktwr_def)
  have kz: "kinv (nkern z)" using pool_stateD(1) [OF pool(1)] by (simp add: z_def pktwr_def)
  have tz: "told n' t w (nkern z) k' = told n' t w (nkern s) k'" for n' t w k' by (simp add: told_def z_def pktwr_def isbadtid_def)
  have okz: "arp_ok z" "arp_fresh z" "arp_index (ip4 spa) z = arp_index (ip4 spa) s"
    using ok z by (simp_all add: arp_ok_def arp_fresh_def arp_index_def del: upt_rec_numeral)
  have eq: "netaddrequal (if_ip (netiftab s ! n)) (ip4 dpa) = Some True" using nif len by (simp add: netaddrequal_ok)
  have step: "arpRecv pkt s = do {
      (r, s') \<leftarrow> arpRecv_update (eth sha) (ip4 spa) z;
      (case r of Switched \<Rightarrow> Some (Switched, s')
       | Returned entry \<Rightarrow> do {
           mine \<leftarrow> netaddrequal (if_ip (netiftab s' ! n)) (ip4 dpa);
           if mine then arpRecv_mine pkt (imask (nkern s)) entry (eth sha) (ip4 spa) s'
           else do { (_, s') \<leftarrow> netFreebuf pkt (nrestore (imask (nkern s)) s'); Some (Returned OK, s') }
         })
    }"
    using m nif(1,2) by (simp add: arpRecv_def ndisable_def disable_eq z_def pktwr_def eth_def [symmetric] ip4_def [symmetric] Let_def)
  have st: "arp_stored z a b i e = arp_stored s a b i e" for a b i e by (simp add: arp_stored_def z)
  have free: "\<exists>k'. buffree pkt (restore (imask (nkern s)) k) = Some (OK, k') \<and> kinv k' \<and> (\<forall>t. has_message t 1 k \<longrightarrow> has_message t 1 k')"
    if "sent_only (nkern z) k" "kinv k" for k
  proof -
    have "sent_only (nkern s) k" using sent_only_trans [OF z(7) that(1)] .
    from buffree_law [OF pool_state_sent [OF pool(1) this that(2)] pool(2), of "imask (nkern s)"]
    obtain k' where k': "buffree pkt (restore (imask (nkern s)) k) = Some (OK, k')" "kinv k'"
      "\<forall>t. same_entry (thrtab (restore (imask (nkern s)) k) t) (thrtab k' t)" using pool_stateD(1) by auto
    have "has_message t 1 k'" if "has_message t 1 k" for t
      using same_entry_message [OF k'(3) [rule_format]] that by (simp add: restore_eq has_message_def)
    then show ?thesis using k'(1,2) by blast
  qed
  show ?thesis
  proof (cases "arp_index (ip4 spa) s")
    case None
    obtain k where k: "buffree pkt (restore (imask (nkern s)) (nkern z)) = Some (OK, k)" "kinv k" using free [OF sent_only_refl kz] by blast
    have "arpRecv_update (eth sha) (ip4 spa) z = Some (Returned None, z)"
      using arpGetEntry_find [OF okz(1,2) ip4_ok [OF len(2)]] okz(3) z(6) None by (simp add: arpRecv_update_def norm_mask_def z_def)
    moreover have "\<And>j. j < ARP_NENTRY \<Longrightarrow> \<not> arp_match (ip4 spa) (arptab z ! j)" using arp_index_None [OF None] z by simp
    then obtain i e where "arpRecv_mine pkt (imask (nkern s)) None (eth sha) (ip4 spa) z = Some (Returned OK, z\<lparr>nkern := k, arptab := (arptab z)[i := e]\<rparr>)"
      "arp_stored z (eth sha) (ip4 spa) i e"
      using arpRecv_mine_reply(2) [OF okz(1), of "ip4 spa" "eth sha" pkt "imask (nkern s)" OK k] len m(7) k(1) z by auto
    ultimately show ?thesis using step eq z(1,2) st k(2) None
      by (intro exI [of _ "Returned OK"] exI [of _ "z\<lparr>nkern := k, arptab := (arptab z)[i := e]\<rparr>"] exI [of _ i] exI [of _ e])
        (simp add: arp_waiter_told_def)
  next
    case (Some i)
    then obtain r k e where e: "arpRecv_update (eth sha) (ip4 spa) z = Some (r, z\<lparr>nkern := k, arptab := (arptab z)[i := e]\<rparr>)"
      "r = Returned (Some i) \<or> r = Switched \<and> ar_state (arptab s ! i) = ARP_UNRESOLVED" "kinv k" "sent_only (nkern z) k"
      "arp_stored z (eth sha) (ip4 spa) i e"
      "ar_state (arptab s ! i) = ARP_UNRESOLVED \<longrightarrow> told (nat (wcount (arptab s ! i))) (waiting (arptab s ! i) ! 0) 1 (nkern s) k"
      using arpRecv_update_known [OF okz(1,2), of "ip4 spa" "eth sha" i] okz(3) z(1,6) len kz by (auto simp: tz)
    have told: "arp_waiter_told (ip4 spa) s k'" if "\<forall>t. has_message t 1 k \<longrightarrow> has_message t 1 k'" for k'
      using e(6) that Some by (auto simp: arp_waiter_told_def told_def)
    let ?y = "z\<lparr>nkern := k, arptab := (arptab z)[i := e]\<rparr>"
    obtain k' where k': "buffree pkt (restore (imask (nkern s)) k) = Some (OK, k')" "kinv k'" "\<forall>t. has_message t 1 k \<longrightarrow> has_message t 1 k'"
      using free [OF e(4,3)] by blast
    have "arp_ok ?y" using okz(1) e(5) set_update_subset_insert [of "arptab z" i e] by (auto simp: arp_ok_def arp_stored_def)
    from arpRecv_mine_reply(1) [OF this, of "ip4 spa" "eth sha" pkt "imask (nkern s)" OK k' i]
    have y: "arpRecv_mine pkt (imask (nkern s)) (Some i) (eth sha) (ip4 spa) ?y = Some (Returned OK, ?y\<lparr>nkern := k'\<rparr>)"
      using len m(7) k'(1) z by simp
    from e(2) show ?thesis
    proof
      assume "r = Returned (Some i)"
      then show ?thesis using e(1,5) step eq z(1,2) st y k'(2) told [OF k'(3)]
        by (intro exI [of _ "Returned OK"] exI [of _ "?y\<lparr>nkern := k'\<rparr>"] exI [of _ i] exI [of _ e]) simp
    next
      assume "r = Switched \<and> ar_state (arptab s ! i) = ARP_UNRESOLVED"
      then show ?thesis using e(1,3,5) step z(1) st told [of k]
        by (intro exI [of _ Switched] exI [of _ ?y] exI [of _ i] exI [of _ e]) simp
    qed
  qed
qed

text \<open>C18: An ARP reply for the interface teaches the address of its sender, whether the table has no entry for it, a resolved one,
  or one that waits for this answer. Afterwards an entry of the table is resolved and holds the sender's hardware address for
  300 seconds; of the threads that wait for the answer the first one has the message, if it could take one. \<^verbatim>\<open>arpRecv\<close> returns
  \<^verbatim>\<open>OK\<close>, or has woken a waiting thread that took the processor (\<open>Switched\<close>). In every state with that table in which no entry has expired,
  \<^verbatim>\<open>arpLookup\<close> returns the sender's hardware address at once, but with the interrupts off: this
  return of \<^verbatim>\<open>arpLookup\<close> forgets to restore them. The packet is a buffer of a pool, the kernel satisfies its invariant (in \<open>pool_state\<close>),
  and no entry of the table has expired when the reply comes.\<close>

theorem arp_learns:
  assumes "arp_ok s" "arp_fresh s" and "arp_says s pkt 2 sha spa dpa"
    and "p_nif (packets s pkt) = Some n" "n < length (netiftab s)" "netaddr_ok (if_ip (netiftab s ! n))"
    and "same_addr (if_ip (netiftab s ! n)) (ip4 dpa)"
    and "pool_state pid (nkern s) xs hs" "pkt - 8 \<in> set hs"
  shows "\<exists>r s' i. arpRecv pkt s = Some (r, s') \<and> i < ARP_NENTRY
    \<and> (r = Returned OK \<or> r = Switched \<and> ar_state (arptab s ! i) = ARP_UNRESOLVED)
    \<and> arptab s' ! i = (arptab s' ! i)\<lparr>ar_state := ARP_RESOLVED, ar_hwaddr := eth sha, expires := clktime (nkern s) + 300\<rparr>
    \<and> arp_waiter_told (ip4 spa) s (nkern s') \<and> kinv (nkern s')
    \<and> (\<forall>t n. arptab t = arptab s' \<and> arp_fresh t \<longrightarrow>
         arpLookup (Some n) (Some (ip4 spa)) t = Some (Returned (OK, Some (eth sha)), masked_off t))"
proof -
  obtain r s' i e where s': "arpRecv pkt s = Some (r, s')" "r = Returned OK \<or> r = Switched \<and> ar_state (arptab s ! i) = ARP_UNRESOLVED"
    "arptab s' = (arptab s)[i := e]" "arp_stored s (eth sha) (ip4 spa) i e" "kinv (nkern s')" "arp_waiter_told (ip4 spa) s (nkern s')"
    using arpRecv_reply [OF assms] by blast
  have len: "length spa = 4" "length (arptab s) = ARP_NENTRY" using arp_saysD(9) [OF assms(3)] assms(1) length_get by (metis, simp add: arp_ok_def)
  have e: "i < ARP_NENTRY" "arp_entry_ok e" "ar_state e = ARP_RESOLVED" "same_addr (ar_praddr e) (ip4 spa)"
    "ar_hwaddr e = eth sha" "expires e = clktime (nkern s) + 300" "\<forall>j<i. \<not> arp_match (ip4 spa) (arptab s ! j)"
    using s'(4) by (simp_all add: arp_stored_def)
  have "arpLookup (Some n) (Some (ip4 spa)) t = Some (Returned (OK, Some (eth sha)), masked_off t)"
    if "arptab t = arptab s'" "arp_fresh t" for t n
    using lookup_stored [OF assms(1) e(1-4) ip4_ok [OF len(1)] e(7) _ that(2), of "Some n"] that(1) s'(3) e(5) by simp
  then show ?thesis using s' e len by (intro exI [of _ r] exI [of _ s'] exI [of _ i]) auto
qed

text \<open>
  \<^verbatim>\<open>arpNotify\<close> gives up at the first waiting thread that cannot take a message: nobody else is told, and
  the list of waiting threads stays as it is.
\<close>

lemma arpNotify_stops:
  assumes "0 < wcount (arptab s ! e)" "0 < length (waiting (arptab s ! e))"
    and "t = waiting (arptab s ! e) ! 0" "isbadtid t (nkern s) \<or> hasmsg (thrtab (nkern s) t)"
  shows "arpNotify (Some e) m s = Some (Returned SYSERR, restored s)"
proof -
  obtain k where k: "nat (wcount (arptab s ! e)) = Suc k" using assms(1) by (cases "nat (wcount (arptab s ! e))") auto
  have "send t m (nkern (masked_off s)) = Some (SYSERR, nkern (masked_off s))"
    using assms(4) by (subst send_error) (auto simp: isbadtid_def)
  then show ?thesis using assms(2,3) k by (auto simp: arpNotify_def nirq_simps kcall_def)
qed

text \<open>The example: a reply from 192.168.0.9 in the packet at \<open>0x10008\<close>, for which thread 3 waits.\<close>

definition arp_ex :: net where
  "arp_ex = net0\<lparr>nkern := out_kernel,
     netiftab := [zero_netif\<lparr>if_state := NET_ALLOC, if_ip := ip4 [192, 168, 0, 1], if_hwaddr := eth [2, 0, 0, 0, 0, 1]\<rparr>],
     arptab := zero_arp\<lparr>ar_state := ARP_UNRESOLVED, ar_nif := Some 0, ar_praddr := ip4 [192, 168, 0, 9], expires := 5,
       waiting := 3 # replicate 9 0, wcount := 1\<rparr> # replicate 31 zero_arp,
     packets := (packets net0)(0x10008 := \<lparr>p_nif = Some 0, p_len = 42, linkhdr = 0x2016, nethdr = 0, curr = 0x3000\<rparr>),
     pb := put 0x3000 ([0, 1, 8, 0, 6, 4, 0, 2] @ [2, 0, 0, 0, 0, 9] @ [192, 168, 0, 9] @ [2, 0, 0, 0, 0, 1] @ [192, 168, 0, 1]) (\<lambda>_. 0)\<rparr>"

lemma arp_ex_says: "arp_says arp_ex 0x10008 2 [2, 0, 0, 0, 0, 9] [192, 168, 0, 9] [192, 168, 0, 1]"
  by code_simp

lemma arp_ex_ok: "arp_ok arp_ex" "arp_fresh arp_ex" "arp_index (ip4 [192, 168, 0, 9]) arp_ex = Some 0"
proof -
  show "arp_ok arp_ex" by (simp add: arp_ex_def net0_def arp_ok_def zero_arp_def arp_entry_ok_def)
  show "arp_fresh arp_ex"
    by (simp add: arp_ex_def net0_def arp_fresh_def zero_arp_def out_kernel_def busy_kernel_def idle_kernel_def reset_kernel_def)
  show "arp_index (ip4 [192, 168, 0, 9]) arp_ex = Some 0"
    by (simp add: arp_ex_def net0_def arp_index_def arp_match_def same_addr_def upt_rec ip4_def)
qed

theorem arp_learns_witness:
  "\<exists>r s' i. arpRecv 0x10008 arp_ex = Some (r, s') \<and> i < ARP_NENTRY
    \<and> has_message 3 1 (nkern s') \<and> kinv (nkern s')
    \<and> (\<forall>t n. arptab t = arptab s' \<and> arp_fresh t \<longrightarrow>
         arpLookup (Some n) (Some (ip4 [192, 168, 0, 9])) t = Some (Returned (OK, Some (eth [2, 0, 0, 0, 0, 9])), masked_off t))"
proof -
  have x: "p_nif (packets arp_ex 0x10008) = Some 0" "0 < length (netiftab arp_ex)" "netaddr_ok (if_ip (netiftab arp_ex ! 0))"
    "same_addr (if_ip (netiftab arp_ex ! 0)) (ip4 [192, 168, 0, 1])" "pool_state 0 (nkern arp_ex) [] [0x10000]" "0x10008 - 8 \<in> set [0x10000 :: u32]"
    using pool_kernels(1) by (simp_all add: arp_ex_def same_addr_def)
  have "has_message 3 1 k" if "arp_waiter_told (ip4 [192, 168, 0, 9]) arp_ex k" for k
    using that arp_ex_ok(3) by (simp add: arp_waiter_told_def told_def) (simp add: arp_ex_def out_kernel_def isbadtid_def)
  then show ?thesis using arp_learns [OF arp_ex_ok(1,2) arp_ex_says x] by blast
qed

end
