(* ===== verification/Xinu_Ipv4.thy ===== *)
theory Xinu_Ipv4
  imports Xinu_Arp
begin

text \<open>
  IPv4: \<^verbatim>\<open>network/ipv4/ipv4Recv.c\<close>, \<^verbatim>\<open>ipv4RecvValid.c\<close>, \<^verbatim>\<open>ipv4RecvDemux.c\<close>,
  \<^verbatim>\<open>ipv4Send.c\<close>, \<^verbatim>\<open>ipv4SendFrag.c\<close>, and the routing of packets for others,
  \<^verbatim>\<open>network/route/rtSend.c\<close>. The ICMP messages these functions cause and the receivers of the
  protocols above are parameters. The lemmas show what \<^verbatim>\<open>ipv4Send\<close> puts on the wire, which headers the
  receiver accepts, and what fragmentation makes of a packet that is too long.
\<close>

section \<open>The header\<close>

text \<open>Offsets of \<^verbatim>\<open>struct ipv4Pkt\<close>: length 2, flags and fragment offset 6, checksum 10, source 12, destination 16.\<close>

abbreviation (input) IPv4_HDR_LEN :: u32 where "IPv4_HDR_LEN \<equiv> 20"
abbreviation (input) IPv4_FLAG_MF :: u16 where "IPv4_FLAG_MF \<equiv> 0x2000"
abbreviation (input) IPv4_FLAG_DF :: u16 where "IPv4_FLAG_DF \<equiv> 0x4000"
abbreviation (input) IPv4_FROFF :: u16 where "IPv4_FROFF \<equiv> 0x1FFF"
abbreviation (input) IPv4_FLAGS :: u16 where "IPv4_FLAGS \<equiv> 0xE000"

text \<open>A 16-bit field in network byte order, read and written.\<close>

definition ldn16 :: "bytes \<Rightarrow> u32 \<Rightarrow> u16" where
  "ldn16 m p = ucast (hs2net (ucast (ld16 m p)))"

definition stn16 :: "u32 \<Rightarrow> u16 \<Rightarrow> bytes \<Rightarrow> bytes" where
  "stn16 p w m = st16 p (ucast (hs2net (ucast w))) m"

definition ip_ihl :: "bytes \<Rightarrow> u32 \<Rightarrow> u32" where
  "ip_ihl m ip = ucast (and (m ip) 0x0F)"

definition ipv4RecvValid :: "u32 \<Rightarrow> bytes \<Rightarrow> bool" where
  "ipv4RecvValid ip m =
     (if netChksum ip (4 * ip_ihl m ip) m \<noteq> 0 then False
      else if drop_bit 4 (and (m ip) 0xF0) \<noteq> 4 then False
      else if ld16 m (ip + 2) < 20 then False
      else if ip_ihl m ip < 5 \<or> ip_ihl m ip > 15 then False
      else True)"

fun demux :: "netaddr \<Rightarrow> netif list \<Rightarrow> bool option" where
  "demux dst [] = Some False"
| "demux dst (n # ns) =
     (if if_state n \<noteq> NET_ALLOC then demux dst ns
      else do {
        e1 \<leftarrow> netaddrequal dst (if_ip n);
        e2 \<leftarrow> (if e1 then Some True else netaddrequal dst (if_ipbrc n));
        if e2 then Some True else demux dst ns
      })"

definition ipv4RecvDemux :: "netaddr \<Rightarrow> net \<Rightarrow> bool option" where
  "ipv4RecvDemux dst s = demux dst (netiftab s)"

text \<open>The receivers of the protocols: \<^verbatim>\<open>icmpRecv\<close>, \<^verbatim>\<open>udpRecv\<close>, \<^verbatim>\<open>tcpRecv\<close>, \<^verbatim>\<open>rawRecv\<close>.\<close>

datatype upper = Icmp | Udp netaddr netaddr | Tcp netaddr netaddr | Raw netaddr netaddr u8

definition ipv4_upper :: "u8 \<Rightarrow> netaddr \<Rightarrow> netaddr \<Rightarrow> upper" where
  "ipv4_upper proto src dst =
     (if proto = 1 then Icmp else if proto = 17 then Udp src dst else if proto = 6 then Tcp src dst else Raw src dst proto)"

definition ipv4Recv :: "(upper \<Rightarrow> u32 \<Rightarrow> net \<Rightarrow> (unit call \<times> net) option) \<Rightarrow> u32 \<Rightarrow> net \<Rightarrow> (int call \<times> net) option" where
  "ipv4Recv recv pkt s =
     (if pkt = 0 then Some (Returned SYSERR, s)
      else do {
        let s = pktwr pkt (\<lambda>p. p\<lparr>nethdr := curr p\<rparr>) s;
        let ip = curr (packets s pkt);
        if \<not> ipv4RecvValid ip (pb s) then do { (_, s) \<leftarrow> netFreebuf pkt s; Some (Returned SYSERR, s) }
        else do {
          let dst = ip4 (get (ip + 16) 4 (pb s));
          let src = ip4 (get (ip + 12) 4 (pb s));
          ours \<leftarrow> ipv4RecvDemux dst s;
          if \<not> ours then rtRecv pkt s
          else if and IPv4_FLAG_MF (ldn16 (pb s) (ip + 6)) \<noteq> 0 \<or> and (ldn16 (pb s) (ip + 6)) IPv4_FROFF \<noteq> 0
          then do { (_, s) \<leftarrow> netFreebuf pkt s; Some (Returned SYSERR, s) }
          else do {
            n \<leftarrow> p_nif (packets s pkt);
            if length (netiftab s) \<le> n then None
            else do {
              let iplen = ldn16 (pb s) (ip + 2);
              let lhl = linkhdrlen (netiftab s ! n);
              let s = (if p_len (packets s pkt) - lhl > ucast iplen
                       then pktwr pkt (p_len_update (\<lambda>_. lhl + ucast iplen)) s else s);
              let s = pktwr pkt (\<lambda>p. p\<lparr>curr := curr p + push_bit 2 (ip_ihl (pb s) ip)\<rparr>) s;
              (r, s) \<leftarrow> recv (ipv4_upper (pb s (ip + 9)) src dst) pkt s;
              (case r of Switched \<Rightarrow> Some (Switched, s) | Returned _ \<Rightarrow> Some (Returned OK, s))
            }
          }
        }
      })"

section \<open>Sending\<close>

text \<open>The ICMP messages that are caused: \<^verbatim>\<open>icmpDestUnreach\<close>, \<^verbatim>\<open>icmpRedirect\<close> and \<^verbatim>\<open>icmpTimeExceeded\<close>.\<close>

datatype icmpmsg = DestUnreach int | Redirect int nat | TimeExceeded int

type_synonym icmp = "icmpmsg \<Rightarrow> u32 \<Rightarrow> net \<Rightarrow> (unit call \<times> net) option"

definition NETADDR_GLOBAL_ETH_BRC :: netaddr where
  "NETADDR_GLOBAL_ETH_BRC = eth [0xFF, 0xFF, 0xFF, 0xFF, 0xFF, 0xFF]"

text \<open>The checksum field is cleared, and then the checksum of the header stored in it.\<close>

definition ip_chksum :: "u32 \<Rightarrow> u32 \<Rightarrow> bytes \<Rightarrow> bytes" where
  "ip_chksum ip len m = (let m = st16 (ip + 10) 0 m in st16 (ip + 10) (netChksum ip len m) m)"

text \<open>
  The loop over the rest of the data: \<open>out\<close> is the second packet, at \<open>outip\<close>. It does not end when the
  size of a fragment is zero.
\<close>

partial_function (option) frag_loop ::
    "u32 \<Rightarrow> u32 \<Rightarrow> netaddr \<Rightarrow> u32 \<Rightarrow> u16 \<Rightarrow> u32 \<Rightarrow> u32 \<Rightarrow> u16 \<Rightarrow> net \<Rightarrow> (unit call \<times> net) option" where
  "frag_loop out outip nxthop nmtu lastFlag dRem data froff s =
     (if dRem > 0
      then do {
        let dLen = (if and (dRem + 7) (not 7) > nmtu + IPv4_HDR_LEN
                    then (ucast (and (nmtu - IPv4_HDR_LEN) (not 7)) :: u16) else ucast dRem);
        let (_, m) = memcpy (outip + 20) data (uint dLen) (pb s);
        let m = stn16 (outip + 6) (if ucast dLen = dRem then and lastFlag froff else and IPv4_FLAG_MF froff) m;
        let m = stn16 (outip + 2) (20 + dLen) m;
        let m = ip_chksum outip IPv4_HDR_LEN m;
        let s = pktwr out (\<lambda>p. p\<lparr>p_len := ucast (ldn16 m (outip + 2))\<rparr>) (s\<lparr>pb := m\<rparr>);
        (r, s) \<leftarrow> netSend out None (Some nxthop) ETHER_TYPE_IPv4 s;
        (case r of Switched \<Rightarrow> Some (Switched, s)
         | Returned _ \<Rightarrow> frag_loop out outip nxthop nmtu lastFlag (dRem - ucast dLen) (data + ucast dLen) (froff + dLen div 8) s)
      }
      else Some (Returned (), s))"

text \<open>The header of the first fragment, and what is left after it: the rest of the data, its place and its offset.\<close>

definition frag_first :: "u32 \<Rightarrow> u32 \<Rightarrow> net \<Rightarrow> (u16 \<times> u32 \<times> u32 \<times> u16 \<times> u32 \<times> net)" where
  "frag_first pkt nmtu s =
     (let ip = curr (packets s pkt);
          ihl = ip_ihl (pb s) ip * 4;
          dRem = ucast (ldn16 (pb s) (ip + 2)) - ihl;
          froff = and (ldn16 (pb s) (ip + 6)) IPv4_FROFF;
          lastFlag = and (ldn16 (pb s) (ip + 6)) IPv4_FLAGS;
          dLen = ucast (and (nmtu - ihl) (not 7)) :: u16;
          s = pktwr pkt (p_len_update (\<lambda>_. ihl + ucast dLen)) s;
          m = stn16 (ip + 2) (ucast (ihl + ucast dLen)) (pb s);
          m = stn16 (ip + 6) (and IPv4_FLAG_MF froff) m;
          m = ip_chksum ip ihl m
      in (lastFlag, dRem - ucast dLen, ip + ihl + ucast dLen, froff + dLen div 8, ip, s\<lparr>pb := m\<rparr>))"

text \<open>What follows the first fragment: the rest is sent from a second buffer, which is given back.\<close>

definition frag_rest :: "nat \<Rightarrow> netaddr \<Rightarrow> u32 \<Rightarrow> u16 \<Rightarrow> u32 \<Rightarrow> u32 \<Rightarrow> u16 \<Rightarrow> u32 \<Rightarrow> net \<Rightarrow> (int call \<times> net) option" where
  "frag_rest n nxthop nmtu lastFlag dRem data froff ip s = do {
     (r, s) \<leftarrow> netGetbuf s;
     (case r of Switched \<Rightarrow> Some (Switched, s)
      | Returned out \<Rightarrow>
          if out = -1 then Some (Returned SYSERR, s)
          else do {
            let s = pktwr out (\<lambda>p. p\<lparr>curr := curr p - nmtu, p_nif := Some n\<rparr>) s;
            let outip = curr (packets s out);
            let s = s\<lparr>pb := snd (memcpy outip ip 20 (pb s))\<rparr>;
            (r, s) \<leftarrow> frag_loop out outip nxthop nmtu lastFlag dRem data froff s;
            (case r of Switched \<Rightarrow> Some (Switched, s)
             | Returned _ \<Rightarrow> do { (_, s) \<leftarrow> netFreebuf out s; Some (Returned OK, s) })
          })
   }"

definition ipv4SendFrag ::
    "icmp \<Rightarrow> u32 \<Rightarrow> netaddr \<Rightarrow> net \<Rightarrow> (int call \<times> net) option" where
  "ipv4SendFrag icmp pkt nxthop s =
     (if pkt = 0 then Some (Returned SYSERR, s)
      else do {
        n \<leftarrow> p_nif (packets s pkt);
        if length (netiftab s) \<le> n then None
        else do {
          let nif = netiftab s ! n;
          let ip = curr (packets s pkt);
          if ucast (ldn16 (pb s) (ip + 2)) \<le> mtu nif
          then do {
            brc \<leftarrow> netaddrequal (if_ipbrc nif) nxthop;
            netSend pkt (if brc then Some NETADDR_GLOBAL_ETH_BRC else None) (Some nxthop) ETHER_TYPE_IPv4 s
          }
          else if and (ldn16 (pb s) (ip + 6)) IPv4_FLAG_DF \<noteq> 0
          then do {
            (r, s) \<leftarrow> icmp (DestUnreach 4) pkt s;
            (case r of Switched \<Rightarrow> Some (Switched, s) | Returned _ \<Rightarrow> Some (Returned SYSERR, s))
          }
          else do {
            let (lastFlag, dRem, data, froff, ip, s) = frag_first pkt (mtu nif) s;
            (r, s) \<leftarrow> netSend pkt None (Some nxthop) ETHER_TYPE_IPv4 s;
            (case r of Switched \<Rightarrow> Some (Switched, s)
             | Returned _ \<Rightarrow> frag_rest n nxthop (mtu nif) lastFlag dRem data froff ip s)
          }
        }
      })"

text \<open>The header that \<^verbatim>\<open>ipv4Send\<close> writes for a packet of \<open>len\<close> bytes.\<close>

definition ipv4_header :: "u32 \<Rightarrow> u32 \<Rightarrow> u8 \<Rightarrow> u8 list \<Rightarrow> u8 list \<Rightarrow> bytes \<Rightarrow> bytes" where
  "ipv4_header ip len proto src dst m =
     (let m = m(ip := 0x45, ip + 1 := 0);
          m = stn16 (ip + 2) (ucast len) m;
          m = st16 (ip + 4) 0 m;
          m = st16 (ip + 6) 0 m;
          m = m(ip + 8 := 64, ip + 9 := proto);
          m = put (ip + 12) src m;
          m = put (ip + 16) dst m
      in ip_chksum ip IPv4_HDR_LEN m)"

definition ipv4Send ::
    "icmp \<Rightarrow> u32 \<Rightarrow> netaddr \<Rightarrow> netaddr option \<Rightarrow> u8 \<Rightarrow> net \<Rightarrow> (int call \<times> net) option" where
  "ipv4Send icmp pkt src dst proto s =
     (case dst of None \<Rightarrow> Some (Returned SYSERR, s)
      | Some dst \<Rightarrow>
          if pkt = 0 \<or> ntype dst \<noteq> NETADDR_IPv4 then Some (Returned SYSERR, s)
          else do {
            (r, s) \<leftarrow> rtLookup dst s;
            (case r of None \<Rightarrow> Some (Returned SYSERR, s)
             | Some i \<Rightarrow> do {
                 let rt = rttab s ! i;
                 n \<leftarrow> rt_nif rt;
                 if length (netiftab s) \<le> n then None
                 else do {
                   let nxthop = (if ntype (rt_gateway rt) = 0 then dst else rt_gateway rt);
                   let s = pktwr pkt (\<lambda>p. p\<lparr>p_nif := Some n, p_len := p_len p + IPv4_HDR_LEN, curr := curr p - IPv4_HDR_LEN\<rparr>) s;
                   let p = packets s pkt;
                   sa \<leftarrow> take_arr 4 (naddr (if ntype src = 0 then if_ip (netiftab s ! n) else src));
                   da \<leftarrow> take_arr 4 (naddr dst);
                   let s = s\<lparr>pb := ipv4_header (curr p) (p_len p) proto sa da (pb s)\<rparr>;
                   ipv4SendFrag icmp pkt nxthop s
                 }
               })
          })"

section \<open>Routing\<close>

text \<open>After \<^verbatim>\<open>icmpRedirect\<close>: the header is changed, and the packet goes out on the interface of the route.\<close>

definition rtSend_rest :: "icmp \<Rightarrow> u32 \<Rightarrow> nat \<Rightarrow> netaddr \<Rightarrow> net \<Rightarrow> (int call \<times> net) option" where
  "rtSend_rest icmp pkt i dst s = do {
     let ip = nethdr (packets s pkt);
     let s = s\<lparr>pb := (pb s)(ip + 8 := pb s (ip + 8) - 1)\<rparr>;
     if pb s (ip + 8) = 0
     then do {
       (r, s) \<leftarrow> icmp (TimeExceeded 0) pkt s;
       (case r of Switched \<Rightarrow> Some (Switched, s) | Returned _ \<Rightarrow> Some (Returned SYSERR, s))
     }
     else do {
       let s = s\<lparr>pb := ip_chksum ip IPv4_HDR_LEN (pb s)\<rparr>;
       let rt = rttab s ! i;
       let s = pktwr pkt (p_nif_update (\<lambda>_. rt_nif rt)) s;
       let nxthop = (if ntype (rt_gateway rt) = 0 then dst else rt_gateway rt);
       (r, s) \<leftarrow> ipv4SendFrag icmp pkt nxthop s;
       (case r of Switched \<Rightarrow> Some (Switched, s)
        | Returned r \<Rightarrow>
            if r = SYSERR
            then do {
              (r, s) \<leftarrow> icmp (DestUnreach 1) pkt s;
              (case r of Switched \<Rightarrow> Some (Switched, s) | Returned _ \<Rightarrow> Some (Returned SYSERR, s))
            }
            else Some (Returned OK, s))
     }
   }"

definition rtSend :: "icmp \<Rightarrow> u32 \<Rightarrow> net \<Rightarrow> (int call \<times> net) option" where
  "rtSend icmp pkt s =
     (if pkt = 0 then Some (Returned SYSERR, s)
      else do {
        let dst = ip4 (get (nethdr (packets s pkt) + 16) 4 (pb s));
        (r, s) \<leftarrow> rtLookup dst s;
        (case r of
           None \<Rightarrow> do {
             (r, s) \<leftarrow> icmp (DestUnreach 0) pkt s;
             (case r of Switched \<Rightarrow> Some (Switched, s) | Returned _ \<Rightarrow> Some (Returned SYSERR, s))
           }
         | Some i \<Rightarrow> do {
             (r, s) \<leftarrow> (if rt_nif (rttab s ! i) = p_nif (packets s pkt)
                         then icmp (Redirect (if ntype (rt_gateway (rttab s ! i)) = 0 then 1 else 0) i) pkt s
                         else Some (Returned (), s));
             (case r of Switched \<Rightarrow> Some (Switched, s) | Returned _ \<Rightarrow> rtSend_rest icmp pkt i dst s)
           })
      })"

section \<open>The header on the wire\<close>

text \<open>The bytes of a 16-bit number, the higher one first.\<close>

definition be16 :: "u16 \<Rightarrow> u8 list" where
  "be16 w = [ucast (drop_bit 8 w), ucast w]"

lemma hs2net_16: "(ucast (hs2net (ucast w)) :: u16) = or (drop_bit 8 w) (push_bit 8 w)" for w :: u16
  unfolding hs2net_parts by (rule bit_word_eqI) (auto simp: bit_simps dest: bit_imp_le_length)

lemma stn16_eq: "stn16 p w m = m(p := ucast (drop_bit 8 w), p + 1 := ucast w)"
proof -
  have "(ucast (or (drop_bit 8 w) (push_bit 8 w)) :: u8) = ucast (drop_bit 8 w)"
    by (rule bit_word_eqI) (auto simp: bit_simps dest: bit_imp_le_length)
  moreover have "(ucast (drop_bit 8 (or (drop_bit 8 w) (push_bit 8 w))) :: u8) = ucast w"
    by (rule bit_word_eqI) (auto simp: bit_simps dest: bit_imp_le_length)
  ultimately show ?thesis by (simp add: stn16_def hs2net_16 st16_def)
qed

lemma get_20: "get p 20 m = [m p, m (p + 1), m (p + 2), m (p + 3), m (p + 4), m (p + 5), m (p + 6), m (p + 7), m (p + 8), m (p + 9),
    m (p + 10), m (p + 11), m (p + 12), m (p + 13), m (p + 14), m (p + 15), m (p + 16), m (p + 17), m (p + 18), m (p + 19)]"
  by (rule nth_equalityI) (auto simp: get_nth numeral_eq_Suc less_Suc_eq_0_disj add.commute)

definition ip_bytes :: "u16 \<Rightarrow> u8 \<Rightarrow> u16 \<Rightarrow> u8 list \<Rightarrow> u8 list \<Rightarrow> u8 list" where
  "ip_bytes len proto chk src dst =
     [0x45, 0] @ be16 len @ [0, 0, 0, 0, 64, proto] @ [ucast chk, ucast (drop_bit 8 chk)] @ src @ dst"

lemma ip_header_bytes:
  assumes "length src = 4" "length dst = 4"
  shows "\<exists>chk. get ip 20 (ipv4_header ip len proto src dst m) = ip_bytes (ucast len) proto chk src dst"
proof -
  from assms obtain a b c d e f g h where l: "src = [a, b, c, d]" "dst = [e, f, g, h]"
    by (auto simp: numeral_eq_Suc length_Suc_conv)
  define m1 where "m1 = put (ip + 16) dst (put (ip + 12) src ((st16 (ip + 6) 0 (st16 (ip + 4) 0 (stn16 (ip + 2) (ucast len)
    (m(ip := 0x45, ip + 1 := 0)))))(ip + 8 := 64, ip + 9 := proto)))"
  define chk where "chk = netChksum ip 20 (st16 (ip + 10) 0 m1)"
  have h: "ipv4_header ip len proto src dst m = st16 (ip + 10) chk (st16 (ip + 10) 0 m1)"
    by (simp add: ipv4_header_def ip_chksum_def m1_def chk_def Let_def)
  have "get ip 20 (st16 (ip + 10) chk (st16 (ip + 10) 0 m1)) = ip_bytes (ucast len) proto chk src dst"
    unfolding m1_def l by (simp add: get_20 ip_bytes_def be16_def stn16_eq st16_def add.assoc)
  then show ?thesis using h by auto
qed

lemma ip_header_chksum: "netChksum ip 20 (ipv4_header ip len proto src dst m) = 0"
  unfolding ipv4_header_def ip_chksum_def Let_def by (rule chksum_stored [of 5]) simp_all

lemma netChksum_get:
  assumes "get q (unat len) m' = get p (unat len) m" "unat len \<le> 131074"
  shows "netChksum q len m' = netChksum p len m"
  using netChksum_unat [OF assms(2), of q m'] netChksum_unat [OF assms(2), of p m] get_sum16 [OF assms(1)]
  by (simp add: word_unat_eq_iff)

text \<open>
  The receiver compares the length field with 20 without changing its byte order. It refuses the packet
  when the lower octet is zero and the higher one less than 20.
\<close>

lemma swapped_small:
  fixes w :: u16
  assumes "m p = ucast (drop_bit 8 w)" "m (p + 1) = ucast w"
  shows "ld16 m p < 20 \<longleftrightarrow> unat w mod 256 = 0 \<and> unat w < 5120"
proof -
  have hi: "unat (m p) = unat w div 256"
  proof -
    have "unat w div 256 < 256" using unat_lt [of w] by (simp add: less_mult_imp_div_less)
    then show ?thesis unfolding assms by (simp add: unsigned_ucast_eq drop_bit_eq_div unat_div take_bit_nat_eq_self)
  qed
  have lo: "unat (m (p + 1)) = unat w mod 256" unfolding assms by (simp add: unsigned_ucast_eq take_bit_eq_mod)
  have "ld16 m p < 20 \<longleftrightarrow> unat w div 256 + 256 * (unat w mod 256) < 20" using ld16_unat [of m p] hi lo by (simp add: word_less_nat_alt)
  also have "\<dots> \<longleftrightarrow> unat w mod 256 = 0 \<and> unat w div 256 < 20" by auto
  also have "\<dots> \<longleftrightarrow> unat w mod 256 = 0 \<and> unat w < 5120" by (simp add: div_less_iff_less_mult)
  finally show ?thesis .
qed

lemma ip_header_accepted:
  assumes "length src = 4" "length dst = 4" "unat len < 65536"
    and "get q 20 m' = get ip 20 (ipv4_header ip len proto src dst m)"
  shows "ipv4RecvValid q m' \<longleftrightarrow> \<not> (unat len mod 256 = 0 \<and> unat len < 5120)"
proof -
  obtain chk where b: "get q 20 m' = ip_bytes (ucast len) proto chk src dst"
    using ip_header_bytes [OF assms(1,2)] assms(4) by metis
  then have m': "m' q = 0x45" "m' (q + 2) = ucast (drop_bit 8 (ucast len :: u16))" "m' (q + 2 + 1) = ucast (ucast len :: u16)"
    by (simp_all add: get_20 ip_bytes_def be16_def add.assoc)
  have len: "unat (ucast len :: u16) = unat len" using assms(3) by (simp add: unsigned_ucast_eq take_bit_nat_eq_self)
  have "ip_ihl m' q = 5" using m' by (simp add: ip_ihl_def)
  moreover have "netChksum q 20 m' = 0"
    using netChksum_get [of q 20 m' ip] assms(4) ip_header_chksum by simp
  ultimately show ?thesis using m' swapped_small [OF m'(2,3)] len by (simp add: ipv4RecvValid_def not_less)
qed

lemma ip_header_frame:
  assumes "a \<notin> rng ip 20" "length src = 4" "length dst = 4"
  shows "ipv4_header ip len proto src dst m a = m a"
proof -
  have n: "a \<noteq> ip + of_nat k" if "k < 20" for k using assms(1) that by (auto simp: rng_eq)
  have "rng ip 20 = rng ip 12 \<union> (rng (ip + 12) 4 \<union> rng (ip + 16) 4)"
    using rng_append [of ip 12 8] rng_append [of "ip + 12" 4 4] by (simp add: add.assoc)
  then have "a \<notin> rng (ip + 12) 4" "a \<notin> rng (ip + 16) 4" using assms(1) by simp_all
  then show ?thesis using n [of 0] n [of 1] n [of 2] n [of 3] n [of 4] n [of 5] n [of 6] n [of 7] n [of 8] n [of 9] n [of 10] n [of 11] assms(2,3)
    by (simp add: ipv4_header_def ip_chksum_def Let_def st16_def stn16_eq put_frame add.assoc)
qed

section \<open>The frame\<close>

lemma get_2: "get p 2 m = [m p, m (p + 1)]"
  by (simp add: numeral_2_eq_2)

lemma ether_frame:
  assumes "length hda = 6" "length hsa = 6" "n \<le> 2 ^ 31"
  shows "get q (14 + n) (put q hda (put (q + 6) hsa (st16 (q + 12) 8 m))) = hda @ hsa @ [8, 0] @ get (q + 14) n m"
proof -
  define m2 where "m2 = put (q + 6) hsa (st16 (q + 12) 8 m)"
  define m3 where "m3 = put q hda m2"
  have r: "rng q 14 = rng q 6 \<union> rng (q + 6) 6 \<union> rng (q + 12) 2"
    using rng_append [of q 6 8] rng_append [of "q + 6" 6 2] by (auto simp: add.assoc)
  have d: "rng q 6 \<inter> rng (q + 6) 8 = {}" "rng (q + 6) 6 \<inter> rng (q + 12) 2 = {}" "rng q 14 \<inter> rng (q + 14) n = {}"
    using rng_disjoint [of 6 8 q] rng_disjoint [of 6 2 "q + 6"] rng_disjoint [of 14 n q] assms(3) by (simp_all add: add.assoc)
  have r8: "rng (q + 6) 8 = rng (q + 6) 6 \<union> rng (q + 12) 2" using rng_append [of "q + 6" 6 2] by (simp add: add.assoc)
  have "get q 6 m3 = hda" using get_put [of hda q m2] assms(1) by (simp add: m3_def)
  moreover have "get (q + 6) 6 m3 = hsa"
  proof -
    have "get (q + 6) 6 m3 = get (q + 6) 6 m2" unfolding m3_def using d(1) r8 assms(1) by (intro get_cong put_frame) auto
    then show ?thesis using get_put [of hsa "q + 6" "st16 (q + 12) 8 m"] assms(2) by (simp add: m2_def)
  qed
  moreover have "get (q + 12) 2 m3 = [8, 0]"
  proof -
    have "get (q + 12) 2 m3 = get (q + 12) 2 m2" unfolding m3_def using d(1) r8 assms(1) by (intro get_cong put_frame) auto
    also have "\<dots> = get (q + 12) 2 (st16 (q + 12) 8 m)" unfolding m2_def using d(2) assms(2) by (intro get_cong put_frame) auto
    finally show ?thesis by (simp add: st16_def get_2)
  qed
  moreover have "get (q + 14) n m3 = get (q + 14) n m"
  proof (rule get_cong)
    fix a assume "a \<in> rng (q + 14) n"
    then have a: "a \<notin> rng q 6" "a \<notin> rng (q + 6) 6" "a \<notin> rng (q + 12) 2" using d(3) r by auto
    then have "a \<noteq> q + 12" "a \<noteq> q + 12 + 1" by (simp_all add: numeral_2_eq_2)
    then show "m3 a = m a" using a assms(1,2) by (simp add: m3_def m2_def put_frame st16_def)
  qed
  ultimately have "get q (6 + (6 + (2 + n))) m3 = hda @ hsa @ [8, 0] @ get (q + 14) n m" by (simp only: get_append) (simp add: add.assoc)
  then show ?thesis by (simp add: m3_def m2_def add.assoc [symmetric])
qed

lemma netSend_resolved:
  assumes "pkt \<noteq> 0" "p_nif (packets s pkt) = Some n" "n < length (netiftab s)" "if_state (netiftab s ! n) = NET_ALLOC"
    and "linkhdrlen (netiftab s ! n) = 14" "if_hwaddr (netiftab s ! n) = eth hsa" "length hsa = 6"
    and "arp_ok s" "arp_fresh s" "netaddr_ok hop" "arp_index hop s = Some e" "ar_state (arptab s ! e) = ARP_RESOLVED"
    and "ar_hwaddr (arptab s ! e) = eth hda" "length hda = 6" "unat (p_len (packets s pkt)) < 2 ^ 31"
    and frame: "frame = hda @ hsa @ [8, 0] @ get (curr (packets s pkt)) (unat (p_len (packets s pkt))) (pb s)"
  shows "\<exists>s'. netSend pkt None (Some hop) ETHER_TYPE_IPv4 s =
      Some (Returned (if devwrite s (if_dev (netiftab s ! n)) frame = SYSERR then SYSERR else OK), s')
    \<and> wire s' = wire s @ [(if_dev (netiftab s ! n), frame)] \<and> nkern s' = nkern (masked_off s) \<and> arptab s' = arptab s
    \<and> netiftab s' = netiftab s \<and> netpool s' = netpool s \<and> (\<forall>x. p_nif (packets s' x) = p_nif (packets s x))"
proof -
  define p where "p = packets s pkt"
  define q where "q = curr p - 14"
  define m where "m = put (q + 6) hsa (st16 (q + 12) 8 (pb s))"
  define t where "t = (pktwr pkt (\<lambda>p. p\<lparr>curr := q, p_len := p_len p + 14\<rparr>) s)\<lparr>pb := m\<rparr>"
  have head: "netSend_head pkt ETHER_TYPE_IPv4 s = Some (Some n, t)"
    using assms(1-7) by (simp add: netSend_head_def Let_def pktwr_def take_arr_def eth_def t_def m_def q_def p_def hs2net_def)
  have t: "arptab t = arptab s" "clktime (nkern t) = clktime (nkern s)" "netiftab t = netiftab s" "devwrite t = devwrite s"
    "wire t = wire s" "nkern t = nkern s" "packets t pkt = p\<lparr>curr := q, p_len := p_len p + 14\<rparr>" "pb t = m"
    "netpool t = netpool s" "p_nif (packets t x) = p_nif (packets s x)" for x
    by (simp_all add: t_def pktwr_def p_def)
  have "arp_ok t" "arp_fresh t" "arp_index hop t = Some e"
    using assms(8,9,11) t by (simp_all add: arp_ok_def arp_fresh_def arp_index_def del: upt_rec_numeral)
  then have hit: "arpLookup (Some n) (Some hop) t = Some (Returned (OK, Some (eth hda)), masked_off t)"
    using arpLookup_hit [of t hop e n] assms(10,12,13) t by simp
  have "unat (p_len p + 14) = 14 + unat (p_len p)" using assms(15) by (simp add: unat_word_ariths p_def)
  then have f: "get q (unat (p_len p + 14)) (put q hda m) = frame"
    using ether_frame [OF assms(14,7), of "unat (p_len p)" q "pb s"] assms(15) by (simp add: m_def frame q_def p_def)
  have "netSend_tail pkt n (eth hda) (masked_off t) = Some (if devwrite s (if_dev (netiftab s ! n)) frame = SYSERR then SYSERR else OK,
      (masked_off t)\<lparr>pb := put q hda m, wire := wire s @ [(if_dev (netiftab s ! n), frame)]\<rparr>)"
    using assms(14) f t by (simp add: netSend_tail_def Let_def take_arr_def eth_def)
  then show ?thesis using head hit t(1,3,6,9,10) by (simp add: netSend_def)
qed

definition if_up :: "netif \<Rightarrow> u8 list \<Rightarrow> bool" where
  "if_up nif hsa \<longleftrightarrow> if_state nif = NET_ALLOC \<and> linkhdrlen nif = 14 \<and> if_hwaddr nif = eth hsa \<and> length hsa = 6
     \<and> netaddr_ok (if_ip nif) \<and> netaddr_ok (if_ipbrc nif) \<and> mtu nif < 65536"

lemma get_header:
  assumes "length src = 4" "length dst = 4" "n \<le> 2 ^ 31"
  shows "get ip (20 + n) (ipv4_header ip len proto src dst m) =
    get ip 20 (ipv4_header ip len proto src dst m) @ get (ip + 20) n m"
proof -
  have "rng ip 20 \<inter> rng (ip + 20) n = {}" using rng_disjoint [of 20 n ip] assms(3) by simp
  then have "get (ip + 20) n (ipv4_header ip len proto src dst m) = get (ip + 20) n m"
    using assms(1,2) by (intro get_cong ip_header_frame) auto
  then show ?thesis by (simp add: get_append)
qed

lemma frag_short:
  assumes "pkt \<noteq> 0" "p_nif (packets s pkt) = Some n" "n < length (netiftab s)" "if_up (netiftab s ! n) hsa"
    and "netaddr_ok hop" "\<not> same_addr (if_ipbrc (netiftab s ! n)) hop" "ucast (ldn16 (pb s) (curr (packets s pkt) + 2)) \<le> mtu (netiftab s ! n)"
  shows "ipv4SendFrag icmp pkt hop s = netSend pkt None (Some hop) ETHER_TYPE_IPv4 s"
  using assms by (simp add: ipv4SendFrag_def Let_def netaddrequal_ok if_up_def)

lemma ipv4_header_len:
  assumes "length src = 4" "length dst = 4" "len < 65536"
  shows "ucast (ldn16 (ipv4_header ip len proto src dst m) (ip + 2)) = len"
proof -
  define M where "M = ipv4_header ip len proto src dst m"
  obtain chk where "get ip 20 M = ip_bytes (ucast len) proto chk src dst"
    using ip_header_bytes [OF assms(1,2)] unfolding M_def by blast
  then have b: "M (ip + 2) = ucast (drop_bit 8 (ucast len :: u16))" "M (ip + 2 + 1) = ucast (ucast len :: u16)"
    by (simp_all add: get_20 ip_bytes_def be16_def add.assoc)
  have "ldn16 M (ip + 2) = ucast len" unfolding ldn16_def hs2net_16 ld16_def b
    by (rule bit_word_eqI) (auto simp: bit_simps dest: bit_imp_le_length)
  moreover have "ucast (ucast len :: u16) = len"
    using assms(3) by (simp add: word_unat_eq_iff unsigned_ucast_eq unsigned_take_bit_eq take_bit_nat_eq_self word_less_nat_alt)
  ultimately show ?thesis by (simp add: M_def)
qed

text \<open>
  A state from which packets for \<open>dst\<close> can be sent: there is a route by interface \<open>n\<close>, which is up with the
  hardware address \<open>hsa\<close>, and the hardware address \<open>hda\<close> of the next hop \<open>hop\<close> is known.
\<close>

definition route_up :: "net \<Rightarrow> netaddr \<Rightarrow> nat \<Rightarrow> netaddr \<Rightarrow> u8 list \<Rightarrow> u8 list \<Rightarrow> bool" where
  "route_up s dst n hop hsa hda \<longleftrightarrow> rt_ok s \<and> arp_ok s \<and> arp_fresh s \<and> netaddr_ok dst \<and> ntype dst = NETADDR_IPv4
     \<and> n < length (netiftab s) \<and> if_up (netiftab s ! n) hsa \<and> \<not> same_addr (if_ipbrc (netiftab s ! n)) hop \<and> length hda = 6
     \<and> (\<exists>i e. rtLookup dst s = Some (Some i, restored s) \<and> rt_nif (rttab s ! i) = Some n
          \<and> hop = (if ntype (rt_gateway (rttab s ! i)) = 0 then dst else rt_gateway (rttab s ! i))
          \<and> arp_index hop s = Some e \<and> ar_state (arptab s ! e) = ARP_RESOLVED \<and> ar_hwaddr (arptab s ! e) = eth hda)"

lemma ipv4Send_header:
  assumes up: "route_up s dst n hop hsa hda" and pkt: "pkt \<noteq> 0" "p = packets s pkt"
    and len: "len = p_len p + 20" "len < 65536" "len \<le> mtu (netiftab s ! n)"
    and sa: "sa = take 4 (naddr (if ntype src = 0 then if_ip (netiftab s ! n) else src))" "length sa = 4"
    and M: "ip = curr p - 20" "M = ipv4_header ip len proto sa (take 4 (naddr dst)) (pb s)"
    and t: "t = (pktwr pkt (\<lambda>p. p\<lparr>p_nif := Some n, p_len := len, curr := ip\<rparr>) (restored s))\<lparr>pb := M\<rparr>"
  shows "ipv4Send icmp pkt src (Some dst) proto s = netSend pkt None (Some hop) ETHER_TYPE_IPv4 t \<and> netaddr_ok hop"
proof -
  from up obtain i where up: "rt_ok s" "netaddr_ok dst" "ntype dst = NETADDR_IPv4" "n < length (netiftab s)" "if_up (netiftab s ! n) hsa"
      "\<not> same_addr (if_ipbrc (netiftab s ! n)) hop" "rtLookup dst s = Some (Some i, restored s)" "rt_nif (rttab s ! i) = Some n"
      "hop = (if ntype (rt_gateway (rttab s ! i)) = 0 then dst else rt_gateway (rttab s ! i))"
    unfolding route_up_def by blast
  have da: "length (take 4 (naddr dst)) = 4" using up(2) by (simp add: netaddr_ok_def)
  have "i < RT_NENTRY" using rtLookup_best [OF up(1,2)] up(7) by (auto simp: rt_best_def simp del: upt_rec_numeral)
  then have hok: "netaddr_ok hop" using rt_okD [OF up(1)] up(2,9) by (simp add: rt_entry_ok_def)
  have "4 \<le> length (naddr (if ntype src = 0 then if_ip (netiftab s ! n) else src))" using sa by simp
  then have "ipv4Send icmp pkt src (Some dst) proto s = ipv4SendFrag icmp pkt hop t"
    using up(2-4,7-9) pkt sa(1) M t len(1)
    by (simp add: ipv4Send_def Let_def pktwr_def take_arr_def netaddr_ok_def if_distrib [of naddr] split: if_splits)
  also have "\<dots> = netSend pkt None (Some hop) ETHER_TYPE_IPv4 t"
  proof (rule frag_short [of _ _ n hsa])
    show "ucast (ldn16 (pb t) (curr (packets t pkt) + 2)) \<le> mtu (netiftab t ! n)"
      using ipv4_header_len [OF sa(2) da len(2)] len(3) M(2) t by (simp add: pktwr_def)
  qed (use pkt(1) up hok t in \<open>auto simp: pktwr_def\<close>)
  finally show ?thesis using hok by simp
qed

lemma ipv4Send_frame:
  assumes up: "route_up s dst n hop hsa hda" and nif: "nif = netiftab s ! n"
    and pkt: "pkt \<noteq> 0" "p = packets s pkt" "unat (p_len p) + 20 \<le> unat (mtu nif)"
    and sa: "sa = take 4 (naddr (if ntype src = 0 then if_ip nif else src))" "length sa = 4"
    and M: "ip = curr p - 20" "M = ipv4_header ip (p_len p + 20) proto sa (take 4 (naddr dst)) (pb s)"
    and frame: "frame = hda @ hsa @ [8, 0] @ get ip 20 M @ get (curr p) (unat (p_len p)) (pb s)"
  shows "\<exists>s'. ipv4Send icmp pkt src (Some dst) proto s =
      Some (Returned (if devwrite s (if_dev nif) frame = SYSERR then SYSERR else OK), s')
    \<and> wire s' = wire s @ [(if_dev nif, frame)]"
proof -
  define len where "len = p_len p + 20"
  from up obtain e where u: "arp_ok s" "arp_fresh s" "netaddr_ok dst" "n < length (netiftab s)" "if_up nif hsa" "length hda = 6"
      "arp_index hop s = Some e" "ar_state (arptab s ! e) = ARP_RESOLVED" "ar_hwaddr (arptab s ! e) = eth hda"
    unfolding route_up_def nif by blast
  have mtu: "unat (mtu nif) < 65536" using u(5) by (simp add: if_up_def word_less_nat_alt)
  then have len: "unat len = 20 + unat (p_len p)" using pkt(3) by (simp add: len_def unat_word_ariths)
  then have le: "len < 65536" "len \<le> mtu nif" using pkt(3) mtu by (simp_all add: word_less_nat_alt word_le_nat_alt)
  define t where "t = (pktwr pkt (\<lambda>p. p\<lparr>p_nif := Some n, p_len := len, curr := ip\<rparr>) (restored s))\<lparr>pb := M\<rparr>"
  have t: "arptab t = arptab s" "clktime (nkern t) = clktime (nkern s)" "netiftab t = netiftab s" "devwrite t = devwrite s" "wire t = wire s"
    "packets t pkt = p\<lparr>p_nif := Some n, p_len := len, curr := ip\<rparr>" "pb t = M" by (simp_all add: t_def pktwr_def pkt(2))
  have send: "ipv4Send icmp pkt src (Some dst) proto s = netSend pkt None (Some hop) ETHER_TYPE_IPv4 t" and hok: "netaddr_ok hop"
    using ipv4Send_header [OF up pkt(1,2) len_def le(1) _ _ sa(2) M(1) _ t_def, where src = src and proto = proto] le(2) sa(1) M(2)
    unfolding nif len_def by blast+
  have da: "length (take 4 (naddr dst)) = 4" using u(3) by (simp add: netaddr_ok_def)
  have "unat (p_len p) \<le> 2 ^ 31" using pkt(3) mtu by simp
  then have "get ip (20 + unat (p_len p)) M = get ip 20 M @ get (curr p) (unat (p_len p)) (pb s)"
    using get_header [OF sa(2) da, of "unat (p_len p)" ip "p_len p + 20" proto "pb s"] M by simp
  then have fr: "frame = hda @ hsa @ [8, 0] @ get (curr (packets t pkt)) (unat (p_len (packets t pkt))) (pb t)" using t len frame by simp
  have "arp_ok t" "arp_fresh t" "arp_index hop t = Some e"
    using u(1,2,7) t by (simp_all add: arp_ok_def arp_fresh_def arp_index_def del: upt_rec_numeral)
  from netSend_resolved [OF pkt(1) _ _ _ _ _ _ this(1,2) hok this(3) _ _ u(6) _ fr, where n = n]
  show ?thesis using t nif u le send by (auto simp: if_up_def word_less_nat_alt)
qed

text \<open>C17: \<^verbatim>\<open>ipv4Send\<close> of a packet that fits the interface, when the route is known and the next hop
  resolved, writes one frame to the device of the route: the hardware addresses, the type, a header with the addresses and
  the length, and the data. A receiver with this code accepts that header, except -- because it reads the length in the
  wrong byte order -- when the length is a multiple of 256 below 5120.\<close>

theorem ipv4_sends:
  assumes up: "route_up s dst n hop hsa hda" and nif: "nif = netiftab s ! n"
    and pkt: "pkt \<noteq> 0" "p = packets s pkt" "unat (p_len p) + 20 \<le> unat (mtu nif)" "ntype src = 0"
    and data: "data = get (curr p) (unat (p_len p)) (pb s)"
  shows "\<exists>s' hdr chk frame. ipv4Send icmp pkt src (Some dst) proto s =
      Some (Returned (if devwrite s (if_dev nif) frame = SYSERR then SYSERR else OK), s')
    \<and> wire s' = wire s @ [(if_dev nif, frame)] \<and> frame = hda @ hsa @ [8, 0] @ hdr @ data
    \<and> hdr = ip_bytes (of_nat (20 + length data)) proto chk (take 4 (naddr (if_ip nif))) (take 4 (naddr dst))
    \<and> (\<forall>m q. get q 20 m = hdr \<longrightarrow>
         (ipv4RecvValid q m \<longleftrightarrow> \<not> ((20 + length data) mod 256 = 0 \<and> 20 + length data < 5120)))"
proof -
  define sa da where "sa = take 4 (naddr (if_ip nif))" and "da = take 4 (naddr dst)"
  have l: "length sa = 4" "length da = 4" and "mtu nif < 65536"
    using up by (simp_all add: sa_def da_def netaddr_ok_def if_up_def route_up_def nif)
  define len where "len = p_len p + 20"
  define ip where "ip = curr p - 20"
  define M where "M = ipv4_header ip len proto sa da (pb s)"
  define frame where "frame = hda @ hsa @ [8, 0] @ get ip 20 M @ data"
  have len: "unat len = 20 + length data" "unat len < 65536"
    using \<open>mtu nif < 65536\<close> pkt(3) by (simp_all add: word_less_nat_alt len_def unat_word_ariths data)
  obtain chk where chk: "get ip 20 M = ip_bytes (ucast len) proto chk sa da" using ip_header_bytes [OF l] unfolding M_def by blast
  have u: "ucast len = (of_nat (20 + length data) :: u16)" by (simp only: len(1) [symmetric] of_nat_unat)
  have "sa = take 4 (naddr (if ntype src = 0 then if_ip nif else src))" using pkt(4) by (simp add: sa_def)
  from ipv4Send_frame [OF up nif pkt(1-3) this l(1) ip_def M_def [unfolded len_def da_def] frame_def [unfolded data]]
  obtain s' where s': "ipv4Send icmp pkt src (Some dst) proto s =
      Some (Returned (if devwrite s (if_dev nif) frame = SYSERR then SYSERR else OK), s')" "wire s' = wire s @ [(if_dev nif, frame)]" by blast
  have "ipv4RecvValid q m \<longleftrightarrow> \<not> ((20 + length data) mod 256 = 0 \<and> 20 + length data < 5120)" if "get q 20 m = get ip 20 M" for m q
    using ip_header_accepted [OF l len(2) that [unfolded M_def]] len(1) by simp
  then show ?thesis using s' chk u by (intro exI [of _ s'] exI [of _ "get ip 20 M"] exI [of _ chk] exI [of _ frame])
    (auto simp: frame_def sa_def da_def)
qed

section \<open>Fragments\<close>

lemma flag_lost: "and IPv4_FLAG_MF (and x IPv4_FROFF) = 0"
proof -
  have "and IPv4_FLAG_MF IPv4_FROFF = 0" by simp
  then show ?thesis by (simp add: and.left_commute)
qed

lemma ldn16_chksum [simp]: "ldn16 (ip_chksum ip len m) (ip + 6) = ldn16 m (ip + 6)" "ldn16 (ip_chksum ip len m) (ip + 2) = ldn16 m (ip + 2)"
  by (simp_all add: ldn16_def ip_chksum_def Let_def ld16_def st16_def add.assoc)

lemma ldn16_stn16 [simp]: "ldn16 (stn16 p w m) p = w"
  unfolding ldn16_def hs2net_16 ld16_def stn16_eq by (rule bit_word_eqI) (auto simp: bit_simps dest: bit_imp_le_length)

text \<open>The next hop \<open>hop\<close> is reached by interface \<open>n\<close>, which is up, and its hardware address \<open>hda\<close> is known.\<close>

definition hop_up :: "net \<Rightarrow> nat \<Rightarrow> netaddr \<Rightarrow> u8 list \<Rightarrow> u8 list \<Rightarrow> bool" where
  "hop_up s n hop hsa hda \<longleftrightarrow> arp_ok s \<and> arp_fresh s \<and> netaddr_ok hop \<and> n < length (netiftab s) \<and> if_up (netiftab s ! n) hsa \<and> length hda = 6
     \<and> (\<exists>e. arp_index hop s = Some e \<and> ar_state (arptab s ! e) = ARP_RESOLVED \<and> ar_hwaddr (arptab s ! e) = eth hda)"

lemma hop_up_cong:
  "arptab t = arptab s \<Longrightarrow> netiftab t = netiftab s \<Longrightarrow> clktime (nkern t) = clktime (nkern s) \<Longrightarrow> hop_up t = hop_up s"
  by (intro ext) (simp add: hop_up_def arp_ok_def arp_fresh_def arp_index_def del: upt_rec_numeral)

lemma netSend_hop:
  assumes up: "hop_up s n hop hsa hda" and pkt: "pkt \<noteq> 0" "p_nif (packets s pkt) = Some n" "unat (p_len (packets s pkt)) < 2 ^ 31"
  shows "\<exists>r s'. netSend pkt None (Some hop) ETHER_TYPE_IPv4 s = Some (Returned r, s')
    \<and> wire s' = wire s @ [(if_dev (netiftab s ! n), hda @ hsa @ [8, 0] @ get (curr (packets s pkt)) (unat (p_len (packets s pkt))) (pb s))]
    \<and> hop_up s' n hop hsa hda \<and> nkern s' = nkern (masked_off s) \<and> netiftab s' = netiftab s \<and> netpool s' = netpool s
    \<and> (\<forall>x. p_nif (packets s' x) = p_nif (packets s x))"
proof -
  from up obtain e where u: "arp_ok s" "arp_fresh s" "netaddr_ok hop" "n < length (netiftab s)" "if_up (netiftab s ! n) hsa" "length hda = 6"
    "arp_index hop s = Some e" "ar_state (arptab s ! e) = ARP_RESOLVED" "ar_hwaddr (arptab s ! e) = eth hda" unfolding hop_up_def by blast
  have i: "if_state (netiftab s ! n) = NET_ALLOC" "linkhdrlen (netiftab s ! n) = 14" "if_hwaddr (netiftab s ! n) = eth hsa" "length hsa = 6"
    using u(5) by (simp_all add: if_up_def)
  from netSend_resolved [OF pkt(1,2) u(4) i u(1-3) u(7-9) u(6) pkt(3) refl]
  obtain r s' where s': "netSend pkt None (Some hop) ETHER_TYPE_IPv4 s = Some (Returned r, s')"
    "wire s' = wire s @ [(if_dev (netiftab s ! n), hda @ hsa @ [8, 0] @ get (curr (packets s pkt)) (unat (p_len (packets s pkt))) (pb s))]"
    "nkern s' = nkern (masked_off s)" "arptab s' = arptab s" "netiftab s' = netiftab s" "netpool s' = netpool s"
    "\<forall>x. p_nif (packets s' x) = p_nif (packets s x)" by blast
  have "hop_up s' n hop hsa hda" using up hop_up_cong [OF s'(4,5)] s'(3) by simp
  then show ?thesis using s' by blast
qed

text \<open>The size of a fragment: the data that fits the interface in multiples of eight bytes.\<close>

lemma unat_ucast16: "unat (ucast w :: u32) = unat w" "unat w < 65536" for w :: u16
proof -
  have "unat w < 2 ^ LENGTH(16)" by (rule unsigned_less)
  then show l: "unat w < 65536" by simp
  then show "unat (ucast w :: u32) = unat w" by (simp add: unsigned_ucast_eq take_bit_nat_eq_self)
qed

lemma unat_frag:
  assumes "20 \<le> unat (nmtu :: u32)" "unat nmtu < 65536"
  shows "unat (ucast (and (nmtu - 20) (not 7)) :: u16) = unat nmtu - 20 - (unat nmtu - 20) mod 8"
proof -
  have "unat (nmtu - 20) = unat nmtu - 20" using assms(1) by (simp add: unat_sub word_le_nat_alt)
  then have u: "unat (and (nmtu - 20) (not 7)) = unat nmtu - 20 - (unat nmtu - 20) mod 8" unfolding unat_and_not7 by simp
  then have "unat (and (nmtu - 20) (not 7)) < 2 ^ 16" using assms(2) by simp
  then show ?thesis unfolding u [symmetric] by (simp only: unsigned_ucast_eq) (simp add: take_bit_nat_eq_self)
qed

text \<open>Each pass of the loop sends between one byte and the whole rest, so the loop ends.\<close>

lemma frag_size:
  fixes dRem nmtu :: u32 and dLen :: u16
  assumes "28 \<le> unat nmtu" "unat nmtu < 65536" "0 < unat dRem" "unat dRem < 65536"
    and d: "dLen = (if and (dRem + 7) (not 7) > nmtu + 20 then ucast (and (nmtu - 20) (not 7)) else ucast dRem)"
  shows "unat (dRem - ucast dLen) < unat dRem"
proof -
  have m: "unat (nmtu - 20) = unat nmtu - 20" "unat (nmtu + 20) = unat nmtu + 20" "unat (dRem + 7) = unat dRem + 7"
    using assms(1,2,4) by (simp_all add: unat_sub word_le_nat_alt unat_word_ariths)
  have "0 < unat dLen \<and> unat dLen \<le> unat dRem"
  proof (cases "and (dRem + 7) (not 7) > nmtu + 20")
    case True
    then have "unat nmtu + 20 < unat dRem + 7" unfolding word_less_nat_alt unat_and_not7 m by linarith
    moreover have "unat dLen = unat nmtu - 20 - (unat nmtu - 20) mod 8"
      using unat_frag [OF _ assms(2)] True assms(1) unfolding d by simp
    ultimately show ?thesis using assms(1) by linarith
  next
    case False
    then show ?thesis using assms(3,4) unfolding d by (simp add: unsigned_ucast_eq take_bit_nat_eq_self)
  qed
  then show ?thesis by (simp add: unat_sub word_le_nat_alt unat_ucast16(1))
qed

lemma frag_loop_ends:
  assumes "hop_up s n hop hsa hda" "out \<noteq> 0" "p_nif (packets s out) = Some n" "28 \<le> unat nmtu" "unat nmtu < 65536" "unat dRem < 65536"
  shows "\<exists>s' rest i. frag_loop out outip hop nmtu lastFlag dRem data froff s = Some (Returned (), s') \<and> wire s' = wire s @ rest
    \<and> (rest = [] \<longrightarrow> dRem = 0) \<and> nkern s' = (nkern s)\<lparr>imask := i\<rparr>"
  using assms
proof (induction "unat dRem" arbitrary: dRem data froff s rule: less_induct)
  case less
  show ?case
  proof (cases "dRem = 0")
    case True
    then show ?thesis by (subst frag_loop.simps) (intro exI [of _ s] exI [of _ "[]"] exI [of _ "imask (nkern s)"], simp)
  next
    case False
    then have pos: "0 < dRem" by (simp add: word_gt_0)
    define dLen where "dLen = (if and (dRem + 7) (not 7) > nmtu + 20 then (ucast (and (nmtu - 20) (not 7)) :: u16) else ucast dRem)"
    define m where "m = ip_chksum outip IPv4_HDR_LEN (stn16 (outip + 2) (20 + dLen)
      (stn16 (outip + 6) (if ucast dLen = dRem then and lastFlag froff else and IPv4_FLAG_MF froff)
        (snd (memcpy (outip + 20) data (uint dLen) (pb s)))))"
    define t where "t = pktwr out (\<lambda>p. p\<lparr>p_len := ucast (ldn16 m (outip + 2))\<rparr>) (s\<lparr>pb := m\<rparr>)"
    have step: "frag_loop out outip hop nmtu lastFlag dRem data froff s = do {
        (r, s) \<leftarrow> netSend out None (Some hop) ETHER_TYPE_IPv4 t;
        (case r of Switched \<Rightarrow> Some (Switched, s)
         | Returned _ \<Rightarrow> frag_loop out outip hop nmtu lastFlag (dRem - ucast dLen) (data + ucast dLen) (froff + dLen div 8) s) }"
      using pos by (subst frag_loop.simps) (simp only: if_True Let_def memcpy_def split_conv snd_conv t_def m_def dLen_def simp_thms)
    have t: "hop_up t n hop hsa hda" "p_nif (packets t out) = Some n" "wire t = wire s" "nkern t = nkern s"
      using less.prems(1,3) hop_up_cong [of t s] by (simp_all add: t_def pktwr_def)
    have "unat (p_len (packets t out)) < 2 ^ 31"
      using unat_ucast16(2) [of "ldn16 m (outip + 2)"] by (simp add: t_def pktwr_def unat_ucast16(1))
    from netSend_hop [OF t(1) less.prems(2) t(2) this] obtain r s1 f where s1: "netSend out None (Some hop) ETHER_TYPE_IPv4 t = Some (Returned r, s1)"
      "wire s1 = wire s @ [f]" "hop_up s1 n hop hsa hda" "nkern s1 = nkern (masked_off s)" "p_nif (packets s1 out) = Some n"
      using t by auto
    have lt: "unat (dRem - ucast dLen) < unat dRem"
      using frag_size [OF less.prems(4,5) _ less.prems(6) dLen_def] False by (simp add: unat_gt_0)
    then have "unat (dRem - ucast dLen) < 65536" using less.prems(6) by linarith
    from less.hyps [OF lt s1(3) less.prems(2) s1(5) less.prems(4,5) this, of "data + ucast dLen" "froff + dLen div 8"]
    obtain s' rest i where s': "frag_loop out outip hop nmtu lastFlag (dRem - ucast dLen) (data + ucast dLen) (froff + dLen div 8) s1 = Some (Returned (), s')"
      "wire s' = wire s1 @ rest" "nkern s' = (nkern s1)\<lparr>imask := i\<rparr>" by blast
    then have "frag_loop out outip hop nmtu lastFlag dRem data froff s = Some (Returned (), s')" "wire s' = wire s @ f # rest"
      "nkern s' = (nkern s)\<lparr>imask := i\<rparr>" using step s1(1,2,4) by simp_all
    then show ?thesis by blast
  qed
qed

text \<open>A header of 20 bytes with another length, the flags and the offset cleared, and another checksum.\<close>

definition unmarked :: "u8 list \<Rightarrow> u16 \<Rightarrow> u16 \<Rightarrow> u8 list" where
  "unmarked h len chk = take 2 h @ be16 len @ take 2 (drop 4 h) @ [0, 0] @ take 2 (drop 8 h) @ [ucast chk, ucast (drop_bit 8 chk)] @ drop 12 h"

lemma frag_header:
  assumes M: "M = ip_chksum ip 20 (stn16 (ip + 6) 0 (stn16 (ip + 2) len m))"
  shows "\<exists>chk. get ip 20 M = unmarked (get ip 20 m) len chk" and "netChksum ip 20 M = 0"
    and "a \<notin> rng ip 20 \<Longrightarrow> M a = m a" and "ldn16 M (ip + 6) = 0" and "ldn16 M (ip + 2) = len"
proof -
  define m1 where "m1 = stn16 (ip + 6) 0 (stn16 (ip + 2) len m)"
  define chk where "chk = netChksum ip 20 (st16 (ip + 10) 0 m1)"
  have h: "M = st16 (ip + 10) chk (st16 (ip + 10) 0 m1)" by (simp add: M ip_chksum_def m1_def chk_def Let_def)
  then have "get ip 20 M = unmarked (get ip 20 m) len chk"
    by (simp add: m1_def get_20 unmarked_def be16_def stn16_eq st16_def add.assoc)
  then show "\<exists>chk. get ip 20 M = unmarked (get ip 20 m) len chk" ..
  show "netChksum ip 20 M = 0" unfolding M ip_chksum_def Let_def by (rule chksum_stored [of 5]) simp_all
  show "M a = m a" if "a \<notin> rng ip 20"
  proof -
    have n: "a \<noteq> ip + of_nat k" if "k < 20" for k using \<open>a \<notin> rng ip 20\<close> that by (auto simp: rng_eq)
    show ?thesis using n [of 2] n [of 3] n [of 6] n [of 7] n [of 10] n [of 11] by (simp add: h m1_def stn16_eq st16_def add.assoc)
  qed
  show "ldn16 M (ip + 6) = 0" by (simp add: M)
  have "ldn16 (stn16 (ip + 6) 0 X) (ip + 2) = ldn16 X (ip + 2)" for X by (simp add: ldn16_def ld16_def stn16_eq add.assoc)
  then show "ldn16 M (ip + 2) = len" by (simp only: M ldn16_chksum ldn16_stn16)
qed

lemma frag_rest_sent:
  assumes up: "hop_up s n hop hsa hda" and pool: "pool_state (netpool s) (nkern s) (x # xs) hs" "x + 8 \<noteq> -1"
    and len: "28 \<le> unat nmtu" "unat nmtu < 65536" "unat dRem < 65536"
  shows "\<exists>s' rest. frag_rest n hop nmtu lastFlag dRem data froff ip s = Some (Returned OK, s') \<and> wire s' = wire s @ rest
    \<and> (rest = [] \<longrightarrow> dRem = 0)"
proof -
  obtain k where k: "bufget (netpool s) (nkern s) = Some (Returned (x + 8), k)" "pool_state (netpool s) k xs (x # hs)" "clktime k = clktime (nkern s)"
    using bufget_law [OF pool(1)] by blast
  obtain t where t: "netGetbuf s = Some (Returned (x + 8), t)" "nkern t = k" "arptab t = arptab s" "netiftab t = netiftab s" "wire t = wire s"
    using k(1) pool(2) by (simp add: netGetbuf_def netGetbuf_rest_def kcall_def Let_def pktwr_def)
  define t1 where "t1 = pktwr (x + 8) (\<lambda>p. p\<lparr>curr := curr p - nmtu, p_nif := Some n\<rparr>) t"
  define outip where "outip = curr (packets t1 (x + 8))"
  define t2 where "t2 = t1\<lparr>pb := snd (memcpy outip ip 20 (pb t1))\<rparr>"
  have t2: "hop_up t2 n hop hsa hda" "p_nif (packets t2 (x + 8)) = Some n" "nkern t2 = k" "wire t2 = wire s"
    using up hop_up_cong [of t2 s] t k(3) by (simp_all add: t2_def t1_def pktwr_def)
  note d = pool_stateD [OF pool(1)]
  have "x \<in> set (pool_bufs (bfptab (nkern s) (netpool s)))" unfolding d(14) [symmetric] by simp
  then have "unat (x + 8) = unat x + 8" using buf_room [OF d(5)] by (subst unat_add_small) simp_all
  then have "x + 8 \<noteq> 0" by auto
  then obtain s' rest i where s': "frag_loop (x + 8) outip hop nmtu lastFlag dRem data froff t2 = Some (Returned (), s')"
    "wire s' = wire s @ rest" "rest = [] \<longrightarrow> dRem = 0" "nkern s' = k\<lparr>imask := i\<rparr>"
    using frag_loop_ends [OF t2(1) _ t2(2) len, of outip lastFlag data froff] t2(3,4) by auto
  obtain k' where "buffree (x + 8) (nkern s') = Some (OK, k')"
    using buffree_law [of "netpool s" "nkern s'" xs "x # hs" x] k(2) s'(4) by auto
  then have "frag_rest n hop nmtu lastFlag dRem data froff ip s = Some (Returned OK, s'\<lparr>nkern := k'\<rparr>)"
    using t(1) pool(2) s'(1) by (simp add: frag_rest_def netFreebuf_def kcall_def Let_def t2_def outip_def t1_def)
  then show ?thesis using s'(2,3) by (intro exI [of _ "s'\<lparr>nkern := k'\<rparr>"] exI [of _ rest]) simp
qed

text \<open>The first fragment of a packet with a header of 20 bytes.\<close>

lemma frag_first_spec:
  assumes pkt: "ip = curr (packets s pkt)" "pb s ip = 0x45"
    and mtu: "28 \<le> unat nmtu" "unat nmtu < unat (ldn16 (pb s) (ip + 2))" and d: "d = (unat nmtu - 20) div 8 * 8"
  shows "d + 20 \<le> unat nmtu"
    and "\<exists>lf dRem a fo. frag_first pkt nmtu s = (lf, dRem, a, fo, ip, (pktwr pkt (p_len_update (\<lambda>_. of_nat (20 + d))) s)
        \<lparr>pb := ip_chksum ip 20 (stn16 (ip + 6) 0 (stn16 (ip + 2) (of_nat (20 + d)) (pb s)))\<rparr>) \<and> unat dRem < 65536 \<and> dRem \<noteq> 0"
proof -
  define len where "len = ldn16 (pb s) (ip + 2)"
  define dLen where "dLen = (ucast (and (nmtu - 20) (not 7)) :: u16)"
  define dRem :: u32 where "dRem = ucast len - 20 - ucast dLen"
  have l: "unat nmtu < 65536" "unat len < 65536" using mtu(2) unat_ucast16(2) [of len] by (simp_all add: len_def)
  have "unat dLen = unat nmtu - 20 - (unat nmtu - 20) mod 8" unfolding dLen_def using mtu(1) l(1) by (intro unat_frag) simp_all
  then have dl: "unat dLen = d" by (simp add: d minus_mod_eq_mult_div mult.commute)
  show d20: "d + 20 \<le> unat nmtu" using mtu(1) by (simp add: d)
  have "unat (20 + ucast dLen :: u32) = 20 + d" using d20 l(1) by (subst unat_add_small) (simp_all add: unat_ucast16(1) dl)
  then have "20 + ucast dLen = (of_nat (20 + d) :: u32)" by (simp only: word_unat_eq_iff unsigned_of_nat) (use d20 l(1) in \<open>simp add: take_bit_nat_eq_self\<close>)
  moreover have "ucast (of_nat (20 + d) :: u32) = (of_nat (20 + d) :: u16)"
    using d20 l(1) by (simp only: word_unat_eq_iff unsigned_ucast_eq unsigned_of_nat) (simp add: take_bit_nat_eq_self)
  ultimately have u: "20 + ucast dLen = (of_nat (20 + d) :: u32)" "ucast (of_nat (20 + d) :: u32) = (of_nat (20 + d) :: u16)" by blast+
  have ihl: "ip_ihl (pb s) ip * 4 = 20" by (simp add: ip_ihl_def pkt(2))
  have "unat (ucast len - 20 :: u32) = unat len - 20"
    using mtu by (subst unat_sub) (simp_all add: word_le_nat_alt unat_ucast16(1) len_def)
  then have dr: "unat dRem = unat len - 20 - d"
    using mtu(2) d20 unfolding dRem_def by (subst unat_sub) (simp_all add: word_le_nat_alt unat_ucast16(1) dl len_def)
  have "\<exists>lf a fo. frag_first pkt nmtu s = (lf, dRem, a, fo, ip, (pktwr pkt (p_len_update (\<lambda>_. of_nat (20 + d))) s)
        \<lparr>pb := ip_chksum ip 20 (stn16 (ip + 6) 0 (stn16 (ip + 2) (of_nat (20 + d)) (pb s)))\<rparr>)"
    by (simp only: frag_first_def Let_def pkt(1) [symmetric] ihl flag_lost len_def [symmetric] dLen_def [symmetric] u dRem_def [symmetric])
      (simp add: pktwr_def)
  moreover have "unat dRem < 65536" "dRem \<noteq> 0" using dr d20 mtu(2) l(2) by (linarith, auto simp: len_def)
  ultimately show "\<exists>lf dRem a fo. frag_first pkt nmtu s = (lf, dRem, a, fo, ip, (pktwr pkt (p_len_update (\<lambda>_. of_nat (20 + d))) s)
        \<lparr>pb := ip_chksum ip 20 (stn16 (ip + 6) 0 (stn16 (ip + 2) (of_nat (20 + d)) (pb s)))\<rparr>) \<and> unat dRem < 65536 \<and> dRem \<noteq> 0" by blast
qed

text \<open>C23: \<^verbatim>\<open>ipv4SendFrag\<close> of a packet that is longer than the interface allows, with a header of 20 bytes and without the flag against
  fragmentation, sends more than one frame, when the next hop is resolved, a buffer is free and the interface takes at least 28 bytes. The first
  frame says that it is a whole packet: it has the first part of the data, its length and a correct checksum, but the field for
  the flags and the offset is zero, because the code masks the offset with the flag for more fragments where it should set the
  flag. Where it arrives, the tests of the receiver for fragments, for more fragments and an offset, do not hold.\<close>

theorem first_fragment_unmarked:
  assumes up: "hop_up s n hop hsa hda" and pool: "pool_state (netpool s) (nkern s) (x # xs) hs" "x + 8 \<noteq> -1"
    and pkt: "pkt \<noteq> 0" "p_nif (packets s pkt) = Some n" "ip = curr (packets s pkt)" "pb s ip = 0x45"
    and nif: "nif = netiftab s ! n" "28 \<le> unat (mtu nif)" "unat (mtu nif) < unat (ldn16 (pb s) (ip + 2))"
    and df: "and (ldn16 (pb s) (ip + 6)) IPv4_FLAG_DF = 0" and d: "d = (unat (mtu nif) - 20) div 8 * 8"
  shows "\<exists>s' hdr chk rest. ipv4SendFrag icmp pkt hop s = Some (Returned OK, s') \<and> rest \<noteq> []
    \<and> wire s' = wire s @ (if_dev nif, hda @ hsa @ [8, 0] @ hdr @ get (ip + 20) d (pb s)) # rest
    \<and> hdr = unmarked (get ip 20 (pb s)) (of_nat (20 + d)) chk
    \<and> (\<forall>m q. get q 20 m = hdr \<longrightarrow> netChksum q 20 m = 0
         \<and> and IPv4_FLAG_MF (ldn16 m (q + 6)) = 0 \<and> and (ldn16 m (q + 6)) IPv4_FROFF = 0)"
proof -
  define M where "M = ip_chksum ip 20 (stn16 (ip + 6) 0 (stn16 (ip + 2) (of_nat (20 + d)) (pb s)))"
  define t where "t = (pktwr pkt (p_len_update (\<lambda>_. of_nat (20 + d))) s)\<lparr>pb := M\<rparr>"
  have l: "unat (mtu nif) < 65536" using nif(3) unat_ucast16(2) [of "ldn16 (pb s) (ip + 2)"] by simp
  note ff = frag_first_spec [OF pkt(3,4) nif(2,3) d, folded M_def, folded t_def]
  obtain lf dRem a fo where f: "frag_first pkt (mtu nif) s = (lf, dRem, a, fo, ip, t)" "unat dRem < 65536" "dRem \<noteq> 0" using ff(2) by blast
  note fh = frag_header [OF M_def]
  have u: "unat (of_nat (20 + d) :: u32) = 20 + d" using ff(1) l by (subst unsigned_of_nat) (simp add: take_bit_nat_eq_self)
  have t: "hop_up t n hop hsa hda" "p_nif (packets t pkt) = Some n" "curr (packets t pkt) = ip" "p_len (packets t pkt) = of_nat (20 + d)"
    "pb t = M" "wire t = wire s" "netiftab t = netiftab s" "nkern t = nkern s" "netpool t = netpool s"
    using up hop_up_cong [of t s] pkt(2,3) by (simp_all add: t_def pktwr_def)
  have "get (ip + 20) d M = get (ip + 20) d (pb s)"
    using rng_disjoint [of 20 d ip] ff(1) l by (intro get_cong fh(3)) auto
  then have "get ip (20 + d) M = get ip 20 M @ get (ip + 20) d (pb s)" by (simp only: get_append) simp
  moreover have "20 + d < 2 ^ 31" using ff(1) l by simp
  ultimately obtain r s1 where s1: "netSend pkt None (Some hop) ETHER_TYPE_IPv4 t = Some (Returned r, s1)"
    "wire s1 = wire s @ [(if_dev nif, hda @ hsa @ [8, 0] @ get ip 20 M @ get (ip + 20) d (pb s))]" "hop_up s1 n hop hsa hda"
    "nkern s1 = nkern (masked_off s)" "netpool s1 = netpool s"
    using netSend_hop [OF t(1) pkt(1) t(2)] unfolding t(3-9) u nif(1) by auto
  have "pool_state (netpool s1) (nkern s1) (x # xs) hs" using pool(1) s1(4,5) by simp
  from frag_rest_sent [OF s1(3) this pool(2) nif(2) l f(2), of lf a fo ip]
  obtain s' rest where s': "frag_rest n hop (mtu nif) lf dRem a fo ip s1 = Some (Returned OK, s')" "wire s' = wire s1 @ rest" "rest \<noteq> []"
    using f(3) by blast
  have "\<not> ucast (ldn16 (pb s) (ip + 2)) \<le> mtu nif" using nif(3) by (simp add: word_le_nat_alt unat_ucast16(1))
  moreover have "n < length (netiftab s)" using up by (simp add: hop_up_def)
  ultimately have "ipv4SendFrag icmp pkt hop s = Some (Returned OK, s')"
    using pkt(1,2) df s1(1) f(1) s'(1) by (simp add: ipv4SendFrag_def Let_def nif(1) [symmetric] pkt(3) [symmetric])
  moreover obtain chk where "get ip 20 M = unmarked (get ip 20 (pb s)) (of_nat (20 + d)) chk" using fh(1) by blast
  moreover have "netChksum q 20 m = 0 \<and> ldn16 m (q + 6) = 0" if "get q 20 m = get ip 20 M" for m q
  proof -
    have "m (q + 6) = M (ip + 6)" "m (q + 6 + 1) = M (ip + 6 + 1)" using that by (simp_all add: get_20 add.assoc)
    then have "ldn16 m (q + 6) = ldn16 M (ip + 6)" by (simp add: ldn16_def ld16_def)
    then show ?thesis using netChksum_get [of q 20 m ip M] that fh(2,4) by simp
  qed
  ultimately show ?thesis using s1(2) s'(2,3)
    by (intro exI [of _ s'] exI [of _ "get ip 20 M"] exI [of _ chk] exI [of _ rest]) auto
qed

text \<open>
  The last fragment may be longer than the interface allows: a rest of up to \<^verbatim>\<open>mtu + 20\<close> bytes is sent
  in one fragment, for which the buffer, from \<^verbatim>\<open>mtu\<close> bytes before its end, has no room.
\<close>

lemma last_fragment_too_long:
  assumes "0 < dRem" "and (dRem + 7) (not 7) \<le> nmtu + 20" "dRem < 65516"
  shows "\<exists>t. frag_loop out outip hop nmtu lastFlag dRem data froff s =
      do { (r, s) \<leftarrow> netSend out None (Some hop) ETHER_TYPE_IPv4 t;
           (case r of Switched \<Rightarrow> Some (Switched, s)
            | Returned _ \<Rightarrow> frag_loop out outip hop nmtu lastFlag (dRem - ucast (ucast dRem :: u16)) (data + ucast (ucast dRem :: u16))
                (froff + ucast dRem div 8) s) }
    \<and> p_len (packets t out) = dRem + 20"
proof -
  have u: "ucast (ucast dRem :: u16) = dRem"
    using assms(3) by (simp add: word_unat_eq_iff unsigned_ucast_eq unsigned_take_bit_eq take_bit_nat_eq_self word_less_nat_alt)
  have len: "ucast (20 + ucast dRem :: u16) = dRem + 20"
    using assms(3) by (simp add: word_unat_eq_iff unsigned_ucast_eq unat_word_ariths take_bit_nat_eq_self word_less_nat_alt take_bit_eq_mod)
  define M where "M = ip_chksum outip 20 (stn16 (outip + 2) (20 + ucast dRem) (stn16 (outip + 6) (and lastFlag froff)
    (snd (memcpy (outip + 20) data (uint (ucast dRem :: u16)) (pb s)))))"
  define t where "t = pktwr out (p_len_update (\<lambda>_. ucast (ldn16 M (outip + 2)))) (s\<lparr>pb := M\<rparr>)"
  have "p_len (packets t out) = dRem + 20" using len by (simp add: t_def M_def pktwr_def)
  moreover have "(nmtu + 20 < and (dRem + 7) (not 7)) = False" using assms(2) by (simp add: not_less)
  then have "frag_loop out outip hop nmtu lastFlag dRem data froff s =
      do { (r, s) \<leftarrow> netSend out None (Some hop) ETHER_TYPE_IPv4 t;
           (case r of Switched \<Rightarrow> Some (Switched, s)
            | Returned _ \<Rightarrow> frag_loop out outip hop nmtu lastFlag (dRem - ucast (ucast dRem :: u16)) (data + ucast (ucast dRem :: u16))
                (froff + ucast dRem div 8) s) }"
    using assms(1) u by (subst frag_loop.simps) (simp only: if_True if_False Let_def memcpy_def split_conv snd_conv t_def M_def simp_thms)
  ultimately show ?thesis by blast
qed

text \<open>The example: four bytes of data for 192.168.0.9, on the network of the interface and resolved.\<close>

definition send_ex :: net where
  "send_ex = net0\<lparr>
     netiftab := [zero_netif\<lparr>if_state := NET_ALLOC, if_dev := 3, mtu := 1500, linkhdrlen := 14, if_ip := ip4 [192, 168, 0, 1],
       if_ipbrc := ip4 [192, 168, 0, 255], if_hwaddr := eth [2, 0, 0, 0, 0, 1]\<rparr>],
     rttab := (replicate RT_NENTRY zero_rt)[0 := zero_rt\<lparr>rt_state := RT_USED, masklen := 24, rt_dst := ip4 [192, 168, 0, 0],
       rt_mask := ip4 [255, 255, 255, 0], rt_nif := Some 0\<rparr>],
     arptab := (replicate ARP_NENTRY zero_arp)[0 := zero_arp\<lparr>ar_state := ARP_RESOLVED, ar_praddr := ip4 [192, 168, 0, 9],
       ar_hwaddr := eth [2, 0, 0, 0, 0, 9], expires := 300\<rparr>],
     packets := (packets net0)(0x2000 := \<lparr>p_nif = None, p_len = 4, linkhdr = 0, nethdr = 0, curr = 0x3000\<rparr>),
     pb := put 0x3000 [1, 2, 3, 4] (\<lambda>_. 0)\<rparr>"

lemma bits_255: "bits_in 255 = 8" "bits_in 0 = 0"
proof -
  have "(255 :: u8) = - 1" by simp
  then have "{i. bit (255 :: u8) i} = {..<8}" by (simp only: bit_minus_1_iff) auto
  then show "bits_in 255 = 8" by (simp add: bits_in_def)
qed (simp add: bits_in_def)

lemma send_ex_ok: "rt_ok send_ex" "arp_ok send_ex" "arp_fresh send_ex"
  by (auto simp: send_ex_def net0_def rt_ok_def arp_ok_def arp_fresh_def zero_rt_def zero_arp_def rt_entry_ok_def arp_entry_ok_def
      netaddr_ok_def ip4_def eth_def zero_addr_def mask_ones_def bits_255 masked_def same_addr_def idle_kernel_def reset_kernel_def
      dest!: set_update_subset_insert [THEN subsetD])

lemma send_ex_find: "map_option fst (rtLookup (ip4 [192, 168, 0, 9]) send_ex) = Some (Some 0)"
    "arp_index (ip4 [192, 168, 0, 9]) send_ex = Some 0"
  by code_simp+

lemma send_ex_up: "route_up send_ex (ip4 [192, 168, 0, 9]) 0 (ip4 [192, 168, 0, 9]) [2, 0, 0, 0, 0, 1] [2, 0, 0, 0, 0, 9]"
proof -
  let ?d = "ip4 [192, 168, 0, 9]"
  have d: "netaddr_ok ?d" "ntype ?d = NETADDR_IPv4" by (simp_all add: netaddr_ok_def ip4_def)
  have rt: "rtLookup ?d send_ex = Some (Some 0, restored send_ex)"
    using rtLookup_best [OF send_ex_ok(1) d(1)] send_ex_find(1) by auto
  have "rt_nif (rttab send_ex ! 0) = Some 0" "ntype (rt_gateway (rttab send_ex ! 0)) = 0" "ar_state (arptab send_ex ! 0) = ARP_RESOLVED"
    "ar_hwaddr (arptab send_ex ! 0) = eth [2, 0, 0, 0, 0, 9]" "0 < length (netiftab send_ex)" "if_up (netiftab send_ex ! 0) [2, 0, 0, 0, 0, 1]"
    "\<not> same_addr (if_ipbrc (netiftab send_ex ! 0)) ?d"
    by (simp_all add: send_ex_def zero_rt_def zero_addr_def if_up_def eth_def ip4_def netaddr_ok_def zero_netif_def same_addr_def net0_def)
  then show ?thesis using send_ex_ok d rt send_ex_find(2) unfolding route_up_def
    by (intro conjI exI [of _ 0]) (auto simp del: upt_rec_numeral)
qed

theorem ipv4_sends_witness:
  "\<exists>s' hdr chk. ipv4Send (\<lambda>_ _ _. None) 0x2000 zero_addr (Some (ip4 [192, 168, 0, 9])) 17 send_ex = Some (Returned OK, s')
    \<and> wire s' = [(3, [2, 0, 0, 0, 0, 9] @ [2, 0, 0, 0, 0, 1] @ [8, 0] @ hdr @ [1, 2, 3, 4])]
    \<and> hdr = ip_bytes 24 17 chk [192, 168, 0, 1] [192, 168, 0, 9]
    \<and> (\<forall>m q. get q 20 m = hdr \<longrightarrow> ipv4RecvValid q m)"
proof -
  define nif where "nif = netiftab send_ex ! 0"
  have e: "if_dev nif = 3" "mtu nif = 1500" "if_ip nif = ip4 [192, 168, 0, 1]" "wire send_ex = []" "\<And>d f. devwrite send_ex d f \<noteq> SYSERR"
    by (simp_all add: send_ex_def nif_def net0_def)
  have p: "p_len (packets send_ex 0x2000) = 4" "get (curr (packets send_ex 0x2000)) (unat (4 :: u32)) (pb send_ex) = [1, 2, 3, 4]"
    by (simp add: send_ex_def) code_simp
  from ipv4_sends [OF send_ex_up nif_def _ refl _ _ refl, of "0x2000" zero_addr "\<lambda>_ _ _. None" 17]
  show ?thesis using e p by (simp add: zero_addr_def ip4_def)
qed

text \<open>The example: a packet of 40 bytes on an interface that takes 28.\<close>

definition frag_ex :: net where
  "frag_ex = send_ex\<lparr>nkern := in_kernel, netiftab := [(netiftab send_ex ! 0)\<lparr>mtu := 28\<rparr>],
     packets := (packets send_ex)(0x2000 := \<lparr>p_nif = Some 0, p_len = 40, linkhdr = 0, nethdr = 0, curr = 0x3000\<rparr>),
     pb := put 0x3000 ([0x45, 0, 0, 40, 0, 0, 0, 0, 64, 17, 0, 0, 192, 168, 0, 1, 192, 168, 0, 9] @ map word_of_nat [1..<21]) (\<lambda>_. 0)\<rparr>"

lemma frag_ex_up: "hop_up frag_ex 0 (ip4 [192, 168, 0, 9]) [2, 0, 0, 0, 0, 1] [2, 0, 0, 0, 0, 9]"
proof -
  have "arp_index (ip4 [192, 168, 0, 9]) frag_ex = Some 0" "arp_ok frag_ex" "arp_fresh frag_ex"
    using send_ex_find(2) send_ex_ok(2,3) by (simp_all add: frag_ex_def arp_index_def arp_ok_def arp_fresh_def send_ex_def net0_def
        in_kernel_def busy_kernel_def idle_kernel_def reset_kernel_def del: upt_rec_numeral)
  then show ?thesis by (auto simp: hop_up_def frag_ex_def send_ex_def if_up_def net0_def netaddr_ok_def zero_netif_def eth_def ip4_def)
qed

theorem first_fragment_unmarked_witness:
  "\<exists>s' chk rest. ipv4SendFrag (\<lambda>_ _ _. None) 0x2000 (ip4 [192, 168, 0, 9]) frag_ex = Some (Returned OK, s') \<and> rest \<noteq> []
    \<and> wire s' = (3, [2, 0, 0, 0, 0, 9] @ [2, 0, 0, 0, 0, 1] @ [8, 0]
        @ unmarked [0x45, 0, 0, 40, 0, 0, 0, 0, 64, 17, 0, 0, 192, 168, 0, 1, 192, 168, 0, 9] 28 chk @ [1, 2, 3, 4, 5, 6, 7, 8]) # rest"
proof -
  define nif where "nif = netiftab frag_ex ! 0"
  have e: "if_dev nif = 3" "mtu nif = 28" "wire frag_ex = []" "pool_state (netpool frag_ex) (nkern frag_ex) [0x10000, 0x10680] []"
    "p_nif (packets frag_ex 0x2000) = Some 0" "curr (packets frag_ex 0x2000) = 0x3000"
    using pool_kernels(2) by (simp_all add: frag_ex_def send_ex_def nif_def net0_def)
  have g: "get 0x3000 20 (pb frag_ex) = [0x45, 0, 0, 40, 0, 0, 0, 0, 64, 17, 0, 0, 192, 168, 0, 1, 192, 168, 0, 9]"
    "get (0x3000 + 20) 8 (pb frag_ex) = [1, 2, 3, 4, 5, 6, 7, 8]" "pb frag_ex 0x3000 = 0x45"
    "ldn16 (pb frag_ex) (0x3000 + 2) = 40" "ldn16 (pb frag_ex) (0x3000 + 6) = 0" by code_simp+
  show ?thesis
    using first_fragment_unmarked [OF frag_ex_up e(4) _ _ e(5) e(6) [symmetric] g(3) nif_def _ _ _ refl, of "\<lambda>_ _ _. None"] e g by auto
qed

end
