(* ===== verification/Xinu_Icmp.thy ===== *)
theory Xinu_Icmp
  imports Xinu_Ipv4
begin

text \<open>
  ICMP: \<^verbatim>\<open>network/icmp/icmpSend.c\<close>, \<^verbatim>\<open>icmpDestUnreach.c\<close>, \<^verbatim>\<open>icmpRedirect.c\<close>,
  \<^verbatim>\<open>icmpTimeExceeded.c\<close>, \<^verbatim>\<open>icmpEchoRequest.c\<close>, \<^verbatim>\<open>icmpEchoReply.c\<close>, \<^verbatim>\<open>icmpRecv.c\<close>,
  \<^verbatim>\<open>icmpInit.c\<close>, \<^verbatim>\<open>icmpDaemon.c\<close>, and the daemon of the routing table, \<^verbatim>\<open>network/route/rtDaemon.c\<close>.
  \<open>icmp_messages\<close> is the parameter that the functions of IPv4 take for the messages they cause. The
  functions here call \<^verbatim>\<open>ipv4Send\<close> in turn, which causes no message for the headers it writes:
  the parameter of these calls does not matter (\<open>ipv4Send_no_icmp\<close>). The lemmas show the
  message that \<^verbatim>\<open>icmpSend\<close> puts on the wire, with a checksum that verifies, and what the reply to an echo
  request looks like.
\<close>

section \<open>Sending\<close>

abbreviation (input) ICMP_HEADER_LEN :: u32 where "ICMP_HEADER_LEN \<equiv> 4"
abbreviation (input) ICMP_DEF_DATALEN :: u32 where "ICMP_DEF_DATALEN \<equiv> 64"
abbreviation (input) IPv4_PROTO_ICMP :: u8 where "IPv4_PROTO_ICMP \<equiv> 1"

definition no_icmp :: icmp where
  "no_icmp im pkt s = None"

definition icmp_header :: "u32 \<Rightarrow> u8 \<Rightarrow> u8 \<Rightarrow> u32 \<Rightarrow> bytes \<Rightarrow> bytes" where
  "icmp_header icmp ty code len m =
     (let m = m(icmp := ty, icmp + 1 := code);
          m = st16 (icmp + 2) 0 m
      in st16 (icmp + 2) (netChksum icmp len m) m)"

definition icmpSend :: "u32 \<Rightarrow> u8 \<Rightarrow> u8 \<Rightarrow> u32 \<Rightarrow> netaddr \<Rightarrow> net \<Rightarrow> (int call \<times> net) option" where
  "icmpSend pkt ty code datalen dst s =
     (if pkt = 0 then Some (Returned SYSERR, s)
      else (let s = pktwr pkt (\<lambda>p. p\<lparr>curr := curr p - ICMP_HEADER_LEN, p_len := p_len p + ICMP_HEADER_LEN\<rparr>) s;
                icmp = curr (packets s pkt);
                s = s\<lparr>pb := icmp_header icmp ty code (datalen + ICMP_HEADER_LEN) (pb s)\<rparr>
            in ipv4Send no_icmp pkt zero_addr (Some dst) IPv4_PROTO_ICMP s))"

text \<open>
  What \<^verbatim>\<open>icmpDestUnreach\<close>, \<^verbatim>\<open>icmpRedirect\<close> and \<^verbatim>\<open>icmpTimeExceeded\<close> have in common: the packet
  \<open>pkt\<close> quotes the header of \<open>bad\<close> and 64 bytes after it, has room for four octets before that, and
  goes to the source of \<open>bad\<close>; afterwards its buffer is freed.
\<close>

definition icmp_quote :: "u32 \<Rightarrow> u32 \<Rightarrow> net \<Rightarrow> netaddr \<times> net" where
  "icmp_quote bad pkt s =
     (let ip = nethdr (packets s bad);
          dst = ip4 (get (ip + 12) 4 (pb s));
          ihl = ip_ihl (pb s) ip * 4;
          s = pktwr pkt (\<lambda>p. p\<lparr>p_len := ihl + ICMP_DEF_DATALEN, curr := curr p - (ihl + ICMP_DEF_DATALEN)\<rparr>) s;
          s = s\<lparr>pb := snd (memcpy (curr (packets s pkt)) ip (uint (ihl + ICMP_DEF_DATALEN)) (pb s))\<rparr>;
          s = pktwr pkt (\<lambda>p. p\<lparr>curr := curr p - 4, p_len := p_len p + 4\<rparr>) s
      in (dst, s))"

definition icmp_finish :: "u32 \<Rightarrow> u8 \<Rightarrow> int \<Rightarrow> netaddr \<Rightarrow> net \<Rightarrow> (int call \<times> net) option" where
  "icmp_finish pkt ty code dst s = do {
     (r, s) \<leftarrow> icmpSend pkt ty (word_of_int code) (p_len (packets s pkt)) dst s;
     (case r of Switched \<Rightarrow> Some (Switched, s)
      | Returned result \<Rightarrow> do { (_, s) \<leftarrow> netFreebuf pkt s; Some (Returned result, s) })
   }"

definition icmpDestUnreach :: "u32 \<Rightarrow> int \<Rightarrow> net \<Rightarrow> (int call \<times> net) option" where
  "icmpDestUnreach unreached code s = do {
     (r, s) \<leftarrow> netGetbuf s;
     (case r of Switched \<Rightarrow> Some (Switched, s)
      | Returned pkt \<Rightarrow>
          if pkt = -1 then Some (Returned SYSERR, s)
          else (let (dst, s) = icmp_quote unreached pkt s;
                    s = s\<lparr>pb := put (curr (packets s pkt)) [0, 0, 0, 0] (pb s)\<rparr>
                in icmp_finish pkt 3 code dst s))
   }"

definition icmpRedirect :: "u32 \<Rightarrow> int \<Rightarrow> nat \<Rightarrow> net \<Rightarrow> (int call \<times> net) option" where
  "icmpRedirect redir code route s = do {
     (r, s) \<leftarrow> netGetbuf s;
     (case r of Switched \<Rightarrow> Some (Switched, s)
      | Returned pkt \<Rightarrow>
          if pkt = -1 then Some (Returned SYSERR, s)
          else do {
            let (dst, s) = icmp_quote redir pkt s;
            gate \<leftarrow> take_arr 4 (naddr (rt_gateway (rttab s ! route)));
            let s = s\<lparr>pb := put (curr (packets s pkt)) gate (pb s)\<rparr>;
            icmp_finish pkt 5 code dst s
          })
   }"

definition icmpTimeExceeded :: "u32 \<Rightarrow> int \<Rightarrow> net \<Rightarrow> (int call \<times> net) option" where
  "icmpTimeExceeded unreached code s = do {
     (r, s) \<leftarrow> netGetbuf s;
     (case r of Switched \<Rightarrow> Some (Switched, s)
      | Returned pkt \<Rightarrow>
          if pkt = -1 then Some (Returned SYSERR, s)
          else (let (dst, s) = icmp_quote unreached pkt s;
                    s = s\<lparr>pb := put (curr (packets s pkt)) [0, 0, 0, 0] (pb s)\<rparr>
                in icmp_finish pkt 11 code dst s))
   }"

definition icmp_messages :: icmp where
  "icmp_messages im pkt s = do {
     (r, s) \<leftarrow> (case im of DestUnreach code \<Rightarrow> icmpDestUnreach pkt code s
                 | Redirect code route \<Rightarrow> icmpRedirect pkt code route s
                 | TimeExceeded code \<Rightarrow> icmpTimeExceeded pkt code s);
     Some (case r of Switched \<Rightarrow> Switched | Returned _ \<Rightarrow> Returned (), s)
   }"

section \<open>Echo\<close>

text \<open>A 32-bit number in the byte order of the machine.\<close>

definition st32 :: "u32 \<Rightarrow> u32 \<Rightarrow> bytes \<Rightarrow> bytes" where
  "st32 p w m = st16 (p + 2) (ucast (drop_bit 16 w)) (st16 p (ucast w) m)"

text \<open>\<open>cyc\<close> is what \<^verbatim>\<open>clkcount\<close> returns. The fields of \<^verbatim>\<open>struct icmpEcho\<close> take 28 bytes.\<close>

definition icmpEchoRequest :: "u32 \<Rightarrow> netaddr \<Rightarrow> u16 \<Rightarrow> u16 \<Rightarrow> net \<Rightarrow> (int call \<times> net) option" where
  "icmpEchoRequest cyc dst ident sq s = do {
     (r, s) \<leftarrow> netGetbuf s;
     (case r of Switched \<Rightarrow> Some (Switched, s)
      | Returned pkt \<Rightarrow>
          if pkt = -1 then Some (Returned SYSERR, s)
          else (let s = pktwr pkt (\<lambda>p. p\<lparr>p_len := 28, curr := curr p - 28\<rparr>) s;
                    echo = curr (packets s pkt);
                    m = stn16 echo ident (pb s);
                    m = stn16 (echo + 2) sq m;
                    (im, s) = ndisable s;
                    m = st32 (echo + 12) (hl2net cyc) m;
                    m = st32 (echo + 8) (hl2net (clkticks (nkern s))) m;
                    m = st32 (echo + 4) (hl2net (clktime (nkern s))) m;
                    s = nrestore im s;
                    m = st32 (echo + 24) 0 m;
                    m = st32 (echo + 20) 0 m;
                    m = st32 (echo + 16) 0 m
                in do {
                     (r, s) \<leftarrow> icmpSend pkt 8 0 28 dst (s\<lparr>pb := m\<rparr>);
                     (case r of Switched \<Rightarrow> Some (Switched, s)
                      | Returned result \<Rightarrow> do { (_, s) \<leftarrow> netFreebuf pkt s; Some (Returned result, s) })
                   }))
   }"

definition icmpEchoReply :: "u32 \<Rightarrow> nat \<Rightarrow> net \<Rightarrow> (int call \<times> net) option" where
  "icmpEchoReply pkt nif s =
     (if pkt = 0 then Some (Returned SYSERR, s)
      else do {
        let ip = nethdr (packets s pkt);
        let icmp = curr (packets s pkt);
        let s = s\<lparr>pb := (pb s)(icmp := ucast (hs2net 0))\<rparr>;
        let dst = ip4 (get (ip + 12) 4 (pb s));
        (r, s) \<leftarrow> ipv4Send no_icmp pkt (if_ip (netiftab s ! nif)) (Some dst) IPv4_PROTO_ICMP s;
        (case r of Switched \<Rightarrow> Some (Switched, s) | Returned _ \<Rightarrow> Some (Returned OK, s))
      })"

definition icmpInit_rest :: "u32 \<Rightarrow> u32 \<Rightarrow> int \<Rightarrow> net \<Rightarrow> (int call \<times> net) option" where
  "icmpInit_rest initret daemon box s =
     (let s = s\<lparr>icmpqueue := box\<rparr> in
      if box = SYSERR then Some (Returned SYSERR, s)
      else do {
        let s = s\<lparr>echotab := replicate 5 (zero_echo\<lparr>eq_tid := -1\<rparr>)\<rparr>;
        (tid, s) \<leftarrow> kcall (create initret daemon 4096 30 ''icmpDaemon'' []) s;
        (_, s) \<leftarrow> kcall (ready tid False) s;
        Some (Returned OK, s)
      })"

definition icmpInit :: "u32 \<Rightarrow> u32 \<Rightarrow> net \<Rightarrow> (int call \<times> net) option" where
  "icmpInit initret daemon s = do {
     (r, s) \<leftarrow> kcall (mailboxAlloc 10) s;
     (case r of Switched \<Rightarrow> Some (Switched, s) | Returned box \<Rightarrow> icmpInit_rest initret daemon box s)
   }"

section \<open>Receiving\<close>

text \<open>The loop of the daemon over the interfaces: the first one that is up and has the address.\<close>

fun daemon_match :: "nat \<Rightarrow> netaddr \<Rightarrow> netif list \<Rightarrow> nat option option" where
  "daemon_match i dst [] = Some None"
| "daemon_match i dst (n # ns) =
     (if if_state n \<noteq> NET_ALLOC then daemon_match (Suc i) dst ns
      else do {
        e1 \<leftarrow> netaddrequal (if_ip n) dst;
        e2 \<leftarrow> (if e1 then Some True else netaddrequal (if_ipbrc n) dst);
        if e2 then Some (Some i) else daemon_match (Suc i) dst ns
      })"

text \<open>
  One pass of \<^verbatim>\<open>icmpDaemon\<close> from the top of its loop; \<open>pkt\<close> and \<open>mtch\<close> are its variables, which the
  pass returns. \<open>mtch\<close> is not reset: a packet for no interface is answered like the last one that had an
  interface, and while there was none its buffer is freed, and freed again in the next pass.
\<close>

definition icmpDaemon_got :: "int \<Rightarrow> nat option \<Rightarrow> net \<Rightarrow> ((u32 \<times> nat option) call \<times> net) option" where
  "icmpDaemon_got q mtch s =
     (let pkt = word_of_int q in
      if q = SYSERR then Some (Returned (pkt, mtch), s)
      else do {
        let dst = ip4 (get (nethdr (packets s pkt) + 16) 4 (pb s));
        found \<leftarrow> daemon_match 0 dst (netiftab s);
        let mtch = (case found of None \<Rightarrow> mtch | Some i \<Rightarrow> Some i);
        (case mtch of
           Some i \<Rightarrow> do {
             (r, s) \<leftarrow> icmpEchoReply pkt i s;
             Some (case r of Switched \<Rightarrow> Switched | Returned _ \<Rightarrow> Returned (pkt, mtch), s)
           }
         | None \<Rightarrow> do { (_, s) \<leftarrow> netFreebuf pkt s; Some (Returned (pkt, mtch), s) })
      })"

definition icmpDaemon_pass :: "u32 \<Rightarrow> nat option \<Rightarrow> net \<Rightarrow> ((u32 \<times> nat option) call \<times> net) option" where
  "icmpDaemon_pass pkt mtch s = do {
     (_, s) \<leftarrow> (if pkt \<noteq> 0 then netFreebuf pkt s else Some (OK, s));
     (r, s) \<leftarrow> kcall (mailboxReceive (word_of_int (icmpqueue s))) s;
     (case r of Switched \<Rightarrow> Some (Switched, s) | Returned q \<Rightarrow> icmpDaemon_got q mtch s)
   }"

text \<open>An echo reply is kept for the thread whose number it has, and the thread gets a message.\<close>

definition icmpRecv_reply :: "u32 \<Rightarrow> u32 \<Rightarrow> net \<Rightarrow> (int call \<times> net) option" where
  "icmpRecv_reply cyc pkt s =
     (let echo = curr (packets s pkt) + 4; ident = uint (ldn16 (pb s) echo) in
      if ident < NTHREAD
      then do {
        let (im, s) = ndisable s;
        let m = st32 (echo + 24) cyc (pb s);
        let m = st32 (echo + 20) (clkticks (nkern s)) m;
        let m = st32 (echo + 16) (clktime (nkern s)) m;
        let s = s\<lparr>pb := m\<rparr>;
        (case find_from 0 (\<lambda>q. ident = eq_tid q) (echotab s) of
           None \<Rightarrow> do { (_, s) \<leftarrow> netFreebuf pkt (nrestore im s); Some (Returned SYSERR, s) }
         | Some i \<Rightarrow> (let q = echotab s ! i in
             if (eq_head q + 1) mod 10 = eq_tail q
             then do { (_, s) \<leftarrow> netFreebuf pkt (nrestore im s); Some (Returned SYSERR, s) }
             else if length (eq_pkts q) \<le> eq_head q then None
             else do {
               let s = s\<lparr>echotab := (echotab s)[i := q\<lparr>eq_pkts := (eq_pkts q)[eq_head q := pkt],
                         eq_head := (eq_head q + 1) mod 10\<rparr>]\<rparr>;
               let me = thrcurrent (nkern s);
               (_, s) \<leftarrow> kcall (send ident (sint pkt)) s;
               if thrcurrent (nkern s) \<noteq> me then Some (Switched, s) else Some (Returned OK, nrestore im s)
             }))
      }
      else do { (_, s) \<leftarrow> netFreebuf pkt s; Some (Returned SYSERR, s) })"

definition icmpRecv :: "u32 \<Rightarrow> u32 \<Rightarrow> net \<Rightarrow> (int call \<times> net) option" where
  "icmpRecv cyc pkt s =
     (if pkt = 0 then Some (Returned SYSERR, s)
      else (let ty = pb s (curr (packets s pkt)) in
        if ty = 0 then icmpRecv_reply cyc pkt s
        else if ty = 8 then do {
          (r, s) \<leftarrow> kcall (mailboxSend (word_of_int (icmpqueue s)) (sint pkt)) s;
          (case r of Switched \<Rightarrow> Some (Switched, s) | Returned _ \<Rightarrow> Some (Returned OK, s))
        }
        else do { (_, s) \<leftarrow> netFreebuf pkt s; Some (Returned OK, s) }))"

text \<open>One pass of the loop of \<^verbatim>\<open>rtDaemon\<close>.\<close>

definition rtDaemon_got :: "int \<Rightarrow> net \<Rightarrow> (unit call \<times> net) option" where
  "rtDaemon_got q s =
     (if q = SYSERR then Some (Returned (), s)
      else do {
        (r, s) \<leftarrow> rtSend icmp_messages (word_of_int q) s;
        (case r of Switched \<Rightarrow> Some (Switched, s)
         | Returned _ \<Rightarrow> do { (_, s) \<leftarrow> netFreebuf (word_of_int q) s; Some (Returned (), s) })
      })"

definition rtDaemon_pass :: "net \<Rightarrow> (unit call \<times> net) option" where
  "rtDaemon_pass s = do {
     (r, s) \<leftarrow> kcall (mailboxReceive (word_of_int (rtqueue s))) s;
     (case r of Switched \<Rightarrow> Some (Switched, s) | Returned q \<Rightarrow> rtDaemon_got q s)
   }"

section \<open>The messages\<close>

lemma header_no_df:
  assumes "length sa = 4" "length da = 4"
  shows "and (ldn16 (ipv4_header ip len proto sa da m) (ip + 6)) IPv4_FLAG_DF = 0"
proof -
  obtain chk where "get ip 20 (ipv4_header ip len proto sa da m) = ip_bytes (ucast len) proto chk sa da"
    using ip_header_bytes [OF assms] by blast
  then have "ld16 (ipv4_header ip len proto sa da m) (ip + 6) = 0"
    by (simp add: get_20 ip_bytes_def be16_def ld16_def add.assoc)
  then show ?thesis by (simp add: ldn16_def hs2net_def)
qed

text \<open>The header that \<^verbatim>\<open>ipv4Send\<close> writes does not forbid fragments, so it never causes a message.\<close>

lemma ipv4Send_no_icmp: "ipv4Send icmp pkt src dst proto s = ipv4Send no_icmp pkt src dst proto s"
proof -
  have "ipv4SendFrag icmp pkt hop (t\<lparr>pb := ipv4_header (curr (packets t pkt)) len proto sa da m\<rparr>) =
        ipv4SendFrag no_icmp pkt hop (t\<lparr>pb := ipv4_header (curr (packets t pkt)) len proto sa da m\<rparr>)"
    if "length sa = 4" "length da = 4" for t hop len sa da m
    using header_no_df [OF that] by (simp add: ipv4SendFrag_def Let_def cong: Option.bind_cong if_cong)
  then show ?thesis
    by (auto simp: ipv4Send_def Let_def take_arr_def split: option.splits bind_splits intro!: Option.bind_cong if_cong)
qed


lemma rtLookup_iff: "rtLookup dst s = Some (Some i, restored s) \<longleftrightarrow> rt_scan dst (rttab s) [0..<RT_NENTRY] None = Some (Some i)"
  by (auto simp: rtLookup_def nirq_simps Let_def simp del: upt_rec_numeral split: bind_splits)

lemma route_up_cong:
  assumes "rttab t = rttab s" "arptab t = arptab s" "netiftab t = netiftab s" "nkern t = nkern s"
  shows "route_up t = route_up s"
  unfolding route_up_def rtLookup_iff rt_ok_def arp_ok_def arp_fresh_def arp_index_def assms ..

lemma get_4: "get p 4 m = [m p, m (p + 1), m (p + 2), m (p + 3)]"
  by (rule nth_equalityI) (auto simp: get_nth numeral_eq_Suc less_Suc_eq_0_disj add.commute)

text \<open>The message that \<^verbatim>\<open>icmpSend\<close> puts before the data of a packet has the checksum zero, wherever it is received.\<close>

lemma icmp_header_bytes:
  assumes "n \<le> 2 ^ 31"
  shows "\<exists>ck :: u16. get icmp (4 + n) (icmp_header icmp ty code len m) =
    [ty, code, ucast ck, ucast (drop_bit 8 ck)] @ get (icmp + 4) n m"
proof -
  define m1 where "m1 = st16 (icmp + 2) 0 (m(icmp := ty, icmp + 1 := code))"
  define ck where "ck = netChksum icmp len m1"
  have h: "icmp_header icmp ty code len m = st16 (icmp + 2) ck m1" by (simp add: icmp_header_def Let_def ck_def m1_def)
  have d: "rng icmp 4 \<inter> rng (icmp + 4) n = {}" using rng_disjoint [of 4 n icmp] assms by simp
  have "get (icmp + 4) n (st16 (icmp + 2) ck m1) = get (icmp + 4) n m"
  proof (rule get_cong)
    fix a assume "a \<in> rng (icmp + 4) n"
    then have "a \<notin> rng icmp 4" using d by auto
    then have "a \<noteq> icmp + of_nat k" if "k < 4" for k using that by (auto simp: rng_eq)
    from this [of 0] this [of 1] this [of 2] this [of 3] show "st16 (icmp + 2) ck m1 a = m a"
      by (simp add: m1_def st16_def add.assoc)
  qed
  moreover have "get icmp 4 (st16 (icmp + 2) ck m1) = [ty, code, ucast ck, ucast (drop_bit 8 ck)]"
    by (simp add: get_4 m1_def st16_def add.assoc)
  ultimately have "get icmp (4 + n) (st16 (icmp + 2) ck m1) = [ty, code, ucast ck, ucast (drop_bit 8 ck)] @ get (icmp + 4) n m"
    by (simp only: get_append) simp
  then show ?thesis using h by (intro exI [of _ ck]) simp
qed

lemma icmp_header_chksum:
  assumes "unat len \<le> 131074" "4 \<le> unat len"
  shows "netChksum icmp len (icmp_header icmp ty code len m) = 0"
  unfolding icmp_header_def Let_def using assms by (intro chksum_stored [of 1]) simp_all

lemma icmpSend_message:
  assumes up: "route_up s dst n hop hsa hda" and nif: "nif = netiftab s ! n"
    and pkt: "pkt \<noteq> 0" "p = packets s pkt" "unat (p_len p) + 24 \<le> unat (mtu nif)"
  shows "\<exists>s' hdr chk msg (ck :: u16). icmpSend pkt ty code (p_len p) dst s =
      Some (Returned (if devwrite s (if_dev nif) (hda @ hsa @ [8, 0] @ hdr @ msg) = SYSERR then SYSERR else OK), s')
    \<and> wire s' = wire s @ [(if_dev nif, hda @ hsa @ [8, 0] @ hdr @ msg)]
    \<and> hdr = ip_bytes (of_nat (20 + length msg)) IPv4_PROTO_ICMP chk (take 4 (naddr (if_ip nif))) (take 4 (naddr dst))
    \<and> msg = [ty, code, ucast ck, ucast (drop_bit 8 ck)] @ get (curr p) (unat (p_len p)) (pb s)
    \<and> (\<forall>q m. get q (length msg) m = msg \<longrightarrow> netChksum q (of_nat (length msg)) m = 0)"
proof -
  define len icmp where "len = p_len p + 4" and "icmp = curr p - 4"
  define m1 where "m1 = icmp_header icmp ty code len (pb s)"
  define t where "t = (pktwr pkt (\<lambda>p. p\<lparr>curr := icmp, p_len := len\<rparr>) s)\<lparr>pb := m1\<rparr>"
  define msg where "msg = get icmp (unat len) m1"
  have t: "rttab t = rttab s" "arptab t = arptab s" "netiftab t = netiftab s" "nkern t = nkern s" "devwrite t = devwrite s" "wire t = wire s"
    "packets t pkt = p\<lparr>curr := icmp, p_len := len\<rparr>" "pb t = m1" by (simp_all add: t_def pktwr_def pkt(2))
  have mtu: "unat (mtu nif) < 65536" using up by (simp add: route_up_def nif if_up_def word_less_nat_alt)
  then have len: "unat len = 4 + unat (p_len p)" "unat len \<le> 131074" using pkt(3) by (simp_all add: len_def unat_word_ariths)
  then obtain ck :: u16 where ck: "msg = [ty, code, ucast ck, ucast (drop_bit 8 ck)] @ get (curr p) (unat (p_len p)) (pb s)"
    using icmp_header_bytes [of "unat (p_len p)" icmp ty code len "pb s"] by (auto simp: msg_def m1_def icmp_def)
  define sa where "sa = take 4 (naddr (if_ip nif))"
  define ip where "ip = icmp - 20"
  define M where "M = ipv4_header ip (len + 20) IPv4_PROTO_ICMP sa (take 4 (naddr dst)) m1"
  have sa: "length sa = 4" "length (take 4 (naddr dst)) = 4" using up by (simp_all add: route_up_def nif if_up_def sa_def netaddr_ok_def)
  obtain chk where chk: "get ip 20 M = ip_bytes (ucast (len + 20)) IPv4_PROTO_ICMP chk sa (take 4 (naddr dst))"
    using ip_header_bytes [OF sa] unfolding M_def by blast
  have l: "length msg = unat len" by (simp add: msg_def)
  then have lo: "of_nat (length msg) = len" by simp
  have "unat (len + 20) = 20 + length msg" using len mtu pkt(3) by (simp add: l unat_word_ariths)
  moreover have "ucast (len + 20) = (of_nat (unat (len + 20)) :: u16)" by (simp only: of_nat_unat)
  ultimately have u: "ucast (len + 20) = (of_nat (20 + length msg) :: u16)" by (simp only:)
  have s1: "icmpSend pkt ty code (p_len p) dst s = ipv4Send no_icmp pkt zero_addr (Some dst) IPv4_PROTO_ICMP t"
    using pkt(1,2) by (simp add: icmpSend_def Let_def pktwr_def t_def m1_def icmp_def len_def)
  from ipv4Send_frame [of t dst n hop hsa hda nif pkt "packets t pkt" sa zero_addr ip M IPv4_PROTO_ICMP _ no_icmp, OF _ _ pkt(1) refl _ _ sa(1) _ _ refl]
  have "\<exists>s'. icmpSend pkt ty code (p_len p) dst s =
      Some (Returned (if devwrite s (if_dev nif) (hda @ hsa @ [8, 0] @ get ip 20 M @ msg) = SYSERR then SYSERR else OK), s')
    \<and> wire s' = wire s @ [(if_dev nif, hda @ hsa @ [8, 0] @ get ip 20 M @ msg)]"
    using s1 up t nif len pkt(3) route_up_cong [OF t(1-4)] by (simp add: ip_def M_def sa_def zero_addr_def msg_def)
  moreover have "netChksum q (of_nat (length msg)) m = 0" if "get q (length msg) m = msg" for q m
    using netChksum_get [of q len m icmp m1] that icmp_header_chksum [of len icmp ty code "pb s"] len
    unfolding lo by (simp add: l msg_def m1_def)
  moreover have "get ip 20 M = ip_bytes (of_nat (20 + length msg)) IPv4_PROTO_ICMP chk (take 4 (naddr (if_ip nif))) (take 4 (naddr dst))"
    using chk by (simp only: u sa_def)
  ultimately show ?thesis using ck by blast
qed

section \<open>The reply to an echo request\<close>

lemma st16_ld16: "st16 p (ld16 m' p) m = m(p := m' p, p + 1 := m' (p + 1))"
proof -
  have "(ucast (ld16 m' p) :: u8) = m' p" "(ucast (drop_bit 8 (ld16 m' p)) :: u8) = m' (p + 1)"
    unfolding ld16_def by (rule bit_word_eqI; auto simp: bit_simps dest: bit_imp_le_length)+
  then show ?thesis by (simp add: st16_def)
qed

lemma type_changed:
  assumes "netChksum icmp k m = 0" "unat k \<le> 131074" "2 \<le> unat k" "m icmp = 8"
  shows "netChksum icmp k (m(icmp := 0)) \<noteq> 0"
proof -
  let ?m = "m(icmp := 0)"
  have "unat (m (icmp + 1)) < 256" using unat_lt [of "m (icmp + 1)"] by simp
  then have "unat (ld16 ?m icmp) mod 65535 \<noteq> unat (ld16 m icmp) mod 65535"
    using ld16_unat [of ?m icmp] ld16_unat [of m icmp] assms(4) by simp
  then have "netChksum icmp k (st16 icmp (ld16 ?m icmp) m) \<noteq> 0" using chksum_change [of icmp k m 0] assms(1-3) by simp
  moreover have "st16 icmp (ld16 ?m icmp) m = ?m" unfolding st16_ld16 by (auto simp: fun_eq_iff)
  ultimately show ?thesis by (simp only:) simp
qed

text \<open>C22: the reply to an echo request is malformed. For a correct request of \<open>k\<close> bytes, received with its
  Ethernet and IP headers, \<^verbatim>\<open>icmpEchoReply\<close> sends a packet whose length counts those headers once more, so that 34
  bytes of whatever is behind the message follow it, and whose message has the type of a reply but the checksum of
  the request, which does not verify.\<close>

theorem echo_reply_malformed:
  assumes up: "route_up s dst n hop hsa hda" and nif: "nif = netiftab s ! n"
    and pkt: "pkt \<noteq> 0" "p = packets s pkt" "curr p = nethdr p + 20" "dst = ip4 (get (nethdr p + 12) 4 (pb s))"
    and len: "p_len p = 34 + k" "4 \<le> unat k" "unat k + 54 \<le> unat (mtu nif)"
    and request: "pb s (curr p) = 8" "netChksum (curr p) k (pb s) = 0"
    and src: "src = if_ip (netiftab s ! i)" "ntype src = NETADDR_IPv4" "netaddr_ok src"
  shows "\<exists>s' hdr chk reply junk. icmpEchoReply pkt i s = Some (Returned OK, s')
    \<and> wire s' = wire s @ [(if_dev nif, hda @ hsa @ [8, 0] @ hdr @ reply @ junk)]
    \<and> hdr = ip_bytes (of_nat (54 + unat k)) IPv4_PROTO_ICMP chk (take 4 (naddr src)) (take 4 (naddr dst))
    \<and> reply = 0 # tl (get (curr p) (unat k) (pb s)) \<and> length reply = unat k \<and> length junk = 34
    \<and> (\<forall>q m. get q (unat k) m = reply \<longrightarrow> netChksum q k m \<noteq> 0)"
proof -
  define icmp ip where "icmp = curr p" and "ip = icmp - 20"
  define m1 where "m1 = (pb s)(icmp := 0)"
  define t where "t = s\<lparr>pb := m1\<rparr>"
  define sa M where "sa = take 4 (naddr src)" and "M = ipv4_header ip (p_len p + 20) IPv4_PROTO_ICMP sa (take 4 (naddr dst)) m1"
  have mtu: "unat (mtu nif) < 65536" using up by (simp add: route_up_def nif if_up_def word_less_nat_alt)
  then have k: "unat (p_len p) = unat k + 34" "unat (p_len p + 20) = 54 + unat k" "unat k \<le> 131074"
    using len by (simp_all add: unat_word_ariths)
  have sa: "length sa = 4" "length (take 4 (naddr dst)) = 4" using up src(3) by (simp_all add: route_up_def sa_def netaddr_ok_def)
  obtain chk where chk: "get ip 20 M = ip_bytes (ucast (p_len p + 20)) IPv4_PROTO_ICMP chk sa (take 4 (naddr dst))"
    using ip_header_bytes [OF sa] unfolding M_def by blast
  have u: "ucast (p_len p + 20) = (of_nat (54 + unat k) :: u16)" unfolding k(2) [symmetric] by (simp only: of_nat_unat)
  have data: "get icmp (unat (p_len p)) m1 = get icmp (unat k) m1 @ get (icmp + k) 34 m1" by (simp add: k(1) get_append)
  obtain j where j: "unat k = Suc j" using len(2) by (cases "unat k") auto
  have "get (icmp + 1) j m1 = get (icmp + 1) j (pb s)"
    unfolding m1_def using rng_start [of j icmp] unat_lt [of k] j by (intro get_cong) auto
  then have reply: "get icmp (unat k) m1 = 0 # tl (get icmp (unat k) (pb s))" by (simp add: j m1_def)
  have up': "route_up t dst n hop hsa hda" using up route_up_cong [of t s] by (simp add: t_def)
  have "dst = ip4 (get (nethdr p + 12) 4 m1)" using pkt(3,4) by (simp add: m1_def get_4 icmp_def add.assoc)
  then have e: "icmpEchoReply pkt i s = do { (r, s) \<leftarrow> ipv4Send no_icmp pkt src (Some dst) IPv4_PROTO_ICMP t;
      (case r of Switched \<Rightarrow> Some (Switched, s) | Returned _ \<Rightarrow> Some (Returned OK, s)) }"
    using pkt(1,2) src(1) by (simp add: icmpEchoReply_def Let_def hs2net_def t_def m1_def icmp_def)
  from ipv4Send_frame [of t dst n hop hsa hda nif pkt p sa src ip M IPv4_PROTO_ICMP _ no_icmp, OF up' _ pkt(1) _ _ _ sa(1) _ _ refl]
  have "\<exists>s'. icmpEchoReply pkt i s = Some (Returned OK, s')
    \<and> wire s' = wire s @ [(if_dev nif, hda @ hsa @ [8, 0] @ get ip 20 M @ get icmp (unat k) m1 @ get (icmp + k) 34 m1)]"
    using e data k nif len(3) pkt(2) src(2) by (auto simp: t_def ip_def icmp_def M_def sa_def)
  moreover have "netChksum q k m \<noteq> 0" if "get q (unat k) m = get icmp (unat k) m1" for q m
    using netChksum_get [of q k m icmp m1] type_changed [of icmp k "pb s"] that k(3) len(2) request by (simp add: m1_def icmp_def)
  moreover have "get ip 20 M = ip_bytes (of_nat (54 + unat k)) IPv4_PROTO_ICMP chk (take 4 (naddr src)) (take 4 (naddr dst))"
    using chk by (simp only: u sa_def)
  moreover have "length (get icmp (unat k) m1) = unat k" "length (get (icmp + k) 34 m1) = 34" by simp_all
  ultimately show ?thesis using reply unfolding icmp_def by blast
qed

text \<open>The example: a request of eight bytes from 192.168.0.9.\<close>

definition ping_ex :: net where
  "ping_ex = send_ex\<lparr>packets := (packets net0)(0x2000 := \<lparr>p_nif = Some 0, p_len = 42, linkhdr = 0x2FF2, nethdr = 0x3000, curr = 0x3014\<rparr>),
     pb := put 0x300C [192, 168, 0, 9] (put 0x3014 [8, 0, 0xF7, 0xFD, 0, 1, 0, 1] (\<lambda>_. 0))\<rparr>"

theorem echo_reply_malformed_witness:
  "\<exists>s' hdr chk junk. icmpEchoReply 0x2000 0 ping_ex = Some (Returned OK, s')
    \<and> wire s' = [(3, [2, 0, 0, 0, 0, 9] @ [2, 0, 0, 0, 0, 1] @ [8, 0] @ hdr @ [0, 0, 0xF7, 0xFD, 0, 1, 0, 1] @ junk)]
    \<and> hdr = ip_bytes 62 1 chk [192, 168, 0, 1] [192, 168, 0, 9] \<and> length junk = 34
    \<and> (\<forall>q m. get q 8 m = [0, 0, 0xF7, 0xFD, 0, 1, 0, 1] \<longrightarrow> netChksum q 8 m \<noteq> 0)"
proof -
  define nif where "nif = netiftab ping_ex ! 0"
  have up: "route_up ping_ex (ip4 [192, 168, 0, 9]) 0 (ip4 [192, 168, 0, 9]) [2, 0, 0, 0, 0, 1] [2, 0, 0, 0, 0, 9]"
    using send_ex_up route_up_cong [of ping_ex send_ex] by (simp add: ping_ex_def)
  have e: "if_dev nif = 3" "mtu nif = 1500" "if_ip nif = ip4 [192, 168, 0, 1]" "wire ping_ex = []"
    by (simp_all add: ping_ex_def send_ex_def nif_def net0_def)
  have p: "packets ping_ex 0x2000 = \<lparr>p_nif = Some 0, p_len = 42, linkhdr = 0x2FF2, nethdr = 0x3000, curr = 0x3014\<rparr>"
    by (simp add: ping_ex_def)
  have m: "get 0x300C 4 (pb ping_ex) = [192, 168, 0, 9]" "pb ping_ex 0x3014 = 8" "netChksum 0x3014 8 (pb ping_ex) = 0"
    "get 0x3014 8 (pb ping_ex) = [8, 0, 0xF7, 0xFD, 0, 1, 0, 1]" by code_simp+
  from echo_reply_malformed [OF up nif_def _ refl _ _ _ _ _ _ _ refl, of "0x2000" 8 0]
  show ?thesis using e m by (simp add: p ip4_def netaddr_ok_def nif_def)
qed

end
