(* ===== verification/Xinu_Netif.thy ===== *)
theory Xinu_Netif
  imports Xinu_Icmp
begin

text \<open>
  Starting and stopping network interfaces: \<^verbatim>\<open>network/net/netInit.c\<close>, \<^verbatim>\<open>netUp.c\<close>,
  \<^verbatim>\<open>netDown.c\<close>, and the receive loop \<^verbatim>\<open>netRecv.c\<close>. What the driver of a device tells
  about it is the parameter \<open>dev\<close>, none for a bad device; \<open>initret\<close>, \<open>recvaddr\<close> and \<open>netaddr_of\<close> are the addresses
  of \<^verbatim>\<open>userret\<close>, of \<^verbatim>\<open>netRecv\<close> and of an entry of \<^verbatim>\<open>netiftab\<close>. UDP, TCP and raw
  receivers are the parameter \<open>rest\<close>, and \<open>stray\<close> is what clearing the memory behind \<^verbatim>\<open>netiftab\<close> does to the state. The lemmas show
  that \<^verbatim>\<open>netDown\<close> takes an interface and its routes out of use, and two faults: \<^verbatim>\<open>netUp\<close> of an interface that is up already
  leaves the interrupts off, and \<^verbatim>\<open>netDown\<close> clears entry 5 of the table, or what lies there behind it, instead of the one of the interface.
\<close>

section \<open>The operations\<close>

record netdev =
  d_name :: string
  d_linkhdrlen :: u32
  d_mtu :: u32
  d_hwaddr :: "netaddr option"
  d_hwbrc :: "netaddr option"

definition nifwr :: "nat \<Rightarrow> (netif \<Rightarrow> netif) \<Rightarrow> net \<Rightarrow> net" where
  "nifwr n f s = s\<lparr>netiftab := (netiftab s)[n := f (netiftab s ! n)]\<rparr>"

text \<open>The broadcast address: the octets of the network with all bits of the host set.\<close>

fun brc_octets :: "nat \<Rightarrow> u8 list \<Rightarrow> u8 list \<Rightarrow> u8 list \<Rightarrow> u8 list option" where
  "brc_octets 0 ip msk old = Some old"
| "brc_octets (Suc n) (x # ip) (y # msk) (z # old) = map_option ((#) (or (and x y) (not y))) (brc_octets n ip msk old)"
| "brc_octets (Suc n) _ _ _ = None"

definition netUp_config :: "int \<Rightarrow> netaddr \<Rightarrow> netaddr \<Rightarrow> netaddr option \<Rightarrow> netif \<Rightarrow> netif option" where
  "netUp_config descrp ip msk gateway nif = do {
     let nif = nif\<lparr>if_state := NET_ALLOC, if_dev := descrp, if_ip := ip, if_mask := msk,
                 if_gateway := (case gateway of None \<Rightarrow> (if_gateway nif)\<lparr>ntype := 0\<rparr> | Some g \<Rightarrow> g)\<rparr>;
     brc \<leftarrow> brc_octets (min (unat (nlen ip)) NET_MAX_ALEN) (naddr ip) (naddr msk) (naddr (if_ipbrc nif));
     Some (nif\<lparr>if_ipbrc := \<lparr>ntype = ntype ip, nlen = nlen ip, naddr = brc\<rparr>\<rparr>)
   }"

text \<open>The receive threads of an interface, from the \<open>i\<close>-th on.\<close>

fun netUp_threads :: "nat \<Rightarrow> nat \<Rightarrow> u32 \<Rightarrow> u32 \<Rightarrow> u32 \<Rightarrow> string \<Rightarrow> nat \<Rightarrow> net \<Rightarrow> net option" where
  "netUp_threads 0 i initret recvaddr arg nm n s = Some s"
| "netUp_threads (Suc k) i initret recvaddr arg nm n s = do {
     (tid, s) \<leftarrow> kcall (create initret recvaddr 4096 30 (nm @ ''recv0'' @ [char_of (48 + i)]) [arg]) s;
     let s = nifwr n (\<lambda>f. f\<lparr>recvthr := (recvthr f)[i := tid]\<rparr>) s;
     (_, s) \<leftarrow> kcall (ready tid False) s;
     netUp_threads k (Suc i) initret recvaddr arg nm n s
   }"

definition netUp_start :: "u32 \<Rightarrow> u32 \<Rightarrow> (nat \<Rightarrow> u32) \<Rightarrow> u8 list \<Rightarrow> netdev \<Rightarrow> netaddr option \<Rightarrow> nat \<Rightarrow> net \<Rightarrow> net option" where
  "netUp_start initret recvaddr netaddr_of junk d gateway n s = do {
     let nif = netiftab s ! n;
     (_, s) \<leftarrow> rtAdd (Some (if_ip nif)) None (Some (if_mask nif)) (Some n) s;
     (_, s) \<leftarrow> (if gateway \<noteq> None then rtDefault junk (Some (if_gateway nif)) (Some n) s else Some (OK, s));
     netUp_threads NET_NTHR 0 initret recvaddr (netaddr_of n) (d_name d) n s
   }"

definition netUp ::
    "(int \<Rightarrow> netdev option) \<Rightarrow> u32 \<Rightarrow> u32 \<Rightarrow> (nat \<Rightarrow> u32) \<Rightarrow> u8 list \<Rightarrow> int \<Rightarrow> netaddr option \<Rightarrow> netaddr option \<Rightarrow> netaddr option
     \<Rightarrow> net \<Rightarrow> (int \<times> net) option" where
  "netUp dev initret recvaddr netaddr_of junk descrp ip msk gateway s =
     (case (dev descrp, ip, msk) of
        (Some d, Some ip, Some msk) \<Rightarrow>
          if unat (nlen ip) > NET_MAX_ALEN \<or> unat (nlen msk) > NET_MAX_ALEN then Some (SYSERR, s)
          else (let (im, s) = ndisable s in
            if \<exists>nif\<in>set (netiftab s). if_state nif = NET_ALLOC \<and> descrp = if_dev nif then Some (SYSERR, s)
            else case netAlloc s of
              None \<Rightarrow> Some (SYSERR, nrestore im s)
            | Some n \<Rightarrow> do {
                nif \<leftarrow> netUp_config descrp ip msk gateway (netiftab s ! n);
                let nif = nif\<lparr>linkhdrlen := d_linkhdrlen d, mtu := d_mtu d\<rparr>;
                let s = nifwr n (\<lambda>_. nif) s;
                if d_linkhdrlen d = -1 \<or> d_mtu d = -1
                then Some (SYSERR, nrestore im (nifwr n (if_state_update (\<lambda>_. NET_FREE)) s))
                else case (d_hwaddr d, d_hwbrc d) of
                  (Some hw, Some brc) \<Rightarrow> do {
                    let s = nifwr n (\<lambda>f. f\<lparr>if_hwaddr := hw, if_hwbrc := brc\<rparr>) s;
                    s \<leftarrow> netUp_start initret recvaddr netaddr_of junk d gateway n s;
                    Some (OK, nrestore im s)
                  }
                | (hw, _) \<Rightarrow>
                    (let s = (case hw of None \<Rightarrow> s | Some hw \<Rightarrow> nifwr n (if_hwaddr_update (\<lambda>_. hw)) s)
                     in Some (SYSERR, nrestore im (nifwr n (if_state_update (\<lambda>_. NET_FREE)) s)))
              })
      | _ \<Rightarrow> Some (SYSERR, s))"

text \<open>The loop that kills the receive threads from the \<open>i\<close>-th on.\<close>

fun netDown_kill :: "nat \<Rightarrow> nat \<Rightarrow> nat \<Rightarrow> net \<Rightarrow> (unit call \<times> net) option" where
  "netDown_kill 0 i n s = Some (Returned (), s)"
| "netDown_kill (Suc k) i n s =
     (let tid = recvthr (netiftab s ! n) ! i in
      if isbadtid tid (nkern s) then netDown_kill k (Suc i) n s
      else do {
        (r, s) \<leftarrow> kcall (kill tid) s;
        (case r of Switched \<Rightarrow> Some (Switched, s)
         | Returned _ \<Rightarrow> netDown_kill k (Suc i) n (nifwr n (\<lambda>f. f\<lparr>recvthr := (recvthr f)[i := -1]\<rparr>) s))
      })"

text \<open>
  The variable \<^verbatim>\<open>i\<close> that is the index of the interface counts the threads after that: it is 5 when it
  is used for the entry to clear. Where the table is shorter, the memory behind it is cleared; what is there is
  up to the linker, and the effect is \<open>stray\<close>.
\<close>

definition netDown_clear :: "(net \<Rightarrow> net) \<Rightarrow> net \<Rightarrow> net" where
  "netDown_clear stray s = (if NET_NTHR < length (netiftab s) then nifwr NET_NTHR (\<lambda>_. zero_netif) s else stray s)"

definition netDown :: "(net \<Rightarrow> net) \<Rightarrow> (int \<Rightarrow> netdev option) \<Rightarrow> int \<Rightarrow> net \<Rightarrow> (int call \<times> net) option" where
  "netDown stray dev descrp s =
     (if dev descrp = None then Some (Returned SYSERR, s)
      else case netLookup descrp s of
        None \<Rightarrow> Some (Returned SYSERR, s)
      | Some n \<Rightarrow> do {
          let (im, s) = ndisable s;
          (r, s) \<leftarrow> netDown_kill NET_NTHR 0 n s;
          (case r of Switched \<Rightarrow> Some (Switched, s)
           | Returned _ \<Rightarrow>
               (let (r, s) = rtClear (Some n) s in
                if r = SYSERR then Some (Returned SYSERR, s)
                else (let s = netDown_clear stray s;
                          s = nifwr n (if_state_update (\<lambda>_. NET_FREE)) s
                      in Some (Returned OK, nrestore im s))))
        })"

text \<open>
  \<^verbatim>\<open>netInit\<close> for the platforms without TCP devices; \<open>nnetif\<close> is the number of interfaces, the other
  parameters are the addresses of \<^verbatim>\<open>userret\<close> and of the daemons.
\<close>

definition netInit :: "u32 \<Rightarrow> u32 \<Rightarrow> u32 \<Rightarrow> u32 \<Rightarrow> nat \<Rightarrow> net \<Rightarrow> (int call \<times> net) option" where
  "netInit initret arpDaemon rtDaemon icmpDaemon nnetif s = do {
     let s = s\<lparr>netiftab := replicate nnetif zero_netif\<rparr>;
     (pool, s) \<leftarrow> kcall (bfpalloc (1598 + 24) 512) s;
     let s = s\<lparr>netpool := pool\<rparr>;
     if pool = SYSERR then Some (Returned SYSERR, s)
     else do {
       (r, s) \<leftarrow> arpInit initret arpDaemon s;
       (case r of Switched \<Rightarrow> Some (Switched, s)
        | Returned r \<Rightarrow>
            if r = SYSERR then Some (Returned SYSERR, s)
            else do {
              (r, s) \<leftarrow> rtInit initret rtDaemon s;
              (case r of Switched \<Rightarrow> Some (Switched, s)
               | Returned r \<Rightarrow> if r = SYSERR then Some (Returned SYSERR, s) else icmpInit initret icmpDaemon s)
            })
     }
   }"

section \<open>Receiving\<close>

text \<open>
  One packet in the loop of \<^verbatim>\<open>netRecv\<close>: \<open>frame\<close> is what \<^verbatim>\<open>read\<close> on the device has put into the buffer
  \<open>pkt\<close>, \<open>len\<close> what it has returned, and \<open>cyc\<close> what \<^verbatim>\<open>clkcount\<close> returns. When the length is zero or its lower half is \<^verbatim>\<open>SYSERR\<close>, when
  the frame is for another station and when it is of another type, it is dropped without freeing the buffer.
\<close>

definition receivers :: "u32 \<Rightarrow> (upper \<Rightarrow> u32 \<Rightarrow> net \<Rightarrow> (unit call \<times> net) option) \<Rightarrow> upper \<Rightarrow> u32 \<Rightarrow> net \<Rightarrow> (unit call \<times> net) option" where
  "receivers cyc rest up pkt s =
     (if up = Icmp
      then do { (r, s) \<leftarrow> icmpRecv cyc pkt s; Some (case r of Switched \<Rightarrow> Switched | Returned _ \<Rightarrow> Returned (), s) }
      else rest up pkt s)"

definition netRecv_packet ::
    "u32 \<Rightarrow> (upper \<Rightarrow> u32 \<Rightarrow> net \<Rightarrow> (unit call \<times> net) option) \<Rightarrow> nat \<Rightarrow> u32 \<Rightarrow> u32 \<Rightarrow> u8 list \<Rightarrow> net \<Rightarrow> (unit call \<times> net) option" where
  "netRecv_packet cyc rest n pkt len frame s = do {
     let data = pkt_data pkt;
     let s = pktwr pkt (p_len_update (\<lambda>_. len)) (s\<lparr>pb := put data frame (pb s)\<rparr>);
     if len = 0 \<or> sint (ucast len :: u16) = SYSERR then Some (Returned (), s)
     else do {
       let s = pktwr pkt (\<lambda>p. p\<lparr>curr := data, p_nif := Some n, linkhdr := data\<rparr>) s;
       let s = nifwr n (\<lambda>f. f\<lparr>nin := nin f + 1\<rparr>) s;
       let dst = eth (get data 6 (pb s));
       hw \<leftarrow> netaddrequal dst (if_hwaddr (netiftab s ! n));
       mine \<leftarrow> (if hw then Some True else netaddrequal dst (if_hwbrc (netiftab s ! n)));
       if \<not> mine then Some (Returned (), s)
       else do {
         let s = pktwr pkt (curr_update (\<lambda>_. data + linkhdrlen (netiftab s ! n))) s;
         let ty = ldn16 (pb s) (data + 12);
         if ty = ETHER_TYPE_IPv4 \<or> ty = ETHER_TYPE_ARP
         then do {
           (r, s) \<leftarrow> (if ty = ETHER_TYPE_IPv4 then ipv4Recv (receivers cyc rest) pkt s else arpRecv pkt s);
           (case r of Switched \<Rightarrow> Some (Switched, s)
            | Returned _ \<Rightarrow> Some (Returned (), nifwr n (\<lambda>f. f\<lparr>nproc := nproc f + 1\<rparr>) s))
         }
         else Some (Returned (), s)
       }
     }
   }"

section \<open>Faults\<close>

text \<open>An interface on a device that has one already: the call fails and leaves the interrupts off.\<close>

lemma netUp_twice:
  assumes "dev descrp = Some d" "nif \<in> set (netiftab s)" "if_state nif = NET_ALLOC" "if_dev nif = descrp"
    and "unat (nlen ip) \<le> NET_MAX_ALEN" "unat (nlen msk) \<le> NET_MAX_ALEN"
  shows "netUp dev initret recvaddr netaddr_of junk descrp (Some ip) (Some msk) gateway s = Some (SYSERR, masked_off s)"
  using assms by (auto simp: netUp_def nirq_simps Let_def)

section \<open>Stopping an interface\<close>

text \<open>The loop over the receive threads changes the kernel, and marks the threads that it has killed.\<close>

lemma netDown_kill_frame:
  assumes "netDown_kill k i n s = Some (Returned (), t)"
  shows "\<exists>ts. rttab t = rttab s \<and> netiftab t = (netiftab s)[n := (netiftab s ! n)\<lparr>recvthr := ts\<rparr>]
    \<and> (\<forall>j. ts ! j = recvthr (netiftab s ! n) ! j \<or> ts ! j = -1)"
  using assms
proof (induction k arbitrary: i s)
  case 0
  have "(netiftab s ! n)\<lparr>recvthr := recvthr (netiftab s ! n)\<rparr> = netiftab s ! n" by simp
  then have "netiftab s = (netiftab s)[n := (netiftab s ! n)\<lparr>recvthr := recvthr (netiftab s ! n)\<rparr>]" by (simp only: list_update_id)
  then show ?case using 0 by (intro exI [of _ "recvthr (netiftab s ! n)"]) simp
next
  case (Suc k)
  let ?f = "netiftab s ! n"
  show ?case
  proof (cases "isbadtid (recvthr ?f ! i) (nkern s)")
    case True
    then show ?thesis using Suc by simp
  next
    case False
    with Suc.prems obtain r k' where r: "kill (recvthr ?f ! i) (nkern s) = Some (Returned r, k')"
      "netDown_kill k (Suc i) n (nifwr n (\<lambda>f. f\<lparr>recvthr := (recvthr f)[i := -1]\<rparr>) (s\<lparr>nkern := k'\<rparr>)) = Some (Returned (), t)"
      by (auto simp: Let_def kcall_def split: call.splits bind_splits)
    let ?u = "nifwr n (\<lambda>f. f\<lparr>recvthr := (recvthr f)[i := -1]\<rparr>) (s\<lparr>nkern := k'\<rparr>)"
    obtain ts where ts: "rttab t = rttab s" "netiftab t = (netiftab ?u)[n := (netiftab ?u ! n)\<lparr>recvthr := ts\<rparr>]"
      "\<forall>j. ts ! j = recvthr (netiftab ?u ! n) ! j \<or> ts ! j = -1" using Suc.IH [OF r(2)] by (auto simp: nifwr_def)
    show ?thesis
    proof (cases "n < length (netiftab s)")
      case True
      then have "ts ! j = recvthr ?f ! j \<or> ts ! j = -1" for j
        using ts(3) [rule_format, of j] by (cases "i = j"; cases "i < length (recvthr ?f)") (auto simp: nifwr_def list_update_beyond)
      then show ?thesis using ts(1,2) True by (intro exI [of _ ts]) (simp add: nifwr_def)
    next
      case False
      then show ?thesis using ts(1,2) by (intro exI [of _ "recvthr ?f"]) (simp add: nifwr_def list_update_beyond)
    qed
  qed
qed

lemma netDown_kill_gone:
  "(\<And>j. i \<le> j \<Longrightarrow> j < i + k \<Longrightarrow> isbadtid (recvthr (netiftab s ! n) ! j) (nkern s)) \<Longrightarrow> netDown_kill k i n s = Some (Returned (), s)"
  by (induction k arbitrary: i) (simp_all add: Let_def)

text \<open>C24: \<^verbatim>\<open>netDown\<close> of an interface that is up, when the kills of its receive threads return, takes it and its routes out of use and
  returns \<^verbatim>\<open>OK\<close>: no route uses it any more, the other routes are unchanged, and its entry is free. But it does
  not clear the entry, which keeps the device and the addresses, and clears entry 5 of the table instead, because the variable
  for the interface has counted the threads: a sixth interface is lost, whether it is up or not. When there is none, memory
  behind the table is cleared; the statement is for layouts where neither the table nor the routes are there.\<close>

theorem netDown_clears_another:
  assumes dev: "dev descrp \<noteq> None" "netLookup descrp s = Some n"
    and kills: "netDown_kill NET_NTHR 0 n (masked_off s) = Some (Returned (), t)"
    and stray: "\<And>u. netiftab (stray u) = netiftab u \<and> rttab (stray u) = rttab u"
  shows "\<exists>s' ts. netDown stray dev descrp s = Some (Returned OK, s')
    \<and> rttab s' = map (\<lambda>e. if rt_state e = RT_USED \<and> rt_nif e = Some n then e\<lparr>rt_state := RT_FREE, rt_nif := None\<rparr> else e) (rttab s)
    \<and> (n \<noteq> 5 \<longrightarrow> netiftab s' ! n = (netiftab s ! n)\<lparr>if_state := NET_FREE, recvthr := ts\<rparr>
          \<and> (\<forall>j. ts ! j = recvthr (netiftab s ! n) ! j \<or> ts ! j = -1))
    \<and> length (netiftab s') = length (netiftab s) \<and> (5 < length (netiftab s) \<longrightarrow> netiftab s' ! 5 = zero_netif)
    \<and> (\<forall>j. j \<noteq> n \<and> j \<noteq> 5 \<longrightarrow> netiftab s' ! j = netiftab s ! j)"
proof -
  have n: "n < length (netiftab s)" using find_from_SomeD dev(2) unfolding netLookup_def by fastforce
  obtain ts where ts: "rttab t = rttab s" "netiftab t = (netiftab s)[n := (netiftab s ! n)\<lparr>recvthr := ts\<rparr>]"
    "\<forall>j. ts ! j = recvthr (netiftab s ! n) ! j \<or> ts ! j = -1" using netDown_kill_frame [OF kills] by auto
  define u where "u = snd (rtClear (Some n) t)"
  have u: "rtClear (Some n) t = (OK, u)" "netiftab u = netiftab t"
    "rttab u = map (\<lambda>e. if rt_state e = RT_USED \<and> rt_nif e = Some n then e\<lparr>rt_state := RT_FREE, rt_nif := None\<rparr> else e) (rttab s)"
    by (simp_all add: u_def rtClear_def nirq_simps ts(1) Let_def)
  define v where "v = netDown_clear stray u"
  have v: "rttab v = rttab u" "netiftab v = (if 5 < length (netiftab s) then (netiftab t)[5 := zero_netif] else netiftab t)"
    using stray [of u] u(2) ts(2) by (simp_all add: v_def netDown_clear_def nifwr_def)
  have "netDown stray dev descrp s = Some (Returned OK, nrestore (imask (nkern s)) (nifwr n (if_state_update (\<lambda>_. NET_FREE)) v))"
    using dev kills u(1) by (simp add: netDown_def ndisable_def disable_eq v_def Let_def)
  moreover have z: "zero_netif\<lparr>if_state := NET_FREE\<rparr> = zero_netif" by (simp add: zero_netif_def)
  moreover have "rttab (nrestore im (nifwr n f v)) = rttab v" "netiftab (nrestore im (nifwr n f v)) = (netiftab v)[n := f (netiftab v ! n)]" for im f
    by (simp_all add: nrestore_def nifwr_def)
  ultimately show ?thesis using v u(3) ts(2,3) n
    by (intro exI [of _ "nrestore (imask (nkern s)) (nifwr n (if_state_update (\<lambda>_. NET_FREE)) v)"] exI [of _ ts], cases "n = 5") (auto simp: z)
qed

text \<open>The example: six interfaces, of which the first and the last are up; the receive threads of the first have ended.\<close>

definition down_ex :: net where
  "down_ex = send_ex\<lparr>netiftab := [(netiftab send_ex ! 0)\<lparr>recvthr := [-1, -1, -1, -1, -1]\<rparr>, zero_netif, zero_netif, zero_netif, zero_netif,
     (netiftab send_ex ! 0)\<lparr>if_dev := 4\<rparr>]\<rparr>"

theorem netDown_clears_another_witness:
  "\<exists>s'. netLookup 3 down_ex = Some 0 \<and> netLookup 4 down_ex = Some 5
     \<and> netDown id (\<lambda>_. Some \<lparr>d_name = ''ETH0'', d_linkhdrlen = 14, d_mtu = 1500, d_hwaddr = None, d_hwbrc = None\<rparr>) 3 down_ex = Some (Returned OK, s')
     \<and> if_state (netiftab s' ! 0) = NET_FREE \<and> if_ip (netiftab s' ! 0) = ip4 [192, 168, 0, 1] \<and> netiftab s' ! 5 = zero_netif"
proof -
  have l: "netLookup 3 down_ex = Some 0" "netLookup 4 down_ex = Some 5" "length (netiftab down_ex) = 6" "if_ip (netiftab down_ex ! 0) = ip4 [192, 168, 0, 1]"
    by (simp_all add: netLookup_def down_ex_def send_ex_def zero_netif_def)
  have "isbadtid (recvthr (netiftab down_ex ! 0) ! j) (nkern (masked_off down_ex))" if "j < 5" for j
    using that by (auto simp: down_ex_def isbadtid_def numeral_eq_Suc less_Suc_eq)
  then have "netDown_kill NET_NTHR 0 0 (masked_off down_ex) = Some (Returned (), masked_off down_ex)" by (intro netDown_kill_gone) simp
  from netDown_clears_another [OF _ l(1) this, of "\<lambda>_. Some \<lparr>d_name = ''ETH0'', d_linkhdrlen = 14, d_mtu = 1500, d_hwaddr = None, d_hwbrc = None\<rparr>" id]
  show ?thesis using l by auto
qed

end
