(* ===== verification/Spec2Isabelle.thy ===== *)
theory Spec2Isabelle
  imports Xinu_Examples Xinu_Netif
begin

text \<open>
  \<^bold>\<open>A verification development for Embedded Xinu on ARM.\<close>

  \<^bold>\<open>The program.\<close> The kernel (\<^verbatim>\<open>system/\<close>, \<^verbatim>\<open>mailbox/\<close>) keeps tables of threads, queues, semaphores,
  buffer pools and mailboxes. \<^verbatim>\<open>resched\<close> runs the thread of the highest priority in the ready list; semaphores,
  messages and the list of sleeping threads take threads out of that list and put them back; the clock
  interrupt counts the first sleeping thread down. Stacks and pools come from the heap of
  \<^verbatim>\<open>memget\<close> and \<^verbatim>\<open>memfree\<close>. The network code (\<^verbatim>\<open>network/\<close>) takes packet buffers from a pool; its threads and
  daemons pass packets on by mailboxes: \<^verbatim>\<open>netRecv\<close> hands a frame to ARP or IPv4, IPv4 to ICMP or to the
  routing daemon, and \<^verbatim>\<open>ipv4Send\<close> finds a route, resolves the address of the next hop and writes to the device. The
  C library (\<^verbatim>\<open>lib/libxc\<close>) is used by both.

  \<^bold>\<open>The model.\<close> A table is a function of its index or a list, a structure a record, a pointer into a table
  an index. Memory is words for the kernel and bytes for strings and packets. An operation maps its arguments and
  the state to a result and a new state, in an option: \<open>None\<close> is undefined behaviour, such as an access
  outside an array or a signed overflow, or a loop that does not end (\<open>partial_function\<close>). No fuel is used. A call
  that may give up the processor before it is done returns \<open>Switched\<close>; what it does when its thread runs again is a
  definition of its own (\<open>_rest\<close>, \<open>_woken\<close>, \<open>_got\<close>). Integers have the width of the source where
  they may wrap; \<^verbatim>\<open>int\<close> that must not overflow is checked. The kernel is that of the platform
  \<^verbatim>\<open>raspberry-pi\<close>, the network code that of the little-endian platforms.

  \<^bold>\<open>The theories.\<close>
  \<^item> \<open>Xinu_Prelude\<close>, \<open>Xinu_State\<close>: types, shared lemmas; the state of the kernel and the interrupt mask
    (\<^verbatim>\<open>include/\<close>, \<^verbatim>\<open>interrupt.c\<close>, \<^verbatim>\<open>vic.h\<close>). \<open>Xinu_Vic\<close>: the interrupt controller (\<^verbatim>\<open>vic.c\<close>); handlers run in the
    order of the lines.
  \<^item> \<open>Xinu_Queue\<close>: \<^verbatim>\<open>quetab\<close> with its operations, and interfaces for queues by order and by key, which the
    model satisfies. \<open>Xinu_Sched\<close>: \<^verbatim>\<open>resched\<close>, \<^verbatim>\<open>ready\<close>, \<^verbatim>\<open>yield\<close> and the others, with the invariant \<open>kinv\<close>.
  \<^item> \<open>Xinu_Sem\<close>, \<open>Xinu_Clock\<close>, \<open>Xinu_Msg\<close>: semaphores, sleeping and the clock interrupt, messages; each
    operation keeps \<open>kinv\<close>, and its effect is given in full.
  \<^item> \<open>Xinu_Memory\<close>, \<open>Xinu_Heap\<close>: \<^verbatim>\<open>memget\<close>, \<^verbatim>\<open>memfree\<close>, \<^verbatim>\<open>stkget\<close>; free and held blocks make up the heap.
    \<open>Xinu_Bufpool\<close>: buffer pools. \<open>Xinu_Ring\<close>, \<open>Xinu_Mailbox\<close>: mailboxes as bounded queues.
  \<^item> \<open>Xinu_Thread\<close>, \<open>Xinu_Kill\<close>: \<^verbatim>\<open>create\<close> with the stack it builds, \<^verbatim>\<open>kill\<close>. \<open>Xinu_Boot\<close>: \<^verbatim>\<open>sysinit\<close>.
    \<open>Xinu_Machine\<close>: system calls, interrupts and resumed calls as steps of a machine, with reachability.
    \<open>Xinu_Examples\<close>: states on which the theorems are applied.
  \<^item> \<open>Xinu_Cstring\<close>, \<open>Xinu_Qsort\<close>, \<open>Xinu_Print\<close>: memory and string routines, \<^verbatim>\<open>qsort\<close>, and \<^verbatim>\<open>doprnt\<close> with \<^verbatim>\<open>sprintf\<close>.
  \<^item> \<open>Xinu_Netaddr\<close>: addresses, \<^verbatim>\<open>dot2ipv4\<close> and the checksum. \<open>Xinu_Net\<close>: the state of the network and packet buffers.
    \<open>Xinu_Route\<close>: the routing table and longest prefix match. \<open>Xinu_Arp\<close>: the ARP table, \<^verbatim>\<open>arpLookup\<close>, \<^verbatim>\<open>arpRecv\<close>, \<^verbatim>\<open>netSend\<close>.
    \<open>Xinu_Ipv4\<close>: sending, fragments, receiving, forwarding. \<open>Xinu_Icmp\<close>: messages, echo, the daemons. \<open>Xinu_Netif\<close>:
    \<^verbatim>\<open>netInit\<close>, \<^verbatim>\<open>netUp\<close>, \<^verbatim>\<open>netDown\<close> and the receive loop.

  \<^bold>\<open>The properties\<close> of the kernel and of the C library stand here and in \<open>Xinu_Print\<close>, those of the network in their
  theories. They say that the invariant holds in every reachable state and that no allowed call of the
  scheduler, of semaphores, messages and the clock is stuck or undefined; that the heap, for sizes that do not wrap around, the pools and the mailboxes keep what they hold; that sleeping threads wake
  after the ticks that are left to them, or one later when some thread is due already, and
  threads of equal priority take turns; what single operations do; and where the code does not do what it
  means to. The conditions on callers are those of \<open>allowed\<close>: priorities and times in the
  range of keys, counts that do not overflow, no blocking call by the null thread, and no \<^verbatim>\<open>kill\<close> of a sleeping
  thread, which breaks the invariant, or of one whose parent waits for a message.

  \<^bold>\<open>Parameters.\<close> The initialisation of devices, the code of interrupt handlers, the comparison of \<^verbatim>\<open>qsort\<close>, the answer
  of a device to a frame and to \<^verbatim>\<open>control\<close>, addresses of code, the cycle counter, the receivers of UDP, TCP and raw
  packets, and the effect of clearing memory behind the table of interfaces.

  \<^bold>\<open>Not modelled:\<close> the context switch and the start of the processor (assembly; a switch is the change of
  \<^verbatim>\<open>thrcurrent\<close>); the table of devices, which the build generates, and the calls that dispatch through it; drivers of serial
  lines, Ethernet, flash and the file system devices (registers of hardware); UDP, TCP, raw, telnet and HTTP devices;
  packet capture and the network emulator; the shell, applications and tests (input and output); streams and scanning
  of the C library; the regions of memory of MIPS and the other platforms.
\<close>

section \<open>Start-up\<close>

text \<open>C4: Start-up establishes the invariants. From the state at reset, with a heap of at least 16
  bytes and device initialisations that return and keep what is set up before them,
  \<^verbatim>\<open>sysinit\<close> returns OK in a state in which every thread is in the queue of its state, the
  null thread runs alone, every queue is well linked, the heap is one free block between the
  rounded bounds, and the semaphore of the mailbox table has the count 1.\<close>

theorem boot_establishes:
  assumes "reset_state s"
    and "\<And>i u. 0 \<le> i \<Longrightarrow> i < ndevs \<Longrightarrow> booted s u \<Longrightarrow> \<exists>u'. devinit i u = Some u' \<and> booted s u'"
  shows "\<exists>s'. sysinit end_addr handler devinit ndevs s = Some (OK, s') \<and> booted s s'"
  using sysinit_booted [OF assms] .

theorem boot_establishes_witness:
  "\<exists>s'. sysinit 0x9000 0x8100 (\<lambda>i u. Some u) 3 reset_kernel = Some (OK, s') \<and> booted reset_kernel s'"
  using boot_establishes [OF reset_kernel_ok, of 3 "\<lambda>i u. Some u"] by simp

section \<open>The kernel as a machine\<close>

text \<open>C1: In every state the kernel reaches after start-up, whatever system calls the threads make, in
  whatever order clock interrupts come between them, the invariant holds: every thread is in the queue of its
  state and in no other, the queues are well linked, the ready list is sorted, the sleeping times are not negative,
  and a negative semaphore count is the number of threads that wait. The callers respect the conditions of \<open>allowed\<close>.\<close>

theorem kernel_invariant:
  assumes "reset_state s"
    and "\<And>i u. 0 \<le> i \<Longrightarrow> i < ndevs \<Longrightarrow> booted s u \<Longrightarrow> \<exists>u'. devinit i u = Some u' \<and> booted s u'"
  shows "\<exists>s0. sysinit end_addr handler devinit ndevs s = Some (OK, s0)
    \<and> (\<forall>m. reachable \<lparr>kern = s0, pend = (\<lambda>_. None)\<rparr> m \<longrightarrow> kinv (kern m))"
proof -
  have "\<exists>s0. sysinit end_addr handler devinit ndevs s = Some (OK, s0) \<and> booted s s0" using sysinit_booted [OF assms] .
  then obtain s0 where "sysinit end_addr handler devinit ndevs s = Some (OK, s0)" "booted s s0" by blast
  then show ?thesis using reachable_kinv [of "\<lparr>kern = s0, pend = (\<lambda>_. None)\<rparr>"] by (auto simp: booted_def)
qed

theorem kernel_invariant_witness:
  "\<exists>s0. sysinit 0x9000 0x8100 (\<lambda>i u. Some u) 3 reset_kernel = Some (OK, s0)
    \<and> (\<forall>m. reachable \<lparr>kern = s0, pend = (\<lambda>_. None)\<rparr> m \<longrightarrow> kinv (kern m))"
  using kernel_invariant [OF reset_kernel_ok, of 3 "\<lambda>i u. Some u"] by simp

text \<open>C2: No system call of the scheduler, of semaphores, messages and the clock ends in undefined behaviour or
  in a loop: in a state that satisfies the invariant, an allowed call returns, or gives the processor to
  another thread, in a state that satisfies the invariant again.\<close>

theorem kernel_progress:
  assumes "kinv (kern m)" and "allowed c (kern m)" and "\<not> heap_call c"
  shows "\<exists>m'. exec c m = Some m' \<and> kinv (kern m')"
  using assms by (rule exec_progress)

theorem kernel_progress_witness:
  "\<exists>m'. exec (Recvtime 20) \<lparr>kern = busy_kernel, pend = (\<lambda>_. None)\<rparr> = Some m' \<and> kinv (kern m')"
  using kernel_progress [of "\<lparr>kern = busy_kernel, pend = (\<lambda>_. None)\<rparr>" "Recvtime 20"]
  by (simp add: kinv_busy_kernel heap_call_def)

section \<open>Time and turns\<close>

text \<open>C5: A sleeping thread wakes up on time: when \<open>w\<close> ticks are left to it and no thread of the list is due already,
  it sleeps for \<open>w - 1\<close> more clock interrupts and is ready or running after the \<open>w\<close>th one. When some thread has no tick
  left, as after \<^verbatim>\<open>recvtime(0)\<close>, the first interrupt is spent on that one and everybody else wakes one tick late:
  \<open>late s\<close> is 1 then, and 0 otherwise. There is no other hypothesis than the invariant of the kernel.\<close>

theorem sleepers_wake:
  assumes "kinv s" and "(t, w) \<in> set (wake_times s)"
  shows "(\<exists>s'. ticks (nat w + late s) s = Some s' \<and> kinv s' \<and> tstate (thrtab s' t) \<in> {THRREADY, THRCURR})
    \<and> (\<forall>n < nat w + late s. \<exists>s'. ticks n s = Some s' \<and> (t, w - int (n - late s)) \<in> set (wake_times s'))"
  using sleeping_wakes [OF assms] by blast

lemma busy_sleeps:
  "\<exists>s0. sleep 500 busy_kernel = Some (OK, s0) \<and> kinv s0 \<and> wake_times s0 = [(1, 5)]"
proof -
  have "sleepers busy_kernel = []" by (simp add: sleepers_def deltas_def)
  moreover have "sleep_ticks 500 = 5" by (simp add: sleep_ticks_def)
  ultimately show ?thesis using sleep_spec [OF kinv_busy_kernel, of 500] by (auto simp: wake_times_def)
qed

text \<open>Thread 1 sleeps for five ticks, and then thread 2 calls \<^verbatim>\<open>recvtime(0)\<close>.\<close>

lemma equal_next:
  assumes "sleep 500 equal_kernel = Some (r, s0)"
  shows "thrcurrent s0 = 2" and "\<not> hasmsg (thrtab s0 2)"
proof -
  have "map_option (\<lambda>(r, s). (thrcurrent s, hasmsg (thrtab s 2))) (sleep 500 equal_kernel) = Some (2, False)" by code_simp
  then show "thrcurrent s0 = 2" "\<not> hasmsg (thrtab s0 2)" using assms by auto
qed

lemma equal_sleeps:
  "\<exists>s0 s1. sleep 500 equal_kernel = Some (OK, s0) \<and> recvtime 0 s0 = Some (Switched, s1) \<and> kinv s1 \<and> wake_times s1 = [(2, 0), (1, 5)]"
proof -
  have e: "sleepers equal_kernel = []" by (simp add: sleepers_def deltas_def)
  have "sleep_ticks 500 = 5" by (simp add: sleep_ticks_def)
  then obtain s0 where s0: "sleep 500 equal_kernel = Some (OK, s0)" "kinv s0" "sleepers s0 = [(1, 5)]"
    using sleep_spec [OF kinv_equal_kernel, of 500] e by auto
  from recvtime_block [OF s0(2), of 0] equal_next [OF s0(1)] s0(3)
  obtain s1 where "recvtime 0 s0 = Some (Switched, s1)" "kinv s1" "sleepers s1 = [(2, 0), (1, 5)]" by auto
  then show ?thesis using s0(1) by (auto simp: wake_times_def)
qed

theorem sleepers_wake_witness:
  "(\<exists>s0 s'. sleep 500 busy_kernel = Some (OK, s0) \<and> ticks 5 s0 = Some s' \<and> tstate (thrtab s' 1) \<in> {THRREADY, THRCURR})
    \<and> (\<exists>s0 s1 s5 s6. sleep 500 equal_kernel = Some (OK, s0) \<and> recvtime 0 s0 = Some (Switched, s1)
       \<and> ticks 5 s1 = Some s5 \<and> (1, 1) \<in> set (wake_times s5) \<and> ticks 6 s1 = Some s6 \<and> tstate (thrtab s6 1) \<in> {THRREADY, THRCURR})"
proof
  obtain s0 where s0: "sleep 500 busy_kernel = Some (OK, s0)" "kinv s0" "wake_times s0 = [(1, 5)]" using busy_sleeps by blast
  then show "\<exists>s0 s'. sleep 500 busy_kernel = Some (OK, s0) \<and> ticks 5 s0 = Some s' \<and> tstate (thrtab s' 1) \<in> {THRREADY, THRCURR}"
    using sleepers_wake [OF s0(2), of 1 5] by (auto simp: late_def)
  obtain s0 s1 where s1: "sleep 500 equal_kernel = Some (OK, s0)" "recvtime 0 s0 = Some (Switched, s1)" "kinv s1"
    "wake_times s1 = [(2, 0), (1, 5)]" using equal_sleeps by blast
  then have l: "late s1 = 1" by (simp add: late_def)
  from sleepers_wake [OF s1(3), of 1 5] s1(4)
  obtain s6 where s6: "ticks 6 s1 = Some s6" "tstate (thrtab s6 1) \<in> {THRREADY, THRCURR}"
    and n: "\<forall>n < 6. \<exists>s'. ticks n s1 = Some s' \<and> (1, 5 - int (n - 1)) \<in> set (wake_times s')" by (auto simp: l)
  obtain s5 where "ticks 5 s1 = Some s5" "(1, 1) \<in> set (wake_times s5)" using n [rule_format, of 5] by auto
  then show "\<exists>s0 s1 s5 s6. sleep 500 equal_kernel = Some (OK, s0) \<and> recvtime 0 s0 = Some (Switched, s1)
       \<and> ticks 5 s1 = Some s5 \<and> (1, 1) \<in> set (wake_times s5) \<and> ticks 6 s1 = Some s6 \<and> tstate (thrtab s6 1) \<in> {THRREADY, THRCURR}"
    using s1(1,2) s6 by blast
qed

text \<open>C6: Threads that give up the processor with \<^verbatim>\<open>yield\<close> all get their turn. The running thread and the threads at the front
  of the ready list with the same priority and with this priority as their key take turns, when the keys behind
  them are lower: of \<open>k\<close> such threads the \<open>n\<close>th runs after \<open>n\<close> calls, and after \<open>k\<close> calls the order is the same again.
  The condition is on the keys, because they and not the priorities decide: \<^verbatim>\<open>chprio\<close> of a ready thread
  changes its priority and leaves its key, and a thread whose key differs from its priority may lose its turn.\<close>

theorem round_robin:
  assumes "kinv s" and "turns s xs ys" and "n < length xs"
  shows "(\<exists>s'. yields n s = Some s' \<and> kinv s' \<and> thrcurrent s' = xs ! n)
    \<and> (\<exists>s'. yields (length xs) s = Some s' \<and> kinv s' \<and> turns s' xs ys)"
  using turns_all_run [OF assms] by blast

lemma equal_turns: "turns equal_kernel [1, 2, 3] [0]"
  by (simp add: turns_def)

theorem round_robin_witness:
  "(\<exists>s'. yields 1 equal_kernel = Some s' \<and> thrcurrent s' = 2) \<and> (\<exists>s'. yields 2 equal_kernel = Some s' \<and> thrcurrent s' = 3)
    \<and> (\<exists>s'. yields 3 equal_kernel = Some s' \<and> thrcurrent s' = 1 \<and> turns s' [1, 2, 3] [0])"
proof -
  note r = round_robin [OF kinv_equal_kernel equal_turns]
  obtain s' where s': "yields 3 equal_kernel = Some s'" "turns s' [1, 2, 3] [0]" using r [of 0] by (auto simp: eval_nat_numeral)
  then have "thrcurrent s' = 1" using turns_current by fastforce
  then show ?thesis using r [of 1] r [of 2] s' by auto
qed

section \<open>Clock interrupts\<close>

text \<open>C15: The clock interrupt wakes exactly the threads whose time has come, takes its length off the ticks that are left
  to the others, and reschedules. The length \<open>tick_len s\<close> is 1, except when some thread has no tick left already, as after
  \<^verbatim>\<open>recvtime(0)\<close>: the interrupt then wakes the threads that are due, and counts for nobody else.\<close>

theorem clock_tick:
  assumes "kinv s"
  shows "\<exists>s1 s'. clkhandler s = Some s' \<and> kinv s' \<and> dispatched s1 s'
     \<and> wake_times s' = map (\<lambda>(u, w). (u, w - tick_len s)) (filter (\<lambda>(u, w). tick_len s < w) (wake_times s))
     \<and> (\<forall>t. tstate (thrtab s1 t) = (if \<exists>w \<le> tick_len s. (t, w) \<in> set (wake_times s) then THRREADY else tstate (thrtab s t)))
     \<and> (clkticks s', clktime s') = clock_after s"
proof -
  obtain s1 s' where s': "clkhandler s = Some s'" "kinv s'" "dispatched s1 s'" "sleepers s' = after_tick (sleepers s)"
    "\<forall>t. tstate (thrtab s1 t) = (if t \<in> set (woken (sleepers s)) then THRREADY else tstate (thrtab s t))"
    "(clkticks s', clktime s') = clock_after s"
    using clkhandler_spec [OF assms] by blast
  note tt = tick_times [OF sleepers_nonneg [OF assms]]
  have "t \<in> set (woken (sleepers s)) \<longleftrightarrow> (\<exists>w \<le> tick_len s. (t, w) \<in> set (wake_times s))" for t
    unfolding tt(2) by force
  then show ?thesis using s' tt(1) [folded s'(4), folded wake_times_def] by (intro exI [of _ s1] exI [of _ s']) simp
qed

theorem clock_tick_witness:
  "(\<exists>s0 s'. sleep 500 busy_kernel = Some (OK, s0) \<and> clkhandler s0 = Some s' \<and> wake_times s' = [(1, 4)])
    \<and> (\<exists>s0 s1 s'. sleep 500 equal_kernel = Some (OK, s0) \<and> recvtime 0 s0 = Some (Switched, s1)
       \<and> clkhandler s1 = Some s' \<and> wake_times s' = [(1, 5)])"
proof
  obtain s0 where s0: "sleep 500 busy_kernel = Some (OK, s0)" "kinv s0" "wake_times s0 = [(1, 5)]" using busy_sleeps by blast
  then show "\<exists>s0 s'. sleep 500 busy_kernel = Some (OK, s0) \<and> clkhandler s0 = Some s' \<and> wake_times s' = [(1, 4)]"
    using clock_tick [OF s0(2)] by (auto simp: tick_len_def)
  obtain s0 s1 where s1: "sleep 500 equal_kernel = Some (OK, s0)" "recvtime 0 s0 = Some (Switched, s1)" "kinv s1"
    "wake_times s1 = [(2, 0), (1, 5)]" using equal_sleeps by blast
  then show "\<exists>s0 s1 s'. sleep 500 equal_kernel = Some (OK, s0) \<and> recvtime 0 s0 = Some (Switched, s1)
       \<and> clkhandler s1 = Some s' \<and> wake_times s' = [(1, 5)]"
    using clock_tick [OF s1(3)] by (auto simp: tick_len_def)
qed

section \<open>Scheduling\<close>

text \<open>C7: \<^verbatim>\<open>yield\<close> implements priority scheduling with round robin among equals. The list of
  the thread that runs afterwards and the ready list behind it is the old ready list with the
  caller put in behind all threads of at least its priority; the invariant is kept, and no
  other queue changes.\<close>

theorem yield_round_robin:
  assumes "kinv s"
  shows "\<exists>s'. yield s = Some (OK, s') \<and> kinv s'
     \<and> thrcurrent s' # contents s' (readylist s)
       = ins_desc (\<lambda>t. qkey (quetab s t)) (prio (thrtab s (thrcurrent s))) (thrcurrent s) (contents s (readylist s))
     \<and> (\<forall>q\<in>qheads s. q \<noteq> readylist s \<longrightarrow> contents s' q = contents s q)"
proof -
  obtain s' where "yield s = Some (OK, s')" "kinv s'" "dispatched s s'" using yield_spec [OF assms] by blast
  moreover have "ready_next s \<noteq> []" using kinvD(2) [OF assms] by (simp add: ready_next_def ins_desc_def Let_def)
  moreover have "ready_next s = ins_desc (\<lambda>t. qkey (quetab s t)) (prio (thrtab s (thrcurrent s))) (thrcurrent s) (contents s (readylist s))"
    using kinvD(2) [OF assms] by (simp add: ready_next_def Let_def)
  ultimately show ?thesis by (intro exI [of _ s']) (auto simp: dispatched_def)
qed

theorem yield_round_robin_witness:
  "\<exists>s'. yield busy_kernel = Some (OK, s') \<and> kinv s' \<and> thrcurrent s' = 1 \<and> contents s' 300 = [0]"
  using yield_round_robin [OF kinv_busy_kernel] by (auto simp: ins_desc_def)

section \<open>Semaphores\<close>

text \<open>C11: \<^verbatim>\<open>wait\<close> on a semaphore whose count is not positive blocks the caller: it goes to the
  end of the queue of the semaphore in state \<open>THRWAIT\<close>, the count goes down by one, the first
  ready thread gets the processor, and the invariant of the kernel holds.\<close>

theorem wait_blocks_caller:
  assumes "kinv s" and "\<not> isbadsem i s" and "scount (semtab s i) \<le> 0" and "thrcurrent s \<noteq> NULLTHREAD"
  shows "\<exists>s'. wait i s = Some (OK, s') \<and> kinv s' \<and> thrcurrent s' \<noteq> thrcurrent s
     \<and> thrcurrent s' = hd (contents s (readylist s))
     \<and> tstate (thrtab s' (thrcurrent s)) = THRWAIT
     \<and> contents s' (squeue (semtab s i)) = contents s (squeue (semtab s i)) @ [thrcurrent s]
     \<and> semtab s' = semtab (set_count i (scount (semtab s i) - 1) s)"
  by (rule wait_block [OF assms])

theorem wait_blocks_caller_witness:
  "\<exists>s'. wait 5 busy_kernel = Some (OK, s') \<and> kinv s' \<and> thrcurrent s' = 0
     \<and> tstate (thrtab s' 1) = THRWAIT \<and> contents s' 110 = [1] \<and> scount (semtab s' 5) = -1"
  using wait_blocks_caller [OF kinv_busy_kernel, of 5] by (auto simp: set_count_def)

text \<open>C12: \<^verbatim>\<open>signal\<close> on a semaphore that threads wait for lets the one go that has waited longest: it is ready, the
  others wait on in their order, the count goes up by one, and the processor goes to the first thread of the highest priority.\<close>

theorem signal_lets_first_go:
  assumes "kinv s" and "\<not> isbadsem i s" and "scount (semtab s i) < 0"
  shows "\<exists>t W s1 s'. contents s (squeue (semtab s i)) = t # W \<and> signal i s = Some (OK, s') \<and> kinv s'
     \<and> scount (semtab s' i) = scount (semtab s i) + 1 \<and> contents s1 (squeue (semtab s i)) = W
     \<and> tstate (thrtab s1 t) = THRREADY \<and> dispatched s1 s'"
proof -
  obtain s1 s' where s': "signal i s = Some (OK, s')" "kinv s'" "released 1 i s s1" "dispatched s1 s'"
    using signal_release [OF assms] by blast
  have i: "i < NSEM" using assms(2) by (auto simp: isbadsem_def not_le)
  then have "int (length (contents s (squeue (semtab s i)))) = - scount (semtab s i)"
    using kinvD(1) [OF assms(1)] assms(3) by (simp add: kmid_def rest_inv_def sem_inv_def sem_ok_def)
  then obtain t W where W: "contents s (squeue (semtab s i)) = t # W"
    using assms(3) by (cases "contents s (squeue (semtab s i))") auto
  then show ?thesis using s' dispatched_globals [OF s'(4)]
    by (intro exI [of _ t] exI [of _ W] exI [of _ s1] exI [of _ s']) (simp add: released_def set_count_def Let_def)
qed

theorem signal_lets_first_go_witness:
  "\<exists>s0 s'. wait 5 busy_kernel = Some (OK, s0) \<and> signal 5 s0 = Some (OK, s') \<and> kinv s' \<and> scount (semtab s' 5) = 0"
proof -
  obtain s0 where s0: "wait 5 busy_kernel = Some (OK, s0)" "kinv s0"
    "semtab s0 = semtab (set_count 5 (- 1) busy_kernel)"
    using wait_block [OF kinv_busy_kernel, of 5] by auto
  have "\<not> isbadsem 5 s0" "scount (semtab s0 5) = - 1" using s0(3) by (simp_all add: isbadsem_def set_count_def)
  then show ?thesis using signal_lets_first_go [OF s0(2), of 5] s0(1) by auto
qed

text \<open>C32: \<^verbatim>\<open>semfree\<close> makes every thread that waits for the semaphore ready, leaves all others as they are,
  and returns the entry to the table with the count 0.\<close>

theorem semfree_releases:
  assumes "kinv s" and "\<not> isbadsem i s"
  shows "\<exists>s'. semfree i s = Some (OK, s') \<and> kinv s' \<and> contents s' (squeue (semtab s i)) = []
     \<and> semtab s' = (semtab s)(i := (semtab s i)\<lparr>scount := 0, sstate := SFREE\<rparr>)
     \<and> (\<forall>t. tstate (thrtab s' t) = (if t \<in> set (contents s (squeue (semtab s i))) then THRREADY else tstate (thrtab s t)))"
  using semfree_spec [OF assms] by blast

theorem semfree_releases_witness:
  "\<exists>s0 s'. wait 5 busy_kernel = Some (OK, s0) \<and> contents s0 110 = [1] \<and> tstate (thrtab s0 1) = THRWAIT
     \<and> semfree 5 s0 = Some (OK, s') \<and> kinv s' \<and> isbadsem 5 s' \<and> contents s' 110 = [] \<and> tstate (thrtab s' 1) = THRREADY"
proof -
  obtain s0 where s0: "wait 5 busy_kernel = Some (OK, s0)" "kinv s0" "contents s0 110 = [1]" "tstate (thrtab s0 1) = THRWAIT"
    "semtab s0 = semtab (set_count 5 (- 1) busy_kernel)" using wait_block [OF kinv_busy_kernel, of 5] by auto
  have "\<not> isbadsem 5 s0" "squeue (semtab s0 5) = 110" using s0(5) by (simp_all add: isbadsem_def set_count_def)
  then show ?thesis using semfree_releases [OF s0(2), of 5] s0 by (auto simp: isbadsem_def)
qed

text \<open>C36: \<^verbatim>\<open>semcreate\<close> with a negative count reports an error and still takes the entry out of the table: the
  semaphore is lost.\<close>

theorem semcreate_negative_leaks:
  assumes "kinv s" and "n < 0" and "\<exists>j<NSEM. sstate (semtab s j) = SFREE"
  shows "\<exists>i s'. semcreate n s = (-1, s') \<and> i < NSEM \<and> sstate (semtab s i) = SFREE
     \<and> semtab s' = (semtab s)(i := (semtab s i)\<lparr>sstate := SUSED\<rparr>) \<and> kinv s'"
  using assms by (rule semcreate_negative)

theorem semcreate_negative_leaks_witness:
  "\<exists>i s'. semcreate (- 1) busy_kernel = (-1, s') \<and> sstate (semtab busy_kernel i) = SFREE \<and> sstate (semtab s' i) = SUSED"
proof -
  have "\<exists>j<NSEM. sstate (semtab busy_kernel j) = SFREE"
    by (intro exI [of _ 7]) (simp add: busy_kernel_def idle_kernel_def)
  from semcreate_negative_leaks [OF kinv_busy_kernel _ this, of "- 1"] show ?thesis by auto
qed

section \<open>Messages\<close>

text \<open>C13: A message sent to a thread that waits for one in \<^verbatim>\<open>receive\<close> is put into its entry, makes the thread
  ready and reschedules; the thread gets the message when it goes on. A second message before that is refused.\<close>

theorem send_wakes_receiver:
  assumes "kinv s" and "\<not> isbadtid t s" "\<not> hasmsg (thrtab s t)" and "tstate (thrtab s t) = THRRECV"
  shows "\<exists>s1 s'. send t w s = Some (OK, s') \<and> kinv s' \<and> made_ready t (deposited t w s) (s1\<lparr>imask := imask s\<rparr>) \<and> dispatched s1 s'
     \<and> hasmsg (thrtab s' t) \<and> fst (receive_rest t im s') = w
     \<and> (\<forall>w'. send t w' s' = Some (SYSERR, s'\<lparr>imask := norm_mask (imask s')\<rparr>))"
proof -
  obtain s1 s' where s': "send t w s = Some (OK, s')" "kinv s'" "made_ready t (deposited t w s) (s1\<lparr>imask := imask s\<rparr>)" "dispatched s1 s'"
    using send_wakes [OF assms] by blast
  have "thrtab s1 t = (thrtab (deposited t w s) t)\<lparr>tstate := THRREADY\<rparr>" using made_ready_globals(1) [OF s'(3)] by simp
  moreover have "same_entry (thrtab s1 t) (thrtab s' t)" using s'(4) by (simp add: dispatched_def)
  ultimately have h: "hasmsg (thrtab s' t)" "msg (thrtab s' t) = w"
    unfolding same_entry_def by (cases "thrtab s' t"; simp add: deposited_def)+
  then show ?thesis using s' send_error [of t s'] by (intro exI [of _ s1] exI [of _ s']) (simp add: receive_rest_def)
qed

theorem send_wakes_receiver_witness:
  "\<exists>s'. send 3 77 busy_kernel = Some (OK, s') \<and> kinv s' \<and> hasmsg (thrtab s' 3)"
  using send_wakes_receiver [OF kinv_busy_kernel, of 3 77 "imask busy_kernel"] by auto

text \<open>C14: A thread that waits for a message with a time limit sleeps in the list of sleeping threads; a message
  in time takes it out of the list, leaves the waking times of the others unchanged, and makes it ready.\<close>

theorem recvtime_message_in_time:
  assumes "kinv s" and "\<not> hasmsg (thrtab s (thrcurrent s))" and "thrcurrent s \<noteq> NULLTHREAD" and "0 \<le> w" "w \<le> MAXKEY"
  shows "\<exists>s0 s'. recvtime w s = Some (Switched, s0) \<and> kinv s0 \<and> sleepers s0 = dinsert (thrcurrent s) w (sleepers s)
     \<and> send (thrcurrent s) x s0 = Some (OK, s') \<and> kinv s' \<and> sleepers s' = ddelete (thrcurrent s) (sleepers s0)"
proof -
  let ?c = "thrcurrent s"
  obtain s0 where s0: "recvtime w s = Some (Switched, s0)" "kinv s0" "tstate (thrtab s0 ?c) = THRTMOUT"
    "sleepers s0 = dinsert ?c w (sleepers s)" "\<not> hasmsg (thrtab s0 ?c)"
    using recvtime_block [OF assms] by blast
  have "\<not> isbadtid ?c s0" using current_tid [OF assms(1)] s0(3) by (simp add: isbadtid_def)
  from send_times_out [OF s0(2) this s0(5,3)] show ?thesis using s0 by blast
qed

theorem recvtime_message_in_time_witness:
  "\<exists>r s s0 s'. recvclr busy_kernel = Some (r, s) \<and> recvtime 20 s = Some (Switched, s0) \<and> send 1 42 s0 = Some (OK, s') \<and> kinv s'"
proof -
  obtain r s where s: "recvclr busy_kernel = Some (r, s)" "kinv s" "\<not> hasmsg (thrtab s 1)" "thrcurrent s = 1"
    using recvclr_spec [OF kinv_busy_kernel] by auto
  then show ?thesis using recvtime_message_in_time [OF s(2), of 20 42] by auto
qed

section \<open>Mailboxes\<close>

text \<open>C8: A mailbox is a bounded queue: whatever sequence of sends and receives a client makes, as long as none has
  to wait, the calls return the messages in the order in which they were sent, with the semaphores, the ring
  buffer in memory and its indices behind them.\<close>

theorem mailbox_is_bounded_queue:
  assumes "mbox_open box s" and "\<forall>x. Put x \<in> set ops \<longrightarrow> cint x"
    and "list_run (unat (mmax (mboxtab s box))) ops (box_msgs box s) = Some (xs, q)"
  shows "\<exists>s'. buf_run (send_now box) (receive_now_box box) ops s = Some (xs, s') \<and> mbox_open box s' \<and> box_msgs box s' = q"
  using assms by (rule mailbox_calls.run_refines)

theorem mailbox_is_bounded_queue_witness:
  "\<exists>s'. buf_run (send_now 0) (receive_now_box 0) [Put 3, Put 4, Get, Put 5, Get] box_kernel = Some ([3, 4], s') \<and> box_msgs 0 s' = [5]"
proof -
  have "box_msgs 0 box_kernel = []" "mmax (mboxtab box_kernel 0) = 2" by (simp_all add: box_msgs_def box_kernel_def)
  then show ?thesis using mailbox_is_bounded_queue [OF box_kernel_open, of "[Put 3, Put 4, Get, Put 5, Get]" "[3, 4]" "[5]"]
    by (auto simp: cint_def)
qed

text \<open>A send to a full mailbox blocks: the sender waits at the end of the queue of the semaphore of free places.\<close>

theorem mailbox_full_blocks:
  assumes "mbox_open box s" and "length (box_msgs box s) = unat (mmax (mboxtab s box))" and "thrcurrent s \<noteq> NULLTHREAD"
  shows "\<exists>s'. mailboxSend box m s = Some (Switched, s') \<and> kinv s' \<and> tstate (thrtab s' (thrcurrent s)) = THRWAIT
     \<and> contents s' (squeue (semtab s (sender (mboxtab s box)))) = contents s (squeue (semtab s (sender (mboxtab s box)))) @ [thrcurrent s]"
  using assms by (rule mailboxSend_waits)

theorem mailbox_full_blocks_witness:
  "\<exists>s'. mailboxSend 0 9 full_kernel = Some (Switched, s') \<and> tstate (thrtab s' 1) = THRWAIT \<and> contents s' 110 = [1]"
proof -
  have "length (box_msgs 0 full_kernel) = unat (mmax (mboxtab full_kernel 0))" "thrcurrent full_kernel = 1"
    "squeue (semtab full_kernel (sender (mboxtab full_kernel 0))) = 110" "quetab full_kernel = quetab busy_kernel"
    by (simp_all add: box_msgs_def full_kernel_def box_kernel_def ring_list_def)
  then show ?thesis using mailbox_full_blocks [OF full_kernel_open, of 9] by auto
qed

section \<open>The heap\<close>

text \<open>C3: The heap does not hand out memory twice as long as no size wraps around. Whatever sequence of requests for blocks and
  stacks of 1 to \<open>2 ^ 32 - 8\<close> bytes a client makes (\<open>sane_size\<close>: larger sizes wrap around to 0 when they are rounded to
  whole blocks, see below), giving back what it holds in any order, each call returns, every block lies in the heap and is
  aligned, no two blocks that are held overlap each other or the free memory, and together they are the whole heap.\<close>

theorem heap_sound:
  assumes "heap_in lo hi s F" and "accounts req_region all held F"
    and "\<forall>(p, r)\<in>set held. sane_size (req_size r) \<and> in_heap lo hi (req_base p r) (req_size r)"
    and "\<forall>r. Take r \<in> set ops \<longrightarrow> sane_size (req_size r)"
  shows "\<exists>held' s' F'. heap_client heap_get heap_put ops held s = Some (held', s') \<and> heap_in lo hi s' F'
     \<and> accounts req_region all held' F'
     \<and> (\<forall>(p, r)\<in>set held'. sane_size (req_size r) \<and> in_heap lo hi (req_base p r) (req_size r))"
  using assms by (rule heap_mixed.client_sound)

theorem heap_sound_witness:
  "\<exists>held' s' F'. heap_client heap_get heap_put [Take (Block 100), Take (Stack 4096), Give 1, Take (Block 24)] [] busy_kernel = Some (held', s')
     \<and> accounts req_region {0x10000..<0x20000} held' F'"
proof -
  have "accounts req_region {0x10000..<0x20000} [] {0x10000..<0x20000}" by (simp add: accounts_def)
  from heap_sound [OF heap_busy_kernel this, of "[Take (Block 100), Take (Stack 4096), Give 1, Take (Block 24)]"]
  show ?thesis by (auto simp: sane_size_def)
qed

text \<open>C34: The bound on the sizes is needed: \<^verbatim>\<open>memget\<close> of more than \<open>2 ^ 32 - 8\<close> bytes, which no heap has, does not fail.
  The size wraps around to 0, the address of the first free block is returned, the block stays in the list of free blocks, and
  the next such call returns the same address.\<close>

theorem memget_size_wraps:
  assumes "mem_inv s ((a, l) # bs)" and "2 ^ 32 - 8 < unat n"
  shows "\<exists>s'. memget n s = Some (a, s') \<and> mem_inv s' ((a, l) # bs) \<and> (\<exists>s''. memget n s' = Some (a, s''))"
  using memget_wrapped [OF _ assms(2)] assms(1) by simp

theorem memget_size_wraps_witness:
  "\<exists>s' s''. memget (-1) busy_kernel = Some (0x10000, s') \<and> memget (-1) s' = Some (0x10000, s'')"
proof -
  have "mem_inv busy_kernel [(0x10000, 0x10000)]"
    by (simp add: busy_kernel_def idle_kernel_def reset_kernel_def mem_inv_def region_def)
  from memget_size_wraps [OF this, of "-1"] show ?thesis by (auto simp: unsigned_minus_1_eq_mask mask_eq_exp_minus_1)
qed

text \<open>C33: \<^verbatim>\<open>memfree\<close> of a block that is in part free already is refused, and changes nothing.\<close>

theorem memfree_refuses_overlap:
  assumes "mem_inv s bs" and "unat (memheap s) \<le> unat b" and "unat n \<le> 2 ^ 32 - 8"
    and "unat b + unat (roundmb n) \<le> unat (maxaddr s)" and "region b (roundmb n) \<inter> free_bytes bs \<noteq> {}"
  shows "memfree b n s = Some (SYSERR, s\<lparr>imask := norm_mask (imask s)\<rparr>)"
  using assms by (rule memfree_overlap)

theorem memfree_refuses_overlap_witness:
  "memfree 0x10100 64 busy_kernel = Some (SYSERR, busy_kernel\<lparr>imask := norm_mask (imask busy_kernel)\<rparr>)"
proof -
  have "mem_inv busy_kernel [(0x10000, 0x10000)]"
    by (simp add: busy_kernel_def idle_kernel_def reset_kernel_def mem_inv_def region_def)
  moreover have "0x10100 \<in> region 0x10100 (roundmb 64) \<inter> free_bytes [(0x10000, 0x10000)]"
    by (simp add: region_def free_bytes_def roundmb_def)
  ultimately show ?thesis using memfree_refuses_overlap [of busy_kernel "[(0x10000, 0x10000)]" "0x10100" 64]
    by (auto simp: roundmb_def)
qed

section \<open>Threads\<close>

lemma thrnew_globals: "thrnew s = (t, s') \<Longrightarrow> memheap s' = memheap s \<and> maxaddr s' = maxaddr s"
proof -
  assume t: "thrnew s = (t, s')"
  obtain n where "s' = s\<lparr>nexttid := n\<rparr>" using thrnew_spec [OF t] by blast
  then show ?thesis by simp
qed

lemma create_globals:
  assumes c: "create ret proc ssize p name args s = Some (t, s')"
  shows "memheap s' = memheap s \<and> maxaddr s' = maxaddr s"
proof -
  define z where "z = s\<lparr>imask := (imask s)\<lparr>irqen := 0x80\<rparr>\<rparr>"
  obtain a v where g: "stkget (stack_size ssize) z = Some (a, v)"
    using c by (auto simp: create_def irq_simps z_def [symmetric] Let_def split: Option.bind_splits prod.splits)
  obtain tid w where t: "thrnew v = (tid, w)" by fastforce
  have "memheap v = memheap s \<and> maxaddr v = maxaddr s"
    using stkget_only [OF g] mem_only_globals [of z] by (auto simp: z_def)
  moreover have "memheap w = memheap v \<and> maxaddr w = maxaddr v" using thrnew_globals [OF t] .
  moreover have "memheap s' = memheap w \<and> maxaddr s' = maxaddr w" using c g t
    by (auto simp: create_def irq_simps z_def [symmetric] Let_def twr_def gettid_def split: Option.bind_splits prod.splits if_splits)
  ultimately show ?thesis by simp
qed

lemma fresh_stack:
  assumes i: "mem_inv s bs" and sz: "unat ssize \<le> 2 ^ 32 - 8" and f: "last_fit (roundmb (stack_size ssize)) bs = Some (p, bs')"
  shows "may_free (unat (memheap s)) (unat (maxaddr s)) p (roundmb (stack_size ssize)) bs'"
    and "free_bytes (give_back p (roundmb (stack_size ssize)) bs') = free_bytes bs"
    and "stack_base (p + roundmb (stack_size ssize) - 4) (stack_size ssize) = p"
proof -
  define n where "n = stack_size ssize"
  have n: "n \<noteq> 0" "unat n \<le> 2 ^ 32 - 8" using sz by (auto simp: n_def)
  note f' = f [folded n_def]
  have b: "blocks_ok (unat (memheap s)) (unat (maxaddr s)) bs" "unat (maxaddr s) < 2 ^ 32"
    using i unsigned_less [of "maxaddr s"] by (simp_all add: mem_inv_def)
  note st = stack_taken [OF b(1) f' n b(2)] and fb = last_fit_blocks [OF b(1) f' round_ok [OF n] b(2)]
  have m: "may_free (unat (memheap s)) (unat (maxaddr s)) p (roundmb n) bs'"
    using st(1,3) round_ok [OF n] by (auto simp: may_free_def in_heap_def)
  then show "may_free (unat (memheap s)) (unat (maxaddr s)) p (roundmb (stack_size ssize)) bs'" by (simp add: n_def)
  have "free_bytes (give_back p (roundmb n) bs') = free_bytes bs"
    using give_back_ok(2) [OF fb(1) m b(2)] st(2,3) by auto
  then show "free_bytes (give_back p (roundmb (stack_size ssize)) bs') = free_bytes bs" by (simp add: n_def)
  show "stack_base (p + roundmb (stack_size ssize) - 4) (stack_size ssize) = p" by (simp add: stack_base_def)
qed

lemma fresh_stack_taken:
  assumes i: "mem_inv s bs" and sz: "unat ssize \<le> 2 ^ 32 - 8" and f: "last_fit (roundmb (stack_size ssize)) bs = Some (p, bs')"
  shows "free_bytes bs' \<subset> free_bytes bs"
proof -
  define n where "n = stack_size ssize"
  have n: "n \<noteq> 0" "unat n \<le> 2 ^ 32 - 8" using sz by (auto simp: n_def)
  have bt: "blocks_ok (unat (memheap s)) (unat (maxaddr s)) bs" "unat (maxaddr s) < 2 ^ 32"
    using i unsigned_less [of "maxaddr s"] by (simp_all add: mem_inv_def)
  have "unat p \<in> region p (roundmb n)" using round_ok [OF n] by (auto simp: region_def)
  then show ?thesis using stack_taken [OF bt(1) f [folded n_def] n bt(2)] by blast
qed

text \<open>C9: A thread that is created and then killed leaves nothing behind: \<^verbatim>\<open>create\<close> takes a free entry and a stack from the heap, with
  the first frame on it, and leaves the thread suspended; \<^verbatim>\<open>kill\<close> gives entry and stack back. Afterwards the
  invariant holds, the number of threads is the old one, and the free memory is the same as before.\<close>

theorem create_kill:
  assumes k: "kinv s" and i: "mem_inv s bs" and sz: "unat ssize \<le> 2 ^ 32 - 8"
    and f: "last_fit (roundmb (stack_size ssize)) bs = Some (p, bs')"
    and fr: "\<exists>u. is_tid u \<and> tstate (thrtab s u) = THRFREE" and c: "2 \<le> thrcount s" "thrcount s < MAXKEY"
    and pr: "MINKEY < priority" "priority \<le> MAXKEY"
    and fits: "\<And>tid. 4 * length (initial_stack tid (p + roundmb (stack_size ssize) - 4) (stack_size ssize) procaddr initret args)
       \<le> unat (roundmb (stack_size ssize))"
  shows "\<exists>t s1 s2 bs2. create initret procaddr ssize priority name args s = Some (t, s1) \<and> kinv s1
     \<and> tstate (thrtab s t) = THRFREE \<and> tstate (thrtab s1 t) = THRSUSP \<and> free_bytes bs' \<subset> free_bytes bs \<and> mem_inv s1 bs'
     \<and> kill t s1 = Some (Returned OK, s2) \<and> kinv s2 \<and> tstate (thrtab s2 t) = THRFREE \<and> thrcount s2 = thrcount s
     \<and> mem_inv s2 bs2 \<and> free_bytes bs2 = free_bytes bs"
proof -
  define n where "n = stack_size ssize"
  define nb where "nb = roundmb n"
  have n: "n \<noteq> 0" "unat n \<le> 2 ^ 32 - 8" using sz by (auto simp: n_def)
  have c0: "0 \<le> thrcount s" using c by simp
  note st = fresh_stack [OF i sz f, folded n_def, folded nb_def]
  obtain t s1 sp where s1: "create initret procaddr ssize priority name args s = Some (t, s1)" "is_tid t" "tstate (thrtab s t) = THRFREE"
    "kinv s1" "mem_inv s1 bs'" "thrcurrent s1 = thrcurrent s" "thrcount s1 = thrcount s + 1"
    "thrtab s1 = (thrtab s)(t := new_thread s t priority name (p + nb - 4) n sp)"
    using create_ok [OF k i sz f fr c0 c(2) pr fits, of name, folded n_def, folded nb_def] by blast
  have hm: "memheap s1 = memheap s" "maxaddr s1 = maxaddr s" using create_globals [OF s1(1)] by blast+
  have "tstate (thrtab s NULLTHREAD) \<in> {THRCURR, THRREADY}" using kpreD(2) [OF kinvD(1) [OF k]] unfolding thread_inv_def by blast
  then have n0: "t \<noteq> NULLTHREAD" using s1(3) by force
  have e: "tstate (thrtab s1 t) = THRSUSP" "stkbase (thrtab s1 t) = p + nb - 4" "stklen (thrtab s1 t) = n"
    "parent (thrtab s1 t) = thrcurrent s" by (simp_all add: s1(8) new_thread_def)
  have "tstate (thrtab s1 (thrcurrent s)) = THRCURR" using kinvD(2) [OF s1(4)] by (simp add: s1(6))
  then have rec: "\<not> receptive (parent (thrtab s1 t)) s1" by (simp add: receptive_def e(4))
  have bad: "\<not> isbadtid t s1" using s1(2) e(1) by (simp add: isbadtid_def)
  have bp: "p = stack_base (stkbase (thrtab s1 t)) (stklen (thrtab s1 t))" by (simp only: e st(3))
  have mf: "may_free (unat (memheap s1)) (unat (maxaddr s1)) p (roundmb (stklen (thrtab s1 t))) bs'"
    using st(1) by (simp only: hm e nb_def)
  have pre: "tstate (thrtab s1 t) \<in> {THRREADY, THRSUSP, THRRECV, THRWAIT}" "2 < thrcount s1" "thrcount s1 \<le> MAXKEY"
    "unat (stklen (thrtab s1 t)) \<le> 2 ^ 32 - 8" using e(1,3) n(2) s1(7) c by simp_all
  obtain s2 where s2: "kill t s1 = Some (Returned OK, s2)" "kinv s2"
    "thrtab s2 = (thrtab (counted_out t s1))(t := (thrtab (counted_out t s1) t)\<lparr>tstate := THRFREE\<rparr>)"
    "thrcount s2 = thrcount s1 - 1" "mem_inv s2 (give_back p nb bs')"
    using kill_spec [OF s1(4) bad n0 pre(1-3) rec s1(5) pre(4) bp mf] unfolding e(3) nb_def by blast
  have "free_bytes bs' \<subset> free_bytes bs" using fresh_stack_taken [OF i sz f] .
  then show ?thesis using s1 s2 e(1) st(2)
    by (intro exI [of _ t] exI [of _ s1] exI [of _ s2] exI [of _ "give_back p nb bs'"]) simp
qed

theorem create_kill_witness:
  "\<exists>t s1 s2. create 0x8200 0x8300 4096 20 ''worker'' [7, 8] busy_kernel = Some (t, s1) \<and> kill t s1 = Some (Returned OK, s2)
    \<and> kinv s2 \<and> thrcount s2 = 4"
proof -
  have i: "mem_inv busy_kernel [(0x10000, 0x10000)]"
    by (simp add: busy_kernel_def idle_kernel_def reset_kernel_def mem_inv_def region_def)
  have f: "last_fit (roundmb (stack_size 4096)) [(0x10000, 0x10000)] = Some (0x1F000, [(0x10000, 0xF000)])"
    by (simp add: roundmb_def)
  have fr: "\<exists>u. is_tid u \<and> tstate (thrtab busy_kernel u) = THRFREE" by (intro exI [of _ 9]) simp
  have c: "thrcount busy_kernel = 4" by (simp add: busy_kernel_def)
  show ?thesis
    using create_kill [OF kinv_busy_kernel i _ f fr, of 20 "0x8300" "0x8200" "[7, 8]" "''worker''"]
    by (simp add: c initial_stack_def pads_def roundmb_def) blast
qed

text \<open>C35: Killing a sleeping thread breaks the kernel: \<^verbatim>\<open>kill\<close> marks the entry free before it calls \<^verbatim>\<open>unsleep\<close>, which
  refuses a free thread, so the free entry stays in the list of sleeping threads.\<close>

theorem kill_sleeping:
  assumes k: "kinv s" and t: "\<not> isbadtid t s" "t \<noteq> NULLTHREAD" and st: "tstate (thrtab s t) = THRSLEEP"
    and n: "2 < thrcount s" "thrcount s \<le> MAXKEY" and p: "\<not> receptive (parent (thrtab s t)) s" and c: "kill t s = Some (r, s')"
  shows "tstate (thrtab s' t) = THRFREE \<and> t \<in> set (contents s' (sleepq s)) \<and> \<not> kinv s'"
proof -
  obtain x where kl: "kill t s = kill_rest t (imask s) ((counted_out t s)\<lparr>imask := x\<rparr>)" using kill_told [OF t n p] by blast
  define d where "d = (counted_out t s)\<lparr>imask := x\<rparr>"
  have kd: "kinv d" using counted_out_kinv [OF k] by (simp add: d_def)
  have d: "tstate (thrtab d t) = THRSLEEP" "sleepq d = sleepq s" using st by (simp_all add: d_def counted_out_sel)
  have tt: "is_tid t" using t by (auto simp: isbadtid_def)
  have "\<exists>q v'. stkfree (stkbase (thrtab d t)) (stklen (thrtab d t)) d = Some (q, v')"
    using c tt unfolding kl d_def [symmetric] by (auto simp: kill_rest_def trd_def Let_def split: Option.bind_splits)
  then obtain q v y where f: "stkfree (stkbase (thrtab d t)) (stklen (thrtab d t)) d = Some (q, v\<lparr>imask := y\<rparr>)" "mem_only d v"
    using stkfree_only by blast
  have "s' = (freed t v)\<lparr>imask := norm_mask (imask s)\<rparr>"
    using c kill_rest_sleeping(1) [OF kd tt d(1) f] unfolding kl d_def [symmetric] by simp
  then show ?thesis using kill_rest_sleeping(2,3) [OF kd tt d(1) f] d(2) by (simp add: freed_def)
qed

theorem kill_sleeping_witness:
  "\<exists>s r s'. kinv s \<and> tstate (thrtab s 1) = THRSLEEP \<and> kill 1 s = Some (r, s') \<and> \<not> kinv s'"
proof -
  obtain s0 where s0: "sleep 500 busy_kernel = Some (OK, s0)" "kinv s0" "tstate (thrtab s0 1) = THRSLEEP"
    using sleep_spec [OF kinv_busy_kernel, of 500] by (auto simp: sleep_ticks_def)
  define e where "e = (thrtab s0 1)\<lparr>stklen := 0, stkbase := 0, parent := 1\<rparr>"
  define s where "s = s0\<lparr>thrtab := (thrtab s0)(1 := e), thrcount := 4\<rparr>"
  have k: "kinv s" using kinv_entry [OF s0(2), of e 1] by (simp add: s_def e_def)
  have s: "thrtab s 1 = e" "thrcount s = 4" "tstate e = THRSLEEP" "parent e = 1" "stklen e = 0" "stkbase e = 0"
    using s0(3) by (simp_all add: s_def e_def)
  have t: "\<not> isbadtid 1 s" "\<not> receptive (parent (thrtab s 1)) s" using s by (simp_all add: isbadtid_def receptive_def)
  have n: "2 < thrcount s" "thrcount s \<le> MAXKEY" using s(2) by simp_all
  obtain x where kl: "kill 1 s = kill_rest 1 (imask s) ((counted_out 1 s)\<lparr>imask := x\<rparr>)" using kill_told [OF t(1) _ n t(2)] by auto
  define d where "d = (counted_out 1 s)\<lparr>imask := x\<rparr>"
  have d: "kinv d" "tstate (thrtab d 1) = THRSLEEP" "stklen (thrtab d 1) = 0" "stkbase (thrtab d 1) = 0"
    using counted_out_kinv [OF k] s by (simp_all add: d_def counted_out_sel)
  have "stkfree (stkbase (thrtab d 1)) (stklen (thrtab d 1)) d = Some (SYSERR, d\<lparr>imask := imask d\<rparr>)"
    by (simp add: d stkfree_def memfree_def roundmb_def)
  from kill_rest_sleeping(1) [OF d(1) _ d(2) this, of "imask s"] obtain r s' where "kill 1 s = Some (r, s')"
    unfolding kl d_def [symmetric] by auto
  then show ?thesis using kill_sleeping [OF k t(1) _ _ n t(2)] k s(1,3) by auto
qed

section \<open>Queues\<close>

text \<open>C28: The queues of threads are first in, first out: threads that are enqueued are dequeued behind those that were there, in
  their order, and then the queue is empty.\<close>

theorem queue_fifo:
  assumes "queues_ok H s \<and> q \<in> H" and "distinct ts" and "\<forall>t\<in>set ts. unqueued H t s"
  shows "\<exists>s1 s2. enq_list (\<lambda>t. enqueue t q) ts s = Some s1
     \<and> deq_list (dequeue q) (length (queue_of (quetab s) q @ ts)) s1 = Some (queue_of (quetab s) q @ ts, s2)
     \<and> queue_of (quetab s2) q = []"
  using assms by (rule thread_fifo.fill_drain)

lemma busy_queues_ok: "queues_ok (qheads busy_kernel) busy_kernel" "110 \<in> qheads busy_kernel"
  "unqueued (qheads busy_kernel) 2 busy_kernel" "unqueued (qheads busy_kernel) 3 busy_kernel"
proof -
  note q = kpreD(1) [OF kinvD(1) [OF kinv_busy_kernel]]
  show "queues_ok (qheads busy_kernel) busy_kernel" using queue_invD(1) [OF q] by (simp add: queues_ok_def)
  show "110 \<in> qheads busy_kernel" unfolding qheads_def using busy_sel(4) by (auto intro!: image_eqI [of _ _ 5])
  show "unqueued (qheads busy_kernel) 2 busy_kernel" "unqueued (qheads busy_kernel) 3 busy_kernel"
    using queue_inv_mem [OF q, of _ 2] queue_inv_mem [OF q, of _ 3] by (auto simp: unqueued_def qhome_def)
qed

theorem queue_fifo_witness:
  "\<exists>s1 s2. enq_list (\<lambda>t. enqueue t 110) [3, 2] busy_kernel = Some s1 \<and> deq_list (dequeue 110) 2 s1 = Some ([3, 2], s2)"
  using queue_fifo [of "qheads busy_kernel" busy_kernel 110 "[3, 2]"] busy_queues_ok by (auto simp: numeral_2_eq_2)

text \<open>C27: Inserting threads with keys and taking the first one until the queue is empty sorts them by descending key, and
  keeps the order of insertion among equal keys.\<close>

theorem queue_priority:
  assumes "queues_ok H s \<and> q \<in> H" and "queue_of (quetab s) q = []" and "distinct (map fst ps)"
    and "\<forall>(t, k)\<in>set ps. unqueued H t s \<and> MINKEY < k"
  shows "\<exists>s1 s2. ins_list (\<lambda>t. insert_k t q) ps s = Some s1
     \<and> deq_list (dequeue q) (length ps) s1 = Some (map fst (sort_key (\<lambda>p. - snd p) ps), s2)"
  using assms by (rule thread_prio.fill_drain_sorted)

theorem queue_priority_witness:
  "\<exists>s1 s2. ins_list (\<lambda>t. insert_k t 110) [(2, 10), (3, 20)] busy_kernel = Some s1 \<and> deq_list (dequeue 110) 2 s1 = Some ([3, 2], s2)"
  using queue_priority [of "qheads busy_kernel" busy_kernel 110 "[(2, 10), (3, 20)]"] busy_queues_ok
  by (auto simp: numeral_2_eq_2)

section \<open>Buffer pools\<close>

lemma busy_pool_pre:
  "mem_inv busy_kernel [(0x10000, 0x10000)]" "\<exists>j. 0 \<le> j \<and> j < 8 \<and> bstate (bfptab busy_kernel j) = BFPFREE"
  "\<exists>j<NSEM. sstate (semtab busy_kernel j) = SFREE"
  "first_fit (roundmb (3 * (roundword 50 + 8))) [(0x10000, 0x10000)] = Some (0x10000, [(0x100B8, 0xFF48)])"
proof -
  show "mem_inv busy_kernel [(0x10000, 0x10000)]"
    by (simp add: busy_kernel_def idle_kernel_def reset_kernel_def mem_inv_def region_def)
  show "\<exists>j. 0 \<le> j \<and> j < 8 \<and> bstate (bfptab busy_kernel j) = BFPFREE"
    by (intro exI [of _ 0]) (simp add: busy_kernel_def idle_kernel_def reset_kernel_def)
  show "\<exists>j<NSEM. sstate (semtab busy_kernel j) = SFREE"
    by (intro exI [of _ 7]) (simp add: busy_kernel_def idle_kernel_def)
  show "first_fit (roundmb (3 * (roundword 50 + 8))) [(0x10000, 0x10000)] = Some (0x10000, [(0x100B8, 0xFF48)])"
    by (simp add: roundmb_def roundword_def)
qed

text \<open>C10: A buffer pool gives out every buffer at most once until it is returned: whatever sequence of \<^verbatim>\<open>bufget\<close> and
  \<^verbatim>\<open>buffree\<close> a client makes, returning a buffer twice included, the buffers that are free and the buffers that are
  out are always all buffers of the pool, each once.\<close>

theorem pool_conserves_buffers:
  assumes "pool_out pid s xs hs" and "pool_ref ops xs hs = Some (bs, xs', hs')"
    and "\<forall>b. Release b \<in> set ops \<longrightarrow> b \<in> set (xs @ hs)"
  shows "\<exists>s'. pool_run (bufget_now pid) buffree ops s = Some (bs, s') \<and> mset (xs' @ hs') = mset (xs @ hs)
     \<and> distinct (xs' @ hs') \<and> pool_out pid s' xs' hs'"
  using assms by (rule pool.conserves)

theorem pool_conserves_buffers_witness:
  "\<exists>pid s0 s'. bfpalloc 50 3 busy_kernel = Some (pid, s0)
     \<and> pool_run (bufget_now pid) buffree [Acquire, Acquire, Release 0x10008, Acquire] s0 = Some ([0x10008, 0x10044, 0x10008], s')"
proof -
  obtain pid s0 where s0: "bfpalloc 50 3 busy_kernel = Some (pid, s0)" "pool_state pid s0 (pool_bufs (bfptab s0 pid)) []"
    "nbuf (bfptab s0 pid) = 3" "bufsize (bfptab s0 pid) = roundword 50 + 8" "bhead (bfptab s0 pid) = 0x10000"
    using bfpalloc_ok [OF kinv_busy_kernel busy_pool_pre(1) refl _ _ _ _ busy_pool_pre(2,3,4)] by (auto simp: roundword_def)
  have "pool_bufs (bfptab s0 pid) = [0x10000, 0x1003C, 0x10078]"
    using s0(3-5) by (simp add: pool_bufs_def roundword_def upt_rec)
  then have "pool_out pid s0 [0x10008, 0x10044, 0x10080] []" using s0(2) by (simp add: pool_out_def)
  from pool_conserves_buffers [OF this, of "[Acquire, Acquire, Release 0x10008, Acquire]"] show ?thesis
    using s0(1) by auto
qed

text \<open>C31: \<^verbatim>\<open>bfpalloc\<close> carves the pool out of one block of the heap: afterwards all its buffers are free, each knows its
  pool, they lie side by side, and their semaphore counts them.\<close>

theorem bfpalloc_builds_pool:
  assumes "kinv s" and "mem_inv s bs" and "sz = roundword size0 + 8"
    and "\<not> sz > 2048" "\<not> sz < 8" "\<not> n > 8192" "\<not> n < 1"
    and "\<exists>j. 0 \<le> j \<and> j < 8 \<and> bstate (bfptab s j) = BFPFREE" and "\<exists>j<NSEM. sstate (semtab s j) = SFREE"
    and "first_fit (roundmb (n * sz)) bs = Some (p, bs')"
  shows "\<exists>pid s'. bfpalloc size0 n s = Some (pid, s') \<and> bstate (bfptab s pid) = BFPFREE
     \<and> pool_state pid s' (pool_bufs (bfptab s' pid)) [] \<and> nbuf (bfptab s' pid) = n \<and> bufsize (bfptab s' pid) = sz
     \<and> bhead (bfptab s' pid) = p \<and> mem_inv s' bs'"
  using assms by (rule bfpalloc_ok)

theorem bfpalloc_builds_pool_witness:
  "\<exists>pid s'. bfpalloc 50 3 busy_kernel = Some (pid, s') \<and> pool_state pid s' (pool_bufs (bfptab s' pid)) [] \<and> bhead (bfptab s' pid) = 0x10000"
  using bfpalloc_builds_pool [OF kinv_busy_kernel busy_pool_pre(1) refl _ _ _ _ busy_pool_pre(2,3,4)]
  by (auto simp: roundword_def)

section \<open>Interrupts\<close>

text \<open>C37: The interrupt handler calls the handler of every pending line, lowest line first, once, and skips the
  lines without a handler.\<close>

theorem irq_handler_order:
  "vic_irq_handler code pend1 pend2 s = run_lines code (map int (filter (bit pend1) [0..<32]) @ map (\<lambda>k. 32 + int k) (filter (bit pend2) [0..<32])) s"
  unfolding vic_irq_handler_lines pending_def by simp

text \<open>Enabling and disabling one interrupt line changes that line and no other.\<close>

theorem irq_line_enable:
  assumes "0 \<le> i" and "i < 64" and "0 \<le> j" and "j < 64"
  shows "(\<exists>s'. vic_enable_irq i s = Some s' \<and> (line_enabled j s' \<longleftrightarrow> j = i \<or> line_enabled j s))
    \<and> (\<exists>s'. vic_disable_irq i s = Some s' \<and> (line_enabled j s' \<longleftrightarrow> j \<noteq> i \<and> line_enabled j s))"
  using line_after_enable [OF assms] by blast

theorem irq_line_enable_witness:
  "\<exists>s'. vic_enable_irq 49 busy_kernel = Some s' \<and> line_enabled 49 s'"
  using irq_line_enable [of 49 49 busy_kernel] by auto

section \<open>The C library\<close>

text \<open>C26: \<^verbatim>\<open>qsort\<close> ends and sorts: for every comparison that is antisymmetric in its sign and transitive, the
  first \<open>n\<close> elements are rearranged in ascending order and the others stay in their places.\<close>

theorem qsort_sorts:
  assumes "\<And>x y. sgn (fc y x) = - sgn (fc x y)" and "\<And>x y z. fc x y \<le> 0 \<Longrightarrow> fc y z \<le> 0 \<Longrightarrow> fc x z \<le> 0"
    and "n \<le> length a"
  shows "\<exists>zs. qsort a n fc = Some zs \<and> mset zs = mset a \<and> (\<forall>k<length a. n \<le> k \<longrightarrow> zs ! k = a ! k)
     \<and> (\<forall>p q. p < q \<and> q < n \<longrightarrow> fc (zs ! p) (zs ! q) \<le> 0)"
proof -
  have c: "comparison fc" using assms(1,2) by unfold_locales
  show ?thesis using comparison.qs1_spec [OF c assms(3), of 0] assms(3) by (auto simp: qsort_def rearranged_def ordered_def)
qed

theorem qsort_sorts_witness:
  "\<exists>zs. qsort [3, 1, 2, 9] 3 (\<lambda>x y. x - y :: int) = Some zs \<and> mset zs = mset [3, 1, 2, 9]
     \<and> (\<forall>p q. p < q \<and> q < 3 \<longrightarrow> zs ! p - zs ! q \<le> 0)"
proof -
  have "\<exists>zs. qsort [3, 1, 2, 9] 3 (\<lambda>x y. x - y :: int) = Some zs \<and> mset zs = mset [3, 1, 2, 9]
     \<and> (\<forall>k<length [3, 1, 2, 9 :: int]. 3 \<le> k \<longrightarrow> zs ! k = [3, 1, 2, 9] ! k) \<and> (\<forall>p q. p < q \<and> q < 3 \<longrightarrow> zs ! p - zs ! q \<le> 0)"
    by (rule qsort_sorts) (simp_all add: sgn_if)
  then show ?thesis by blast
qed

text \<open>C38: \<^verbatim>\<open>strstr\<close> finds the first occurrence of a non-empty string, or returns 0 when there is none; both strings have their ends.\<close>

theorem strstr_first_occurrence:
  assumes "str_at m p xs" and "str_at m q ys" and "ys \<noteq> []"
  shows "strstr p q m = Some (case find_sub ys xs of None \<Rightarrow> 0 | Some k \<Rightarrow> p + of_nat k)"
  using assms by (rule strstr_spec)

theorem strstr_first_occurrence_witness:
  "strstr 100 200 ((\<lambda>_. 0)(100 := 1, 101 := 2, 102 := 3, 200 := 2, 201 := 3)) = Some 101"
  using strstr_first_occurrence [of "(\<lambda>_. 0)(100 := 1, 101 := 2, 102 := 3, 200 := 2, 201 := 3)" 100 "[1, 2, 3]" 200 "[2, 3]"] by simp

text \<open>\<^verbatim>\<open>strncat\<close> appends at most \<open>n\<close> characters and an end to a string, and writes to no other place.\<close>

theorem strncat_appends:
  assumes "str_at m p xs" and "str_at m q ys" and "0 \<le> n" "n \<le> MAXKEY" and "length xs + length ys < 2 ^ 31"
    and "rng p (length xs + length ys + 1) \<inter> rng q (length ys + 1) = {}"
  shows "\<exists>m'. strncat p q n m = Some (p, m') \<and> str_at m' p (xs @ take (nat n) ys)
     \<and> (\<forall>a. a \<notin> rng p (length xs + length ys + 1) \<longrightarrow> m' a = m a)"
proof -
  let ?e = "p + of_nat (length xs)"
  have split: "rng p (length xs + length ys + 1) = rng p (length xs) \<union> rng ?e (length ys + 1)"
    by (simp only: rng_append add.assoc)
  have dis: "rng p (length xs) \<inter> rng ?e (length ys + 1) = {}" using assms(5) by (intro rng_disjoint) simp
  have sub: "rng ?e (Suc (length ys)) \<inter> rng q (Suc (length ys)) = {}" using assms(6) unfolding split by auto
  obtain m' where m': "strncat_loop n ?e q m = Some m'" "str_at m' ?e (take (nat n) ys)"
    "\<forall>a. a \<notin> rng ?e (Suc (min (nat n) (length ys))) \<longrightarrow> m' a = m a"
    using strncat_loop_spec [OF assms(2-4) sub] assms(5) by auto
  have out: "m' a = m a" if "a \<notin> rng ?e (length ys + 1)" for a
    using m'(3) that rng_mono [of "Suc (min (nat n) (length ys))" "length ys + 1" ?e] by auto
  have "\<forall>a\<in>rng p (length xs). m' a = m a" using dis out by blast
  from bytes_at_frame [OF this] have "bytes_at m' p xs" using assms(1) by (simp add: str_at_def bytes_at_append)
  then have "str_at m' p (xs @ take (nat n) ys)" using m'(2) assms(1) by (auto simp: str_at_def bytes_at_append ac_simps)
  moreover have "strncat p q n m = Some (p, m')" by (simp add: strncat_def str_end_spec [OF assms(1)] m'(1))
  ultimately show ?thesis using out split by auto
qed

theorem strncat_appends_witness:
  "\<exists>m'. strncat 100 200 1 ((\<lambda>_. 0)(100 := 1, 101 := 2, 200 := 3, 201 := 4)) = Some (100, m') \<and> str_at m' 100 [1, 2, 3]"
proof -
  have d: "rng 100 (length [1, 2 :: u8] + length [3, 4 :: u8] + 1) \<inter> rng 200 (length [3, 4 :: u8] + 1) = {}" by simp
  have "\<exists>m'. strncat 100 200 1 ((\<lambda>_. 0)(100 := 1, 101 := 2, 200 := 3, 201 := 4)) = Some (100, m') \<and> str_at m' 100 ([1, 2] @ take (nat 1) [3, 4])
     \<and> (\<forall>a. a \<notin> rng 100 (length [1, 2 :: u8] + length [3, 4 :: u8] + 1) \<longrightarrow> m' a = ((\<lambda>_. 0)(100 := 1, 101 := 2, 200 := 3, 201 := 4)) a)"
    by (rule strncat_appends [OF _ _ _ _ _ d]) simp_all
  then show ?thesis by auto
qed

text \<open>\<^verbatim>\<open>memcpy\<close> copies the bytes to the destination, when it does not lie over the source, and writes to no other place.\<close>

theorem memcpy_copies_bytes:
  assumes "bytes_at m src xs" and "length xs \<le> 2 ^ 31" and "rng dst (length xs) \<inter> rng src (length xs) = {}"
  shows "\<exists>m'. memcpy dst src (int (length xs)) m = (dst, m') \<and> bytes_at m' dst xs \<and> bytes_at m' src xs
     \<and> (\<forall>a. a \<notin> rng dst (length xs) \<longrightarrow> m' a = m a)"
proof -
  have "bytes_at (memcpy_loop (length xs) dst src m) src xs"
    using assms(1,3) memcpy_frame [of _ dst "length xs" src m] by (subst bytes_at_frame [of _ _ _ m]) auto
  moreover have "bytes_at (memcpy_loop (length xs) dst src m) dst xs" using assms by (intro memcpy_copies) auto
  ultimately show ?thesis using memcpy_frame [of _ dst "length xs" src m] by (simp add: memcpy_def)
qed

theorem memcpy_copies_bytes_witness:
  "\<exists>m'. memcpy 100 200 2 ((\<lambda>_. 0)(200 := 3, 201 := 4)) = (100, m') \<and> bytes_at m' 100 [3, 4]"
  using memcpy_copies_bytes [of "(\<lambda>_. 0)(200 := 3, 201 := 4)" 200 "[3, 4]" 100] by auto

end
